(* ===== verification/Prelude.thy ===== *)
theory Prelude
  imports
    Main
    "HOL-Library.Word"
    "HOL-Library.Char_ord"
    "HOL-Library.List_Lexorder"
    "HOL-Library.Product_Lexorder"
    "HOL-Library.Option_ord"
    "HOL-Library.Code_Target_Nat"
begin

text \<open>
  Shared vocabulary of the development: the Rust standard-library operations the sources use
  (checked and saturating integers, UTF-8 strings, number parsing and printing, ordered maps and
  sets) and the lemma collections the component theories draw on.

  \<^item> Unsigned integers are words of their width; \<open>usize\<close> lengths and indices are \<open>nat\<close>.
  \<^item> A \<open>String\<close> is the list of its UTF-8 bytes, so \<open>length\<close> is Rust's \<open>len\<close>. The
    Unicode-aware operations (\<open>trim\<close>, \<open>char::is_control\<close>, \<open>char::is_whitespace\<close>) decode it.
  \<^item> A \<open>BTreeMap\<close> is the list of its entries in key order, a \<open>BTreeSet\<close> the list of its
    elements in order; a \<open>VecDeque\<close> or \<open>Vec\<close> is a list.
  \<^item> A fallible computation is a sum with the error on the left. An operation on \<open>&mut self\<close>
    returns its result together with the state it leaves behind, on the error paths too.
\<close>

named_theorems result_simps \<open>rewriting of fallible computations\<close>
named_theorems om_simps \<open>ordered maps and sets\<close>
named_theorems rust_defs \<open>definitions that component proofs unfold\<close>

section \<open>Machine integers\<close>

type_synonym u16 = "16 word"
type_synonym u32 = "32 word"
type_synonym u64 = "64 word"

definition checked_add :: "'a::len word \<Rightarrow> 'a word \<Rightarrow> 'a word option" where
  "checked_add a b = (if uint a + uint b < 2 ^ LENGTH('a) then Some (a + b) else None)"

definition checked_sub :: "'a::len word \<Rightarrow> 'a word \<Rightarrow> 'a word option" where
  "checked_sub a b = (if b \<le> a then Some (a - b) else None)"

definition checked_mul :: "'a::len word \<Rightarrow> 'a word \<Rightarrow> 'a word option" where
  "checked_mul a b = (if uint a * uint b < 2 ^ LENGTH('a) then Some (a * b) else None)"

definition saturating_sub :: "'a::len word \<Rightarrow> 'a word \<Rightarrow> 'a word" where
  "saturating_sub a b = (if b \<le> a then a - b else 0)"

definition saturating_mul :: "'a::len word \<Rightarrow> 'a word \<Rightarrow> 'a word" where
  "saturating_mul a b = (case checked_mul a b of Some c \<Rightarrow> c | None \<Rightarrow> - 1)"

lemma checked_add_nat:
  "checked_add a b = (if unat a + unat b < 2 ^ LENGTH('a) then Some (a + b) else None)"
  for a b :: "'a::len word"
proof -
  have "(uint a + uint b < 2 ^ LENGTH('a)) = (int (unat a + unat b) < int (2 ^ LENGTH('a)))"
    by simp
  then show ?thesis by (simp only: checked_add_def of_nat_less_iff)
qed

lemma checked_mul_nat:
  "checked_mul a b = (if unat a * unat b < 2 ^ LENGTH('a) then Some (a * b) else None)"
  for a b :: "'a::len word"
proof -
  have "(uint a * uint b < 2 ^ LENGTH('a)) = (int (unat a * unat b) < int (2 ^ LENGTH('a)))"
    by simp
  then show ?thesis by (simp only: checked_mul_def of_nat_less_iff)
qed

lemma checked_add_eq_Some:
  "checked_add a b = Some c \<longleftrightarrow> unat c = unat (a :: 'a::len word) + unat b"
proof (cases "unat a + unat b < 2 ^ LENGTH('a)")
  case True
  then have "unat (a + b) = unat a + unat b"
    by (simp add: unat_word_ariths)
  with True show ?thesis
    by (auto simp: checked_add_nat word_unat_eq_iff)
next
  case False
  moreover have "unat c < 2 ^ LENGTH('a)" by simp
  ultimately show ?thesis
    by (auto simp: checked_add_nat simp del: unsigned_less)
qed

lemma checked_add_eq_None:
  "checked_add a b = None \<longleftrightarrow> 2 ^ LENGTH('a) \<le> unat (a :: 'a::len word) + unat b"
  by (auto simp: checked_add_nat not_less)

lemma unat_saturating_sub [simp]: "unat (saturating_sub a b) = unat a - unat b"
  by (auto simp: saturating_sub_def unat_sub word_le_nat_alt)

lemma unat_saturating_mul:
  "unat (saturating_mul a b) = min (unat (a :: 'a::len word) * unat b) (2 ^ LENGTH('a) - 1)"
proof (cases "unat a * unat b < 2 ^ LENGTH('a)")
  case True
  then show ?thesis
    by (simp add: saturating_mul_def checked_mul_nat unat_word_ariths)
next
  case False
  moreover have "unat (- 1 :: 'a word) = 2 ^ LENGTH('a) - 1"
    by (simp add: unsigned_minus_1_eq_mask mask_eq_exp_minus_1)
  ultimately show ?thesis
    by (simp add: saturating_mul_def checked_mul_nat)
qed

lemma unat_min_word: "unat (min a b) = min (unat a) (unat (b :: 'a::len word))"
  by (simp add: min_def word_le_nat_alt)

lemma unat_max_word: "unat (max a b) = max (unat a) (unat (b :: 'a::len word))"
  by (simp add: max_def word_le_nat_alt)

lemma unat_ucast_up:
  assumes "LENGTH('a) \<le> LENGTH('b)"
  shows "unat (ucast (w :: 'a::len word) :: 'b::len word) = unat w"
proof -
  have "unat w < 2 ^ LENGTH('a)" by simp
  also have "\<dots> \<le> 2 ^ LENGTH('b)" using assms by (intro power_increasing) auto
  finally have "unat w < 2 ^ LENGTH('b)" .
  then show ?thesis by (simp add: unsigned_ucast_eq take_bit_nat_eq_self)
qed

section \<open>Fallible computations\<close>

definition bindE :: "'e + 'a \<Rightarrow> ('a \<Rightarrow> 'e + 'b) \<Rightarrow> 'e + 'b" where
  "bindE r f = (case r of Inl e \<Rightarrow> Inl e | Inr x \<Rightarrow> f x)"

lemma bindE_simps [simp, result_simps]:
  "bindE (Inl e) f = Inl e" "bindE (Inr x) f = f x"
  by (simp_all add: bindE_def)

lemma bindE_eq_Inr [result_simps]: "bindE r f = Inr y \<longleftrightarrow> (\<exists>x. r = Inr x \<and> f x = Inr y)"
  by (cases r) auto

definition ensure :: "bool \<Rightarrow> 'e \<Rightarrow> 'e + unit" where
  "ensure b e = (if b then Inr () else Inl e)"

lemma ensure_eq [simp, result_simps]:
  "ensure b e = Inr u \<longleftrightarrow> b" "ensure b e = Inl e' \<longleftrightarrow> \<not> b \<and> e' = e"
  "ensure True e = Inr ()" "ensure False e = Inl e"
  by (auto simp: ensure_def)

text \<open>The \<open>?\<close> operator on a sequence of validations: the first error wins.\<close>

fun checks :: "('e + unit) list \<Rightarrow> 'e + unit" where
  "checks [] = Inr ()"
| "checks (c # cs) = (case c of Inl e \<Rightarrow> Inl e | Inr _ \<Rightarrow> checks cs)"

lemma checks_ok [result_simps]: "checks cs = Inr u \<longleftrightarrow> (\<forall>c \<in> set cs. c = Inr ())"
  by (induction cs) (auto split: sum.splits)

declare checks.simps(2) [simp del]

lemma checks_append: "checks (xs @ ys) = bindE (checks xs) (\<lambda>_. checks ys)"
  by (induction xs) (auto simp: checks.simps(2) split: sum.splits)

lemma checks_error: "checks cs = Inl e \<Longrightarrow> Inl e \<in> set cs"
  by (induction cs) (auto simp: checks.simps(2) split: sum.splits)

definition is_ok :: "'e + 'a \<Rightarrow> bool" where
  "is_ok r = (case r of Inl _ \<Rightarrow> False | Inr _ \<Rightarrow> True)"

lemma is_ok_simps [simp, result_simps]: "is_ok (Inr x)" "\<not> is_ok (Inl e)"
  by (simp_all add: is_ok_def)

lemma is_ok_iff: "is_ok r \<longleftrightarrow> (\<exists>x. r = Inr x)"
  by (cases r) auto

lemma is_ok_unit [simp]: "is_ok r \<longleftrightarrow> r = Inr ()" for r :: "'e + unit"
  by (cases r) auto

text \<open>A fallible function over a list, left to right.\<close>

fun mapE :: "('a \<Rightarrow> 'e + 'b) \<Rightarrow> 'a list \<Rightarrow> 'e + 'b list" where
  "mapE f [] = Inr []"
| "mapE f (x # xs) = bindE (f x) (\<lambda>y. bindE (mapE f xs) (\<lambda>ys. Inr (y # ys)))"

lemma mapE_ok: "(\<And>x. x \<in> set xs \<Longrightarrow> f x = Inr (g x)) \<Longrightarrow> mapE f xs = Inr (map g xs)"
  by (induction xs) auto

lemma mapE_length: "mapE f xs = Inr ys \<Longrightarrow> length ys = length xs"
  by (induction xs arbitrary: ys) (auto simp: bindE_eq_Inr)

definition opt_check :: "('a \<Rightarrow> 'e + unit) \<Rightarrow> 'a option \<Rightarrow> 'e + unit" where
  "opt_check f v = (case v of None \<Rightarrow> Inr () | Some x \<Rightarrow> f x)"

lemma opt_check_ok [result_simps]: "opt_check f v = Inr u \<longleftrightarrow> (\<forall>x. v = Some x \<longrightarrow> f x = Inr ())"
  by (cases v) (auto simp: opt_check_def)

lemma opt_check_simps [simp]: "opt_check f None = Inr ()" "opt_check f (Some x) = f x"
  by (simp_all add: opt_check_def)

definition ok_or :: "'a option \<Rightarrow> 'e \<Rightarrow> 'e + 'a" where
  "ok_or v e = (case v of None \<Rightarrow> Inl e | Some x \<Rightarrow> Inr x)"

lemma ok_or_simps [simp, result_simps]: "ok_or None e = Inl e" "ok_or (Some x) e = Inr x"
  by (simp_all add: ok_or_def)

lemma ok_or_eq [result_simps]: "ok_or v e = Inr x \<longleftrightarrow> v = Some x"
  "ok_or v e = Inl e' \<longleftrightarrow> v = None \<and> e' = e"
  by (cases v; auto)+

definition is_some_and :: "('a \<Rightarrow> bool) \<Rightarrow> 'a option \<Rightarrow> bool" where
  "is_some_and p v = (case v of None \<Rightarrow> False | Some x \<Rightarrow> p x)"

definition is_none_or :: "('a \<Rightarrow> bool) \<Rightarrow> 'a option \<Rightarrow> bool" where
  "is_none_or p v = (case v of None \<Rightarrow> True | Some x \<Rightarrow> p x)"

lemma is_some_and_simps [simp]: "\<not> is_some_and p None" "is_some_and p (Some x) = p x"
  by (simp_all add: is_some_and_def)

lemma is_none_or_simps [simp]: "is_none_or p None" "is_none_or p (Some x) = p x"
  by (simp_all add: is_none_or_def)

lemma is_some_and_iff: "is_some_and p v \<longleftrightarrow> (\<exists>x. v = Some x \<and> p x)"
  by (cases v) auto

lemma is_none_or_iff: "is_none_or p v \<longleftrightarrow> (\<forall>x. v = Some x \<longrightarrow> p x)"
  by (cases v) auto

end
