(* ===== verification/Ordered_Map.thy ===== *)
theory Ordered_Map
  imports Prelude
begin

text \<open>
  \<open>BTreeMap\<close> and \<open>BTreeSet\<close> as lists in ascending key order. Lookup is \<^const>\<open>map_of\<close>; the laws of
  insertion and removal hold for every list, so that only the statements about iteration order and
  about equality need the order invariant \<open>om_wf\<close>. The interface the components rely on is the
  locale \<open>dictionary\<close>, interpreted on these operations.
\<close>

type_synonym ('k, 'v) omap = "('k \<times> 'v) list"
type_synonym 'a oset = "'a list"

section \<open>Operations\<close>

fun om_put :: "'k::linorder \<Rightarrow> 'v \<Rightarrow> ('k, 'v) omap \<Rightarrow> ('k, 'v) omap" where
  "om_put k v [] = [(k, v)]"
| "om_put k v (e # m) =
     (if fst e < k then e # om_put k v m
      else if fst e = k then (k, v) # m
      else (k, v) # e # m)"

definition om_del :: "'k \<Rightarrow> ('k, 'v) omap \<Rightarrow> ('k, 'v) omap" where
  "om_del k m = filter (\<lambda>e. fst e \<noteq> k) m"

definition om_has :: "'k \<Rightarrow> ('k, 'v) omap \<Rightarrow> bool" where
  "om_has k m = (map_of m k \<noteq> None)"

definition om_wf :: "('k::linorder, 'v) omap \<Rightarrow> bool" where
  "om_wf m = sorted_wrt (<) (map fst m)"

fun os_insert :: "'a::linorder \<Rightarrow> 'a oset \<Rightarrow> 'a oset" where
  "os_insert x [] = [x]"
| "os_insert x (y # ys) =
     (if y < x then y # os_insert x ys else if y = x then y # ys else x # y # ys)"

definition os_remove :: "'a \<Rightarrow> 'a oset \<Rightarrow> 'a oset" where
  "os_remove x xs = filter (\<lambda>y. y \<noteq> x) xs"

definition os_of_list :: "'a::linorder list \<Rightarrow> 'a oset" where
  "os_of_list xs = fold os_insert xs []"

definition om_of_list :: "('k::linorder \<times> 'v) list \<Rightarrow> ('k, 'v) omap" where
  "om_of_list kvs = fold (\<lambda>(k, v). om_put k v) kvs []"

section \<open>Laws\<close>

lemma map_of_om_put [simp, om_simps]: "map_of (om_put k v m) = (map_of m)(k \<mapsto> v)"
  by (induction m) (auto simp: fun_eq_iff)

lemma map_of_om_del [simp, om_simps]: "map_of (om_del k m) = (map_of m)(k := None)"
  by (induction m) (auto simp: om_del_def fun_eq_iff)

lemma om_del_simps [simp]:
  "om_del k [] = []"
  "om_del k ((k', v) # m) = (if k' = k then om_del k m else (k', v) # om_del k m)"
  by (auto simp: om_del_def)

lemma om_has_iff [simp, om_simps]: "om_has k m \<longleftrightarrow> k \<in> fst ` set m"
  by (simp add: om_has_def map_of_eq_None_iff)

lemma keys_om_put [simp]: "fst ` set (om_put k v m) = insert k (fst ` set m)"
  by (induction m) auto

lemma keys_om_del [simp]: "fst ` set (om_del k m) = fst ` set m - {k}"
  by (auto simp: om_del_def)

lemma set_om_del: "set (om_del k m) = {e \<in> set m. fst e \<noteq> k}"
  by (auto simp: om_del_def)

lemma om_wf_Nil [simp, om_simps]: "om_wf []"
  by (simp add: om_wf_def)

lemma om_wf_Cons [om_simps]: "om_wf ((k, v) # m) \<longleftrightarrow> (\<forall>k' \<in> fst ` set m. k < k') \<and> om_wf m"
  by (auto simp: om_wf_def)

lemma om_wf_put [simp, om_simps]: "om_wf m \<Longrightarrow> om_wf (om_put k v m)"
proof (induction m)
  case Nil
  show ?case by (simp add: om_wf_def)
next
  case (Cons e m)
  obtain a b where e: "e = (a, b)" by (cases e)
  with Cons.prems have *: "\<forall>x \<in> fst ` set m. a < x" "om_wf m"
    by (simp_all add: om_wf_Cons)
  then have "\<forall>x \<in> fst ` set m. k < x" if "k < a"
    using that order.strict_trans by blast
  with * Cons.IH e show ?case
    by (auto simp add: om_wf_Cons not_less_iff_gr_or_eq simp del: ball_simps image_iff keys_om_put)
       (metis image_eqI fst_conv insertE keys_om_put)
qed

lemma om_wf_del [simp, om_simps]: "om_wf m \<Longrightarrow> om_wf (om_del k m)"
  by (induction m) (auto simp: om_wf_Cons set_om_del)

lemma om_wf_filter: "om_wf m \<Longrightarrow> om_wf (filter p m)"
  unfolding om_wf_def sorted_wrt_map by (rule sorted_wrt_filter)

lemma om_wf_distinct: "om_wf m \<Longrightarrow> distinct (map fst m)"
  by (auto simp: om_wf_def strict_sorted_iff)

lemma om_wf_map_of: "om_wf m \<Longrightarrow> map_of m k = Some v \<longleftrightarrow> (k, v) \<in> set m"
  by (simp add: om_wf_distinct)

lemma om_values: "om_wf m \<Longrightarrow> v \<in> snd ` set m \<longleftrightarrow> (\<exists>k. map_of m k = Some v)"
  by (force simp: om_wf_map_of)

lemma om_del_absent [simp]: "k \<notin> fst ` set m \<Longrightarrow> om_del k m = m"
  by (auto simp: om_del_def filter_id_conv)

lemma om_del_put_absent: "k \<notin> fst ` set m \<Longrightarrow> om_del k (om_put k v m) = m"
  by (induction m) auto

lemma om_put_same: "om_wf m \<Longrightarrow> map_of m k = Some v \<Longrightarrow> om_put k v m = m"
proof (induction m)
  case (Cons e m)
  have "fst e < k" if "fst e \<noteq> k"
    using Cons.prems that map_of_SomeD [of m k v] by (cases e) (force simp: om_wf_Cons)
  with Cons show ?case
    by (cases e) (auto simp: om_wf_Cons)
qed simp

text \<open>Two maps in key order with the same entries are the same map: \<open>PartialEq\<close> of the source.\<close>

lemma om_eqI:
  assumes "om_wf m" "om_wf n" "map_of m = map_of n"
  shows "m = n"
proof -
  have "set m = set n"
    using assms by (simp add: map_of_inject_set om_wf_distinct)
  moreover have "inj_on fst (set m \<union> set m)"
    using om_wf_distinct [OF assms(1)] by (simp add: distinct_map)
  ultimately show ?thesis
    using assms(1,2) om_wf_distinct [of m] om_wf_distinct [of n]
    by (intro map_sorted_distinct_set_unique [of fst]) (simp_all add: om_wf_def strict_sorted_iff)
qed

lemma map_of_om_of_list: "map_of (fold (\<lambda>(k, v). om_put k v) kvs m) = map_of m ++ map_of (rev kvs)"
  by (induction kvs arbitrary: m) (auto simp: map_add_def fun_eq_iff split: option.splits)

lemma sum_om_put_absent:
  fixes g :: "'k::linorder \<times> 'v \<Rightarrow> 'c::comm_monoid_add"
  shows "k \<notin> fst ` set m \<Longrightarrow> sum_list (map g (om_put k v m)) = g (k, v) + sum_list (map g m)"
  by (induction m) (auto simp: ac_simps)

lemma sum_om_del_present:
  fixes g :: "'k::linorder \<times> 'v \<Rightarrow> 'c::comm_monoid_add"
  assumes "om_wf m" "map_of m k = Some v"
  shows "sum_list (map g m) = g (k, v) + sum_list (map g (om_del k m))"
  using assms
proof (induction m)
  case (Cons e m)
  obtain a b where e: "e = (a, b)" by (cases e)
  with Cons.prems have "a \<notin> fst ` set m" by (auto simp: om_wf_Cons)
  with Cons e show ?case by (auto simp: om_wf_Cons ac_simps)
qed simp

lemma om_put_del: "om_wf m \<Longrightarrow> om_put k v (om_del k m) = om_put k v m"
  by (rule om_eqI) simp_all

lemma sum_om_put_present:
  fixes g :: "'k::linorder \<times> 'v \<Rightarrow> 'c::comm_monoid_add"
  assumes "om_wf m" "map_of m k = Some v"
  shows "sum_list (map g (om_put k v' m)) + g (k, v) = g (k, v') + sum_list (map g m)"
  using sum_om_put_absent [of k "om_del k m" g v'] sum_om_del_present [OF assms, of g]
  by (simp add: om_put_del [OF assms(1)] ac_simps)

lemma set_om_put_absent: "k \<notin> fst ` set m \<Longrightarrow> set (om_put k v m) = insert (k, v) (set m)"
  by (induction m) auto

lemma set_om_put_subset: "set (om_put k v m) \<subseteq> insert (k, v) (set m)"
  by (induction m) auto

lemma set_os_insert [simp, om_simps]: "set (os_insert x xs) = insert x (set xs)"
  by (induction xs) auto

lemma set_os_remove [simp, om_simps]: "set (os_remove x xs) = set xs - {x}"
  by (auto simp: os_remove_def)

lemma sorted_os_insert [simp, om_simps]:
  "sorted_wrt (<) xs \<Longrightarrow> sorted_wrt (<) (os_insert x xs)"
  by (induction xs) auto

lemma sorted_os_remove [simp, om_simps]:
  "sorted_wrt (<) xs \<Longrightarrow> sorted_wrt (<) (os_remove x xs)"
  by (induction xs) (auto simp: os_remove_def)

lemma set_fold_os_insert: "set (fold os_insert xs ys) = set xs \<union> set ys"
  by (induction xs arbitrary: ys) auto

lemma set_os_of_list [simp, om_simps]: "set (os_of_list xs) = set xs"
  by (simp add: os_of_list_def set_fold_os_insert)

lemma sorted_fold_os_insert: "sorted_wrt (<) ys \<Longrightarrow> sorted_wrt (<) (fold os_insert xs ys)"
  by (induction xs arbitrary: ys) auto

lemma sorted_os_of_list [simp, om_simps]: "sorted_wrt (<) (os_of_list xs)"
  by (simp add: os_of_list_def sorted_fold_os_insert)

section \<open>The dictionary interface\<close>

locale dictionary =
  fixes empty :: 'm
    and get :: "'m \<Rightarrow> 'k \<Rightarrow> 'v option"
    and put :: "'k \<Rightarrow> 'v \<Rightarrow> 'm \<Rightarrow> 'm"
    and del :: "'k \<Rightarrow> 'm \<Rightarrow> 'm"
  assumes get_empty: "get empty k = None"
    and get_put: "get (put k v m) k' = (if k' = k then Some v else get m k')"
    and get_del: "get (del k m) k' = (if k' = k then None else get m k')"
begin

lemma get_put_same: "get (put k v m) k = Some v"
  by (simp add: get_put)

lemma get_del_put: "get (del k (put k v m)) k' = get (del k m) k'"
  by (simp add: get_put get_del)

lemma put_commute: "k \<noteq> k' \<Longrightarrow> get (put k v (put k' v' m)) = get (put k' v' (put k v m))"
  by (auto simp: get_put)

lemma get_fold_put:
  "get (fold (\<lambda>kv. put (fst kv) (snd kv)) kvs m) k =
     (case map_of (rev kvs) k of None \<Rightarrow> get m k | Some v \<Rightarrow> Some v)"
  by (induction kvs arbitrary: m)
     (auto simp: get_put map_add_def split: option.splits)

lemma get_fold_del: "get (fold del ks m) k = (if k \<in> set ks then None else get m k)"
  by (induction ks arbitrary: m) (auto simp: get_del)

end

interpretation om: dictionary "[] :: ('k::linorder, 'v) omap" map_of om_put om_del
  by unfold_locales auto

end
