(* ===== verification/Rust_String.thy ===== *)
theory Rust_String
  imports Prelude
begin

text \<open>
  Rust's \<open>str\<close>: UTF-8 bytes, with the operations of the standard library that the sources call.
  \<open>chunks\<close> splits a string into the encodings of its characters and \<open>code_point\<close> decodes one;
  \<open>trim\<close>, \<open>char::is_whitespace\<close> and \<open>char::is_control\<close> are defined over them. Decimal printing and
  parsing come with their round trip.
\<close>

section \<open>Characters\<close>

abbreviation byte :: "char \<Rightarrow> nat" where
  "byte \<equiv> of_char"

definition char_width :: "char \<Rightarrow> nat" where
  "char_width c = (if byte c < 192 then 1 else if byte c < 224 then 2 else if byte c < 240 then 3 else 4)"

fun chunks :: "string \<Rightarrow> string list" where
  "chunks [] = []"
| "chunks (c # cs) =
     (c # take (char_width c - 1) cs) # chunks (drop (char_width c - 1) cs)"

definition code_point :: "string \<Rightarrow> nat" where
  "code_point u =
     (case map byte u of
        [a] \<Rightarrow> a
      | [a, b] \<Rightarrow> (a - 192) * 64 + (b - 128)
      | [a, b, c] \<Rightarrow> (a - 224) * 4096 + (b - 128) * 64 + (c - 128)
      | [a, b, c, d] \<Rightarrow> (a - 240) * 262144 + (b - 128) * 4096 + (c - 128) * 64 + (d - 128)
      | _ \<Rightarrow> 65533)"

definition is_whitespace :: "string \<Rightarrow> bool" where
  "is_whitespace u =
     (let n = code_point u in
      9 \<le> n \<and> n \<le> 13 \<or> n = 32 \<or> n = 133 \<or> n = 160 \<or> n = 5760 \<or> 8192 \<le> n \<and> n \<le> 8202
      \<or> n = 8232 \<or> n = 8233 \<or> n = 8239 \<or> n = 8287 \<or> n = 12288)"

definition is_control :: "string \<Rightarrow> bool" where
  "is_control u = (let n = code_point u in n < 32 \<or> 127 \<le> n \<and> n \<le> 159)"

definition any_control :: "string \<Rightarrow> bool" where
  "any_control s = list_ex is_control (chunks s)"

definition any_whitespace :: "string \<Rightarrow> bool" where
  "any_whitespace s = list_ex is_whitespace (chunks s)"

definition trim :: "string \<Rightarrow> string" where
  "trim s = concat (rev (dropWhile is_whitespace (rev (dropWhile is_whitespace (chunks s)))))"

text \<open>The test \<open>s.trim().is_empty()\<close> of the sources.\<close>

definition blank :: "string \<Rightarrow> bool" where
  "blank s = (trim s = [])"

lemma chunks_nonempty: "u \<in> set (chunks s) \<Longrightarrow> u \<noteq> []"
  by (induction s rule: chunks.induct) auto

lemma concat_chunks: "concat (chunks s) = s"
  by (induction s rule: chunks.induct) auto

lemma blank_iff: "blank s \<longleftrightarrow> (\<forall>u \<in> set (chunks s). is_whitespace u)"
proof
  assume "blank s"
  then have *: "\<forall>u \<in> set (dropWhile is_whitespace (rev (dropWhile is_whitespace (chunks s)))). u = []"
    by (auto simp: blank_def trim_def)
  have "set (dropWhile is_whitespace (rev (dropWhile is_whitespace (chunks s)))) \<subseteq> set (chunks s)"
    by (metis set_dropWhileD set_rev subsetI)
  with * chunks_nonempty have "dropWhile is_whitespace (rev (dropWhile is_whitespace (chunks s))) = []"
    by (metis list.set_intros(1) neq_Nil_conv subsetD)
  then have "\<forall>u \<in> set (dropWhile is_whitespace (chunks s)). is_whitespace u"
    by (simp add: dropWhile_eq_Nil_conv)
  moreover have "\<not> is_whitespace (hd xs)" if "dropWhile is_whitespace (chunks s) = xs" "xs \<noteq> []" for xs
    using that hd_dropWhile by blast
  ultimately have "dropWhile is_whitespace (chunks s) = []"
    by (metis hd_in_set)
  then show "\<forall>u \<in> set (chunks s). is_whitespace u"
    by (simp add: dropWhile_eq_Nil_conv)
next
  assume "\<forall>u \<in> set (chunks s). is_whitespace u"
  then have empty: "dropWhile is_whitespace (chunks s) = []"
    by (simp add: dropWhile_eq_Nil_conv)
  show "blank s"
    unfolding blank_def trim_def empty by simp
qed

lemma blank_Nil [simp]: "blank []"
  by (simp add: blank_iff)

lemma not_blank_nonempty: "\<not> blank s \<Longrightarrow> s \<noteq> []"
  by auto

section \<open>Substrings\<close>

definition starts_with :: "string \<Rightarrow> string \<Rightarrow> bool" where
  "starts_with p s = (take (length p) s = p)"

definition ends_with :: "string \<Rightarrow> string \<Rightarrow> bool" where
  "ends_with p s = starts_with (rev p) (rev s)"

definition strip_prefix :: "string \<Rightarrow> string \<Rightarrow> string option" where
  "strip_prefix p s = (if starts_with p s then Some (drop (length p) s) else None)"

fun contains_str :: "string \<Rightarrow> string \<Rightarrow> bool" where
  "contains_str p [] = (p = [])"
| "contains_str p (c # s) = (starts_with p (c # s) \<or> contains_str p s)"

text \<open>\<open>s.split(c)\<close> for a single-byte separator: at least one part, empty parts kept.\<close>

fun split_char :: "char \<Rightarrow> string \<Rightarrow> string list" where
  "split_char c [] = [[]]"
| "split_char c (x # s) =
     (if x = c then [] # split_char c s
      else (case split_char c s of p # ps \<Rightarrow> (x # p) # ps | [] \<Rightarrow> [[x]]))"

text \<open>\<open>s.split(p).next()\<close>: everything before the first occurrence of \<open>p\<close>.\<close>

fun before_str :: "string \<Rightarrow> string \<Rightarrow> string" where
  "before_str p [] = []"
| "before_str p (c # s) = (if starts_with p (c # s) then [] else c # before_str p s)"

text \<open>\<open>s.rsplit_once(p)\<close>: the parts around the last occurrence of \<open>p\<close>.\<close>

fun rsplit_once :: "string \<Rightarrow> string \<Rightarrow> (string \<times> string) option" where
  "rsplit_once p [] = (if p = [] then Some ([], []) else None)"
| "rsplit_once p (c # s) =
     (case rsplit_once p s of
        Some (a, b) \<Rightarrow> Some (c # a, b)
      | None \<Rightarrow> (case strip_prefix p (c # s) of Some b \<Rightarrow> Some ([], b) | None \<Rightarrow> None))"

lemma split_char_nonempty [simp]: "split_char c s \<noteq> []"
  by (induction s) (auto split: list.splits)

lemma split_char_append:
  "split_char c (a @ c # b) = split_char c a @ split_char c b"
  by (induction a) (auto split: list.splits)

lemma starts_with_append [simp]: "starts_with p (p @ s)"
  by (simp add: starts_with_def)

lemma starts_with_iff: "starts_with p s \<longleftrightarrow> (\<exists>t. s = p @ t)"
  by (metis append_take_drop_id starts_with_append starts_with_def)

lemma strip_prefix_eq_Some: "strip_prefix p s = Some t \<longleftrightarrow> s = p @ t"
  by (auto simp: strip_prefix_def starts_with_iff)

lemma strip_prefix_append [simp]: "strip_prefix p (p @ t) = Some t"
  by (simp add: strip_prefix_eq_Some)

lemma before_str_append:
  assumes "p \<noteq> []" "hd p \<notin> set a"
  shows "before_str p (a @ p @ b) = a" and "before_str p a = a"
proof -
  obtain x xs where p: "p = x # xs"
    using assms(1) by (cases p) auto
  have "before_str p (p @ b) = []"
    using p by (cases "p @ b") (auto simp: starts_with_iff)
  with assms show "before_str p (a @ p @ b) = a"
    by (induction a) (auto simp: p starts_with_iff)
  show "before_str p a = a"
    using assms by (induction a) (auto simp: p starts_with_iff)
qed

section \<open>ASCII classes\<close>

definition in_range :: "char \<Rightarrow> char \<Rightarrow> char \<Rightarrow> bool" where
  "in_range lo hi c \<longleftrightarrow> byte lo \<le> byte c \<and> byte c \<le> byte hi"

definition is_ascii_alphanumeric :: "char \<Rightarrow> bool" where
  "is_ascii_alphanumeric c \<longleftrightarrow>
     in_range CHR ''0'' CHR ''9'' c \<or> in_range CHR ''A'' CHR ''Z'' c \<or> in_range CHR ''a'' CHR ''z'' c"

section \<open>Decimal numbers\<close>

definition is_digit :: "char \<Rightarrow> bool" where
  "is_digit c = (48 \<le> byte c \<and> byte c \<le> 57)"

definition dec_value :: "string \<Rightarrow> nat" where
  "dec_value s = foldl (\<lambda>n c. 10 * n + (byte c - 48)) 0 s"

definition parse_nat :: "string \<Rightarrow> nat option" where
  "parse_nat s = (if s \<noteq> [] \<and> list_all is_digit s then Some (dec_value s) else None)"

text \<open>\<open>str::parse::<u64>\<close> and \<open>::<u32>\<close>: an optional plus sign, then digits, within the width.\<close>

definition strip_plus :: "string \<Rightarrow> string" where
  "strip_plus s = (case s of c # cs \<Rightarrow> if c = CHR ''+'' then cs else s | [] \<Rightarrow> [])"

definition parse_uint :: "string \<Rightarrow> 'a::len word option" where
  "parse_uint s =
     (case parse_nat (strip_plus s) of
        Some n \<Rightarrow> if n < 2 ^ LENGTH('a) then Some (of_nat n) else None
      | None \<Rightarrow> None)"

text \<open>\<open>str::parse::<i64>\<close>.\<close>

definition parse_i64 :: "string \<Rightarrow> int option" where
  "parse_i64 s =
     (case s of
        c # cs \<Rightarrow>
          if c = CHR ''-'' then
            (case parse_nat cs of
               Some n \<Rightarrow> if n \<le> 2 ^ 63 then Some (- int n) else None
             | None \<Rightarrow> None)
          else
            (case parse_nat (strip_plus s) of
               Some n \<Rightarrow> if n < 2 ^ 63 then Some (int n) else None
             | None \<Rightarrow> None)
      | [] \<Rightarrow> None)"

definition digit :: "nat \<Rightarrow> char" where
  "digit n = char_of (48 + n)"

text \<open>\<open>to_string\<close> of an unsigned number.\<close>

fun dec :: "nat \<Rightarrow> string" where
  "dec n = (if n < 10 then [digit n] else dec (n div 10) @ [digit (n mod 10)])"

declare dec.simps [simp del]

lemma byte_digit: "n < 10 \<Longrightarrow> byte (digit n) = 48 + n"
  by (simp add: digit_def)

lemma is_digit_digit: "n < 10 \<Longrightarrow> is_digit (digit n)"
  by (simp add: is_digit_def byte_digit)

lemma dec_nonempty [simp]: "dec n \<noteq> []"
  by (subst dec.simps) simp

lemma dec_digits: "list_all is_digit (dec n)"
proof (induction n rule: dec.induct)
  case (1 n)
  then show ?case
    by (cases "n < 10") (simp_all add: dec.simps [of n] is_digit_digit)
qed

lemma dec_value_snoc: "dec_value (s @ [c]) = 10 * dec_value s + (byte c - 48)"
  by (simp add: dec_value_def)

lemma dec_value_dec: "dec_value (dec n) = n"
proof (induction n rule: dec.induct)
  case (1 n)
  show ?case
  proof (cases "n < 10")
    case True
    then show ?thesis
      by (simp add: dec.simps [of n] dec_value_def byte_digit)
  next
    case False
    with 1 show ?thesis
      by (simp add: dec.simps [of n] dec_value_snoc byte_digit)
  qed
qed

lemma parse_nat_dec [simp]: "parse_nat (dec n) = Some n"
  by (simp add: parse_nat_def dec_digits dec_value_dec)

lemma dec_inject [simp]: "dec m = dec n \<longleftrightarrow> m = n"
  by (metis dec_value_dec)

lemma digit_not_in: "\<not> is_digit c \<Longrightarrow> c \<notin> set (dec n)"
  using dec_digits [of n] by (auto simp: list_all_iff)

lemma strip_plus_digits: "list_all is_digit s \<Longrightarrow> strip_plus s = s"
  by (cases s) (auto simp: strip_plus_def is_digit_def)

lemma parse_uint_dec [simp]: "parse_uint (dec (unat g)) = Some (g :: 'a::len word)"
  by (simp add: parse_uint_def strip_plus_digits dec_digits)

lemma separators_not_digits [simp]:
  "\<not> is_digit CHR ''-''" "\<not> is_digit CHR '':''" "\<not> is_digit CHR ''r''"
  by (simp_all add: is_digit_def)

end
