(* ===== verification/Core_Error.thy ===== *)
theory Core_Error
  imports Ordered_Map Rust_String
begin

text \<open>
  The error type of \<open>adx-core\<close> and the shape of its fallible operations
  (\<^verbatim>\<open>platform/crates/core/src/lib.rs\<close>). \<open>Panic\<close> is the one constructor the source does not
  have: it stands for a Rust panic (a failed \<open>expect\<close>, an index out of range, a division by zero),
  so that a panic is a visible outcome of the model.
\<close>

datatype probe_failure_kind = ReadinessTimeout | HealthcheckFailed

record probe_failure =
  pf_kind :: probe_failure_kind
  pf_message :: string
  pf_consecutive_failures :: u32
  pf_exit_code :: "int option"
  pf_http_status :: "u16 option"

definition ProbeFailure_timeout :: "string \<Rightarrow> probe_failure" where
  "ProbeFailure_timeout message =
     \<lparr>pf_kind = ReadinessTimeout, pf_message = message, pf_consecutive_failures = 0,
      pf_exit_code = None, pf_http_status = None\<rparr>"

datatype backend_failure_code =
    BF_Cancelled | BF_Unknown | BF_InvalidArgument | BF_DeadlineExceeded | BF_NotFound
  | BF_AlreadyExists | BF_PermissionDenied | BF_ResourceExhausted | BF_FailedPrecondition
  | BF_Aborted | BF_OutOfRange | BF_Unimplemented | BF_Internal | BF_Unavailable | BF_DataLoss
  | BF_Unauthenticated

datatype unsupported_capability = CheckpointRestore

fun wire_name :: "unsupported_capability \<Rightarrow> string" where
  "wire_name CheckpointRestore = ''checkpoint_restore''"

definition from_wire_name :: "string \<Rightarrow> unsupported_capability option" where
  "from_wire_name value = (if value = ''checkpoint_restore'' then Some CheckpointRestore else None)"

datatype error =
    Invalid string
  | UnsupportedCapability unsupported_capability
  | Conflict
  | SnapshotInUse (sandbox_ids: "string list") (template_ids: "string list")
  | NoCapacity
  | VolumeBusy string
  | NotFound
  | Unavailable string
  | DeadlineExceeded string
  | ResponseTimeout string
  | ProbeFailed probe_failure
  | BackendFailure backend_failure_code string
  | Panic string

text \<open>A panic unwinds: code that handles the \<open>Err\<close> of a call never sees it.\<close>

definition is_panic :: "error \<Rightarrow> bool" where
  "is_panic e = (case e of Panic _ \<Rightarrow> True | _ \<Rightarrow> False)"

lemma is_panic_simps [simp]:
  "is_panic (Panic m)" "\<not> is_panic (Invalid m)" "\<not> is_panic Conflict" "\<not> is_panic NotFound" "\<not> is_panic NoCapacity"
  by (simp_all add: is_panic_def)

type_synonym 'a result = "error + 'a"

text \<open>An operation on \<open>&mut self\<close>: its result and the state afterwards.\<close>

type_synonym ('s, 'a) op = "'s \<Rightarrow> 'a result \<times> 's"

text \<open>Sequencing of operations on one state, and an operation on a part of the state.\<close>

definition bindS :: "('s, 'a) op \<Rightarrow> ('a \<Rightarrow> ('s, 'b) op) \<Rightarrow> ('s, 'b) op" where
  "bindS m f s = (case m s of (Inl e, s') \<Rightarrow> (Inl e, s') | (Inr x, s') \<Rightarrow> f x s')"

definition raiseS :: "error \<Rightarrow> ('s, 'a) op" where
  "raiseS e s = (Inl e, s)"

definition returnS :: "'a \<Rightarrow> ('s, 'a) op" where
  "returnS x s = (Inr x, s)"

definition zoom :: "('s \<Rightarrow> 't) \<Rightarrow> ('t \<Rightarrow> 's \<Rightarrow> 's) \<Rightarrow> ('t, 'a) op \<Rightarrow> ('s, 'a) op" where
  "zoom get put m s = (case m (get s) of (r, t) \<Rightarrow> (r, put t s))"

lemma bindS_simps [simp]:
  "m s = (Inl e, s') \<Longrightarrow> bindS m f s = (Inl e, s')" "m s = (Inr x, s') \<Longrightarrow> bindS m f s = f x s'"
  by (simp_all add: bindS_def)

lemma bindS_cases:
  assumes "bindS m f s = (r, t)"
  obtains (err) e where "m s = (Inl e, t)" "r = Inl e" | (ok) x s' where "m s = (Inr x, s')" "f x s' = (r, t)"
  using assms by (auto simp: bindS_def split: prod.splits sum.splits)

lemma basicS [simp]: "raiseS e s = (Inl e, s)" "returnS x s = (Inr x, s)"
  by (simp_all add: raiseS_def returnS_def)

lemma zoom_simps [simp]: "m (get s) = (r, t) \<Longrightarrow> zoom get put m s = (r, put t s)"
  by (simp add: zoom_def)

lemma from_wire_name_wire_name [simp]: "from_wire_name (wire_name c) = Some c"
  by (cases c) (simp add: from_wire_name_def)

section \<open>Arithmetic that panics\<close>

text \<open>
  Plain \<open>+\<close>, \<open>-\<close>, \<open>*\<close> and \<open>/\<close> on machine integers and indexing, where the source relies on their
  arguments being in range: an overflow, an underflow, a zero divisor or an index out of range is a
  panic of the model.
\<close>

definition rust_add :: "'a::len word \<Rightarrow> 'a word \<Rightarrow> 'a word result" where
  "rust_add a b = ok_or (checked_add a b) (Panic ''attempt to add with overflow'')"

definition rust_sub :: "'a::len word \<Rightarrow> 'a word \<Rightarrow> 'a word result" where
  "rust_sub a b = ok_or (checked_sub a b) (Panic ''attempt to subtract with overflow'')"

definition rust_mul :: "'a::len word \<Rightarrow> 'a word \<Rightarrow> 'a word result" where
  "rust_mul a b = ok_or (checked_mul a b) (Panic ''attempt to multiply with overflow'')"

definition rust_div :: "'a::len word \<Rightarrow> 'a word \<Rightarrow> 'a word result" where
  "rust_div a b = (if b = 0 then Inl (Panic ''attempt to divide by zero'') else Inr (a div b))"

fun rust_sum :: "'a::len word \<Rightarrow> 'a word list \<Rightarrow> 'a word result" where
  "rust_sum acc [] = Inr acc"
| "rust_sum acc (x # xs) = bindE (rust_add acc x) (\<lambda>a. rust_sum a xs)"

definition index_at :: "'a list \<Rightarrow> nat \<Rightarrow> 'a result" where
  "index_at xs i = (if i < length xs then Inr (xs ! i) else Inl (Panic ''index out of bounds''))"

definition usize_sub :: "nat \<Rightarrow> nat \<Rightarrow> nat result" where
  "usize_sub a b = (if b \<le> a then Inr (a - b) else Inl (Panic ''attempt to subtract with overflow''))"

lemma rust_add_ok:
  fixes a b :: "'a::len word"
  assumes "unat a + unat b < 2 ^ LENGTH('a)"
  shows "rust_add a b = Inr (a + b)" and "unat (a + b) = unat a + unat b"
  using assms by (simp_all add: rust_add_def checked_add_nat unat_word_ariths)

lemma rust_sub_ok:
  fixes a b :: "'a::len word"
  assumes "b \<le> a"
  shows "rust_sub a b = Inr (a - b)" and "unat (a - b) = unat a - unat b"
  using assms by (simp_all add: rust_sub_def checked_sub_def unat_sub)

lemma rust_mul_ok:
  fixes a b :: "'a::len word"
  assumes "unat a * unat b < 2 ^ LENGTH('a)"
  shows "rust_mul a b = Inr (a * b)" and "unat (a * b) = unat a * unat b"
  using assms by (simp_all add: rust_mul_def checked_mul_nat unat_word_ariths)

lemma rust_div_ok: "b \<noteq> 0 \<Longrightarrow> rust_div a b = Inr (a div b)"
  by (simp add: rust_div_def)

lemma unat_div_word: "unat (a div b) = unat a div unat (b :: 'a::len word)"
  by (simp add: unat_div)

lemma rust_sum_ok:
  fixes acc :: "'a::len word"
  assumes "unat acc + sum_list (map unat xs) < 2 ^ LENGTH('a)"
  shows "\<exists>t. rust_sum acc xs = Inr t \<and> unat t = unat acc + sum_list (map unat xs)"
  using assms
proof (induction xs arbitrary: acc)
  case (Cons x xs)
  then have "unat acc + unat x < 2 ^ LENGTH('a)" by simp
  note step = rust_add_ok [OF this]
  with Cons.prems have "unat (acc + x) + sum_list (map unat xs) < 2 ^ LENGTH('a)" by simp
  from Cons.IH [OF this] step show ?case by (simp add: add.assoc)
qed simp

section \<open>Interface of a reservation ledger\<close>

text \<open>
  Both node ledgers, of scalar resources and of devices, promise the same protocol: an identity
  holds at most one reservation; a repeated identical reservation succeeds without a second charge;
  a different one is refused; a release returns exactly what was held; a refused operation changes
  nothing. The scheduler's proofs use only this contract.
\<close>

locale reservation_ledger =
  fixes held :: "'s \<Rightarrow> string \<Rightarrow> 'h option"
    and inv :: "'s \<Rightarrow> bool"
    and want :: "'q \<Rightarrow> 'h"
    and reserve :: "string \<Rightarrow> 'q \<Rightarrow> ('s, unit) op"
    and release :: "string \<Rightarrow> ('s, unit) op"
    and restore :: "string \<Rightarrow> 'h \<Rightarrow> ('s, unit) op"
  assumes reserve_ok: "reserve i q s = (Inr (), t) \<Longrightarrow> held t = (held s)(i \<mapsto> want q)"
    and reserve_err: "reserve i q s = (Inl e, t) \<Longrightarrow> t = s"
    and reserve_held: "held s i = Some h \<Longrightarrow> reserve i q s = (Inr (), t) \<Longrightarrow> h = want q \<and> t = s"
    and release_held: "inv s \<Longrightarrow> held s i = Some h \<Longrightarrow> \<exists>t. release i s = (Inr (), t)"
    and release_ok: "release i s = (Inr (), t) \<Longrightarrow> held t = (held s)(i := None)"
    and release_err: "release i s = (Inl e, t) \<Longrightarrow> t = s \<and> held s i = None \<and> e = NotFound"
    and restore_ok: "restore i h s = (Inr (), t) \<Longrightarrow> held t = (held s)(i \<mapsto> h)"
    and restore_err: "restore i h s = (Inl e, t) \<Longrightarrow> t = s"
    and restore_held: "held s i = Some h' \<Longrightarrow> restore i h s = (Inr (), t) \<Longrightarrow> h' = h \<and> t = s"
    and inv_reserve: "inv s \<Longrightarrow> reserve i q s = (r, t) \<Longrightarrow> inv t"
    and inv_release: "inv s \<Longrightarrow> release i s = (r, t) \<Longrightarrow> inv t"
    and inv_restore: "inv s \<Longrightarrow> restore i h s = (r, t) \<Longrightarrow> inv t"
begin

lemma reserve_frame: "reserve i q s = (r, t) \<Longrightarrow> j \<noteq> i \<Longrightarrow> held t j = held s j"
  by (cases r) (auto dest: reserve_ok reserve_err)

lemma release_frame: "release i s = (r, t) \<Longrightarrow> j \<noteq> i \<Longrightarrow> held t j = held s j"
  by (cases r) (auto dest: release_ok release_err)

lemma release_missing: "held s i = None \<Longrightarrow> release i s = (r, t) \<Longrightarrow> r = Inr () \<Longrightarrow> held t = held s"
  by (auto dest!: release_ok simp: fun_eq_iff)

text \<open>Reserving and then releasing a new identity returns the holdings to what they were.\<close>

lemma reserve_release:
  assumes "inv s" "held s i = None" "reserve i q s = (Inr (), t)"
  obtains u where "release i t = (Inr (), u)" "held u = held s" "inv u"
proof -
  have "held t i = Some (want q)"
    using reserve_ok [OF assms(3)] by simp
  with inv_reserve [OF assms(1,3)] obtain u where u: "release i t = (Inr (), u)"
    by (meson release_held)
  moreover have "held u = held s"
    using release_ok [OF u] reserve_ok [OF assms(3)] assms(2) by (auto simp: fun_eq_iff)
  moreover have "inv u"
    using inv_release inv_reserve assms(1,3) u by blast
  ultimately show thesis by (rule that)
qed

text \<open>A refused or a repeated reservation never changes the holdings of any identity.\<close>

lemma reserve_repeat:
  assumes "reserve i q s = (Inr (), t)" "reserve i q t = (Inr (), u)"
  shows "u = t"
proof -
  have "held t i = Some (want q)"
    using reserve_ok [OF assms(1)] by simp
  then show ?thesis using reserve_held assms(2) by blast
qed

end

end
