(* ===== verification/Lifecycle.thy ===== *)
theory Lifecycle
  imports Core_Error
begin

text \<open>
  Lifecycle policies (\<^verbatim>\<open>platform/crates/core/src/lifecycle.rs\<close>) and the compatibility and run
  configuration of an Environment (\<^verbatim>\<open>environment_control.rs\<close>): retention, pause, restart backoff,
  and run timeouts.
\<close>

section \<open>Retention and pause\<close>

datatype idle_action = IdleDelete | IdlePause

datatype checkpoint_storage = Configured | Local | Shared

datatype retention_policy = Ttl (ttl_seconds: u64) | Forever

definition RetentionPolicy_default :: retention_policy where
  "RetentionPolicy_default = Ttl 90000"

definition RetentionPolicy_validate :: "retention_policy \<Rightarrow> unit result" where
  "RetentionPolicy_validate p =
     (if p = Ttl 0 then Inl (Invalid ''retention TTL must be positive'') else Inr ())"

definition expires_at :: "retention_policy \<Rightarrow> u64 \<Rightarrow> u64 option result" where
  "expires_at p now =
     bindE (RetentionPolicy_validate p) (\<lambda>_.
       case p of
         Forever \<Rightarrow> Inr None
       | Ttl ttl \<Rightarrow> ok_or (map_option Some (checked_add now ttl)) (Invalid ''checkpoint TTL overflow''))"

record pause_policy =
  pause_retention :: retention_policy
  pause_timeout_seconds :: u64
  pause_storage :: checkpoint_storage

definition PausePolicy_default :: pause_policy where
  "PausePolicy_default =
     \<lparr>pause_retention = RetentionPolicy_default, pause_timeout_seconds = 300, pause_storage = Configured\<rparr>"

definition PausePolicy_validate :: "pause_policy \<Rightarrow> unit result" where
  "PausePolicy_validate p =
     bindE (RetentionPolicy_validate (pause_retention p)) (\<lambda>_.
     if pause_timeout_seconds p = 0 \<or> pause_timeout_seconds p > 3600
     then Inl (Invalid ''pause requires positive retention and timeout at most 3600 seconds'')
     else Inr ())"

section \<open>Restart backoff\<close>

record restart_policy =
  max_attempts :: u32
  initial_backoff_seconds :: u64
  max_backoff_seconds :: u64

text \<open>\<open>1_u64.checked_shl(n)\<close>: a shift of 64 or more is \<open>None\<close>.\<close>

definition checked_shl_one :: "u32 \<Rightarrow> u64 option" where
  "checked_shl_one n = (if n < 64 then Some (push_bit (unat n) 1) else None)"

definition backoff_seconds :: "restart_policy \<Rightarrow> u32 \<Rightarrow> u64" where
  "backoff_seconds p completed_attempts =
     min (saturating_mul (initial_backoff_seconds p)
            (case checked_shl_one completed_attempts of Some w \<Rightarrow> w | None \<Rightarrow> - 1))
         (max_backoff_seconds p)"

section \<open>Lifecycle policy\<close>

record lifecycle_policy =
  idle_timeout_seconds :: u64
  lp_idle_action :: idle_action
  lp_pause :: "pause_policy option"
  lp_restart :: "restart_policy option"

definition LifecyclePolicy_default :: lifecycle_policy where
  "LifecyclePolicy_default =
     \<lparr>idle_timeout_seconds = 0, lp_idle_action = IdleDelete, lp_pause = None, lp_restart = None\<rparr>"

definition RestartPolicy_check :: "restart_policy \<Rightarrow> unit result" where
  "RestartPolicy_check p =
     (if max_attempts p = 0 \<or> initial_backoff_seconds p = 0
         \<or> max_backoff_seconds p < initial_backoff_seconds p
      then Inl (Invalid ''restart requires attempts and 0 < initial backoff <= maximum backoff'')
      else Inr ())"

definition LifecyclePolicy_validate :: "lifecycle_policy \<Rightarrow> unit result" where
  "LifecyclePolicy_validate p =
     checks
       [opt_check PausePolicy_validate (lp_pause p),
        ensure (\<not> (lp_idle_action p = IdlePause \<and> idle_timeout_seconds p = 0))
          (Invalid ''idle pause requires a positive idle timeout''),
        opt_check RestartPolicy_check (lp_restart p)]"

section \<open>Compatibility and run configuration\<close>

record environment_compatibility =
  template_id :: string
  envd_access_token :: string
  traffic_access_token :: string
  allow_public_traffic :: bool

definition EnvironmentCompatibility_validate :: "environment_compatibility \<Rightarrow> unit result" where
  "EnvironmentCompatibility_validate c =
     (if template_id c = [] \<or> length (envd_access_token c) < 32 \<or> length (traffic_access_token c) < 32
      then Inl (Invalid ''invalid sandbox compatibility configuration'') else Inr ())"

datatype run_expiry_action = RunDelete | RunPause

record run_policy =
  run_timeout_seconds :: u64
  run_action :: run_expiry_action

text \<open>
  \<open>Instant::now().checked_add\<close> adds whole seconds to the seconds of the monotonic clock, a signed
  64-bit number: \<open>now\<close> is that reading.
\<close>

definition instant_checked_add :: "int \<Rightarrow> u64 \<Rightarrow> int option" where
  "instant_checked_add now secs = (if now + uint secs < 2 ^ 63 then Some (now + uint secs) else None)"

definition RunPolicy_validate :: "int \<Rightarrow> run_policy \<Rightarrow> unit result" where
  "RunPolicy_validate now p =
     (if run_timeout_seconds p = 0 then Inl (Invalid ''run timeout must be positive'')
      else
        bindE (ok_or (checked_mul (run_timeout_seconds p) 1000)
                 (Invalid ''run timeout milliseconds overflow'')) (\<lambda>_.
        bindE (ok_or (instant_checked_add now (run_timeout_seconds p))
                 (Invalid ''run timeout out of range'')) (\<lambda>_.
        Inr ())))"

record environment_control_record =
  ctl_environment_id :: string
  expires_at_unix_ms :: u64
  started_at_unix_ms :: u64
  ctl_revision :: u64
  ctl_generation :: u64

section \<open>Properties\<close>

lemma unat_minus_one_u64: "unat (- 1 :: u64) = 2 ^ 64 - 1"
  by (simp add: unsigned_minus_1_eq_mask mask_eq_exp_minus_1)

lemma unat_checked_shl_one:
  "unat (case checked_shl_one n of Some w \<Rightarrow> w | None \<Rightarrow> - 1) = min (2 ^ unat n) (2 ^ 64 - 1)"
proof (cases "n < 64")
  case True
  then have n: "unat n < 64" by (simp add: word_less_nat_alt)
  then have "(2::nat) ^ unat n \<le> 2 ^ 63" by (intro power_increasing) auto
  moreover have "unat (push_bit (unat n) 1 :: u64) = 2 ^ unat n"
    unfolding unsigned_push_bit_eq using n by (simp add: take_bit_push_bit push_bit_eq_mult)
  ultimately show ?thesis using True by (simp add: checked_shl_one_def)
next
  case False
  then have "64 \<le> unat n" by (simp add: word_less_nat_alt)
  then have "(2::nat) ^ 64 \<le> 2 ^ unat n" by (intro power_increasing) auto
  with False show ?thesis by (simp add: checked_shl_one_def unat_minus_one_u64)
qed

text \<open>
  The restart backoff is exponential with a cap, for every policy and every attempt count: it is
  the minimum of \<open>initial * 2 ^ attempts\<close>, computed without bound, and the maximum. The shift never
  loses its bit at 64 attempts and the multiplication never wraps.
\<close>

theorem backoff_is_capped_exponential:
  "unat (backoff_seconds p n) =
     min (unat (initial_backoff_seconds p) * 2 ^ unat n) (unat (max_backoff_seconds p))"
proof -
  have M: "unat (max_backoff_seconds p) \<le> 2 ^ 64 - 1"
    using unsigned_less [of "max_backoff_seconds p", where 'a = nat] by simp
  have "min (min (i * min (2 ^ k) (2 ^ 64 - 1)) (2 ^ 64 - 1)) m = min (i * 2 ^ k) m"
    if "m \<le> 2 ^ 64 - 1" for i k m :: nat
  proof (cases "(2::nat) ^ k \<le> 2 ^ 64 - 1 \<or> i = 0")
    case False
    then have "2 ^ 64 - 1 \<le> i * (2 ^ 64 - 1)" "2 ^ 64 - 1 \<le> i * (2::nat) ^ k"
      by (cases i; simp)+
    moreover have "min ((2::nat) ^ k) (2 ^ 64 - 1) = 2 ^ 64 - 1"
      using False by (intro min.absorb2) simp
    ultimately show ?thesis
      using that by (simp only: min.absorb2)
  qed (use that in \<open>auto simp: min_def\<close>)
  from this [OF M] show ?thesis
    by (simp add: backoff_seconds_def unat_min_word unat_saturating_mul unat_checked_shl_one)
qed

lemma RunPolicy_validate_ok:
  assumes "now < 2 ^ 63 - 2 ^ 55"
  shows "RunPolicy_validate now p = Inr u \<longleftrightarrow>
           run_timeout_seconds p \<noteq> 0 \<and> unat (run_timeout_seconds p) * 1000 < 2 ^ 64"
proof -
  have "instant_checked_add now (run_timeout_seconds p) \<noteq> None"
    if "unat (run_timeout_seconds p) * 1000 < 2 ^ 64"
  proof -
    have "unat (run_timeout_seconds p) < 2 ^ 55" using that by simp
    then have "int (unat (run_timeout_seconds p)) < int (2 ^ 55)" by (simp only: of_nat_less_iff)
    then have "uint (run_timeout_seconds p) < 2 ^ 55" by simp
    with assms show ?thesis by (simp add: instant_checked_add_def)
  qed
  then show ?thesis
    by (auto simp: RunPolicy_validate_def result_simps checked_mul_nat)
qed

text \<open>
  A retention policy expires strictly after the moment it is applied: \<open>expires_at\<close> fails on a
  zero TTL and on overflow of the clock, returns no deadline only for \<open>Forever\<close>, and otherwise the
  exact sum.
\<close>

theorem expires_at_spec:
  "expires_at p now =
     (case p of
        Forever \<Rightarrow> Inr None
      | Ttl ttl \<Rightarrow>
          if ttl = 0 then Inl (Invalid ''retention TTL must be positive'')
          else if unat now + unat ttl \<ge> 2 ^ 64 then Inl (Invalid ''checkpoint TTL overflow'')
          else Inr (Some (now + ttl))) \<and>
   (\<forall>t. expires_at p now = Inr (Some t) \<longrightarrow> now < t)"
proof -
  have "now < now + ttl" if "ttl \<noteq> 0" "unat now + unat ttl < 2 ^ 64" for ttl
    using that by (simp add: word_less_nat_alt unat_word_ariths unat_gt_0)
  then show ?thesis
    by (auto simp: expires_at_def RetentionPolicy_validate_def checked_add_nat split: retention_policy.splits)
qed

theorem expires_at_spec_witness:
  "expires_at (Ttl 90) 10 = Inr (Some 100) \<and> (10 :: u64) < 100"
proof -
  have "expires_at (Ttl 90) 10 = Inr (Some 100)" by code_simp
  with expires_at_spec [of "Ttl 90" 10] show ?thesis by blast
qed

end
