(* ===== verification/Volumes.thy ===== *)
theory Volumes
  imports Core_Error
begin

text \<open>
  User storage definitions (\<^verbatim>\<open>platform/crates/core/src/volumes.rs\<close>): storage domains with
  per-tenant prefixes, volume sources and specs, and the identity rules they share, with the
  creation attributes of \<^verbatim>\<open>execution.rs\<close>.
\<close>

section \<open>Identity and path rules\<close>

definition volume_id_byte :: "char \<Rightarrow> bool" where
  "volume_id_byte c \<longleftrightarrow>
     is_ascii_alphanumeric c \<or> c \<in> {CHR ''.'', CHR ''_'', CHR ''-''}"

text \<open>The message holds an en dash, three bytes in UTF-8.\<close>

definition validate_volume_id :: "string \<Rightarrow> unit result" where
  "validate_volume_id v =
     (if v = [] \<or> length v > 256 \<or> v \<in> {''.'', ''..''} \<or> \<not> list_all volume_id_byte v
      then Inl (Invalid (''invalid Volume ID: expected 1'' @ [CHR 0xE2, CHR 0x80, CHR 0x93]
                         @ ''256 URL-safe ASCII characters''))
      else Inr ())"

definition volume_identifier :: "string \<Rightarrow> unit result" where
  "volume_identifier v =
     (if blank v \<or> length v > 256 \<or> any_control v
      then Inl (Invalid ''invalid volume identity'') else Inr ())"

definition relative_directory :: "string \<Rightarrow> unit result" where
  "relative_directory path =
     (if path = [] \<or> CHR 0x5C \<in> set path \<or> any_control path
         \<or> list_ex (\<lambda>part. part \<in> {'''', ''.'', ''..''}) (split_char CHR ''/'' path)
      then Inl (Invalid ''volume path must be a concrete relative directory'') else Inr ())"

section \<open>Creation attributes\<close>

record create_options =
  co_uid :: u32
  co_gid :: u32
  co_mode :: string

text \<open>\<open>u32::from_str_radix(s, 8)\<close>, with the display text of its error.\<close>

definition is_octal :: "char \<Rightarrow> bool" where
  "is_octal c = in_range CHR ''0'' CHR ''7'' c"

definition octal_value :: "string \<Rightarrow> nat" where
  "octal_value s = foldl (\<lambda>n c. 8 * n + (byte c - 48)) 0 s"

definition from_str_radix_8 :: "string \<Rightarrow> string + u32" where
  "from_str_radix_8 s =
     (if s = [] then Inl ''cannot parse integer from empty string''
      else
        let d = strip_plus s in
        if d = [] \<or> \<not> list_all is_octal d then Inl ''invalid digit found in string''
        else if octal_value d < 2 ^ 32 then Inr (of_nat (octal_value d))
        else Inl ''number too large to fit in target type'')"

definition mode_bits :: "create_options \<Rightarrow> u32 result" where
  "mode_bits o1 =
     (if co_uid o1 = - 1 \<or> co_gid o1 = - 1
      then Inl (Invalid ''create_options uid/gid must be below 4294967295'')
      else if length (co_mode o1) \<noteq> 4 \<or> \<not> starts_with ''0'' (co_mode o1) \<or> \<not> list_all is_octal (co_mode o1)
      then Inl (Invalid ''create_options mode must be four octal digits from 0000 to 0777'')
      else (case from_str_radix_8 (co_mode o1) of
              Inl e \<Rightarrow> Inl (Invalid (''invalid create_options mode: '' @ e))
            | Inr bits \<Rightarrow> Inr bits))"

section \<open>Sources, mounts and domains\<close>

datatype access_mode = SharedAccess | ExclusiveAccess

datatype volume_source = Directory (source_domain: string) (directory_path: string)

fun VolumeSource_validate :: "volume_source \<Rightarrow> unit result" where
  "VolumeSource_validate (Directory domain path) =
     bindE (volume_identifier domain) (\<lambda>_. relative_directory path)"

record storage_mount =
  sm_backend_id :: string
  sm_root :: string

definition StorageMount_validate :: "storage_mount \<Rightarrow> unit result" where
  "StorageMount_validate m =
     bindE (volume_identifier (sm_backend_id m)) (\<lambda>_.
     if \<not> starts_with ''/'' (sm_root m) \<or> any_control (sm_root m)
        \<or> list_ex (\<lambda>part. part \<in> {''.'', ''..''}) (split_char CHR ''/'' (sm_root m))
     then Inl (Invalid ''volume storage requires an absolute root without traversal'')
     else Inr ())"

record storage_domain =
  sd_backend_id :: string
  sd_dynamic_nodes :: bool
  sd_node_roots :: "(string, string) omap"
  sd_tenant_paths :: "(string, string) omap"

definition StorageDomain_validate :: "storage_domain \<Rightarrow> unit result" where
  "StorageDomain_validate d =
     checks
       ([volume_identifier (sd_backend_id d),
         ensure (\<not> (\<not> sd_dynamic_nodes d \<and> sd_node_roots d = []))
           (Invalid ''volume domain requires accessible nodes'')]
        @ map (\<lambda>(node, root). bindE (volume_identifier node) (\<lambda>_.
            StorageMount_validate \<lparr>sm_backend_id = sd_backend_id d, sm_root = root\<rparr>)) (sd_node_roots d)
        @ map (\<lambda>(tenant, path). bindE (volume_identifier tenant) (\<lambda>_. relative_directory path))
            (sd_tenant_paths d))"

record volume_spec =
  vs_tenant_id :: string
  vs_id :: string
  vs_source :: volume_source
  vs_access_mode :: access_mode
  vs_create_if_missing :: bool
  vs_create_options :: "create_options option"

definition VolumeSpec_validate :: "volume_spec \<Rightarrow> unit result" where
  "VolumeSpec_validate v =
     checks
       [volume_identifier (vs_tenant_id v), validate_volume_id (vs_id v), VolumeSource_validate (vs_source v),
        opt_check (\<lambda>o1.
          if \<not> vs_create_if_missing v
          then Inl (Invalid ''volume create_options requires create_if_missing'')
          else bindE (mode_bits o1) (\<lambda>_. Inr ())) (vs_create_options v)]"

definition authorize :: "storage_domain \<Rightarrow> volume_spec \<Rightarrow> unit result" where
  "authorize d v =
     bindE (StorageDomain_validate d) (\<lambda>_.
     bindE (VolumeSpec_validate v) (\<lambda>_.
     bindE (ok_or (map_of (sd_tenant_paths d) (vs_tenant_id v))
              (Invalid ''tenant has no volume directory in this domain'')) (\<lambda>prefix.
     let path = directory_path (vs_source v) in
     if path \<noteq> prefix \<and> \<not> is_some_and (starts_with ''/'') (strip_prefix prefix path)
     then Inl (Invalid ''volume directory is outside the tenant prefix'') else Inr ())))"

record volume_ref =
  vr_id :: string
  vr_uid :: "string option"

definition VolumeRef_validate :: "volume_ref \<Rightarrow> unit result" where
  "VolumeRef_validate r = bindE (validate_volume_id (vr_id r)) (\<lambda>_. opt_check volume_identifier (vr_uid r))"

record volume =
  vol_uid :: string
  vol_spec :: volume_spec
  vol_revision :: u64

definition Volume_validate :: "volume \<Rightarrow> unit result" where
  "Volume_validate v =
     checks [VolumeSpec_validate (vol_spec v), volume_identifier (vol_uid v),
             ensure (vol_revision v \<noteq> 0) (Invalid ''volume revision must be positive'')]"

section \<open>Properties\<close>

lemma byte_octal: "is_octal c \<Longrightarrow> byte c - 48 < 8"
  by (auto simp: is_octal_def in_range_def)

text \<open>
  Creation attributes that pass validation give permission bits at most \<open>0777\<close>: the conversion
  after the shape check never fails and never yields set-user-id, set-group-id or sticky bits.
\<close>

theorem mode_bits_are_permissions:
  "case mode_bits o1 of
     Inr bits \<Rightarrow> unat bits = octal_value (co_mode o1) \<and> unat bits < 8 ^ 3
   | Inl e \<Rightarrow> co_uid o1 = - 1 \<or> co_gid o1 = - 1 \<or> length (co_mode o1) \<noteq> 4
              \<or> hd (co_mode o1) \<noteq> CHR ''0'' \<or> (\<exists>c \<in> set (co_mode o1). \<not> is_octal c)"
proof (cases "length (co_mode o1) = 4 \<and> starts_with ''0'' (co_mode o1) \<and> list_all is_octal (co_mode o1)")
  case True
  then obtain a b c where m: "co_mode o1 = [CHR ''0'', a, b, c]"
    by (auto simp: starts_with_iff length_Suc_conv numeral_eq_Suc)
  have d: "byte a - 48 < 8" "byte b - 48 < 8" "byte c - 48 < 8"
    using True m byte_octal by auto
  then have "octal_value (co_mode o1) < 512"
    by (simp add: m octal_value_def)
  with True m show ?thesis
    by (auto simp: mode_bits_def from_str_radix_8_def strip_plus_def unat_of_nat)
next
  case False
  then show ?thesis
    by (cases "co_mode o1") (auto simp: mode_bits_def starts_with_def list_all_iff)
qed

theorem mode_bits_are_permissions_witness:
  "mode_bits \<lparr>co_uid = 0, co_gid = 0, co_mode = ''0755''\<rparr> = Inr 493 \<and> unat (493 :: u32) < 8 ^ 3"
proof -
  have "mode_bits \<lparr>co_uid = 0, co_gid = 0, co_mode = ''0755''\<rparr> = Inr 493" by code_simp
  with mode_bits_are_permissions [of "\<lparr>co_uid = 0, co_gid = 0, co_mode = ''0755''\<rparr>"] show ?thesis by simp
qed

text \<open>
  C5. Tenant isolation of volume directories: an authorized volume lies beneath the directory the
  domain gives its tenant, component by component, and no component of its path is empty, \<open>.\<close> or
  \<open>..\<close>, so the path cannot leave that directory or step into a sibling sharing the name as a prefix.
\<close>

theorem authorize_confines_to_tenant:
  assumes "authorize d v = Inr ()"
  shows "\<exists>prefix rest. map_of (sd_tenant_paths d) (vs_tenant_id v) = Some prefix
           \<and> split_char CHR ''/'' (directory_path (vs_source v)) = split_char CHR ''/'' prefix @ rest
           \<and> (\<forall>part \<in> set (split_char CHR ''/'' (directory_path (vs_source v))).
                part \<notin> {'''', ''.'', ''..''})"
proof -
  let ?path = "directory_path (vs_source v)"
  from assms obtain prefix where p: "map_of (sd_tenant_paths d) (vs_tenant_id v) = Some prefix"
    and v: "VolumeSpec_validate v = Inr ()"
    and inside: "?path = prefix \<or> (\<exists>t. ?path = prefix @ CHR ''/'' # t)"
    by (auto simp: authorize_def result_simps Let_def is_some_and_iff strip_prefix_eq_Some
        starts_with_iff split: if_splits)
  obtain rest where "split_char CHR ''/'' ?path = split_char CHR ''/'' prefix @ rest"
    using inside by (auto simp: split_char_append)
  moreover have "relative_directory ?path = Inr ()"
    using v by (cases "vs_source v") (auto simp: VolumeSpec_validate_def result_simps)
  then have "\<forall>part \<in> set (split_char CHR ''/'' ?path). part \<notin> {'''', ''.'', ''..''}"
    by (auto simp: relative_directory_def list_ex_iff split: if_splits)
  ultimately show ?thesis using p by blast
qed

theorem authorize_confines_to_tenant_witness:
  "\<exists>rest. split_char CHR ''/'' ''t1/data'' = split_char CHR ''/'' ''t1'' @ rest"
proof -
  let ?d = "\<lparr>sd_backend_id = ''nfs'', sd_dynamic_nodes = True, sd_node_roots = [],
             sd_tenant_paths = [(''acme'', ''t1'')]\<rparr>"
  let ?v = "\<lparr>vs_tenant_id = ''acme'', vs_id = ''v'', vs_source = Directory ''d'' ''t1/data'',
             vs_access_mode = SharedAccess, vs_create_if_missing = False, vs_create_options = None\<rparr>"
  have "authorize ?d ?v = Inr ()" by code_simp
  from authorize_confines_to_tenant [OF this] show ?thesis by auto
qed

end
