(* ===== verification/Probes.thy ===== *)
theory Probes
  imports Core_Error
begin

text \<open>Workload probes and their validation (\<^verbatim>\<open>platform/crates/core/src/probes.rs\<close>).\<close>

definition MAX_FAILURE_BYTES :: nat where
  "MAX_FAILURE_BYTES = 4096"

definition default_init_timeout :: u64 where
  "default_init_timeout = 30"

datatype probe_action =
    HttpGet (probe_port: u16) (probe_path: string)
  | TcpSocket (probe_port: u16)
  | Exec (probe_command: "string list")

record probe_spec =
  ps_action :: probe_action
  ps_initial_delay_seconds :: u64
  ps_period_seconds :: u64
  ps_timeout_seconds :: u64
  ps_failure_threshold :: u32

definition nul :: char where
  "nul = CHR 0x00"

definition probe_timing :: "probe_spec \<Rightarrow> (string \<times> u64 \<times> u64 \<times> u64) list" where
  "probe_timing p =
     [(''period_seconds'', ps_period_seconds p, 1, 86400),
      (''timeout_seconds'', ps_timeout_seconds p, 1, 3600),
      (''initial_delay_seconds'', ps_initial_delay_seconds p, 0, 86400),
      (''failure_threshold'', ucast (ps_failure_threshold p), 1, ucast (- 1 :: u32))]"

definition ProbeAction_check :: "probe_action \<Rightarrow> unit result" where
  "ProbeAction_check a =
     (case a of
        HttpGet port path \<Rightarrow>
          if port = 0 \<or> \<not> starts_with ''/'' path \<or> starts_with ''//'' path \<or> length path > 2048
             \<or> list_ex (\<lambda>c. byte c \<le> 32 \<or> byte c = 127) path
          then Inl (Invalid ''HTTP probe requires a port and an origin-form path'') else Inr ()
      | TcpSocket port \<Rightarrow>
          if port = 0 then Inl (Invalid ''probe port must be positive'') else Inr ()
      | Exec command \<Rightarrow>
          if command = [] \<or> hd command = [] \<or> length command > 256
             \<or> list_ex (\<lambda>arg. nul \<in> set arg) command \<or> sum_list (map length command) > 16384
          then Inl (Invalid ''exec probe requires a bounded nonempty argv without NUL'') else Inr ())"

definition ProbeSpec_validate :: "probe_spec \<Rightarrow> unit result" where
  "ProbeSpec_validate p =
     bindE (checks (map (\<lambda>(field, val, minimum, maximum).
       ensure (\<not> (val < minimum \<or> val > maximum))
         (Invalid (''probe '' @ field @ '' must be between '' @ dec (unat minimum) @ '' and ''
                   @ dec (unat maximum)))) (probe_timing p))) (\<lambda>_.
     ProbeAction_check (ps_action p))"

record probe_config =
  pc_readiness :: "probe_spec option"
  pc_healthcheck :: "probe_spec option"
  pc_init_timeout_seconds :: u64

definition ProbeConfig_validate :: "probe_config \<Rightarrow> unit result" where
  "ProbeConfig_validate c =
     checks
       [ensure (\<not> (pc_init_timeout_seconds c = 0 \<or> pc_init_timeout_seconds c > 86400))
          (Invalid ''init timeout must be between 1 and 86400 seconds''),
        opt_check ProbeSpec_validate (pc_readiness c),
        opt_check ProbeSpec_validate (pc_healthcheck c),
        ensure (\<not> is_some_and (\<lambda>p. ps_failure_threshold p \<noteq> 1) (pc_readiness c))
          (Invalid ''readiness retries until the initialization deadline'')]"

text \<open>
  A probe is accepted exactly when its period is in 1..86400 seconds, its timeout in 1..3600,
  its initial delay at most 86400, its failure threshold positive and its action well formed; in
  particular the upper bound on the threshold never rejects anything.
\<close>

theorem ProbeSpec_validate_iff:
  "ProbeSpec_validate p = Inr () \<longleftrightarrow>
     unat (ps_period_seconds p) \<in> {1..86400} \<and> unat (ps_timeout_seconds p) \<in> {1..3600}
     \<and> unat (ps_initial_delay_seconds p) \<le> 86400 \<and> unat (ps_failure_threshold p) \<ge> 1
     \<and> ProbeAction_check (ps_action p) = Inr ()"
proof -
  have u: "unat (ucast w :: u64) = unat w" for w :: u32
    by (simp add: unat_ucast_up)
  have "\<not> unat (- 1 :: u32) < unat w" for w :: u32
    by (meson not_less word_le_nat_alt word_order.extremum)
  then show ?thesis
    by (auto simp: ProbeSpec_validate_def probe_timing_def result_simps word_less_nat_alt u)
qed

end
