(* ===== verification/Resource_Ledger.thy ===== *)
theory Resource_Ledger
  imports Core_Error
begin

text \<open>
  Scalar resources and their in-memory accounting (\<open>Resources\<close> and \<open>ResourceLedger\<close> of
  \<^verbatim>\<open>platform/crates/core/src/lib.rs\<close>). A capacity observation changes the capacity, never the
  usage. The invariant \<open>ledger_inv\<close> says that the usage is exactly the sum of the reservations.
\<close>

section \<open>Resources\<close>

record resources =
  cpu_millis :: u64
  memory_bytes :: u64
  disk_bytes :: u64

definition Resources_default :: resources where
  "Resources_default = \<lparr>cpu_millis = 0, memory_bytes = 0, disk_bytes = 0\<rparr>"

definition Resources_validate :: "resources \<Rightarrow> unit result" where
  "Resources_validate r =
     (if cpu_millis r = 0 \<or> memory_bytes r = 0
      then Inl (Invalid ''CPU and memory must be positive'') else Inr ())"

definition fits :: "resources \<Rightarrow> resources \<Rightarrow> bool" where
  "fits r available \<longleftrightarrow>
     cpu_millis r \<le> cpu_millis available \<and> memory_bytes r \<le> memory_bytes available
     \<and> disk_bytes r \<le> disk_bytes available"

definition Resources_saturating_sub :: "resources \<Rightarrow> resources \<Rightarrow> resources" where
  "Resources_saturating_sub a b =
     \<lparr>cpu_millis = saturating_sub (cpu_millis a) (cpu_millis b),
      memory_bytes = saturating_sub (memory_bytes a) (memory_bytes b),
      disk_bytes = saturating_sub (disk_bytes a) (disk_bytes b)\<rparr>"

definition Resources_checked_add :: "resources \<Rightarrow> resources \<Rightarrow> resources result" where
  "Resources_checked_add a b =
     bindE (ok_or (checked_add (cpu_millis a) (cpu_millis b)) NoCapacity) (\<lambda>cpu.
     bindE (ok_or (checked_add (memory_bytes a) (memory_bytes b)) NoCapacity) (\<lambda>memory.
     bindE (ok_or (checked_add (disk_bytes a) (disk_bytes b)) NoCapacity) (\<lambda>disk.
     Inr \<lparr>cpu_millis = cpu, memory_bytes = memory, disk_bytes = disk\<rparr>)))"

text \<open>The three dimensions, for statements that hold of each.\<close>

definition dims :: "(resources \<Rightarrow> u64) list" where
  "dims = [cpu_millis, memory_bytes, disk_bytes]"

lemma dims_ball: "(\<forall>f \<in> set dims. P f) \<longleftrightarrow> P cpu_millis \<and> P memory_bytes \<and> P disk_bytes"
  by (simp add: dims_def)

lemma fits_dims: "fits r a \<longleftrightarrow> (\<forall>f \<in> set dims. unat (f r) \<le> unat (f a))"
  by (simp add: dims_ball fits_def word_le_nat_alt)

lemma saturating_sub_dims:
  "f \<in> set dims \<Longrightarrow> unat (f (Resources_saturating_sub a b)) = unat (f a) - unat (f b)"
  by (auto simp: dims_def Resources_saturating_sub_def)

lemma checked_add_dims:
  "Resources_checked_add a b = Inr c \<longleftrightarrow> (\<forall>f \<in> set dims. unat (f c) = unat (f a) + unat (f b))"
  by (cases c) (auto simp: Resources_checked_add_def dims_ball result_simps checked_add_eq_Some)

lemma checked_add_error:
  "Resources_checked_add a b = Inl e \<Longrightarrow>
     e = NoCapacity \<and> (\<exists>f \<in> set dims. 2 ^ 64 \<le> unat (f a) + unat (f b))"
  by (auto simp: Resources_checked_add_def dims_def ok_or_def checked_add_eq_None
           split: option.splits)

section \<open>The ledger\<close>

record resource_ledger =
  capacity :: resources
  used :: resources
  reservations :: "(string, resources) omap"

definition ResourceLedger_new :: "resources \<Rightarrow> resource_ledger" where
  "ResourceLedger_new c = \<lparr>capacity = c, used = Resources_default, reservations = []\<rparr>"

definition set_capacity :: "resources \<Rightarrow> resource_ledger \<Rightarrow> resource_ledger" where
  "set_capacity c l = l\<lparr>capacity := c\<rparr>"

definition available :: "resource_ledger \<Rightarrow> resources" where
  "available l = Resources_saturating_sub (capacity l) (used l)"

definition ResourceLedger_reserve :: "string \<Rightarrow> resources \<Rightarrow> (resource_ledger, unit) op" where
  "ResourceLedger_reserve i r l =
     (case Resources_validate r of
        Inl e \<Rightarrow> (Inl e, l)
      | Inr _ \<Rightarrow>
          (case map_of (reservations l) i of
             Some existing \<Rightarrow> (if existing = r then Inr () else Inl Conflict, l)
           | None \<Rightarrow>
               if \<not> fits r (available l) then (Inl NoCapacity, l)
               else
                 (case Resources_checked_add (used l) r of
                    Inl e \<Rightarrow> (Inl e, l)
                  | Inr u \<Rightarrow>
                      (Inr (), l\<lparr>used := u, reservations := om_put i r (reservations l)\<rparr>))))"

definition ResourceLedger_release :: "string \<Rightarrow> (resource_ledger, unit) op" where
  "ResourceLedger_release i l =
     (case map_of (reservations l) i of
        None \<Rightarrow> (Inl NotFound, l)
      | Some r \<Rightarrow>
          (Inr (), l\<lparr>used := Resources_saturating_sub (used l) r,
                     reservations := om_del i (reservations l)\<rparr>))"

definition ResourceLedger_restore :: "string \<Rightarrow> resources \<Rightarrow> (resource_ledger, unit) op" where
  "ResourceLedger_restore i r l =
     (case Resources_validate r of
        Inl e \<Rightarrow> (Inl e, l)
      | Inr _ \<Rightarrow>
          (case map_of (reservations l) i of
             Some old \<Rightarrow> (if old = r then Inr () else Inl Conflict, l)
           | None \<Rightarrow>
               (case Resources_checked_add (used l) r of
                  Inl e \<Rightarrow> (Inl e, l)
                | Inr u \<Rightarrow>
                    (Inr (), l\<lparr>used := u, reservations := om_put i r (reservations l)\<rparr>))))"

lemmas ledger_op_defs =
  ResourceLedger_reserve_def ResourceLedger_release_def ResourceLedger_restore_def

section \<open>Accounting invariant\<close>

definition reserved_total :: "(resources \<Rightarrow> u64) \<Rightarrow> resource_ledger \<Rightarrow> nat" where
  "reserved_total f l = sum_list (map (\<lambda>e. unat (f (snd e))) (reservations l))"

definition ledger_inv :: "resource_ledger \<Rightarrow> bool" where
  "ledger_inv l \<longleftrightarrow>
     om_wf (reservations l)
     \<and> (\<forall>f \<in> set dims. unat (f (used l)) = reserved_total f l)
     \<and> (\<forall>e \<in> set (reservations l). Resources_validate (snd e) = Inr ())"

lemma ledger_inv_new: "ledger_inv (ResourceLedger_new c)"
  by (simp add: ledger_inv_def ResourceLedger_new_def reserved_total_def Resources_default_def
      dims_ball)

lemma ledger_inv_set_capacity: "ledger_inv l \<Longrightarrow> ledger_inv (set_capacity c l)"
  by (simp add: ledger_inv_def set_capacity_def reserved_total_def)

lemma reserved_total_add:
  assumes "map_of (reservations l) i = None"
  shows "reserved_total f (l\<lparr>used := u, reservations := om_put i r (reservations l)\<rparr>) =
         unat (f r) + reserved_total f l"
  using assms by (simp add: reserved_total_def sum_om_put_absent map_of_eq_None_iff)

lemma ledger_inv_add:
  assumes "ledger_inv l" "map_of (reservations l) i = None" "Resources_validate r = Inr ()"
    and "Resources_checked_add (used l) r = Inr u"
  shows "ledger_inv (l\<lparr>used := u, reservations := om_put i r (reservations l)\<rparr>)"
  using assms
  by (auto simp: ledger_inv_def checked_add_dims reserved_total_add map_of_eq_None_iff
      set_om_put_absent)

lemma ledger_inv_release:
  assumes "ledger_inv l" "map_of (reservations l) i = Some r"
  shows "ledger_inv (l\<lparr>used := Resources_saturating_sub (used l) r,
                       reservations := om_del i (reservations l)\<rparr>)"
proof -
  have "unat (f (used l)) = unat (f r) + sum_list (map (\<lambda>e. unat (f (snd e))) (om_del i (reservations l)))"
    if "f \<in> set dims" for f
    using assms that sum_om_del_present [of "reservations l" i r "\<lambda>e. unat (f (snd e))"]
    by (simp add: ledger_inv_def reserved_total_def)
  with assms show ?thesis
    by (auto simp: ledger_inv_def reserved_total_def saturating_sub_dims set_om_del)
qed

lemma ledger_reserve_inv:
  "ledger_inv l \<Longrightarrow> ResourceLedger_reserve i r l = (x, l') \<Longrightarrow> ledger_inv l'"
  by (auto simp: ResourceLedger_reserve_def ledger_inv_add
      split: sum.splits option.splits if_splits)

lemma ledger_release_inv:
  "ledger_inv l \<Longrightarrow> ResourceLedger_release i l = (x, l') \<Longrightarrow> ledger_inv l'"
  by (auto simp: ResourceLedger_release_def ledger_inv_release split: option.splits)

lemma ledger_restore_inv:
  "ledger_inv l \<Longrightarrow> ResourceLedger_restore i r l = (x, l') \<Longrightarrow> ledger_inv l'"
  by (auto simp: ResourceLedger_restore_def ledger_inv_add
      split: sum.splits option.splits if_splits)

interpretation scalar: reservation_ledger
  "\<lambda>l. map_of (reservations l)" ledger_inv "\<lambda>r. r"
  ResourceLedger_reserve ResourceLedger_release ResourceLedger_restore
proof unfold_locales
  show "ledger_inv s \<Longrightarrow> ResourceLedger_reserve i q s = (r, t) \<Longrightarrow> ledger_inv t" for s i q r t
    by (rule ledger_reserve_inv)
  show "ledger_inv s \<Longrightarrow> ResourceLedger_release i s = (r, t) \<Longrightarrow> ledger_inv t" for s i r t
    by (rule ledger_release_inv)
  show "ledger_inv s \<Longrightarrow> ResourceLedger_restore i h s = (r, t) \<Longrightarrow> ledger_inv t" for s i h r t
    by (rule ledger_restore_inv)
qed (auto simp: ledger_op_defs split: sum.splits option.splits if_splits)

section \<open>Admission\<close>

lemma fits_checked_add:
  assumes "fits r (available l)"
  shows "\<exists>u. Resources_checked_add (used l) r = Inr u"
proof (rule ccontr)
  assume "\<not> ?thesis"
  then obtain e where "Resources_checked_add (used l) r = Inl e"
    by (cases "Resources_checked_add (used l) r") auto
  then obtain f where f: "f \<in> set dims" "2 ^ 64 \<le> unat (f (used l)) + unat (f r)"
    using checked_add_error by blast
  have "unat (f r) \<le> unat (f (capacity l)) - unat (f (used l))"
    using assms f(1) by (simp add: fits_dims available_def saturating_sub_dims)
  moreover have "unat (f (capacity l)) < 2 ^ 64" "unat (f (used l)) < 2 ^ 64"
    using unsigned_less [of "f (capacity l)"] unsigned_less [of "f (used l)"] by simp_all
  ultimately show False using f(2) by linarith
qed

text \<open>
  Reachable ledgers: built with \<open>new\<close> and changed only by its operations, with any arguments and
  in any order, failed calls included.
\<close>

inductive ledger_reach :: "resource_ledger \<Rightarrow> bool" where
  reach_new: "ledger_reach (ResourceLedger_new c)"
| reach_capacity: "ledger_reach l \<Longrightarrow> ledger_reach (set_capacity c l)"
| reach_reserve: "ledger_reach l \<Longrightarrow> ledger_reach (snd (ResourceLedger_reserve i r l))"
| reach_release: "ledger_reach l \<Longrightarrow> ledger_reach (snd (ResourceLedger_release i l))"
| reach_restore: "ledger_reach l \<Longrightarrow> ledger_reach (snd (ResourceLedger_restore i r l))"

lemma ledger_reach_inv: "ledger_reach l \<Longrightarrow> ledger_inv l"
proof (induction rule: ledger_reach.induct)
  case (reach_reserve l i r)
  then show ?case by (metis ledger_reserve_inv prod.collapse)
next
  case (reach_release l i)
  then show ?case by (metis ledger_release_inv prod.collapse)
next
  case (reach_restore l i r)
  then show ?case by (metis ledger_restore_inv prod.collapse)
qed (simp_all add: ledger_inv_new ledger_inv_set_capacity)

text \<open>
  C1. In every reachable ledger the recorded usage is exactly the sum of the reservations it
  holds, in each of the three dimensions: no reservation is lost or counted twice, and no sum has
  wrapped around.
\<close>

theorem ledger_usage_is_sum_of_reservations:
  assumes "ledger_reach l"
  shows "unat (cpu_millis (used l)) = (\<Sum>e \<leftarrow> reservations l. unat (cpu_millis (snd e)))
       \<and> unat (memory_bytes (used l)) = (\<Sum>e \<leftarrow> reservations l. unat (memory_bytes (snd e)))
       \<and> unat (disk_bytes (used l)) = (\<Sum>e \<leftarrow> reservations l. unat (disk_bytes (snd e)))"
  using ledger_reach_inv [OF assms] by (simp add: ledger_inv_def dims_ball reserved_total_def)

text \<open>
  C2. A reservation for an identity that holds nothing succeeds exactly when the request is valid
  and fits the remaining capacity; it then charges the request once, and the usage stays within
  the capacity in every dimension the request asks for.
\<close>

theorem reserve_admits_exactly_what_fits:
  assumes "map_of (reservations l) i = None"
    and "ResourceLedger_reserve i r l = (result, l')"
  shows "(result = Inr () \<longleftrightarrow> Resources_validate r = Inr () \<and> fits r (available l))
       \<and> (result = Inr () \<longrightarrow>
            (\<forall>f \<in> {cpu_millis, memory_bytes, disk_bytes}.
               unat (f (used l')) = unat (f (used l)) + unat (f r)
               \<and> (f r \<noteq> 0 \<longrightarrow> f (used l') \<le> f (capacity l'))))
       \<and> (result \<noteq> Inr () \<longrightarrow> l' = l)"
proof (cases "Resources_validate r = Inr () \<and> fits r (available l)")
  case True
  then obtain u where u: "Resources_checked_add (used l) r = Inr u"
    using fits_checked_add by blast
  with True assms have l': "result = Inr ()" "used l' = u" "capacity l' = capacity l"
    by (auto simp: ResourceLedger_reserve_def)
  have "f u \<le> f (capacity l)" if "f \<in> set dims" "f r \<noteq> 0" for f
  proof -
    have "unat (f r) \<le> unat (f (capacity l)) - unat (f (used l))"
      using True that by (simp add: fits_dims available_def saturating_sub_dims)
    moreover have "unat (f u) = unat (f (used l)) + unat (f r)"
      using u that by (simp add: checked_add_dims)
    moreover have "unat (f r) \<noteq> 0"
      using that by (simp add: unat_eq_0)
    ultimately show ?thesis by (simp add: word_le_nat_alt)
  qed
  with True u l' show ?thesis
    by (auto simp: checked_add_dims dims_def)
next
  case False
  with assms show ?thesis
    by (auto simp: ResourceLedger_reserve_def split: sum.splits if_splits)
qed

section \<open>Concrete runs\<close>

definition small_ledger :: resource_ledger where
  "small_ledger = snd (ResourceLedger_reserve ''a'' \<lparr>cpu_millis = 300, memory_bytes = 64, disk_bytes = 0\<rparr>
     (ResourceLedger_new \<lparr>cpu_millis = 1000, memory_bytes = 128, disk_bytes = 8\<rparr>))"

lemma small_ledger_value:
  "small_ledger =
     \<lparr>capacity = \<lparr>cpu_millis = 1000, memory_bytes = 128, disk_bytes = 8\<rparr>,
      used = \<lparr>cpu_millis = 300, memory_bytes = 64, disk_bytes = 0\<rparr>,
      reservations = [(''a'', \<lparr>cpu_millis = 300, memory_bytes = 64, disk_bytes = 0\<rparr>)]\<rparr>"
  by (simp add: small_ledger_def ResourceLedger_reserve_def ResourceLedger_new_def Resources_validate_def
      available_def fits_def Resources_saturating_sub_def Resources_checked_add_def checked_add_def
      saturating_sub_def Resources_default_def)

theorem ledger_usage_is_sum_of_reservations_witness:
  "map fst (reservations small_ledger) = [''a''] \<and> unat (cpu_millis (used small_ledger)) = 300
   \<and> unat (cpu_millis (used small_ledger)) = (\<Sum>e \<leftarrow> reservations small_ledger. unat (cpu_millis (snd e)))"
proof (intro conjI)
  have "ledger_reach small_ledger"
    unfolding small_ledger_def by (intro reach_reserve reach_new)
  then show "unat (cpu_millis (used small_ledger)) =
      (\<Sum>e \<leftarrow> reservations small_ledger. unat (cpu_millis (snd e)))"
    by (rule ledger_usage_is_sum_of_reservations [THEN conjunct1])
qed (simp_all add: small_ledger_value)

theorem reserve_admits_exactly_what_fits_witness:
  "let r = \<lparr>cpu_millis = 700, memory_bytes = 64, disk_bytes = 0\<rparr>;
       l' = snd (ResourceLedger_reserve ''b'' r small_ledger)
   in fst (ResourceLedger_reserve ''b'' r small_ledger) = Inr ()
      \<and> unat (memory_bytes (used l')) = unat (memory_bytes (used small_ledger)) + unat (memory_bytes r)
      \<and> memory_bytes (used l') \<le> memory_bytes (capacity l')"
proof -
  define r :: resources where "r = \<lparr>cpu_millis = 700, memory_bytes = 64, disk_bytes = 0\<rparr>"
  obtain result l' where run: "ResourceLedger_reserve ''b'' r small_ledger = (result, l')"
    by (cases "ResourceLedger_reserve ''b'' r small_ledger")
  have "map_of (reservations small_ledger) ''b'' = None"
    "Resources_validate r = Inr () \<and> fits r (available small_ledger)" "memory_bytes r \<noteq> 0"
    unfolding r_def small_ledger_value
    by (simp_all add: Resources_validate_def fits_def available_def Resources_saturating_sub_def saturating_sub_def)
  with reserve_admits_exactly_what_fits [OF _ run] run show ?thesis
    unfolding r_def [symmetric] by (simp add: Let_def)
qed

end
