(* ===== verification/Execution.thy ===== *)
theory Execution
  imports Volumes Probes Resource_Ledger
begin

text \<open>
  Execution options of an Environment (\<^verbatim>\<open>platform/crates/core/src/execution.rs\<close>): root file
  system and mounts, network policy with protected ingress, published and private ports, tunnels,
  process identity and limits.
\<close>

section \<open>Storage sources and mounts\<close>

record s3_source =
  s3_endpoint :: string
  s3_bucket :: string
  s3_object :: string
  s3_access_key_id :: string
  s3_access_key_secret :: string

definition S3Source_validate :: "s3_source \<Rightarrow> unit result" where
  "S3Source_validate s =
     checks
       [ensure (\<not> list_ex blank [s3_endpoint s, s3_bucket s, s3_object s])
          (Invalid ''S3 endpoint, bucket and object are required''),
        ensure ((s3_access_key_id s = []) = (s3_access_key_secret s = []))
          (Invalid ''S3 access key and secret must be supplied together'')]"

datatype storage_source = Image string | S3 s3_source | LocalPath string

fun StorageSource_validate :: "storage_source \<Rightarrow> unit result" where
  "StorageSource_validate (Image v) =
     (if blank v then Inl (Invalid ''storage source is required'') else Inr ())"
| "StorageSource_validate (LocalPath v) =
     (if blank v then Inl (Invalid ''storage source is required'') else Inr ())"
| "StorageSource_validate (S3 v) = S3Source_validate v"

record rootfs =
  rootfs_readonly :: bool
  rootfs_source :: storage_source

definition Rootfs_validate :: "rootfs \<Rightarrow> unit result" where
  "Rootfs_validate r = StorageSource_validate (rootfs_source r)"

datatype mount_source = Inline storage_source | Volume volume_ref

fun MountSource_inline :: "mount_source \<Rightarrow> storage_source result" where
  "MountSource_inline (Inline source) = Inr source"
| "MountSource_inline (Volume _) =
     Inl (Invalid ''VolumeRef requires Coordinator-authorized resolution'')"

fun MountSource_validate :: "mount_source \<Rightarrow> unit result" where
  "MountSource_validate (Inline source) = StorageSource_validate source"
| "MountSource_validate (Volume reference) = VolumeRef_validate reference"

record mount =
  mount_kind :: string
  mount_target :: string
  mount_options :: "string list"
  mount_source :: mount_source
  mount_create_if_missing :: bool
  mount_create_options :: "create_options option"

definition concrete_absolute :: "string \<Rightarrow> bool" where
  "concrete_absolute path \<longleftrightarrow>
     \<not> (\<not> starts_with ''/'' path \<or> length path \<le> 1
        \<or> list_ex (\<lambda>part. part \<in> {'''', ''.'', ''..''}) (split_char CHR ''/'' (drop 1 path))
        \<or> any_control path)"

definition is_volume :: "mount_source \<Rightarrow> bool" where
  "is_volume s = (case s of Volume _ \<Rightarrow> True | _ \<Rightarrow> False)"

definition local_path :: "mount_source \<Rightarrow> string option" where
  "local_path s = (case s of Inline (LocalPath path) \<Rightarrow> Some path | _ \<Rightarrow> None)"

definition Mount_validate :: "mount \<Rightarrow> unit result" where
  "Mount_validate m =
     checks
       [ensure (\<not> (is_volume (mount_source m)
                 \<and> (mount_kind m \<noteq> ''bind'' \<or> mount_create_if_missing m \<or> mount_create_options m \<noteq> None)))
          (Invalid ''VolumeRef requires a bind mount without inline initialization''),
        opt_check (\<lambda>o1.
          if \<not> mount_create_if_missing m
          then Inl (Invalid ''create_options requires create_if_missing'')
          else bindE (mode_bits o1) (\<lambda>_. Inr ())) (mount_create_options m),
        ensure (\<not> (mount_create_if_missing m
                 \<and> (mount_kind m \<noteq> ''bind'' \<or> local_path (mount_source m) = None)))
          (Invalid ''create_if_missing requires a Local bind mount''),
        ensure (\<not> (mount_create_if_missing m
                 \<and> is_some_and (\<lambda>path. \<not> concrete_absolute path) (local_path (mount_source m))))
          (Invalid ''Local directory creation requires a concrete absolute source path''),
        ensure (\<not> (mount_kind m \<notin> {''bind'', ''erofs'', ''tmpfs''}
                 \<or> \<not> starts_with ''/'' (mount_target m) \<or> contains_str ''/../'' (mount_target m)
                 \<or> ends_with ''/..'' (mount_target m) \<or> list_ex blank (mount_options m)))
          (Invalid ''invalid environment mount''),
        MountSource_validate (mount_source m)]"

section \<open>Network policy\<close>

datatype network_action = Allow | Deny
datatype network_direction = Ingress | Egress | Both
datatype network_protocol = AnyProtocol | Tcp | Udp | Icmp
datatype traffic_mode = Stateless | Stateful

record port_range =
  pr_first :: u32
  pr_last :: u32

record network_peer =
  np_address :: string
  np_port :: u32
  np_cidr :: string
  np_domain :: string
  np_port_range :: "port_range option"

definition NetworkPeer_default :: network_peer where
  "NetworkPeer_default =
     \<lparr>np_address = [], np_port = 0, np_cidr = [], np_domain = [], np_port_range = None\<rparr>"

record network_rule =
  nr_action :: network_action
  nr_direction :: network_direction
  nr_protocol :: network_protocol
  nr_peer :: network_peer
  nr_environment_port :: u32
  nr_environment_port_range :: "port_range option"
  nr_priority :: u32

record traffic_policy =
  tp_ingress_default_action :: network_action
  tp_egress_default_action :: network_action
  tp_rules :: "network_rule list"
  tp_mode :: traffic_mode

record dns_rule =
  dr_action :: network_action
  dr_pattern :: string

record dns_policy =
  dp_default_action :: network_action
  dp_rules :: "dns_rule list"

record network_policy =
  net_traffic :: "traffic_policy option"
  net_dns :: "dns_policy option"

definition is_port :: "u32 \<Rightarrow> bool" where
  "is_port v \<longleftrightarrow> v \<le> ucast (- 1 :: u16)"

definition bad_range :: "port_range \<Rightarrow> bool" where
  "bad_range r \<longleftrightarrow> pr_first r = 0 \<or> pr_first r > pr_last r \<or> \<not> is_port (pr_last r)"

definition NetworkRule_check :: "network_rule \<Rightarrow> unit result" where
  "NetworkRule_check r =
     (if nr_priority r = 0 \<or> nr_priority r = - 1 \<or> \<not> is_port (np_port (nr_peer r))
         \<or> \<not> is_port (nr_environment_port r)
         \<or> is_some_and bad_range (np_port_range (nr_peer r))
         \<or> is_some_and bad_range (nr_environment_port_range r)
      then Inl (Invalid ''invalid network policy rule priority or port'') else Inr ())"

definition NetworkPolicy_validate :: "network_policy \<Rightarrow> unit result" where
  "NetworkPolicy_validate p =
     checks
       [opt_check (\<lambda>t. checks (map NetworkRule_check (tp_rules t))) (net_traffic p),
        ensure (\<not> is_some_and (\<lambda>d. list_ex (\<lambda>r. blank (dr_pattern r)) (dp_rules d)) (net_dns p))
          (Invalid ''invalid DNS policy pattern'')]"

section \<open>Data plane, limits and workload process\<close>

datatype data_plane_security_mode = Inherit | Tls | TlsToken

fun effective :: "data_plane_security_mode \<Rightarrow> data_plane_security_mode" where
  "effective Inherit = TlsToken"
| "effective mode = mode"

record data_plane_policy =
  dpp_tunnel :: data_plane_security_mode
  dpp_port_forward :: data_plane_security_mode

record resource_limits =
  rl_cpu_millis :: u64
  rl_memory_bytes :: u64
  rl_disk_bytes :: u64

record workload_process =
  wl_commands :: "string list list option"
  wl_user :: "string option"
  wl_cwd :: "string option"

definition validate_cwd :: "string \<Rightarrow> unit result" where
  "validate_cwd cwd =
     (if \<not> starts_with ''/'' cwd \<or> any_control cwd
      then Inl (Invalid ''environment cwd must be an absolute path without control characters'')
      else Inr ())"

definition WorkloadProcess_validate :: "workload_process \<Rightarrow> unit result" where
  "WorkloadProcess_validate w =
     checks
       [opt_check (\<lambda>commands.
          if commands = [] \<or> length commands > 32
             \<or> list_ex (\<lambda>args. args = [] \<or> length args > 256 \<or> blank (hd args)
                               \<or> list_ex (\<lambda>arg. nul \<in> set arg) args) commands
             \<or> sum_list (map length (concat commands)) > 65536
          then Inl (Invalid ''invalid workload commands'') else Inr ()) (wl_commands w),
        ensure (\<not> is_some_and (\<lambda>user. blank user \<or> length user > 256 \<or> any_control user
                                 \<or> length (split_char CHR '':'' user) > 2) (wl_user w))
          (Invalid ''invalid workload user''),
        opt_check (\<lambda>cwd.
          bindE (validate_cwd cwd) (\<lambda>_.
          if list_ex (\<lambda>part. part \<in> {''.'', ''..''}) (split_char CHR ''/'' cwd)
          then Inl (Invalid ''workload cwd must be canonical'') else Inr ())) (wl_cwd w)]"

definition identity_byte :: "char \<Rightarrow> bool" where
  "identity_byte c \<longleftrightarrow> is_ascii_alphanumeric c \<or> c \<in> {CHR ''_'', CHR ''-'', CHR ''.''}"

definition process_name :: "string \<Rightarrow> bool" where
  "process_name v \<longleftrightarrow>
     \<not> (v = [] \<or> length v > 256 \<or> \<not> list_all identity_byte v
        \<or> list_all is_digit v \<and> is_none_or (\<lambda>i. i = (- 1 :: u32)) (parse_uint v))"

definition validate_process_identity :: "string option \<Rightarrow> string option \<Rightarrow> unit result" where
  "validate_process_identity user grp =
     (case (user, grp) of
        (None, None) \<Rightarrow> Inr ()
      | (Some u, Some g) \<Rightarrow>
          checks (map (\<lambda>v. ensure (process_name v)
            (Invalid ''user/group require a valid POSIX name or numeric ID below 4294967295'')) [u, g])
      | _ \<Rightarrow> Inl (Invalid ''user and group must both be configured''))"

section \<open>Execution options\<close>

record execution_options =
  ex_user :: "string option"
  ex_group :: "string option"
  ex_process :: "workload_process option"
  ex_readiness_probe :: "probe_spec option"
  ex_healthcheck_probe :: "probe_spec option"
  ex_init_timeout_seconds :: u64
  ex_cwd :: "string option"
  ex_rootfs :: "rootfs option"
  ex_mounts :: "mount list"
  ex_network :: "network_policy option"
  ex_protected_ingress :: "network_rule list"
  ex_private_service_ports :: "u16 list"
  ex_data_plane :: data_plane_policy
  ex_ports :: "u16 list"
  ex_tunnel_http_port :: "u16 option"
  ex_failover :: bool
  ex_inherit_entrypoint :: bool
  ex_limits :: resource_limits
  ex_extra_config :: string

definition ExecutionOptions_default :: execution_options where
  "ExecutionOptions_default =
     \<lparr>ex_user = None, ex_group = None, ex_process = None, ex_readiness_probe = None,
      ex_healthcheck_probe = None, ex_init_timeout_seconds = 0, ex_cwd = None, ex_rootfs = None,
      ex_mounts = [], ex_network = None, ex_protected_ingress = [], ex_private_service_ports = [],
      ex_data_plane = \<lparr>dpp_tunnel = Inherit, dpp_port_forward = Inherit\<rparr>, ex_ports = [],
      ex_tunnel_http_port = None, ex_failover = False, ex_inherit_entrypoint = False,
      ex_limits = \<lparr>rl_cpu_millis = 0, rl_memory_bytes = 0, rl_disk_bytes = 0\<rparr>, ex_extra_config = []\<rparr>"

definition policy_traffic :: "network_policy option \<Rightarrow> traffic_policy option" where
  "policy_traffic policy = Option.bind policy net_traffic"

definition rule_covers_port :: "network_rule \<Rightarrow> u16 \<Rightarrow> bool" where
  "rule_covers_port r port \<longleftrightarrow>
     (case nr_environment_port_range r of
        Some rg \<Rightarrow> pr_first rg \<le> ucast port \<and> ucast port \<le> pr_last rg
      | None \<Rightarrow> nr_environment_port r = 0 \<or> nr_environment_port r = ucast port)"

definition opt_list :: "'a option \<Rightarrow> 'a list" where
  "opt_list v = (case v of None \<Rightarrow> [] | Some x \<Rightarrow> [x])"

definition tunnel_ws_port :: "execution_options \<Rightarrow> u16 option" where
  "tunnel_ws_port e = Option.bind (ex_tunnel_http_port e) (\<lambda>port. checked_sub port 1)"

definition listener_ports :: "execution_options \<Rightarrow> u16 list" where
  "listener_ports e = ex_ports e @ opt_list (ex_tunnel_http_port e) @ opt_list (tunnel_ws_port e)"

definition denies_port :: "network_rule \<Rightarrow> u16 \<Rightarrow> bool" where
  "denies_port r port \<longleftrightarrow>
     nr_action r = Deny \<and> nr_protocol r \<in> {Tcp, AnyProtocol} \<and> rule_covers_port r port"

definition validate_protected_ingress ::
  "execution_options \<Rightarrow> network_policy option \<Rightarrow> unit result" where
  "validate_protected_ingress e policy =
     (if ex_protected_ingress e = [] then Inr ()
      else
        bindE (ok_or (policy_traffic policy)
                 (Invalid ''protected ingress requires an active traffic policy'')) (\<lambda>traffic.
        if list_ex (\<lambda>r. nr_direction r = Egress) (ex_protected_ingress e)
           \<or> filter (\<lambda>r. nr_direction r \<noteq> Egress) (tp_rules traffic) \<noteq> ex_protected_ingress e
        then Inl (Invalid ''protected ingress policy cannot be replaced'')
        else
          checks (map (\<lambda>port.
            ensure (\<not> list_ex (\<lambda>r. denies_port r port) (ex_protected_ingress e))
              (Invalid ''published listener conflicts with protected ingress'')) (listener_ports e))))"

definition validate_private_service_ports :: "execution_options \<Rightarrow> unit result" where
  "validate_private_service_ports e =
     ensure (\<not> list_ex (\<lambda>port. port = 0 \<or> port \<in> set (ex_ports e) \<or> ex_tunnel_http_port e = Some port
                             \<or> tunnel_ws_port e = Some port) (ex_private_service_ports e))
       (Invalid ''private service port conflicts with a published listener'')"

definition validate_tunnel_network ::
  "execution_options \<Rightarrow> network_policy option \<Rightarrow> unit result" where
  "validate_tunnel_network e network =
     opt_check (\<lambda>port.
       if port < 2 \<or> list_ex (\<lambda>p. p = 50090 \<or> p \<in> set (ex_ports e)) [port, port - 1]
       then Inl (Invalid ''tunnel listeners must be distinct from control and published ports'')
       else if is_some_and (\<lambda>t. tp_mode t = Stateless) (policy_traffic network)
       then Inl (Invalid ''reverse tunnels require a stateful traffic policy'')
       else Inr ()) (ex_tunnel_http_port e)"

definition effective_init_timeout :: "execution_options \<Rightarrow> u64" where
  "effective_init_timeout e =
     (if ex_init_timeout_seconds e = 0 then default_init_timeout else ex_init_timeout_seconds e)"

definition ExecutionOptions_probe_config :: "execution_options \<Rightarrow> probe_config" where
  "ExecutionOptions_probe_config e =
     \<lparr>pc_readiness = ex_readiness_probe e, pc_healthcheck = ex_healthcheck_probe e,
      pc_init_timeout_seconds = effective_init_timeout e\<rparr>"

definition limit_below :: "u64 \<Rightarrow> u64 \<Rightarrow> bool" where
  "limit_below limit request \<longleftrightarrow> limit \<noteq> 0 \<and> limit < request"

definition image_rootfs :: "rootfs option \<Rightarrow> bool" where
  "image_rootfs r = (case map_option rootfs_source r of Some (Image _) \<Rightarrow> True | _ \<Rightarrow> False)"

definition ExecutionOptions_validate :: "execution_options \<Rightarrow> resources \<Rightarrow> unit result" where
  "ExecutionOptions_validate e requests =
     checks
       ([validate_process_identity (ex_user e) (ex_group e),
         ensure (\<not> (ex_user e \<noteq> None \<and> ex_inherit_entrypoint e))
           (Invalid ''tool identity cannot override an inherited image process''),
         opt_check (\<lambda>process.
           bindE (WorkloadProcess_validate process) (\<lambda>_.
           ensure (ex_inherit_entrypoint e) (Invalid ''workload process requires inherit_entrypoint'')))
           (ex_process e),
         ProbeConfig_validate (ExecutionOptions_probe_config e),
         (if ex_readiness_probe e \<noteq> None \<or> ex_healthcheck_probe e \<noteq> None
          then bindE (ensure (ex_inherit_entrypoint e)
                 (Invalid ''workload probes require inherit_entrypoint''))
                 (\<lambda>_. ProbeConfig_validate (ExecutionOptions_probe_config e))
          else Inr ()),
         opt_check validate_cwd (ex_cwd e),
         opt_check Rootfs_validate (ex_rootfs e)]
        @ map Mount_validate (ex_mounts e)
        @ [opt_check NetworkPolicy_validate (ex_network e),
           validate_protected_ingress e (ex_network e),
           validate_private_service_ports e,
           validate_tunnel_network e (ex_network e),
           ensure (0 \<notin> set (ex_ports e)) (Invalid ''published port must be positive''),
           ensure (\<not> (limit_below (rl_cpu_millis (ex_limits e)) (cpu_millis requests)
                    \<or> limit_below (rl_memory_bytes (ex_limits e)) (memory_bytes requests)
                    \<or> limit_below (rl_disk_bytes (ex_limits e)) (disk_bytes requests)))
             (Invalid ''execution limits cannot be lower than resource requests''),
           ensure (\<not> (ex_inherit_entrypoint e \<and> \<not> image_rootfs (ex_rootfs e)))
             (Invalid ''inherited entrypoint requires an image rootfs'')])"

section \<open>Listener safety\<close>

lemma checked_sub_one: "checked_sub (p :: u16) 1 = (if p = 0 then None else Some (p - 1))"
  by (simp add: checked_sub_def word_le_nat_alt unat_gt_0 Suc_le_eq)

lemma listener_ports_set:
  "set (listener_ports e) =
     set (ex_ports e) \<union> {p. ex_tunnel_http_port e = Some p} \<union> {p. tunnel_ws_port e = Some p}"
  by (auto simp: listener_ports_def opt_list_def split: option.splits)

lemma tunnel_ws_http: "tunnel_ws_port e = Some p \<Longrightarrow> \<exists>h. ex_tunnel_http_port e = Some h"
  by (auto simp: tunnel_ws_port_def bind_eq_Some_conv)

lemma private_ports_ok:
  "validate_private_service_ports e = Inr u \<longleftrightarrow>
     (\<forall>port \<in> set (ex_private_service_ports e). port \<noteq> 0 \<and> port \<notin> set (listener_ports e))"
  by (auto simp: validate_private_service_ports_def listener_ports_set list_ex_iff)

lemma execution_network_checks:
  assumes "ExecutionOptions_validate e r = Inr u"
  shows "validate_protected_ingress e (ex_network e) = Inr ()"
    and "validate_private_service_ports e = Inr ()"
    and "validate_tunnel_network e (ex_network e) = Inr ()"
    and "0 \<notin> set (ex_ports e)"
  using assms by (auto simp: ExecutionOptions_validate_def result_simps)

lemma protected_ingress_ok:
  "validate_protected_ingress e policy = Inr u \<longleftrightarrow>
     ex_protected_ingress e = [] \<or>
     (\<exists>t. policy_traffic policy = Some t
        \<and> filter (\<lambda>r. nr_direction r \<noteq> Egress) (tp_rules t) = ex_protected_ingress e
        \<and> (\<forall>port \<in> set (listener_ports e). \<forall>r \<in> set (ex_protected_ingress e). \<not> denies_port r port))"
  by (auto simp: validate_protected_ingress_def result_simps list_ex_iff split: if_splits
      intro: sym) (auto simp: filter_eq_Cons_iff dest!: arg_cong [where f = set])

text \<open>
  Listener safety of validated execution options. Every port the backend opens on its own (the
  published ports, the reverse tunnel's HTTP port and the WebSocket port below it) is positive, is
  not a private service port and is not denied by the protected ingress rules; the two tunnel ports
  differ from each other, from the control port 50090 and from every published port.
\<close>

theorem listeners_respect_protection:
  assumes "ExecutionOptions_validate e r = Inr ()"
  shows "(\<forall>p \<in> set (listener_ports e). p \<noteq> 0 \<and> p \<notin> set (ex_private_service_ports e)
            \<and> (\<forall>rule \<in> set (ex_protected_ingress e). \<not> denies_port rule p))
       \<and> (\<forall>h. ex_tunnel_http_port e = Some h \<longrightarrow>
            (\<exists>w. tunnel_ws_port e = Some w \<and> unat w + 1 = unat h
               \<and> 50090 \<notin> {h, w} \<and> {h, w} \<inter> set (ex_ports e) = {}))"
proof -
  note c = execution_network_checks [OF assms]
  have tunnel: "\<exists>w. tunnel_ws_port e = Some w \<and> unat w + 1 = unat h \<and> w \<noteq> 0 \<and> h \<noteq> 0
                  \<and> 50090 \<notin> {h, w} \<and> {h, w} \<inter> set (ex_ports e) = {}"
    if "ex_tunnel_http_port e = Some h" for h
  proof -
    have "2 \<le> unat h"
      using c(3) that by (auto simp: validate_tunnel_network_def result_simps word_less_nat_alt split: if_splits)
    then have "h \<noteq> 0" "unat (h - 1) + 1 = unat h" "h - 1 \<noteq> 0"
      by (auto simp: unat_sub word_le_nat_alt unat_eq_0 [symmetric])
    with c(3) that show ?thesis
      by (auto simp: validate_tunnel_network_def result_simps tunnel_ws_port_def checked_sub_one split: if_splits)
  qed
  have "p \<notin> set (ex_private_service_ports e)" if "p \<in> set (listener_ports e)" for p
    using that c(2) private_ports_ok by blast
  moreover have "p \<noteq> 0" if "p \<in> set (listener_ports e)" for p
    using that c(4) tunnel tunnel_ws_http [of e p] unfolding listener_ports_set by fastforce
  moreover have "\<forall>rule \<in> set (ex_protected_ingress e). \<not> denies_port rule p"
    if "p \<in> set (listener_ports e)" for p
    using c(1) that by (auto simp: protected_ingress_ok)
  ultimately show ?thesis using tunnel by blast
qed

definition tunnelled :: execution_options where
  "tunnelled = ExecutionOptions_default\<lparr>ex_ports := [8080], ex_tunnel_http_port := Some 9001,
     ex_private_service_ports := [7000]\<rparr>"

theorem listeners_respect_protection_witness:
  "ExecutionOptions_validate tunnelled Resources_default = Inr ()
   \<and> listener_ports tunnelled = [8080, 9001, 9000]
   \<and> {8080, 9001, 9000} \<inter> set (ex_private_service_ports tunnelled) = {}"
proof -
  have v: "ExecutionOptions_validate tunnelled Resources_default = Inr ()"
    "listener_ports tunnelled = [8080, 9001, 9000]" by code_simp+
  from listeners_respect_protection [OF v(1)] v show ?thesis by simp
qed

end
