(* ===== verification/Envd.thy ===== *)
theory Envd
  imports Execution
begin

text \<open>
  The optional envd guest service (\<^verbatim>\<open>platform/crates/core/src/envd.rs\<close>): its canonical ingress
  rules and the check that an execution without an access token keeps the service port closed to
  every peer but the trusted gateways.
\<close>

section \<open>IPv4 addresses\<close>

text \<open>\<open>str::parse::<Ipv4Addr>\<close>: four decimal octets without leading zeros.\<close>

definition parse_octet :: "string \<Rightarrow> nat option" where
  "parse_octet s =
     (if s = [] \<or> length s > 3 \<or> \<not> list_all is_digit s \<or> (hd s = CHR ''0'' \<and> length s > 1)
         \<or> dec_value s > 255
      then None else Some (dec_value s))"

definition parse_ipv4 :: "string \<Rightarrow> (nat \<times> nat \<times> nat \<times> nat) option" where
  "parse_ipv4 s =
     (case map parse_octet (split_char CHR ''.'' s) of
        [Some a, Some b, Some c, Some d] \<Rightarrow> Some (a, b, c, d)
      | _ \<Rightarrow> None)"

definition is_unspecified :: "nat \<times> nat \<times> nat \<times> nat \<Rightarrow> bool" where
  "is_unspecified a = (a = (0, 0, 0, 0))"

definition is_multicast :: "nat \<times> nat \<times> nat \<times> nat \<Rightarrow> bool" where
  "is_multicast a = (224 \<le> fst a \<and> fst a \<le> 239)"

definition trusted_source :: "string \<Rightarrow> bool" where
  "trusted_source source \<longleftrightarrow>
     \<not> (case parse_ipv4 source of None \<Rightarrow> True | Some a \<Rightarrow> is_unspecified a \<or> is_multicast a)"

section \<open>Canonical rules\<close>

definition ENVD_PORT :: u16 where
  "ENVD_PORT = 49983"

definition ENVD_GUARD_DENY_PRIORITY :: u32 where
  "ENVD_GUARD_DENY_PRIORITY = - 1 - 2"

definition ENVD_GUARD_ALLOW_PRIORITY :: u32 where
  "ENVD_GUARD_ALLOW_PRIORITY = - 1 - 1"

definition guard_rule :: "network_action \<Rightarrow> u32 \<Rightarrow> network_peer \<Rightarrow> network_rule" where
  "guard_rule action priority peer =
     \<lparr>nr_action = action, nr_direction = Ingress, nr_protocol = Tcp, nr_peer = peer,
      nr_environment_port = 0,
      nr_environment_port_range = Some \<lparr>pr_first = ucast ENVD_PORT, pr_last = ucast ENVD_PORT\<rparr>,
      nr_priority = priority\<rparr>"

definition allow_source :: "string \<Rightarrow> network_rule" where
  "allow_source source =
     guard_rule Allow ENVD_GUARD_ALLOW_PRIORITY (NetworkPeer_default\<lparr>np_cidr := source @ ''/32''\<rparr>)"

definition gateway_ingress_rules :: "string list \<Rightarrow> network_rule list result" where
  "gateway_ingress_rules sources =
     (if sources = [] \<or> list_ex (\<lambda>s. \<not> trusted_source s) sources
      then Inl (Invalid ''envd requires exact trusted ingress IPv4 sources'')
      else Inr (guard_rule Deny ENVD_GUARD_DENY_PRIORITY NetworkPeer_default # map allow_source sources))"

definition is_gateway_ingress_rule :: "network_rule \<Rightarrow> bool" where
  "is_gateway_ingress_rule r \<longleftrightarrow>
     nr_direction r = Ingress \<and> nr_protocol r = Tcp \<and> nr_environment_port r = 0
     \<and> is_some_and (\<lambda>rg. pr_first rg = ucast ENVD_PORT \<and> pr_last rg = ucast ENVD_PORT)
         (nr_environment_port_range r)
     \<and> nr_priority r \<in> {ENVD_GUARD_DENY_PRIORITY, ENVD_GUARD_ALLOW_PRIORITY}"

section \<open>Service configuration\<close>

record envd_service_config =
  envd_version :: string
  envd_gateway_auth :: bool
  envd_token :: "string option"
  envd_ingress_sources :: "string list"

definition EnvdServiceConfig_validate :: "envd_service_config \<Rightarrow> unit result" where
  "EnvdServiceConfig_validate c =
     (if blank (envd_version c) \<or> length (envd_version c) > 128 \<or> any_whitespace (envd_version c)
         \<or> any_control (envd_version c)
         \<or> (if envd_gateway_auth c
            then envd_token c \<noteq> None \<or> envd_ingress_sources c = []
                 \<or> list_ex (\<lambda>s. \<not> trusted_source s) (envd_ingress_sources c)
            else envd_ingress_sources c \<noteq> []
                 \<or> \<not> is_some_and (\<lambda>t. length t \<ge> 32 \<and> \<not> any_control t) (envd_token c))
      then Inl (Invalid ''invalid envd service configuration'') else Inr ())"

definition permits_envd :: "network_rule \<Rightarrow> bool" where
  "permits_envd r \<longleftrightarrow>
     nr_direction r \<in> {Ingress, Both} \<and> nr_protocol r \<in> {Tcp, AnyProtocol} \<and> rule_covers_port r ENVD_PORT"

definition validate_execution :: "envd_service_config \<Rightarrow> execution_options \<Rightarrow> unit result" where
  "validate_execution c e =
     bindE (EnvdServiceConfig_validate c) (\<lambda>_.
     bindE (validate_protected_ingress e (ex_network e)) (\<lambda>_.
     bindE (validate_private_service_ports e) (\<lambda>_.
     if \<not> envd_gateway_auth c then Inr ()
     else if ENVD_PORT \<notin> set (ex_private_service_ports e) \<or> ex_protected_ingress e = []
     then Inl (Invalid ''gateway-authenticated envd requires private service ingress protection'')
     else
       case policy_traffic (ex_network e) of
         None \<Rightarrow> Inl (Invalid ''gateway-authenticated envd requires a trusted ingress ACL'')
       | Some traffic \<Rightarrow>
           bindE (gateway_ingress_rules (envd_ingress_sources c)) (\<lambda>expected.
           if list_ex (\<lambda>r. r \<notin> set (tp_rules traffic)) expected
           then Inl (Invalid ''gateway-authenticated envd canonical ingress rule is missing'')
           else if list_ex (\<lambda>r. permits_envd r \<and> nr_action r = Allow
                               \<and> nr_priority r \<ge> ENVD_GUARD_DENY_PRIORITY \<and> r \<notin> set expected)
                     (tp_rules traffic)
           then Inl (Invalid ''gateway-authenticated envd ACL permits an untrusted ingress peer'')
           else Inr ()))))"

section \<open>Protection of a tokenless service\<close>

lemmas guard_priorities = ENVD_GUARD_DENY_PRIORITY_def ENVD_GUARD_ALLOW_PRIORITY_def

lemma gateway_rules_canonical:
  "gateway_ingress_rules sources = Inr rules \<Longrightarrow> r \<in> set rules \<Longrightarrow> is_gateway_ingress_rule r"
  by (auto simp: gateway_ingress_rules_def is_gateway_ingress_rule_def guard_rule_def allow_source_def
      split: if_splits)

text \<open>
  The decision of a rule list on a connection to the envd port, under the order the reserved
  priorities rely on: of the rules that apply to the connection, those with the largest priority
  decide, and the connection is admitted when one of them allows it.
\<close>

definition deciding_rules :: "(network_rule \<Rightarrow> bool) \<Rightarrow> network_rule list \<Rightarrow> network_rule list" where
  "deciding_rules applies rules =
     filter (\<lambda>r. applies r \<and> (\<forall>s \<in> set rules. applies s \<longrightarrow> nr_priority s \<le> nr_priority r)) rules"

text \<open>
  C6. A gateway-authenticated envd service is closed to untrusted peers. Take a validated execution
  and any connection to the envd port, described by the set of rules that apply to it: only rules
  that cover the envd port, and always the catch-all guard. If no rule allowing one of the configured
  gateway addresses applies, every deciding rule denies the connection; and the port is never
  published or used as a tunnel listener.
\<close>

theorem envd_closed_to_untrusted_peers:
  assumes valid: "validate_execution c e = Inr ()" "envd_gateway_auth c"
    and traffic: "policy_traffic (ex_network e) = Some t"
    and covers: "\<forall>r \<in> set (tp_rules t). applies r \<longrightarrow> permits_envd r"
    and guard: "applies (guard_rule Deny ENVD_GUARD_DENY_PRIORITY NetworkPeer_default)"
    and untrusted: "\<forall>s \<in> set (envd_ingress_sources c). \<not> applies (allow_source s)"
  shows "deciding_rules applies (tp_rules t) \<noteq> []
       \<and> (\<forall>r \<in> set (deciding_rules applies (tp_rules t)). nr_action r = Deny)
       \<and> ENVD_PORT \<notin> set (listener_ports e)"
proof -
  let ?guard = "guard_rule Deny ENVD_GUARD_DENY_PRIORITY NetworkPeer_default"
  obtain expected where exp: "gateway_ingress_rules (envd_ingress_sources c) = Inr expected"
    and present: "\<forall>r \<in> set expected. r \<in> set (tp_rules t)"
    and only: "\<forall>r \<in> set (tp_rules t). permits_envd r \<and> nr_action r = Allow
                 \<and> nr_priority r \<ge> ENVD_GUARD_DENY_PRIORITY \<longrightarrow> r \<in> set expected"
    and priv: "ENVD_PORT \<in> set (ex_private_service_ports e)"
      "validate_private_service_ports e = Inr ()"
    using valid traffic by (auto simp: validate_execution_def result_simps list_ex_iff split: if_splits)
  have expected: "expected = ?guard # map allow_source (envd_ingress_sources c)"
    using exp by (auto simp: gateway_ingress_rules_def split: if_splits)
  then have here: "?guard \<in> set (tp_rules t)" using present by auto
  have deny: "nr_action r = Deny" if "r \<in> set (deciding_rules applies (tp_rules t))" for r
  proof (rule ccontr)
    assume "nr_action r \<noteq> Deny"
    then have "nr_action r = Allow" by (cases "nr_action r") auto
    moreover from that here guard have "nr_priority r \<ge> ENVD_GUARD_DENY_PRIORITY" "applies r"
      "r \<in> set (tp_rules t)"
      by (auto simp: deciding_rules_def guard_rule_def)
    ultimately have "r \<in> set expected" using only covers by blast
    with expected untrusted \<open>applies r\<close> \<open>nr_action r = Allow\<close> show False
      by (auto simp: guard_rule_def)
  qed
  let ?A = "{r \<in> set (tp_rules t). applies r}"
  have "finite ?A" "?A \<noteq> {}" using here guard by auto
  then obtain m where "m \<in> ?A" "Max (nr_priority ` ?A) = nr_priority m"
    by (rule obtains_MAX)
  moreover have "nr_priority s \<le> Max (nr_priority ` ?A)" if "s \<in> ?A" for s
    using that by (intro Max_ge) auto
  ultimately have "deciding_rules applies (tp_rules t) \<noteq> []"
    by (auto simp: deciding_rules_def filter_empty_conv)
  with deny priv show ?thesis by (auto simp: private_ports_ok)
qed

definition gateway_rules :: "network_rule list" where
  "gateway_rules =
     [guard_rule Deny ENVD_GUARD_DENY_PRIORITY NetworkPeer_default, allow_source ''10.0.0.2'']"

definition gateway_envd :: envd_service_config where
  "gateway_envd = \<lparr>envd_version = ''0.9.0'', envd_gateway_auth = True, envd_token = None,
     envd_ingress_sources = [''10.0.0.2'']\<rparr>"

definition gateway_traffic :: traffic_policy where
  "gateway_traffic = \<lparr>tp_ingress_default_action = Allow, tp_egress_default_action = Allow,
     tp_rules = gateway_rules, tp_mode = Stateful\<rparr>"

definition gateway_execution :: execution_options where
  "gateway_execution = ExecutionOptions_default\<lparr>ex_private_service_ports := [49983],
     ex_protected_ingress := gateway_rules,
     ex_network := Some \<lparr>net_traffic = Some gateway_traffic, net_dns = None\<rparr>\<rparr>"

theorem envd_closed_to_untrusted_peers_witness:
  "validate_execution gateway_envd gateway_execution = Inr ()
   \<and> list_all (\<lambda>r. nr_action r = Deny)
         (deciding_rules (\<lambda>r. permits_envd r \<and> np_cidr (nr_peer r) = []) gateway_rules)"
proof -
  let ?applies = "\<lambda>r. permits_envd r \<and> np_cidr (nr_peer r) = []"
  have v: "validate_execution gateway_envd gateway_execution = Inr ()" "envd_gateway_auth gateway_envd"
    "?applies (guard_rule Deny ENVD_GUARD_DENY_PRIORITY NetworkPeer_default)"
    "\<forall>s \<in> set (envd_ingress_sources gateway_envd). \<not> ?applies (allow_source s)"
    by code_simp+
  have "policy_traffic (ex_network gateway_execution) = Some gateway_traffic" "tp_rules gateway_traffic = gateway_rules"
    by (simp_all add: policy_traffic_def gateway_execution_def gateway_traffic_def)
  with envd_closed_to_untrusted_peers [OF v(1,2) _ _ v(3,4)] v(1) show ?thesis by (auto simp: list_all_iff)
qed

end
