(* ===== verification/Runtime_Profile.thy ===== *)
theory Runtime_Profile
  imports Probes
begin

text \<open>
  Deployment-owned runtime profiles (\<^verbatim>\<open>platform/crates/core/src/runtime_profile.rs\<close>), with the
  part of \<open>std::path\<close> they use.
\<close>

section \<open>Path components\<close>

datatype path_component = RootDir | CurDir | ParentDir | Normal string

text \<open>
  \<open>Path::components\<close> on Unix: repeated and trailing separators vanish, and \<open>.\<close> survives only as
  the first component of a relative path.
\<close>

definition component_of :: "string \<Rightarrow> path_component option" where
  "component_of part =
     (if part = [] \<or> part = ''.'' then None
      else if part = ''..'' then Some ParentDir
      else Some (Normal part))"

definition components :: "string \<Rightarrow> path_component list" where
  "components path =
     (let parts = split_char CHR ''/'' path;
          rest = List.map_filter component_of parts
      in if starts_with ''/'' path then RootDir # rest
         else if hd parts = ''.'' then CurDir # rest
         else rest)"

definition path_starts_with :: "string \<Rightarrow> string \<Rightarrow> bool" where
  "path_starts_with path base \<longleftrightarrow> take (length (components base)) (components path) = components base"

section \<open>Profiles\<close>

record profile_rootfs =
  prf_runtime_class :: string
  prf_type :: string
  prf_path :: string
  prf_image :: string
  prf_readonly :: bool

record profile_bootstrap =
  pb_type :: string
  pb_root :: string
  pb_image :: string
  pb_target :: string
  pb_entrypoint :: "string list"
  pb_image_process_config :: string

record runtime_profile =
  rpf_rootfs :: profile_rootfs
  rpf_bootstrap :: profile_bootstrap
  rpf_env :: "(string, string) omap"

definition DEFAULT_IMAGE_PROCESS_CONFIG :: string where
  "DEFAULT_IMAGE_PROCESS_CONFIG = ''/etc/adx-image-process.json''"

definition absolute :: "string \<Rightarrow> bool" where
  "absolute v \<longleftrightarrow>
     starts_with ''/'' v \<and> v \<noteq> ''/'' \<and> nul \<notin> set v
     \<and> \<not> list_ex (\<lambda>c. c = ParentDir \<or> c = CurDir) (components v)"

definition valid_image :: "string \<Rightarrow> bool" where
  "valid_image v =
     (case rsplit_once ''@sha256:'' (trim v) of
        None \<Rightarrow> False
      | Some (repository, digest) \<Rightarrow>
          repository \<noteq> [] \<and> \<not> any_whitespace repository \<and> length digest = 64
          \<and> list_all (\<lambda>b. is_digit b \<or> in_range CHR ''a'' CHR ''f'' b) digest)"

definition RuntimeProfile_validate :: "runtime_profile \<Rightarrow> unit result" where
  "RuntimeProfile_validate p =
     (let r = rpf_rootfs p; b = rpf_bootstrap p;
          rootfs_source =
            (if prf_type r = ''local'' then absolute (prf_path r) \<and> prf_image r = []
             else if prf_type r = ''image'' then prf_path r = [] \<and> valid_image (prf_image r)
             else False);
          bootstrap_source =
            (if pb_type b = ''erofs'' then absolute (pb_root b) \<and> pb_image b = []
             else if pb_type b = ''image'' then pb_root b = [] \<and> valid_image (pb_image b)
             else False);
          matching_sources =
            (if prf_type r = ''local'' \<and> pb_type b = ''erofs'' then prf_path r = pb_root b
             else if prf_type r = ''image'' \<and> pb_type b = ''image'' then prf_image r = pb_image b
             else False)
      in if \<not> rootfs_source \<or> \<not> bootstrap_source \<or> \<not> matching_sources
            \<or> blank (prf_runtime_class r) \<or> \<not> absolute (pb_target b)
            \<or> \<not> absolute (pb_image_process_config b)
            \<or> (case pb_entrypoint b of
                 [] \<Rightarrow> True
               | v # _ \<Rightarrow> \<not> absolute v \<or> \<not> path_starts_with v (pb_target b))
            \<or> list_ex (\<lambda>v. nul \<in> set v) (pb_entrypoint b)
            \<or> list_ex (\<lambda>(k, v). k = [] \<or> CHR ''='' \<in> set k \<or> nul \<in> set k \<or> nul \<in> set v) (rpf_env p)
         then Inl (Invalid ''runtime profile requires one matching local/EROFS or OCI image source, an absolute target and an entrypoint beneath it'')
         else Inr ())"

section \<open>Properties\<close>

lemma rest_not_curdir: "CurDir \<notin> set (List.map_filter component_of parts)"
  by (auto simp: List.map_filter_def component_of_def split: if_splits)

lemma rest_not_rootdir: "RootDir \<notin> set (List.map_filter component_of parts)"
  by (auto simp: List.map_filter_def component_of_def split: if_splits)

lemma absolute_components:
  assumes "absolute v"
  shows "\<exists>names. components v = RootDir # map Normal names"
proof -
  let ?rest = "List.map_filter component_of (split_char CHR ''/'' v)"
  have c: "components v = RootDir # ?rest" and "ParentDir \<notin> set ?rest"
    using assms by (auto simp: absolute_def components_def Let_def list_ex_iff)
  then have "\<forall>x \<in> set ?rest. \<exists>n. x = Normal n"
    using rest_not_curdir rest_not_rootdir by (metis path_component.exhaust)
  then obtain names where "?rest = map Normal names"
    by (metis ex_map_conv)
  with c show ?thesis by auto
qed

text \<open>
  C9. The bootstrap of a validated runtime profile runs beneath its target. Both paths consist of
  the root and plain names only, and the entrypoint's components extend the target's, so no
  component climbs out of the target directory.
\<close>

theorem entrypoint_beneath_target:
  assumes "RuntimeProfile_validate p = Inr ()"
  shows "\<exists>command args target more. pb_entrypoint (rpf_bootstrap p) = command # args
           \<and> components (pb_target (rpf_bootstrap p)) = RootDir # map Normal target
           \<and> components command = RootDir # map Normal (target @ more)"
proof -
  let ?b = "rpf_bootstrap p"
  from assms obtain command args where e: "pb_entrypoint ?b = command # args"
    and abs: "absolute (pb_target ?b)" "absolute command"
    and pre: "path_starts_with command (pb_target ?b)"
    by (auto simp: RuntimeProfile_validate_def Let_def split: if_splits list.splits)
  obtain target names where t: "components (pb_target ?b) = RootDir # map Normal target"
    and n: "components command = RootDir # map Normal names"
    using abs absolute_components by metis
  have "map Normal (take (length target) names) = map Normal target"
    using pre by (simp add: path_starts_with_def t n take_map)
  then have "take (length target) names = target"
    by (simp add: inj_map_eq_map inj_def)
  then have "names = target @ drop (length target) names"
    by (metis append_take_drop_id)
  with e t n show ?thesis by metis
qed

definition local_profile :: runtime_profile where
  "local_profile =
     \<lparr>rpf_rootfs = \<lparr>prf_runtime_class = ''kata'', prf_type = ''local'', prf_path = ''/r'', prf_image = [],
                    prf_readonly = True\<rparr>,
      rpf_bootstrap = \<lparr>pb_type = ''erofs'', pb_root = ''/r'', pb_image = [], pb_target = ''/opt'',
                       pb_entrypoint = [''/opt//run''], pb_image_process_config = DEFAULT_IMAGE_PROCESS_CONFIG\<rparr>,
      rpf_env = []\<rparr>"

theorem entrypoint_beneath_target_witness:
  "RuntimeProfile_validate local_profile = Inr () \<and> components ''/opt//run'' = [RootDir, Normal ''opt'', Normal ''run'']
   \<and> (\<exists>command args. pb_entrypoint (rpf_bootstrap local_profile) = command # args)"
proof -
  have v: "RuntimeProfile_validate local_profile = Inr ()"
    "components ''/opt//run'' = [RootDir, Normal ''opt'', Normal ''run'']"
    by code_simp+
  with entrypoint_beneath_target [OF v(1)] show ?thesis by blast
qed

text \<open>
  \<open>absolute\<close> tests for \<open>Component::CurDir\<close>, but an absolute path never yields that component: a
  \<open>.\<close> inside the path is dropped before the test sees it, so such paths are accepted.
\<close>

lemma absolute_accepts_dot: "absolute ''/opt/./run''"
  by code_simp

lemma absolute_never_curdir: "starts_with ''/'' v \<Longrightarrow> CurDir \<notin> set (components v)"
  by (simp add: components_def Let_def rest_not_curdir)

end
