(* ===== verification/Devices.thy ===== *)
theory Devices
  imports Core_Error "HOL-Library.Multiset"
begin

text \<open>
  Whole-card devices (\<^verbatim>\<open>platform/crates/core/src/scheduling.rs\<close>): requests, the greedy selection
  \<open>select_devices\<close>, the check of an assignment, and the node ledger of cards \<open>DeviceLedger\<close>.
\<close>

section \<open>Data\<close>

datatype device_kind = Gpu | Npu

instantiation device_kind :: linorder
begin

definition less_eq_device_kind :: "device_kind \<Rightarrow> device_kind \<Rightarrow> bool" where
  "less_eq_device_kind a b \<longleftrightarrow> a = Gpu \<or> b = Npu"

definition less_device_kind :: "device_kind \<Rightarrow> device_kind \<Rightarrow> bool" where
  "less_device_kind a b \<longleftrightarrow> a = Gpu \<and> b = Npu"

instance
proof
  fix x y z :: device_kind
  show "x < y \<longleftrightarrow> x \<le> y \<and> \<not> y \<le> x" "x \<le> x" "x \<le> y \<or> y \<le> x"
    by (cases x; cases y; simp add: less_eq_device_kind_def less_device_kind_def)+
  show "x \<le> y \<Longrightarrow> y \<le> z \<Longrightarrow> x \<le> z" "x \<le> y \<Longrightarrow> y \<le> x \<Longrightarrow> x = y"
    by (cases x; cases y; cases z; simp add: less_eq_device_kind_def)+
qed

end

type_synonym device_key = "device_kind \<times> u32"

record device =
  dev_id :: u32
  dev_kind :: device_kind
  dev_model :: string
  healthy :: bool

record device_allocation =
  alloc_id :: u32
  alloc_kind :: device_kind
  alloc_model :: string

record device_request =
  req_kind :: device_kind
  req_model :: "string option"
  req_count :: u32

definition dev_key :: "device \<Rightarrow> device_key" where
  "dev_key d = (dev_kind d, dev_id d)"

definition alloc_key :: "device_allocation \<Rightarrow> device_key" where
  "alloc_key a = (alloc_kind a, alloc_id a)"

definition req_key :: "device_request \<Rightarrow> device_kind \<times> string option" where
  "req_key r = (req_kind r, req_model r)"

definition alloc_of :: "device \<Rightarrow> device_allocation" where
  "alloc_of d = \<lparr>alloc_id = dev_id d, alloc_kind = dev_kind d, alloc_model = dev_model d\<rparr>"

definition device_of :: "device_allocation \<Rightarrow> device" where
  "device_of a = \<lparr>dev_id = alloc_id a, dev_kind = alloc_kind a, dev_model = alloc_model a, healthy = True\<rparr>"

lemma alloc_of_simps [simp]:
  "alloc_id (alloc_of d) = dev_id d" "alloc_kind (alloc_of d) = dev_kind d"
  "alloc_model (alloc_of d) = dev_model d"
  by (simp_all add: alloc_of_def)

lemma alloc_key_alloc_of [simp]: "alloc_key (alloc_of d) = dev_key d"
  by (simp add: alloc_key_def dev_key_def)

lemma device_of_simps [simp]:
  "dev_id (device_of a) = alloc_id a" "dev_kind (device_of a) = alloc_kind a"
  "dev_model (device_of a) = alloc_model a" "healthy (device_of a)"
  by (simp_all add: device_of_def)

lemma dev_key_device_of [simp]: "dev_key (device_of a) = alloc_key a"
  by (simp add: alloc_key_def dev_key_def)

section \<open>Validation\<close>

definition nonempty :: "string \<Rightarrow> unit result" where
  "nonempty value =
     (if blank value then Inl (Invalid ''empty identity or label key'') else Inr ())"

lemma nonempty_ok [simp]: "nonempty s = Inr u \<longleftrightarrow> \<not> blank s"
  by (simp add: nonempty_def)

fun validate_requests_from ::
  "(device_kind \<times> string option) list \<Rightarrow> device_request list \<Rightarrow> unit result" where
  "validate_requests_from seen [] = Inr ()"
| "validate_requests_from seen (r # rs) =
     (if req_count r = 0 \<or> is_some_and blank (req_model r) \<or> req_key r \<in> set seen
      then Inl (Invalid ''invalid or duplicate device request'')
      else validate_requests_from (req_key r # seen) rs)"

definition validate_requests :: "device_request list \<Rightarrow> unit result" where
  "validate_requests requests = validate_requests_from [] requests"

fun validate_inventory_from :: "device_key list \<Rightarrow> device list \<Rightarrow> unit result" where
  "validate_inventory_from seen [] = Inr ()"
| "validate_inventory_from seen (d # ds) =
     bindE (nonempty (dev_model d)) (\<lambda>_.
       if dev_key d \<in> set seen then Inl (Invalid ''duplicate physical device'')
       else validate_inventory_from (dev_key d # seen) ds)"

definition validate_inventory :: "device list \<Rightarrow> unit result" where
  "validate_inventory devices = validate_inventory_from [] devices"

fun validate_allocations_from :: "device_key list \<Rightarrow> device_allocation list \<Rightarrow> unit result" where
  "validate_allocations_from seen [] = Inr ()"
| "validate_allocations_from seen (a # as) =
     bindE (nonempty (alloc_model a)) (\<lambda>_.
       if alloc_key a \<in> set seen then Inl (Invalid ''duplicate allocated device'')
       else validate_allocations_from (alloc_key a # seen) as)"

definition validate_allocations :: "device_allocation list \<Rightarrow> unit result" where
  "validate_allocations devices = validate_allocations_from [] devices"

lemma validate_requests_from_ok:
  "validate_requests_from seen rs = Inr u \<longleftrightarrow>
     (\<forall>r \<in> set rs. req_count r \<noteq> 0 \<and> \<not> is_some_and blank (req_model r) \<and> req_key r \<notin> set seen)
     \<and> distinct (map req_key rs)"
  by (induction rs arbitrary: seen) (auto simp: image_iff)

lemma validate_requests_ok:
  "validate_requests rs = Inr u \<longleftrightarrow>
     (\<forall>r \<in> set rs. req_count r \<noteq> 0 \<and> \<not> is_some_and blank (req_model r)) \<and> distinct (map req_key rs)"
  by (simp add: validate_requests_def validate_requests_from_ok)

lemma validate_inventory_from_ok:
  "validate_inventory_from seen ds = Inr u \<longleftrightarrow>
     (\<forall>d \<in> set ds. \<not> blank (dev_model d) \<and> dev_key d \<notin> set seen) \<and> distinct (map dev_key ds)"
  by (induction ds arbitrary: seen) (auto simp: result_simps image_iff)

lemma validate_inventory_ok:
  "validate_inventory ds = Inr u \<longleftrightarrow>
     (\<forall>d \<in> set ds. \<not> blank (dev_model d)) \<and> distinct (map dev_key ds)"
  by (simp add: validate_inventory_def validate_inventory_from_ok)

lemma validate_allocations_from_ok:
  "validate_allocations_from seen as = Inr u \<longleftrightarrow>
     (\<forall>a \<in> set as. \<not> blank (alloc_model a) \<and> alloc_key a \<notin> set seen) \<and> distinct (map alloc_key as)"
  by (induction as arbitrary: seen) (auto simp: result_simps image_iff)

lemma validate_allocations_ok:
  "validate_allocations as = Inr u \<longleftrightarrow>
     (\<forall>a \<in> set as. \<not> blank (alloc_model a)) \<and> distinct (map alloc_key as)"
  by (simp add: validate_allocations_def validate_allocations_from_ok)

lemmas validate_device_oks = validate_requests_ok validate_inventory_ok validate_allocations_ok

section \<open>Selection\<close>

definition matches_request :: "device_request \<Rightarrow> device \<Rightarrow> bool" where
  "matches_request r d \<longleftrightarrow>
     dev_kind d = req_kind r \<and> is_none_or (\<lambda>m. m = dev_model d) (req_model r)"

text \<open>The inner loop: scan the devices until the count of the request is reached.\<close>

fun pick_devices ::
  "device_request \<Rightarrow> device list \<Rightarrow> nat \<Rightarrow> device_key list \<Rightarrow> device_allocation list
     \<Rightarrow> nat \<times> device_key list \<times> device_allocation list" where
  "pick_devices r [] cnt taken acc = (cnt, taken, acc)"
| "pick_devices r (d # ds) cnt taken acc =
     (if cnt = unat (req_count r) then (cnt, taken, acc)
      else if matches_request r d \<and> dev_key d \<notin> set taken
      then pick_devices r ds (cnt + 1) (dev_key d # taken) (acc @ [alloc_of d])
      else pick_devices r ds cnt taken acc)"

fun select_loop ::
  "device_request list \<Rightarrow> device list \<Rightarrow> device_key list \<Rightarrow> device_allocation list
     \<Rightarrow> device_allocation list result" where
  "select_loop [] ds taken acc = Inr acc"
| "select_loop (r # rs) ds taken acc =
     (case pick_devices r ds 0 taken acc of
        (cnt, taken', acc') \<Rightarrow>
          if cnt \<noteq> unat (req_count r) then Inl NoCapacity else select_loop rs ds taken' acc')"

definition request_order :: "device_request \<Rightarrow> bool \<times> device_kind \<times> string option" where
  "request_order r = (req_model r = None, req_kind r, req_model r)"

definition select_devices ::
  "device_request list \<Rightarrow> device list \<Rightarrow> device_allocation list result" where
  "select_devices requests devices =
     bindE (validate_requests requests) (\<lambda>_.
     bindE (validate_inventory devices) (\<lambda>_.
     bindE (select_loop (sort_key request_order requests)
              (sort_key dev_key (filter healthy devices)) [] []) (\<lambda>result.
     Inr (sort_key alloc_key result))))"

definition validate_device_assignment ::
  "device_request list \<Rightarrow> device_allocation list \<Rightarrow> unit result" where
  "validate_device_assignment requests allocated =
     bindE (validate_allocations allocated) (\<lambda>_.
     bindE (select_devices requests (map device_of allocated)) (\<lambda>selected.
     if length selected \<noteq> length allocated
     then Inl (Invalid ''device allocation does not match request'') else Inr ()))"

section \<open>Correctness of the selection\<close>

text \<open>
  The reference notion: an assignment gives every request its own set of healthy matching devices
  of the requested size, and no device to two requests.
\<close>

definition device_assignment ::
  "device_request list \<Rightarrow> device list \<Rightarrow> (device_request \<Rightarrow> device set) \<Rightarrow> bool" where
  "device_assignment rs ds S \<longleftrightarrow>
     (\<forall>r \<in> set rs. S r \<subseteq> {d \<in> set ds. healthy d \<and> matches_request r d}
                  \<and> card (S r) = unat (req_count r))
     \<and> (\<forall>r \<in> set rs. \<forall>r' \<in> set rs. r \<noteq> r' \<longrightarrow> S r \<inter> S r' = {})"

definition free_matches :: "device_request \<Rightarrow> device list \<Rightarrow> device_key list \<Rightarrow> device list" where
  "free_matches r ds taken = filter (\<lambda>d. matches_request r d \<and> dev_key d \<notin> set taken) ds"

lemma pick_devices_eq:
  assumes "distinct (map dev_key ds)" "c \<le> unat (req_count r)"
  shows "pick_devices r ds c taken acc =
    (let sel = take (unat (req_count r) - c) (free_matches r ds taken)
     in (c + length sel, rev (map dev_key sel) @ taken, acc @ map alloc_of sel))"
  using assms
proof (induction r ds c taken acc rule: pick_devices.induct)
  case (2 r d ds c taken acc)
  have skip: "free_matches r ds (dev_key d # taken) = free_matches r ds taken"
    using "2.prems"(1) by (auto simp: free_matches_def image_iff intro!: filter_cong)
  show ?case
  proof (cases "c = unat (req_count r)")
    case False
    then obtain n where "unat (req_count r) - c = Suc n" "unat (req_count r) - (c + 1) = n"
      using "2.prems"(2) by (cases "unat (req_count r) - c") auto
    then show ?thesis
      using False 2 skip by (simp add: free_matches_def Let_def)
  qed (simp add: Let_def)
qed (simp add: free_matches_def Let_def)

lemma free_matches_props:
  assumes "distinct (map dev_key ds)"
  shows "distinct (free_matches r ds taken)"
    and "set (free_matches r ds taken) = {d \<in> set ds. matches_request r d \<and> dev_key d \<notin> set taken}"
  using assms by (auto simp: free_matches_def distinct_map)

lemma pick_step:
  assumes "distinct (map dev_key ds)"
  defines "sel \<equiv> \<lambda>r taken. take (unat (req_count r)) (free_matches r ds taken)"
  shows "select_loop (r # rs) ds taken acc =
    (if unat (req_count r) \<le> length (free_matches r ds taken)
     then select_loop rs ds (rev (map dev_key (sel r taken)) @ taken) (acc @ map alloc_of (sel r taken))
     else Inl NoCapacity)"
  using assms by (simp add: pick_devices_eq Let_def min_def)

text \<open>Soundness: what the loop returns is an assignment of devices that were free.\<close>

lemma select_loop_sound:
  assumes "distinct (map dev_key ds)" "distinct rs" "select_loop rs ds taken acc = Inr out"
  shows "\<exists>S. (\<forall>r \<in> set rs. S r \<subseteq> {d \<in> set ds. matches_request r d \<and> dev_key d \<notin> set taken}
                 \<and> card (S r) = unat (req_count r))
           \<and> (\<forall>r \<in> set rs. \<forall>r' \<in> set rs. r \<noteq> r' \<longrightarrow> S r \<inter> S r' = {})
           \<and> set out = set acc \<union> alloc_of ` (\<Union>r \<in> set rs. S r)"
  using assms(2,3)
proof (induction rs arbitrary: taken acc)
  case Nil
  then show ?case by auto
next
  case (Cons r rs)
  define sel where "sel = take (unat (req_count r)) (free_matches r ds taken)"
  have enough: "unat (req_count r) \<le> length (free_matches r ds taken)"
    and rest: "select_loop rs ds (rev (map dev_key sel) @ taken) (acc @ map alloc_of sel) = Inr out"
    using Cons.prems(2) assms(1) by (simp_all add: pick_step sel_def del: select_loop.simps split: if_splits)
  have sel: "set sel \<subseteq> {d \<in> set ds. matches_request r d \<and> dev_key d \<notin> set taken}"
    by (auto simp: sel_def free_matches_def dest: in_set_takeD)
  have card: "card (set sel) = unat (req_count r)"
    using enough free_matches_props(1) [OF assms(1)] by (simp add: sel_def distinct_card)
  from Cons.IH [OF _ rest] Cons.prems(1) obtain S where
    S: "\<forall>q \<in> set rs. S q \<subseteq> {d \<in> set ds. matches_request q d \<and> dev_key d \<notin> set (rev (map dev_key sel) @ taken)}
          \<and> card (S q) = unat (req_count q)"
      "\<forall>q \<in> set rs. \<forall>q' \<in> set rs. q \<noteq> q' \<longrightarrow> S q \<inter> S q' = {}"
      "set out = set (acc @ map alloc_of sel) \<union> alloc_of ` (\<Union>q \<in> set rs. S q)"
    by auto
  have disjoint: "S q \<inter> set sel = {}" if "q \<in> set rs" for q
    using S(1) that by fastforce
  have "r \<notin> set rs" using Cons.prems(1) by simp
  then have eq: "(S(r := set sel)) q = S q" if "q \<in> set rs" for q
    using that by auto
  show ?case
    by (rule exI [of _ "S(r := set sel)"])
       (use S sel card disjoint eq \<open>r \<notin> set rs\<close> in \<open>auto simp: image_Un\<close>)
qed

text \<open>
  Completeness. Model-specific requests come first, so a wildcard request never takes the last
  card of a specific one: it is enough that each specific request finds its own cards and that a
  wildcard request finds its cards beside those of the specific requests of its kind.
\<close>

definition specific_demand :: "device_kind \<Rightarrow> device_request list \<Rightarrow> nat" where
  "specific_demand k rs =
     (\<Sum>q \<leftarrow> filter (\<lambda>q. req_model q \<noteq> None \<and> req_kind q = k) rs. unat (req_count q))"

definition demand :: "device_request \<Rightarrow> device_request list \<Rightarrow> nat" where
  "demand r rs = unat (req_count r) + (if req_model r = None then specific_demand (req_kind r) rs else 0)"

definition enough_devices :: "device_request list \<Rightarrow> device list \<Rightarrow> device_key list \<Rightarrow> bool" where
  "enough_devices rs ds taken \<longleftrightarrow> (\<forall>r \<in> set rs. demand r rs \<le> length (free_matches r ds taken))"

definition specific_first :: "device_request list \<Rightarrow> bool" where
  "specific_first rs = sorted_wrt (\<lambda>a b. req_model a = None \<longrightarrow> req_model b = None) rs"

lemma free_matches_after:
  assumes "distinct (map dev_key ds)" "set sel \<subseteq> set (free_matches r ds taken)" "distinct sel"
  shows "length (free_matches q ds (rev (map dev_key sel) @ taken)) + length (filter (matches_request q) sel)
         = length (free_matches q ds taken)"
proof -
  let ?A = "{d \<in> set ds. matches_request q d \<and> dev_key d \<notin> set taken}"
  let ?B = "{d \<in> set sel. matches_request q d}"
  have inj: "inj_on dev_key (set ds)" and sub: "set sel \<subseteq> set ds" "\<forall>d \<in> set sel. dev_key d \<notin> set taken"
    using assms by (auto simp: distinct_map free_matches_props)
  have "{d \<in> set ds. matches_request q d \<and> dev_key d \<notin> set (rev (map dev_key sel) @ taken)} = ?A - ?B"
    using inj sub by (auto dest: inj_onD)
  moreover have "?B \<subseteq> ?A" using sub by auto
  ultimately have "card {d \<in> set ds. matches_request q d \<and> dev_key d \<notin> set (rev (map dev_key sel) @ taken)}
      + card ?B = card ?A"
    by (simp add: card_Diff_subset card_mono)
  moreover have "length (filter (matches_request q) sel) = card ?B"
    using assms(3) by (simp flip: distinct_card)
  ultimately show ?thesis
    using free_matches_props [OF assms(1)] by (metis distinct_card)
qed

lemma matches_two_requests:
  assumes "matches_request r d" "matches_request q d" "req_key r \<noteq> req_key q"
  shows "req_kind r = req_kind q \<and> (req_model r = None \<or> req_model q = None)"
  using assms by (cases "req_model r"; cases "req_model q") (auto simp: matches_request_def req_key_def)

lemma demand_step:
  assumes "distinct (map req_key (r # rs))" "specific_first (r # rs)" "q \<in> set rs"
    and "\<forall>d \<in> set sel. matches_request r d" "length sel = unat (req_count r)"
  shows "demand q rs + length (filter (matches_request q) sel) \<le> demand q (r # rs)"
proof (cases "req_model r \<noteq> None \<and> req_model q = None \<and> req_kind r = req_kind q")
  case True
  then show ?thesis
    using assms(5) length_filter_le [of "matches_request q" sel]
    by (simp add: demand_def specific_demand_def)
next
  case False
  have "req_key r \<noteq> req_key q"
    using assms(1,3) by (auto simp: image_iff)
  moreover have "req_model r = None \<longrightarrow> req_model q = None"
    using assms(2,3) by (simp add: specific_first_def)
  ultimately have "\<not> matches_request q d" if "d \<in> set sel" for d
    using False that assms(4) matches_two_requests by (metis prod.inject req_key_def)
  then have "filter (matches_request q) sel = []"
    by simp
  then show ?thesis
    by (simp add: demand_def specific_demand_def)
qed

lemma select_loop_complete:
  assumes "distinct (map dev_key ds)"
  shows "distinct (map req_key rs) \<Longrightarrow> specific_first rs \<Longrightarrow> enough_devices rs ds taken \<Longrightarrow>
         \<exists>out. select_loop rs ds taken acc = Inr out"
proof (induction rs arbitrary: taken acc)
  case (Cons r rs)
  define sel where "sel = take (unat (req_count r)) (free_matches r ds taken)"
  have enough: "unat (req_count r) \<le> length (free_matches r ds taken)"
    using Cons.prems(3) by (auto simp: enough_devices_def demand_def)
  have "enough_devices rs ds (rev (map dev_key sel) @ taken)"
    unfolding enough_devices_def
  proof
    fix q assume q: "q \<in> set rs"
    have sel: "set sel \<subseteq> set (free_matches r ds taken)" "distinct sel" "length sel = unat (req_count r)"
      using enough free_matches_props(1) [OF assms] by (auto simp: sel_def dest: in_set_takeD)
    then have "\<forall>d \<in> set sel. matches_request r d"
      by (auto simp: free_matches_def)
    then have "demand q rs + length (filter (matches_request q) sel) \<le> demand q (r # rs)"
      using demand_step Cons.prems(1,2) q sel(3) by blast
    moreover have "demand q (r # rs) \<le> length (free_matches q ds taken)"
      using Cons.prems(3) q by (simp add: enough_devices_def)
    ultimately show "demand q rs \<le> length (free_matches q ds (rev (map dev_key sel) @ taken))"
      using free_matches_after [OF assms sel(1,2), of q] by linarith
  qed
  then show ?case
    using Cons.IH Cons.prems(1,2) enough
    by (simp add: pick_step [OF assms] sel_def specific_first_def del: select_loop.simps)
qed simp

text \<open>The sorted request list serves specific requests first and holds the same requests.\<close>

lemma specific_first_sorted: "specific_first (sort_key request_order rs)"
proof -
  have "sorted_wrt (\<lambda>a b. request_order a \<le> request_order b) (sort_key request_order rs)"
    using sorted_sort_key [of request_order rs] by (simp add: sorted_map)
  then show ?thesis
    unfolding specific_first_def
    by (rule sorted_wrt_mono_rel [rotated]) (auto simp: request_order_def less_eq_prod_def)
qed

lemma sorted_requests_props:
  assumes "validate_requests rs = Inr ()"
  shows "distinct (map req_key (sort_key request_order rs))" "distinct (sort_key request_order rs)"
proof -
  have d: "distinct (map req_key rs)" using assms by (simp add: validate_requests_ok)
  then show "distinct (map req_key (sort_key request_order rs))"
    by (simp add: distinct_map)
  from d show "distinct (sort_key request_order rs)"
    by (simp add: distinct_map)
qed

lemma sorted_devices_props:
  assumes "validate_inventory ds = Inr ()"
  shows "distinct (map dev_key (sort_key dev_key (filter healthy ds)))"
  using assms by (auto simp: validate_inventory_ok distinct_map inj_on_def)

lemma specific_demand_sum:
  assumes "distinct rs"
  shows "specific_demand k rs =
         (\<Sum>q \<in> {q \<in> set rs. req_model q \<noteq> None \<and> req_kind q = k}. unat (req_count q))"
  using assms by (simp add: specific_demand_def sum_list_distinct_conv_sum_set)

text \<open>A wildcard request and the specific requests of its kind have disjoint shares of one kind.\<close>

lemma assignment_demand:
  assumes S: "device_assignment rs ds S" and d: "distinct rs" "distinct ds" and r: "r \<in> set rs"
  shows "demand r rs \<le> card {d \<in> set ds. healthy d \<and> matches_request r d}"
proof (cases "req_model r")
  case (Some m)
  have "card (S r) \<le> card {d \<in> set ds. healthy d \<and> matches_request r d}"
    using S r by (intro card_mono) (auto simp: device_assignment_def)
  with S r Some show ?thesis
    by (simp add: demand_def device_assignment_def)
next
  case None
  define Q where "Q = insert r {q \<in> set rs. req_model q \<noteq> None \<and> req_kind q = req_kind r}"
  have Q: "Q \<subseteq> set rs" "finite Q" using r by (auto simp: Q_def)
  have finite: "finite (S q)" if "q \<in> Q" for q
    using S Q that by (auto simp: device_assignment_def intro: finite_subset [OF _ finite_set])
  have disjoint: "S q \<inter> S q' = {}" if "q \<in> Q" "q' \<in> Q" "q \<noteq> q'" for q q'
    using S Q that unfolding device_assignment_def by blast
  have "demand r rs = (\<Sum>q \<in> Q. card (S q))"
    using S Q None d(1) r
    by (simp add: Q_def demand_def specific_demand_sum device_assignment_def)
  also have "\<dots> = card (\<Union>q \<in> Q. S q)"
    using Q finite disjoint by (intro card_UN_disjoint [symmetric]) auto
  also have "(\<Union>q \<in> Q. S q) \<subseteq> {d \<in> set ds. healthy d \<and> matches_request r d}"
  proof
    fix x assume "x \<in> (\<Union>q \<in> Q. S q)"
    then obtain q where q: "q \<in> Q" "x \<in> S q" by auto
    then have "x \<in> set ds" "healthy x" "matches_request q x" "req_kind q = req_kind r"
      using S Q by (auto simp: device_assignment_def Q_def)
    with None show "x \<in> {d \<in> set ds. healthy d \<and> matches_request r d}"
      by (simp add: matches_request_def)
  qed
  then have "card (\<Union>q \<in> Q. S q) \<le> card {d \<in> set ds. healthy d \<and> matches_request r d}"
    by (intro card_mono) auto
  finally show ?thesis .
qed

lemma free_matches_sorted:
  assumes "distinct ds"
  shows "length (free_matches r (sort_key k (filter healthy ds)) []) =
         card {d \<in> set ds. healthy d \<and> matches_request r d}"
  using assms
  by (subst distinct_card [symmetric]) (auto simp: free_matches_def intro!: arg_cong [of _ _ card])

lemma enough_devices_if_assignment:
  assumes "device_assignment rs ds S" "distinct rs" "distinct ds"
  shows "enough_devices (sort_key f rs) (sort_key k (filter healthy ds)) []"
proof -
  have "specific_demand x (sort_key f rs) = specific_demand x rs" for x
    using assms(2) by (simp add: specific_demand_sum)
  then have "demand r (sort_key f rs) = demand r rs" for r
    by (simp add: demand_def)
  then show ?thesis
    using assignment_demand [OF assms] assms(3) by (simp add: enough_devices_def free_matches_sorted)
qed

lemma assignment_select_succeeds:
  assumes "validate_requests rs = Inr ()" "validate_inventory ds = Inr ()" "device_assignment rs ds S"
  shows "\<exists>out. select_devices rs ds = Inr out"
proof -
  have "distinct rs" "distinct ds"
    using assms(1,2) by (auto simp: validate_device_oks distinct_map)
  then have "enough_devices (sort_key request_order rs) (sort_key dev_key (filter healthy ds)) []"
    using enough_devices_if_assignment assms(3) by blast
  then obtain out where "select_loop (sort_key request_order rs) (sort_key dev_key (filter healthy ds)) [] [] = Inr out"
    using select_loop_complete [OF sorted_devices_props [OF assms(2)] sorted_requests_props(1) [OF assms(1)]
        specific_first_sorted] by blast
  then show ?thesis
    using assms(1,2) by (simp add: select_devices_def)
qed

lemma select_loop_length:
  assumes "distinct (map dev_key ds)"
  shows "select_loop rs ds taken acc = Inr out \<Longrightarrow>
         length out = length acc + (\<Sum>r \<leftarrow> rs. unat (req_count r))"
proof (induction rs arbitrary: taken acc)
  case (Cons r rs)
  then show ?case
    by (fastforce simp: pick_step [OF assms] min_def simp del: select_loop.simps split: if_splits)
qed simp

lemma select_loop_error: "select_loop rs ds taken acc = Inl e \<Longrightarrow> e = NoCapacity"
  by (induction rs ds taken acc rule: select_loop.induct) (auto split: prod.splits if_splits)

lemma assignment_card:
  assumes "device_assignment rs ds S" "distinct rs"
  shows "card (\<Union>r \<in> set rs. S r) = (\<Sum>r \<leftarrow> rs. unat (req_count r))"
proof -
  have "finite (S r)" if "r \<in> set rs" for r
    using assms that by (auto simp: device_assignment_def intro: finite_subset [OF _ finite_set])
  moreover have "S r \<inter> S q = {}" if "r \<in> set rs" "q \<in> set rs" "r \<noteq> q" for r q
    using assms(1) that unfolding device_assignment_def by blast
  ultimately have "card (\<Union>r \<in> set rs. S r) = (\<Sum>r \<in> set rs. card (S r))"
    by (intro card_UN_disjoint) auto
  also have "\<dots> = (\<Sum>r \<in> set rs. unat (req_count r))"
    using assms(1) by (simp add: device_assignment_def)
  finally show ?thesis
    using assms(2) by (simp add: sum_list_distinct_conv_sum_set)
qed

lemma select_devices_length:
  assumes "select_devices rs ds = Inr out"
  shows "length out = (\<Sum>r \<leftarrow> rs. unat (req_count r))"
proof -
  from assms obtain res where v: "validate_requests rs = Inr ()" "validate_inventory ds = Inr ()"
    and res: "select_loop (sort_key request_order rs) (sort_key dev_key (filter healthy ds)) [] [] = Inr res"
    and out: "out = sort_key alloc_key res"
    by (auto simp: select_devices_def result_simps)
  have "distinct rs"
    using v by (auto simp: validate_device_oks distinct_map)
  then show ?thesis
    using select_loop_length [OF sorted_devices_props [OF v(2)] res]
    by (simp add: out sum_list_distinct_conv_sum_set)
qed

lemma select_devices_sound:
  assumes "select_devices rs ds = Inr out"
  shows "\<exists>S. device_assignment rs ds S \<and> set out = alloc_of ` (\<Union>r \<in> set rs. S r)
           \<and> sorted_wrt (<) (map alloc_key out)"
proof -
  from assms obtain res where v: "validate_requests rs = Inr ()" "validate_inventory ds = Inr ()"
    and res: "select_loop (sort_key request_order rs) (sort_key dev_key (filter healthy ds)) [] [] = Inr res"
    and out: "out = sort_key alloc_key res"
    by (auto simp: select_devices_def result_simps)
  have d: "distinct rs" "inj_on dev_key (set ds)"
    using v by (auto simp: validate_device_oks distinct_map)
  obtain S where S: "device_assignment rs ds S" "set res = alloc_of ` (\<Union>r \<in> set rs. S r)"
    using select_loop_sound [OF sorted_devices_props [OF v(2)] sorted_requests_props(2) [OF v(1)] res]
    by (auto simp: device_assignment_def)
  define U where "U = (\<Union>r \<in> set rs. S r)"
  have sub: "U \<subseteq> set ds"
    using S(1) by (auto simp: U_def device_assignment_def)
  have "inj_on (alloc_key \<circ> alloc_of) U"
    using inj_on_subset [OF d(2) sub] by (simp add: comp_def)
  then have inj: "inj_on alloc_key (alloc_of ` U)" "inj_on alloc_of U"
    by (rule inj_on_imageI, rule inj_on_imageI2)
  have "length res = (\<Sum>r \<leftarrow> rs. unat (req_count r))"
    using select_devices_length [OF assms] by (simp add: out)
  also have "\<dots> = card U"
    using assignment_card [OF S(1) d(1)] by (simp add: U_def)
  also have "\<dots> = card (set res)"
    using S(2) inj(2) by (simp add: card_image U_def)
  finally have "distinct (map alloc_key res)"
    using S(2) inj(1) by (simp add: card_distinct distinct_map U_def)
  then have "distinct (map alloc_key out)"
    by (simp add: out distinct_map)
  moreover have "sorted (map alloc_key out)"
    by (simp add: out)
  ultimately show ?thesis
    using S by (auto simp: out strict_sorted_iff)
qed

text \<open>
  C3. \<open>select_devices\<close> is sound and complete for valid inputs. A result is the set of healthy
  devices of some assignment of disjoint, matching, exactly sized shares to the requests, listed
  without repetition in kind and identifier order; and the only failure is \<open>NoCapacity\<close>, returned
  only when no such assignment exists at all.
\<close>

theorem select_devices_correct:
  assumes "validate_requests rs = Inr ()" and "validate_inventory ds = Inr ()"
  shows "case select_devices rs ds of
           Inr out \<Rightarrow> \<exists>S. device_assignment rs ds S \<and> set out = alloc_of ` (\<Union>r \<in> set rs. S r)
                        \<and> sorted_wrt (<) (map alloc_key out)
         | Inl e \<Rightarrow> e = NoCapacity \<and> (\<forall>S. \<not> device_assignment rs ds S)"
proof (cases "select_devices rs ds")
  case (Inr out)
  then show ?thesis using select_devices_sound by auto
next
  case (Inl e)
  then have "e = NoCapacity"
    using assms select_loop_error
    by (cases "select_loop (sort_key request_order rs) (sort_key dev_key (filter healthy ds)) [] []")
       (auto simp: select_devices_def)
  moreover have "\<not> device_assignment rs ds S" for S
    using assignment_select_succeeds [OF assms, of S] Inl by auto
  ultimately show ?thesis using Inl by simp
qed

text \<open>
  Whatever \<open>select_devices\<close> chooses passes \<open>validate_device_assignment\<close> for the same requests:
  the scheduler's choice is always accepted by the ledgers that check it again.
\<close>

theorem selected_devices_validate:
  assumes "select_devices rs ds = Inr out"
  shows "validate_device_assignment rs out = Inr ()"
proof -
  have v: "validate_requests rs = Inr ()" "validate_inventory ds = Inr ()"
    using assms by (auto simp: select_devices_def result_simps)
  from select_devices_sound [OF assms] obtain S where
    S: "device_assignment rs ds S" "set out = alloc_of ` (\<Union>r \<in> set rs. S r)"
      "sorted_wrt (<) (map alloc_key out)" by auto
  have d: "distinct (map alloc_key out)" "distinct rs"
    using S(3) v(1) by (auto simp: strict_sorted_iff validate_requests_ok distinct_map)
  have sub: "(\<Union>r \<in> set rs. S r) \<subseteq> set ds"
    using S(1) by (auto simp: device_assignment_def)
  have allocs: "validate_allocations out = Inr ()"
    using d(1) v(2) sub S(2) by (auto simp: validate_device_oks)
  have inv: "validate_inventory (map device_of out) = Inr ()"
    using allocs by (simp add: validate_device_oks comp_def)
  let ?T = "\<lambda>r. (device_of \<circ> alloc_of) ` S r"
  have inj: "inj_on (device_of \<circ> alloc_of) (set ds)"
    using v(2) by (intro inj_on_imageI2 [of dev_key]) (simp add: comp_def validate_inventory_ok distinct_map)
  have sub_r: "S r \<subseteq> set ds" if "r \<in> set rs" for r
    using sub that by auto
  have assignment: "device_assignment rs (map device_of out) ?T"
    unfolding device_assignment_def
  proof (intro conjI ballI impI)
    fix r assume r: "r \<in> set rs"
    show "?T r \<subseteq> {d \<in> set (map device_of out). healthy d \<and> matches_request r d}"
      using S(1,2) r by (fastforce simp: device_assignment_def matches_request_def)
    show "card (?T r) = unat (req_count r)"
      using S(1) r card_image [OF inj_on_subset [OF inj sub_r [OF r]]] by (simp add: device_assignment_def)
    fix q assume q: "q \<in> set rs" "r \<noteq> q"
    then have "S r \<inter> S q = {}"
      using S(1) r unfolding device_assignment_def by blast
    then show "?T r \<inter> ?T q = {}"
      using inj_on_image_Int [OF inj sub_r [OF r] sub_r [OF q(1)]] by simp
  qed
  then obtain sel where sel: "select_devices rs (map device_of out) = Inr sel"
    using assignment_select_succeeds [OF v(1) inv] by blast
  then show ?thesis
    using allocs select_devices_length [OF assms] select_devices_length [OF sel]
    by (simp add: validate_device_assignment_def)
qed

section \<open>Concrete runs\<close>

definition two_gpus :: "device list" where
  "two_gpus = [\<lparr>dev_id = 7, dev_kind = Gpu, dev_model = ''a'', healthy = True\<rparr>,
               \<lparr>dev_id = 3, dev_kind = Gpu, dev_model = ''b'', healthy = True\<rparr>,
               \<lparr>dev_id = 1, dev_kind = Npu, dev_model = ''c'', healthy = False\<rparr>]"

definition any_gpu_and_b :: "device_request list" where
  "any_gpu_and_b = [\<lparr>req_kind = Gpu, req_model = None, req_count = 1\<rparr>,
                    \<lparr>req_kind = Gpu, req_model = Some ''b'', req_count = 1\<rparr>]"

theorem select_devices_correct_witness:
  "(\<exists>S. device_assignment any_gpu_and_b two_gpus S)
   \<and> (\<forall>S. \<not> device_assignment [\<lparr>req_kind = Npu, req_model = None, req_count = 1\<rparr>] two_gpus S)"
proof
  have "validate_requests any_gpu_and_b = Inr ()" "validate_inventory two_gpus = Inr ()"
    "is_ok (select_devices any_gpu_and_b two_gpus)"
    by code_simp+
  then show "\<exists>S. device_assignment any_gpu_and_b two_gpus S"
    using select_devices_correct [of any_gpu_and_b two_gpus] by (auto simp: is_ok_iff)
next
  let ?npu = "[\<lparr>req_kind = Npu, req_model = None, req_count = 1\<rparr>]"
  have "validate_requests ?npu = Inr ()" "validate_inventory two_gpus = Inr ()"
    "select_devices ?npu two_gpus = Inl NoCapacity"
    by code_simp+
  then show "\<forall>S. \<not> device_assignment ?npu two_gpus S"
    using select_devices_correct [of ?npu two_gpus] by simp
qed

theorem selected_devices_validate_witness:
  "select_devices any_gpu_and_b two_gpus = Inr (map alloc_of [two_gpus ! 1, two_gpus ! 0])
   \<and> validate_device_assignment any_gpu_and_b (map alloc_of [two_gpus ! 1, two_gpus ! 0]) = Inr ()"
proof -
  have s: "select_devices any_gpu_and_b two_gpus = Inr (map alloc_of [two_gpus ! 1, two_gpus ! 0])"
    by code_simp
  with selected_devices_validate [OF s] show ?thesis by simp
qed

end
