(* ===== verification/Placement_Policy.thy ===== *)
theory Placement_Policy
  imports Resource_Ledger Devices
begin

text \<open>
  Typed placement policies and nodes (\<^verbatim>\<open>platform/crates/core/src/scheduling.rs\<close>): label selectors,
  peer terms, topology spread, placement groups, and their validation.
\<close>

type_synonym labels = "(string, string) omap"

section \<open>Label selectors\<close>

datatype selector_op = In | NotIn | Exists | DoesNotExist | Gt | Lt

record label_requirement =
  lr_key :: string
  lr_op :: selector_op
  lr_values :: "string list"

record label_selector =
  match_labels :: labels
  expressions :: "label_requirement list"

definition zip_option :: "'a option \<Rightarrow> 'b option \<Rightarrow> ('a \<times> 'b) option" where
  "zip_option a b = (case (a, b) of (Some x, Some y) \<Rightarrow> Some (x, y) | _ \<Rightarrow> None)"

definition first_value :: "'a list \<Rightarrow> 'a option" where
  "first_value xs = (case xs of [] \<Rightarrow> None | x # _ \<Rightarrow> Some x)"

definition requirement_matches :: "label_requirement \<Rightarrow> labels \<Rightarrow> bool" where
  "requirement_matches r labels =
     (let val = map_of labels (lr_key r) in
      case lr_op r of
        In \<Rightarrow> is_some_and (\<lambda>v. v \<in> set (lr_values r)) val
      | NotIn \<Rightarrow> is_none_or (\<lambda>v. v \<notin> set (lr_values r)) val
      | Exists \<Rightarrow> val \<noteq> None
      | DoesNotExist \<Rightarrow> val = None
      | _ \<Rightarrow>
          is_some_and (\<lambda>(a, b). if lr_op r = Gt then a > b else a < b)
            (zip_option (Option.bind val parse_i64)
               (Option.bind (first_value (lr_values r)) parse_i64)))"

definition LabelSelector_matches :: "label_selector \<Rightarrow> labels \<Rightarrow> bool" where
  "LabelSelector_matches s labels \<longleftrightarrow>
     list_all (\<lambda>(k, v). map_of labels k = Some v) (match_labels s)
     \<and> list_all (\<lambda>r. requirement_matches r labels) (expressions s)"

definition validate_labels :: "labels \<Rightarrow> unit result" where
  "validate_labels labels = checks (map (\<lambda>e. nonempty (fst e)) labels)"

definition requirement_validate :: "label_requirement \<Rightarrow> unit result" where
  "requirement_validate r =
     bindE (nonempty (lr_key r)) (\<lambda>_.
     ensure
       (case lr_op r of
          In \<Rightarrow> lr_values r \<noteq> []
        | NotIn \<Rightarrow> lr_values r \<noteq> []
        | Exists \<Rightarrow> lr_values r = []
        | DoesNotExist \<Rightarrow> lr_values r = []
        | _ \<Rightarrow> length (lr_values r) = 1 \<and> parse_i64 (lr_values r ! 0) \<noteq> None)
       (Invalid ''invalid label selector operands''))"

definition LabelSelector_validate :: "label_selector \<Rightarrow> unit result" where
  "LabelSelector_validate s =
     bindE (validate_labels (match_labels s)) (\<lambda>_. checks (map requirement_validate (expressions s)))"

section \<open>Peers, spread and groups\<close>

record weighted_selector =
  ws_selector :: label_selector
  ws_weight :: u32

record peer_term =
  pt_selector :: label_selector
  pt_topology_key :: string
  pt_tenants :: "string list"

definition PeerTerm_matches :: "peer_term \<Rightarrow> string \<Rightarrow> string \<Rightarrow> labels \<Rightarrow> bool" where
  "PeerTerm_matches t owner_tenant peer_tenant labels \<longleftrightarrow>
     (if pt_tenants t = [] then owner_tenant = peer_tenant
      else list_ex (\<lambda>u. u = peer_tenant) (pt_tenants t))
     \<and> LabelSelector_matches (pt_selector t) labels"

definition PeerTerm_validate :: "peer_term \<Rightarrow> unit result" where
  "PeerTerm_validate t =
     checks ([LabelSelector_validate (pt_selector t), nonempty (pt_topology_key t)]
             @ map nonempty (pt_tenants t))"

record weighted_peer =
  wp_term :: peer_term
  wp_weight :: u32

datatype spread_mode = DoNotSchedule | ScheduleAnyway

record topology_spread =
  ts_topology_key :: string
  ts_selector :: label_selector
  ts_max_skew :: u32
  ts_min_domains :: u32
  ts_when_unsatisfiable :: spread_mode

datatype placement_target = TargetNode | TargetEnvironment

record placement_group =
  pg_target :: placement_target
  pg_terms :: "weighted_selector list"
  pg_required :: bool
  pg_anti :: bool
  pg_ordered :: bool

definition weight :: "u32 \<Rightarrow> unit result" where
  "weight v = (if v = 0 then Inl (Invalid ''preference weight must be positive'') else Inr ())"

definition WeightedSelector_validate :: "weighted_selector \<Rightarrow> unit result" where
  "WeightedSelector_validate t =
     bindE (LabelSelector_validate (ws_selector t)) (\<lambda>_. weight (ws_weight t))"

definition WeightedPeer_validate :: "weighted_peer \<Rightarrow> unit result" where
  "WeightedPeer_validate t = bindE (PeerTerm_validate (wp_term t)) (\<lambda>_. weight (wp_weight t))"

definition PlacementGroup_validate :: "placement_group \<Rightarrow> unit result" where
  "PlacementGroup_validate g =
     (if pg_terms g = [] \<or> length (pg_terms g) > 256
      then Inl (Invalid ''placement group requires 1..256 terms'')
      else checks (map WeightedSelector_validate (pg_terms g)))"

definition TopologySpread_validate :: "topology_spread \<Rightarrow> unit result" where
  "TopologySpread_validate t =
     checks [nonempty (ts_topology_key t), LabelSelector_validate (ts_selector t),
             ensure (\<not> (ts_max_skew t = 0 \<or> ts_min_domains t = 0))
               (Invalid ''topology max_skew and min_domains must be positive'')]"

record scheduling_policy =
  sp_labels :: labels
  sp_devices :: "device_request list"
  sp_required_node :: "label_selector list"
  sp_preferred_node :: "weighted_selector list"
  sp_required_affinity :: "peer_term list"
  sp_required_anti_affinity :: "peer_term list"
  sp_preferred_affinity :: "weighted_peer list"
  sp_preferred_anti_affinity :: "weighted_peer list"
  sp_topology_spread :: "topology_spread list"
  sp_placement_groups :: "placement_group list"

definition SchedulingPolicy_default :: scheduling_policy where
  "SchedulingPolicy_default =
     \<lparr>sp_labels = [], sp_devices = [], sp_required_node = [], sp_preferred_node = [],
      sp_required_affinity = [], sp_required_anti_affinity = [], sp_preferred_affinity = [],
      sp_preferred_anti_affinity = [], sp_topology_spread = [], sp_placement_groups = []\<rparr>"

definition matches_node :: "scheduling_policy \<Rightarrow> labels \<Rightarrow> bool" where
  "matches_node p labels \<longleftrightarrow>
     sp_required_node p = [] \<or> list_ex (\<lambda>s. LabelSelector_matches s labels) (sp_required_node p)"

definition SchedulingPolicy_validate :: "scheduling_policy \<Rightarrow> unit result" where
  "SchedulingPolicy_validate p =
     checks
       ([ensure (\<not> length (sp_placement_groups p) > 8) (Invalid ''at most 8 placement groups'')]
        @ map PlacementGroup_validate (sp_placement_groups p)
        @ [validate_labels (sp_labels p), validate_requests (sp_devices p)]
        @ map LabelSelector_validate (sp_required_node p)
        @ map WeightedSelector_validate (sp_preferred_node p)
        @ map PeerTerm_validate (sp_required_affinity p @ sp_required_anti_affinity p)
        @ map WeightedPeer_validate (sp_preferred_affinity p @ sp_preferred_anti_affinity p)
        @ map TopologySpread_validate (sp_topology_spread p))"

section \<open>Nodes\<close>

record node =
  node_id :: string
  node_capacity :: resources
  node_available :: bool
  node_labels :: labels
  node_devices :: "device list"
  node_runtime_classes :: "string list"

fun validate_classes_from :: "string list \<Rightarrow> string list \<Rightarrow> bool" where
  "validate_classes_from seen [] = True"
| "validate_classes_from seen (c # cs) =
     (if blank c \<or> c \<in> set seen then False else validate_classes_from (c # seen) cs)"

definition Node_validate :: "node \<Rightarrow> unit result" where
  "Node_validate n =
     checks [nonempty (node_id n), validate_labels (node_labels n),
             validate_inventory (node_devices n),
             ensure (validate_classes_from [] (node_runtime_classes n))
               (Invalid ''invalid or duplicate runtime class'')]"

text \<open>Placement diagnostics of one scheduling snapshot.\<close>

record scheduling_failure =
  sf_snapshot_revision :: u64
  sf_node_count :: u64
  sf_eligible_nodes :: u64
  sf_requested :: resources
  sf_max_capacity :: resources
  sf_max_available :: resources
  sf_rejections :: "(string, u64) omap"

section \<open>Facts about validated policies\<close>

lemma validate_classes_from_ok:
  "validate_classes_from seen cs \<longleftrightarrow> (\<forall>c \<in> set cs. \<not> blank c \<and> c \<notin> set seen) \<and> distinct cs"
  by (induction cs arbitrary: seen) auto

lemma Node_validate_inventory: "Node_validate n = Inr u \<Longrightarrow> validate_inventory (node_devices n) = Inr ()"
  by (simp add: Node_validate_def result_simps)

lemma Node_validate_ok:
  "Node_validate n = Inr u \<longleftrightarrow>
     \<not> blank (node_id n) \<and> validate_labels (node_labels n) = Inr ()
     \<and> validate_inventory (node_devices n) = Inr ()
     \<and> (\<forall>c \<in> set (node_runtime_classes n). \<not> blank c) \<and> distinct (node_runtime_classes n)"
  by (auto simp: Node_validate_def result_simps validate_classes_from_ok)

lemma weight_ok [simp]: "weight v = Inr u \<longleftrightarrow> v \<noteq> 0"
  by (simp add: weight_def)

lemma policy_group_valid:
  "SchedulingPolicy_validate p = Inr u \<Longrightarrow> g \<in> set (sp_placement_groups p) \<Longrightarrow>
     pg_terms g \<noteq> [] \<and> length (pg_terms g) \<le> 256 \<and> (\<forall>t \<in> set (pg_terms g). ws_weight t \<noteq> 0)"
  by (auto simp: SchedulingPolicy_validate_def PlacementGroup_validate_def WeightedSelector_validate_def
      result_simps ball_Un split: if_splits)

lemma policy_groups_bound:
  "SchedulingPolicy_validate p = Inr u \<Longrightarrow> length (sp_placement_groups p) \<le> 8"
  by (auto simp: SchedulingPolicy_validate_def result_simps)

lemma policy_devices_valid:
  "SchedulingPolicy_validate p = Inr u \<Longrightarrow> validate_requests (sp_devices p) = Inr ()"
  by (auto simp: SchedulingPolicy_validate_def result_simps)

lemma policy_spread_valid:
  "SchedulingPolicy_validate p = Inr u \<Longrightarrow> t \<in> set (sp_topology_spread p) \<Longrightarrow>
     ts_max_skew t \<noteq> 0 \<and> ts_min_domains t \<noteq> 0"
  by (auto simp: SchedulingPolicy_validate_def TopologySpread_validate_def result_simps ball_Un)

text \<open>
  On validated selectors the operators mean what their names say: \<open>NotIn\<close> is the negation of
  \<open>In\<close> for every label set (an absent label is "not in"), \<open>DoesNotExist\<close> the negation of \<open>Exists\<close>,
  and \<open>Gt\<close>/\<open>Lt\<close> compare the label read as a signed 64-bit number with the single operand, failing
  on a label that is absent or not such a number.
\<close>

theorem selector_operator_semantics:
  assumes "requirement_validate r = Inr ()"
  shows "case lr_op r of
      In \<Rightarrow> requirement_matches r labels \<longleftrightarrow> \<not> requirement_matches (r\<lparr>lr_op := NotIn\<rparr>) labels
    | NotIn \<Rightarrow> requirement_matches r labels \<longleftrightarrow>
                (\<forall>v. map_of labels (lr_key r) = Some v \<longrightarrow> v \<notin> set (lr_values r))
    | Exists \<Rightarrow> requirement_matches r labels \<longleftrightarrow> (\<exists>v. map_of labels (lr_key r) = Some v)
    | DoesNotExist \<Rightarrow> requirement_matches r labels \<longleftrightarrow> \<not> requirement_matches (r\<lparr>lr_op := Exists\<rparr>) labels
    | _ \<Rightarrow> \<exists>operand b. lr_values r = [operand] \<and> parse_i64 operand = Some b \<and>
            (requirement_matches r labels \<longleftrightarrow>
               (\<exists>v a. map_of labels (lr_key r) = Some v \<and> parse_i64 v = Some a
                      \<and> (if lr_op r = Gt then b < a else a < b)))"
proof (cases "lr_op r \<in> {Gt, Lt}")
  case True
  then obtain operand b where "lr_values r = [operand]" "parse_i64 operand = Some b"
    using assms by (auto simp: requirement_validate_def result_simps length_Suc_conv)
  with True show ?thesis
    by (auto simp: requirement_matches_def first_value_def zip_option_def Let_def
        split: option.splits Option.bind_splits)
next
  case False
  then show ?thesis
    by (auto simp: requirement_matches_def is_some_and_iff is_none_or_iff Let_def
        split: selector_op.splits)
qed

theorem selector_operator_semantics_witness:
  "let r = \<lparr>lr_key = ''gpus'', lr_op = Gt, lr_values = [''-3'']\<rparr> in
     requirement_validate r = Inr () \<and> requirement_matches r [(''gpus'', ''2'')]
     \<and> (\<exists>operand b. lr_values r = [operand] \<and> parse_i64 operand = Some b \<and>
            (requirement_matches r [(''gpus'', ''2'')] \<longleftrightarrow>
               (\<exists>v a. map_of [(''gpus'', ''2'')] (lr_key r) = Some v \<and> parse_i64 v = Some a
                      \<and> (if lr_op r = Gt then b < a else a < b))))"
proof -
  let ?r = "\<lparr>lr_key = ''gpus'', lr_op = Gt, lr_values = [''-3'']\<rparr>"
  have "requirement_validate ?r = Inr ()" "requirement_matches ?r [(''gpus'', ''2'')]"
    by code_simp+
  with selector_operator_semantics [of ?r "[(''gpus'', ''2'')]"] show ?thesis
    by (simp only: Let_def label_requirement.simps selector_op.case simp_thms)
qed

end
