(* ===== verification/Runtime_Identity.thy ===== *)
theory Runtime_Identity
  imports Volumes Devices Probes
begin

text \<open>
  Ownership and execution identities: assignments (\<^verbatim>\<open>core/src/lib.rs\<close>), checkpoint metadata
  and runtime ids (\<^verbatim>\<open>checkpoint.rs\<close>), runtime identities, restore fencing and required services
  (\<^verbatim>\<open>runtime.rs\<close>), and volume occupancy (\<^verbatim>\<open>volumes.rs\<close>).
\<close>

section \<open>Assignments and runtime ids\<close>

record assignment =
  as_environment_id :: string
  as_node_id :: string
  as_shard_id :: nat
  as_generation :: u64
  as_devices :: "device_allocation list"

definition runtime_base :: "string \<Rightarrow> u64 \<Rightarrow> string" where
  "runtime_base environment generation = environment @ ''-'' @ dec (unat generation)"

definition valid_runtime_id :: "string \<Rightarrow> u64 \<Rightarrow> string \<Rightarrow> bool" where
  "valid_runtime_id environment generation runtime_id \<longleftrightarrow>
     (let base = runtime_base environment generation in
      runtime_id = base
      \<or> is_some_and (\<lambda>s. s \<noteq> [] \<and> list_all is_digit s \<and> is_some_and (\<lambda>n. n > 0) (parse_uint s :: u64 option))
          (strip_prefix (base @ ''-r'') runtime_id))"

section \<open>Checkpoint metadata\<close>

record checkpoint_artifact =
  art_storage :: string
  art_scope :: string
  art_location :: string
  art_size_bytes :: u64

definition aliases :: "checkpoint_artifact \<Rightarrow> checkpoint_artifact \<Rightarrow> bool" where
  "aliases a b \<longleftrightarrow>
     art_storage a = art_storage b \<and> art_location a = art_location b
     \<and> (art_scope a = [] \<or> art_scope b = [] \<or> art_scope a = art_scope b)"

record checkpoint_cleanup =
  cc_assignment :: assignment
  cc_revision :: u64
  cc_artifacts :: "checkpoint_artifact list"

definition CheckpointCleanup_validate :: "checkpoint_cleanup \<Rightarrow> unit result" where
  "CheckpointCleanup_validate c =
     (if as_environment_id (cc_assignment c) = [] \<or> as_node_id (cc_assignment c) = []
         \<or> as_generation (cc_assignment c) = 0 \<or> cc_revision c = 0 \<or> cc_artifacts c = []
         \<or> length (cc_artifacts c) > 1024
         \<or> list_ex (\<lambda>a. art_storage a = [] \<or> art_location a = []) (cc_artifacts c)
      then Inl (Invalid ''invalid checkpoint cleanup intent'') else Inr ())"

definition CheckpointCleanup_id :: "checkpoint_cleanup \<Rightarrow> string" where
  "CheckpointCleanup_id c =
     dec (length (as_environment_id (cc_assignment c))) @ '':'' @ as_environment_id (cc_assignment c)
     @ '':'' @ dec (unat (as_generation (cc_assignment c))) @ '':'' @ dec (unat (cc_revision c))"

datatype lifecycle_kind = Pause | Resume | SnapshotKind | Network | Reload

record completed_operation =
  op_id :: string
  op_kind :: lifecycle_kind
  op_expected_revision :: u64

section \<open>Runtime identities and restore fencing\<close>

record runtime_identity =
  ri_environment_id :: string
  ri_runtime_id :: string
  ri_ownership_generation :: u64

definition RuntimeIdentity_validate :: "runtime_identity \<Rightarrow> unit result" where
  "RuntimeIdentity_validate i =
     (if blank (ri_environment_id i) \<or> blank (ri_runtime_id i) \<or> ri_ownership_generation i = 0
      then Inl (Invalid ''runtime requires explicit environment, execution and ownership generation'')
      else Inr ())"

definition identity_version :: "runtime_identity \<Rightarrow> u64 option" where
  "identity_version i =
     (let base = runtime_base (ri_environment_id i) (ri_ownership_generation i) in
      if ri_runtime_id i = base then Some 0
      else Option.bind (Option.bind (strip_prefix (base @ ''-r'') (ri_runtime_id i)) parse_uint)
             (\<lambda>n. if n > 0 then Some n else None))"

definition validate_restore_from :: "runtime_identity \<Rightarrow> runtime_identity \<Rightarrow> unit result" where
  "validate_restore_from i previous =
     bindE (RuntimeIdentity_validate i) (\<lambda>_.
     if ri_environment_id i \<noteq> ri_environment_id previous
        \<or> ri_ownership_generation i < ri_ownership_generation previous
     then Inl Conflict
     else if ri_ownership_generation i > ri_ownership_generation previous then Inr ()
     else if i = previous then Inr ()
     else
       case (identity_version previous, identity_version i) of
         (Some a, Some b) \<Rightarrow> if b > a then Inr () else Inl Conflict
       | _ \<Rightarrow> Inl Conflict)"

record runtime_restore =
  rr_target :: runtime_identity
  rr_origin :: "runtime_identity option"

definition RuntimeRestore_validate :: "runtime_restore \<Rightarrow> runtime_identity \<Rightarrow> unit result" where
  "RuntimeRestore_validate r previous =
     bindE (RuntimeIdentity_validate previous) (\<lambda>_.
     bindE (RuntimeIdentity_validate (rr_target r)) (\<lambda>_.
     case rr_origin r of
       None \<Rightarrow> validate_restore_from (rr_target r) previous
     | Some origin \<Rightarrow>
         if origin = previous
            \<and> (ri_environment_id (rr_target r) \<noteq> ri_environment_id previous
               \<or> ri_ownership_generation (rr_target r) > ri_ownership_generation previous)
            \<and> valid_runtime_id (ri_environment_id (rr_target r)) (ri_ownership_generation (rr_target r))
                (ri_runtime_id (rr_target r))
            \<and> valid_runtime_id (ri_environment_id origin) (ri_ownership_generation origin)
                (ri_runtime_id origin)
         then Inr () else Inl Conflict))"

record restore_point =
  rp_origin :: "runtime_identity option"
  rp_id :: string
  rp_artifact :: checkpoint_artifact
  rp_expires_at_unix_seconds :: "u64 option"
  rp_source_runtime_id :: string

definition expired :: "restore_point \<Rightarrow> u64 \<Rightarrow> bool" where
  "expired p now = is_some_and (\<lambda>expiry. expiry \<le> now) (rp_expires_at_unix_seconds p)"

section \<open>Runtime status\<close>

datatype runtime_phase = Initializing | RuntimeRunning | Preparing | Prepared | Restoring | RuntimeFailed

datatype checkpoint_phase =
  CpPreparing | CpPrepared | CpAborted | CpResumed | CpRestored | CpFailed

record checkpoint_status =
  cs_operation_id :: string
  cs_phase :: checkpoint_phase
  cs_error :: "string option"

datatype required_service_phase = Disabled | ServiceStarting | ServiceReady | ServiceFailed

record required_service_status =
  rs_phase :: required_service_phase
  rs_version :: "string option"
  rs_error :: "string option"

record runtime_status =
  st_failure :: "probe_failure option"
  st_identity :: runtime_identity
  st_revision :: u64
  st_phase :: runtime_phase
  st_checkpoint :: "checkpoint_status option"
  st_requested_checkpoint :: "string option"
  st_requested_checkpoint_deadline_unix_millis :: "u64 option"
  st_active_requests :: u64
  st_active_commands :: u64
  st_activity_revision :: u64
  st_required_services :: "(string, required_service_status) omap"

definition validate_required_services :: "runtime_status \<Rightarrow> string list \<Rightarrow> unit result" where
  "validate_required_services s expected =
     (if list_ex (\<lambda>e. rs_phase (snd e) \<noteq> ServiceReady) (st_required_services s)
         \<or> list_ex (\<lambda>name. map_of (st_required_services s) name = None) expected
      then Inl (Unavailable ''required runtime service is not ready'') else Inr ())"

section \<open>Volume occupancy\<close>

datatype occupancy_phase = OccReserved | OccHeld

record occupancy =
  occ_volume_uid :: string
  occ_assignment :: assignment
  occ_runtime_id :: string
  occ_node_session_id :: string
  occ_phase :: occupancy_phase

definition Occupancy_validate :: "occupancy \<Rightarrow> unit result" where
  "Occupancy_validate o1 =
     checks
       [volume_identifier (occ_volume_uid o1),
        volume_identifier (as_environment_id (occ_assignment o1)),
        volume_identifier (as_node_id (occ_assignment o1)),
        volume_identifier (occ_node_session_id o1),
        ensure (\<not> (as_generation (occ_assignment o1) = 0
                 \<or> \<not> valid_runtime_id (as_environment_id (occ_assignment o1))
                      (as_generation (occ_assignment o1)) (occ_runtime_id o1)))
          (Invalid ''volume occupancy requires a matching execution identity'')]"

section \<open>Identities are unambiguous\<close>

lemma split_at_first:
  assumes "a @ c # s = b @ c # t" "c \<notin> set a" "c \<notin> set b"
  shows "a = b \<and> s = t"
  using assms by (induction a arbitrary: b) (auto simp: Cons_eq_append_conv append_eq_Cons_conv)

lemma split_at_last:
  assumes "a @ c # s = b @ c # t" "c \<notin> set s" "c \<notin> set t"
  shows "a = b \<and> s = t"
proof -
  have "rev s @ c # rev a = rev t @ c # rev b"
    using arg_cong [OF assms(1), of rev] by simp
  from split_at_first [OF this] assms(2,3) show ?thesis by auto
qed

lemma runtime_base_inject: "runtime_base e g = runtime_base f h \<longleftrightarrow> e = f \<and> g = h"
proof
  assume "runtime_base e g = runtime_base f h"
  then have "e @ CHR ''-'' # dec (unat g) = f @ CHR ''-'' # dec (unat h)"
    by (simp add: runtime_base_def)
  from split_at_last [OF this] show "e = f \<and> g = h"
    by (auto simp: digit_not_in word_unat_eq_iff)
qed simp

lemma valid_runtime_id_cases:
  "valid_runtime_id e g r \<longleftrightarrow>
     r = runtime_base e g \<or> (\<exists>s. r = runtime_base e g @ ''-r'' @ s \<and> s \<noteq> [] \<and> list_all is_digit s
                                \<and> (\<exists>n :: u64. parse_uint s = Some n \<and> n > 0))"
  by (auto simp: valid_runtime_id_def Let_def is_some_and_iff strip_prefix_eq_Some)

lemma suffix_after_dash:
  "list_all is_digit s \<Longrightarrow> CHR ''-'' \<notin> set s"
  by (auto simp: list_all_iff)

lemma valid_runtime_id_owner:
  assumes "valid_runtime_id e g r" "valid_runtime_id f h r"
  shows "e = f \<and> g = h"
proof -
  have mixed: False
    if "runtime_base e' g' = runtime_base f' h' @ ''-r'' @ s" "list_all is_digit s" for e' g' f' h' s
  proof -
    have "e' @ CHR ''-'' # dec (unat g') = runtime_base f' h' @ CHR ''-'' # (CHR ''r'' # s)"
      using that(1) by (simp add: runtime_base_def)
    from split_at_last [OF this] that(2) have "dec (unat g') = CHR ''r'' # s"
      by (auto simp: digit_not_in suffix_after_dash)
    then show False using dec_digits [of "unat g'"] by simp
  qed
  have both: "e' = f' \<and> g' = h'"
    if "runtime_base e' g' @ ''-r'' @ s = runtime_base f' h' @ ''-r'' @ t" "list_all is_digit s" "list_all is_digit t"
    for e' g' f' h' s t
  proof -
    have "runtime_base e' g' @ CHR ''-'' # (CHR ''r'' # s) = runtime_base f' h' @ CHR ''-'' # (CHR ''r'' # t)"
      using that(1) by simp
    from split_at_last [OF this] that(2,3) show ?thesis
      by (simp add: suffix_after_dash runtime_base_inject)
  qed
  from assms show ?thesis
    unfolding valid_runtime_id_cases using mixed both by (metis runtime_base_inject)
qed

text \<open>
  A runtime id names one owner: an id that is valid for two pairs of Environment and ownership
  generation is valid for equal ones, whatever dashes and digits the Environment ids contain.
\<close>

theorem runtime_id_determines_owner:
  "valid_runtime_id e g r \<Longrightarrow> valid_runtime_id f h r \<Longrightarrow> e = f \<and> g = h"
  by (rule valid_runtime_id_owner)

theorem runtime_id_determines_owner_witness:
  "valid_runtime_id ''a-1'' 2 ''a-1-2-r7'' \<and> \<not> valid_runtime_id ''a'' 1 ''a-1-2-r7''"
proof -
  have v: "valid_runtime_id ''a-1'' 2 ''a-1-2-r7''" by code_simp
  with runtime_id_determines_owner [OF v, of "''a''" 1] show ?thesis by auto
qed

text \<open>
  Cleanup tasks have distinct ids: two tasks with the same id agree on the Environment, the
  ownership generation and the revision, even when Environment ids contain colons and digits.
\<close>

theorem cleanup_id_injective:
  assumes "CheckpointCleanup_id c = CheckpointCleanup_id d"
  shows "as_environment_id (cc_assignment c) = as_environment_id (cc_assignment d)
       \<and> as_generation (cc_assignment c) = as_generation (cc_assignment d) \<and> cc_revision c = cc_revision d"
proof -
  let ?e = "as_environment_id (cc_assignment c)" and ?f = "as_environment_id (cc_assignment d)"
  let ?g = "\<lambda>c. dec (unat (as_generation (cc_assignment c)))" and ?r = "\<lambda>c. dec (unat (cc_revision c))"
  have "dec (length ?e) @ CHR '':'' # (?e @ CHR '':'' # (?g c @ CHR '':'' # ?r c))
      = dec (length ?f) @ CHR '':'' # (?f @ CHR '':'' # (?g d @ CHR '':'' # ?r d))"
    using assms by (simp add: CheckpointCleanup_id_def)
  from split_at_first [OF this] have "length ?e = length ?f"
    and "?e @ CHR '':'' # (?g c @ CHR '':'' # ?r c) = ?f @ CHR '':'' # (?g d @ CHR '':'' # ?r d)"
    by (auto simp: digit_not_in)
  then have "?e = ?f" and tail: "?g c @ CHR '':'' # ?r c = ?g d @ CHR '':'' # ?r d" by auto
  from split_at_first [OF tail] \<open>?e = ?f\<close> show ?thesis
    by (auto simp: digit_not_in word_unat_eq_iff)
qed

definition colon_cleanup :: checkpoint_cleanup where
  "colon_cleanup = \<lparr>cc_assignment = \<lparr>as_environment_id = ''a:1'', as_node_id = ''n'', as_shard_id = 0,
     as_generation = 2, as_devices = []\<rparr>, cc_revision = 3, cc_artifacts = []\<rparr>"

theorem cleanup_id_injective_witness:
  "CheckpointCleanup_id colon_cleanup = ''3:a:1:2:3''
   \<and> CheckpointCleanup_id (colon_cleanup\<lparr>cc_artifacts := []\<rparr>) = CheckpointCleanup_id colon_cleanup
   \<and> cc_revision (colon_cleanup\<lparr>cc_artifacts := []\<rparr>) = cc_revision colon_cleanup"
proof -
  have i: "CheckpointCleanup_id (colon_cleanup\<lparr>cc_artifacts := []\<rparr>) = CheckpointCleanup_id colon_cleanup"
    "CheckpointCleanup_id colon_cleanup = ''3:a:1:2:3''"
    by code_simp+
  with cleanup_id_injective [OF i(1)] show ?thesis by blast
qed

section \<open>Restore fencing\<close>

definition older :: "runtime_identity \<Rightarrow> runtime_identity \<Rightarrow> bool" where
  "older p i \<longleftrightarrow>
     ri_ownership_generation p < ri_ownership_generation i \<or>
     ri_ownership_generation p = ri_ownership_generation i \<and>
     (i = p \<or> (\<exists>a b. identity_version p = Some a \<and> identity_version i = Some b \<and> a < b))"

definition same_generation_older :: "runtime_identity \<Rightarrow> runtime_identity \<Rightarrow> bool" where
  "same_generation_older p i \<longleftrightarrow>
     i = p \<or> (\<exists>a b. identity_version p = Some a \<and> identity_version i = Some b \<and> a < b)"

lemma same_generation_older_trans:
  assumes "same_generation_older k j" "same_generation_older j i"
  shows "same_generation_older k i"
proof (cases "j = k \<or> i = j")
  case False
  with assms obtain a b c where "identity_version k = Some a" "identity_version i = Some c" "a < b" "b < c"
    by (auto simp: same_generation_older_def)
  then show ?thesis unfolding same_generation_older_def using order.strict_trans by blast
qed (use assms in auto)

lemma same_generation_older_antisym:
  "same_generation_older i j \<Longrightarrow> same_generation_older j i \<Longrightarrow> i = j"
  unfolding same_generation_older_def by (metis less_asym option.inject)

lemma older_alt:
  "older p i \<longleftrightarrow> ri_ownership_generation p < ri_ownership_generation i \<or>
     ri_ownership_generation p = ri_ownership_generation i \<and> same_generation_older p i"
  by (simp only: older_def same_generation_older_def)

lemma older_refl: "older i i"
  by (simp add: older_def)

lemma older_trans: "older k j \<Longrightarrow> older j i \<Longrightarrow> older k i"
  unfolding older_alt using same_generation_older_trans [of k j i]
  by (elim disjE conjE) (auto dest: order.strict_trans)

lemma older_antisym: "older i j \<Longrightarrow> older j i \<Longrightarrow> i = j"
  unfolding older_alt by (metis less_asym less_irrefl same_generation_older_antisym)

lemma restore_from_cases:
  "validate_restore_from i p = Inr u \<longleftrightarrow>
     RuntimeIdentity_validate i = Inr () \<and> ri_environment_id i = ri_environment_id p \<and> older p i"
  by (auto simp: validate_restore_from_def older_def result_simps split: if_splits option.splits)

text \<open>
  C7. "May be restored from" is a partial order on valid identities: reflexive, transitive and
  antisymmetric. A restored execution therefore supersedes its predecessor for good: no sequence of
  accepted restores returns to an execution that has been replaced.
\<close>

theorem restore_order:
  "(RuntimeIdentity_validate i = Inr () \<longrightarrow> validate_restore_from i i = Inr ())
   \<and> (validate_restore_from i j = Inr () \<and> validate_restore_from j k = Inr () \<longrightarrow> validate_restore_from i k = Inr ())
   \<and> (validate_restore_from i j = Inr () \<and> validate_restore_from j i = Inr () \<longrightarrow> i = j)"
  unfolding restore_from_cases
  using older_trans [of k j i] older_antisym [of i j] older_refl [of i] by auto

theorem restore_order_witness:
  "let a = \<lparr>ri_environment_id = ''e'', ri_runtime_id = ''e-1'', ri_ownership_generation = 1\<rparr>;
       b = a\<lparr>ri_runtime_id := ''e-1-r4''\<rparr>;
       c = \<lparr>ri_environment_id = ''e'', ri_runtime_id = ''e-2'', ri_ownership_generation = 2\<rparr>
   in validate_restore_from c b = Inr () \<and> validate_restore_from b a = Inr () \<and> validate_restore_from c a = Inr ()"
proof -
  let ?a = "\<lparr>ri_environment_id = ''e'', ri_runtime_id = ''e-1'', ri_ownership_generation = 1\<rparr>"
  let ?b = "?a\<lparr>ri_runtime_id := ''e-1-r4''\<rparr>"
  let ?c = "\<lparr>ri_environment_id = ''e'', ri_runtime_id = ''e-2'', ri_ownership_generation = 2\<rparr>"
  have "validate_restore_from ?c ?b = Inr ()" "validate_restore_from ?b ?a = Inr ()" by code_simp+
  with restore_order [of ?c ?b ?a] show ?thesis unfolding Let_def by blast
qed

text \<open>
  C8. An accepted restore is fenced. Within one Environment the target supersedes the previous
  execution in the restore order, whether or not the restore names an origin; into another
  Environment it must name exactly the previous execution as its origin, and the new execution's id
  differs from the old one's.
\<close>

theorem restore_is_fenced:
  assumes "RuntimeRestore_validate r p = Inr ()"
  shows "if ri_environment_id (rr_target r) = ri_environment_id p
         then validate_restore_from (rr_target r) p = Inr ()
         else rr_origin r = Some p \<and> ri_runtime_id (rr_target r) \<noteq> ri_runtime_id p"
proof (cases "rr_origin r")
  case None
  with assms show ?thesis by (auto simp: RuntimeRestore_validate_def result_simps restore_from_cases)
next
  case (Some origin)
  with assms show ?thesis
    by (auto simp: RuntimeRestore_validate_def result_simps restore_from_cases older_def
        split: if_splits dest: valid_runtime_id_owner)
qed

theorem restore_is_fenced_witness:
  "let p = \<lparr>ri_environment_id = ''e'', ri_runtime_id = ''e-1'', ri_ownership_generation = 1\<rparr>;
       t = \<lparr>ri_environment_id = ''f'', ri_runtime_id = ''f-1-r2'', ri_ownership_generation = 1\<rparr>
   in RuntimeRestore_validate \<lparr>rr_target = t, rr_origin = Some p\<rparr> p = Inr ()
      \<and> ri_runtime_id t \<noteq> ri_runtime_id p"
proof -
  let ?p = "\<lparr>ri_environment_id = ''e'', ri_runtime_id = ''e-1'', ri_ownership_generation = 1\<rparr>"
  let ?t = "\<lparr>ri_environment_id = ''f'', ri_runtime_id = ''f-1-r2'', ri_ownership_generation = 1\<rparr>"
  have v: "RuntimeRestore_validate \<lparr>rr_target = ?t, rr_origin = Some ?p\<rparr> ?p = Inr ()" by code_simp
  with restore_is_fenced [OF v] show ?thesis by (simp add: Let_def)
qed

text \<open>
  The restore order reads the execution version with \<open>parse::<u64>\<close>, which admits a sign, where
  \<open>valid_runtime_id\<close> asks for digits: an id the latter rejects still has a version.
\<close>

lemma version_of_invalid_id:
  "identity_version \<lparr>ri_environment_id = ''e'', ri_runtime_id = ''e-1-r+5'', ri_ownership_generation = 1\<rparr> = Some 5
   \<and> \<not> valid_runtime_id ''e'' 1 ''e-1-r+5''"
  by code_simp

end
