(* ===== verification/Environment.thy ===== *)
theory Environment
  imports Lifecycle Envd Runtime_Profile Placement_Policy Runtime_Identity "HOL-Library.Sublist"
begin

text \<open>
  The Environment: its specification and validation, the node-local state machine, its durable
  record (\<^verbatim>\<open>platform/crates/core/src/lib.rs\<close>), volume identities in a saved specification
  (\<^verbatim>\<open>volumes.rs\<close>) and bounded execution evidence (\<^verbatim>\<open>observation.rs\<close>).
\<close>

section \<open>Specification\<close>

record environment_spec =
  spec_envd :: "envd_service_config option"
  spec_run_policy :: "run_policy option"
  spec_compatibility :: "environment_compatibility option"
  spec_runtime_profile :: "runtime_profile option"
  spec_snapshot_id :: "string option"
  spec_lifecycle :: lifecycle_policy
  spec_env :: "(string, string) omap"
  spec_id :: string
  spec_tenant_id :: string
  spec_image :: string
  spec_runtime_class :: string
  spec_resources :: resources
  spec_priority :: int
  spec_scheduling :: scheduling_policy
  spec_execution :: execution_options

definition required_services :: "environment_spec \<Rightarrow> string list" where
  "required_services s = map (\<lambda>_. ''envd'') (opt_list (spec_envd s))"

text \<open>\<open>now\<close> is the monotonic clock that the run policy's range check reads.\<close>

definition EnvironmentSpec_validate :: "int \<Rightarrow> environment_spec \<Rightarrow> unit result" where
  "EnvironmentSpec_validate now s =
     checks
       ([opt_check (\<lambda>envd. bindE (EnvdServiceConfig_validate envd)
            (\<lambda>_. validate_execution envd (spec_execution s))) (spec_envd s),
         opt_check EnvironmentCompatibility_validate (spec_compatibility s),
         opt_check (RunPolicy_validate now) (spec_run_policy s)]
        @ map (\<lambda>(name, val). ensure (\<not> blank val) (Invalid (name @ '' is required'')))
            [(''id'', spec_id s), (''tenant'', spec_tenant_id s), (''runtime'', spec_runtime_class s)]
        @ [case spec_runtime_profile s of
             Some environment \<Rightarrow> RuntimeProfile_validate environment
           | None \<Rightarrow> ensure (\<not> (blank (spec_image s) \<and> ex_rootfs (spec_execution s) = None))
               (Invalid ''image or runtime environment is required''),
           ensure (\<not> (spec_snapshot_id s \<noteq> None \<and> ex_user (spec_execution s) \<noteq> None))
             (Invalid ''tool identity cannot override a snapshot''),
           LifecyclePolicy_validate (spec_lifecycle s),
           Resources_validate (spec_resources s),
           SchedulingPolicy_validate (spec_scheduling s),
           ExecutionOptions_validate (spec_execution s) (spec_resources s)])"

lemma EnvironmentSpec_validate_parts:
  assumes "EnvironmentSpec_validate now s = Inr u"
  shows "Resources_validate (spec_resources s) = Inr ()"
    and "SchedulingPolicy_validate (spec_scheduling s) = Inr ()"
    and "ExecutionOptions_validate (spec_execution s) (spec_resources s) = Inr ()"
    and "\<not> blank (spec_id s)" and "\<not> blank (spec_tenant_id s)"
  using assms by (auto simp: EnvironmentSpec_validate_def result_simps)

section \<open>Volume identities of a saved specification\<close>

fun fix_mounts :: "volume_ref list \<Rightarrow> mount list \<Rightarrow> unit result \<times> mount list" where
  "fix_mounts fixed [] = (Inr (), [])"
| "fix_mounts fixed (m # ms) =
     (case mount_source m of
        Inline _ \<Rightarrow> (case fix_mounts fixed ms of (r, ms') \<Rightarrow> (r, m # ms'))
      | Volume reference \<Rightarrow>
          (case find (\<lambda>saved. vr_id saved = vr_id reference) fixed of
             None \<Rightarrow> (Inl Conflict, m # ms)
           | Some saved \<Rightarrow>
               if vr_uid saved = None \<or> is_some_and (\<lambda>uid. Some uid \<noteq> vr_uid saved) (vr_uid reference)
               then (Inl Conflict, m # ms)
               else (case fix_mounts fixed ms of
                       (r, ms') \<Rightarrow>
                         (r, m\<lparr>mount_source := Volume (reference\<lparr>vr_uid := vr_uid saved\<rparr>)\<rparr> # ms'))))"

definition fix_volume_references :: "volume_ref list \<Rightarrow> (environment_spec, unit) op" where
  "fix_volume_references fixed s =
     (case fix_mounts fixed (ex_mounts (spec_execution s)) of
        (r, ms) \<Rightarrow> (r, s\<lparr>spec_execution := spec_execution s\<lparr>ex_mounts := ms\<rparr>\<rparr>))"

definition mount_volume :: "mount \<Rightarrow> volume_ref option" where
  "mount_volume m = (case mount_source m of Volume reference \<Rightarrow> Some reference | _ \<Rightarrow> None)"

definition mount_volumes :: "mount list \<Rightarrow> volume_ref list" where
  "mount_volumes ms = List.map_filter mount_volume ms"

definition matches_fixed_spec :: "environment_spec \<Rightarrow> environment_spec \<Rightarrow> bool" where
  "matches_fixed_spec s fixed =
     (case fix_volume_references (mount_volumes (ex_mounts (spec_execution fixed))) s of
        (r, candidate) \<Rightarrow> is_ok r \<and> candidate = fixed)"

lemma mount_volumes_Cons:
  "mount_volumes (m # ms) = (case mount_volume m of Some r \<Rightarrow> r # mount_volumes ms | None \<Rightarrow> mount_volumes ms)"
  by (simp add: mount_volumes_def map_filter_simps split: option.splits)

lemma find_some_iff: "find P xs = Some y \<Longrightarrow> P y \<and> y \<in> set xs"
  by (metis find_Some_iff nth_mem)

lemma find_present: "x \<in> set xs \<Longrightarrow> P x \<Longrightarrow> \<exists>y. find P xs = Some y"
  by (induction xs) auto

lemma fix_mounts_pinned:
  assumes "fix_mounts fixed ms = (Inr (), ms')" "r \<in> set (mount_volumes ms')"
  shows "vr_uid r \<noteq> None \<and> (\<exists>saved. find (\<lambda>s. vr_id s = vr_id r) fixed = Some saved \<and> vr_uid saved = vr_uid r)"
  using assms
proof (induction ms arbitrary: ms')
  case (Cons m ms)
  then show ?case
    by (auto simp: mount_volumes_Cons mount_volume_def dest: find_some_iff
        split: mount_source.splits option.splits if_splits prod.splits)
qed (simp add: mount_volumes_def map_filter_simps)

text \<open>Pinning again with any list that agrees on the pinned identities gives the same mounts.\<close>

lemma fix_mounts_again:
  assumes "fix_mounts fixed ms = (Inr (), ms')"
    and "\<And>r. r \<in> set (mount_volumes ms') \<Longrightarrow> vr_uid r \<noteq> None \<and>
           (\<exists>saved. find (\<lambda>s. vr_id s = vr_id r) again = Some saved \<and> vr_uid saved = vr_uid r)"
  shows "fix_mounts again ms = (Inr (), ms') \<and> fix_mounts again ms' = (Inr (), ms')"
  using assms
proof (induction ms arbitrary: ms')
  case (Cons m ms)
  show ?case
  proof (cases "mount_source m")
    case (Inline s)
    with Cons.prems(1) obtain ns where ns: "fix_mounts fixed ms = (Inr (), ns)" "ms' = m # ns"
      by (auto split: prod.splits)
    with Cons.prems(2) Inline have "r \<in> set (mount_volumes ns) \<Longrightarrow> vr_uid r \<noteq> None \<and>
        (\<exists>saved. find (\<lambda>s. vr_id s = vr_id r) again = Some saved \<and> vr_uid saved = vr_uid r)" for r
      by (simp add: mount_volumes_Cons mount_volume_def)
    from Cons.IH [OF ns(1) this] Inline ns(2) show ?thesis by simp
  next
    case (Volume v)
    with Cons.prems(1) obtain ns uid where ns: "fix_mounts fixed ms = (Inr (), ns)"
      and m': "ms' = m\<lparr>mount_source := Volume (v\<lparr>vr_uid := Some uid\<rparr>)\<rparr> # ns"
      and ok: "\<not> is_some_and (\<lambda>x. x \<noteq> uid) (vr_uid v)"
      by (auto split: prod.splits option.splits if_splits)
    have head: "v\<lparr>vr_uid := Some uid\<rparr> \<in> set (mount_volumes ms')"
      and tail: "set (mount_volumes ns) \<subseteq> set (mount_volumes ms')"
      by (auto simp: m' mount_volumes_Cons mount_volume_def)
    from Cons.prems(2) [OF head] obtain saved where
      "find (\<lambda>s. vr_id s = vr_id v) again = Some saved" "vr_uid saved = Some uid" by auto
    moreover have "fix_mounts again ms = (Inr (), ns) \<and> fix_mounts again ns = (Inr (), ns)"
      using Cons.IH [OF ns] Cons.prems(2) tail by blast
    ultimately show ?thesis using Volume ok m' by simp
  qed
qed (simp add: mount_volumes_def map_filter_simps)

text \<open>
  C10. Fixing the volume identities of a specification is stable: the fixed specification has a uid
  for every volume mount, the original still matches it, and it matches itself, so a retried request
  with the uids omitted and a replayed saved record are both recognised.
\<close>

theorem fixed_spec_is_recognised:
  assumes "fix_volume_references fixed s = (Inr (), s')"
  shows "matches_fixed_spec s s' \<and> matches_fixed_spec s' s'
       \<and> (\<forall>r \<in> set (mount_volumes (ex_mounts (spec_execution s'))). vr_uid r \<noteq> None)"
proof -
  let ?ms = "ex_mounts (spec_execution s)"
  from assms obtain ms' where f: "fix_mounts fixed ?ms = (Inr (), ms')"
    and s': "s' = s\<lparr>spec_execution := spec_execution s\<lparr>ex_mounts := ms'\<rparr>\<rparr>"
    by (auto simp: fix_volume_references_def split: prod.splits)
  note pinned = fix_mounts_pinned [OF f]
  have "\<exists>saved. find (\<lambda>s. vr_id s = vr_id r) (mount_volumes ms') = Some saved \<and> vr_uid saved = vr_uid r"
    if r: "r \<in> set (mount_volumes ms')" for r
  proof -
    obtain saved where saved: "find (\<lambda>s. vr_id s = vr_id r) (mount_volumes ms') = Some saved"
      using find_present [OF r, of "\<lambda>s. vr_id s = vr_id r"] by auto
    then have "vr_id saved = vr_id r" "saved \<in> set (mount_volumes ms')"
      using find_some_iff by fast+
    then have "vr_uid saved = vr_uid r"
      using pinned [OF r] pinned [of saved] by auto
    with saved show ?thesis by blast
  qed
  with fix_mounts_again [OF f, of "mount_volumes ms'"] pinned
  have "fix_mounts (mount_volumes ms') ?ms = (Inr (), ms')"
    "fix_mounts (mount_volumes ms') ms' = (Inr (), ms')" by blast+
  then show ?thesis
    using pinned by (simp add: s' matches_fixed_spec_def fix_volume_references_def)
qed

definition plain_spec :: environment_spec where
  "plain_spec =
     \<lparr>spec_envd = None, spec_run_policy = None, spec_compatibility = None, spec_runtime_profile = None,
      spec_snapshot_id = None, spec_lifecycle = LifecyclePolicy_default, spec_env = [], spec_id = ''e'',
      spec_tenant_id = ''t'', spec_image = ''img'', spec_runtime_class = ''kata'',
      spec_resources = \<lparr>cpu_millis = 100, memory_bytes = 1, disk_bytes = 0\<rparr>, spec_priority = 0,
      spec_scheduling = SchedulingPolicy_default, spec_execution = ExecutionOptions_default\<rparr>"

definition volume_mount :: "string option \<Rightarrow> mount" where
  "volume_mount uid =
     \<lparr>mount_kind = ''bind'', mount_target = ''/d'', mount_options = [],
      mount_source = Volume \<lparr>vr_id = ''v'', vr_uid = uid\<rparr>, mount_create_if_missing = False,
      mount_create_options = None\<rparr>"

definition volume_spec_of :: "string option \<Rightarrow> environment_spec" where
  "volume_spec_of uid =
     plain_spec\<lparr>spec_execution := ExecutionOptions_default\<lparr>ex_mounts := [volume_mount uid]\<rparr>\<rparr>"

theorem fixed_spec_is_recognised_witness:
  "fix_volume_references [\<lparr>vr_id = ''v'', vr_uid = Some ''u1''\<rparr>] (volume_spec_of None)
     = (Inr (), volume_spec_of (Some ''u1''))
   \<and> matches_fixed_spec (volume_spec_of None) (volume_spec_of (Some ''u1''))"
proof -
  have f: "fix_volume_references [\<lparr>vr_id = ''v'', vr_uid = Some ''u1''\<rparr>] (volume_spec_of None)
     = (Inr (), volume_spec_of (Some ''u1''))"
    by (simp add: volume_spec_of_def volume_mount_def fix_volume_references_def)
  with fixed_spec_is_recognised [OF f] show ?thesis by blast
qed

section \<open>Environment state machine\<close>

datatype environment_state =
  Pending | Starting | Running | Pausing | Paused | Resuming | Deleting | Deleted | Failed

datatype event =
    EvStart | EvReady | EvPause | EvCheckpointed | EvResume | EvRollback | EvDelete | EvRemoved | EvFail

definition EnvironmentState_apply :: "environment_state \<Rightarrow> event \<Rightarrow> environment_state result" where
  "EnvironmentState_apply s e =
     (if s \<in> {Pending, Failed} \<and> e = EvStart then Inr Starting
      else if s \<in> {Starting, Resuming} \<and> e = EvReady then Inr Running
      else if s = Running \<and> e = EvPause then Inr Pausing
      else if s = Pausing \<and> e = EvCheckpointed then Inr Paused
      else if s = Paused \<and> e = EvResume then Inr Resuming
      else if s = Pausing \<and> e = EvRollback then Inr Running
      else if s = Resuming \<and> e = EvRollback then Inr Paused
      else if s \<in> {Pending, Starting, Running, Pausing, Paused, Resuming, Failed} \<and> e = EvDelete
      then Inr Deleting
      else if s = Deleting \<and> e = EvRemoved then Inr Deleted
      else if s \<in> {Starting, Running, Pausing, Paused, Resuming, Deleting} \<and> e = EvFail
      then Inr Failed
      else Inl Conflict)"

fun run_events :: "environment_state \<Rightarrow> event list \<Rightarrow> environment_state result" where
  "run_events s [] = Inr s"
| "run_events s (e # es) = bindE (EnvironmentState_apply s e) (\<lambda>s'. run_events s' es)"

lemma run_events_snoc: "run_events s (es @ [e]) = bindE (run_events s es) (\<lambda>s'. EnvironmentState_apply s' e)"
proof (induction es arbitrary: s)
  case Nil
  then show ?case by (cases "EnvironmentState_apply s e") auto
next
  case (Cons a es)
  then show ?case by (cases "EnvironmentState_apply s a") auto
qed

text \<open>The events that every history reaching a state has seen, in this order.\<close>

fun seen :: "environment_state \<Rightarrow> event list" where
  "seen Pending = []"
| "seen Starting = [EvStart]"
| "seen Running = [EvStart, EvReady]"
| "seen Pausing = [EvStart, EvReady, EvPause]"
| "seen Paused = [EvStart, EvReady, EvPause, EvCheckpointed]"
| "seen Resuming = [EvStart, EvReady, EvPause, EvCheckpointed, EvResume]"
| "seen Deleting = [EvDelete]"
| "seen Deleted = [EvDelete, EvRemoved]"
| "seen Failed = []"

lemma seen_step:
  assumes "EnvironmentState_apply s e = Inr t" "subseq (seen s) es"
  shows "subseq (seen t) (es @ [e])"
proof -
  have keep: "subseq xs (es @ [e])" if "subseq (xs @ ys) es" for xs ys
  proof -
    have "subseq xs (xs @ ys)" by (rule prefix_imp_subseq) simp
    also note that
    also have "subseq es (es @ [e])" by (rule prefix_imp_subseq) simp
    finally show ?thesis .
  qed
  have add: "subseq (seen s @ [e]) (es @ [e])"
    using assms(2) by (simp add: subseq_append)
  have single: "subseq [e] (es @ [e])" by (simp add: subseq_singleton_left)
  show ?thesis
    using assms add single keep [of _ "[]"] keep [of "[EvStart, EvReady]" "[EvPause]"]
      keep [of "[EvStart, EvReady, EvPause, EvCheckpointed]" "[EvResume]"]
      keep [of "[EvStart, EvReady]" "[EvPause, EvCheckpointed, EvResume]"]
    by (cases s; cases e) (simp_all add: EnvironmentState_apply_def)
qed

lemma run_events_seen: "run_events Pending es = Inr s \<Longrightarrow> subseq (seen s) es"
proof (induction es arbitrary: s rule: rev_induct)
  case (snoc e es)
  then show ?case
    by (auto simp: run_events_snoc result_simps intro: seen_step)
qed simp

lemma Deleted_final: "EnvironmentState_apply Deleted e = Inl Conflict"
  by (simp add: EnvironmentState_apply_def)

lemma run_events_append:
  "run_events s (es @ fs) = bindE (run_events s es) (\<lambda>s'. run_events s' fs)"
proof (induction es arbitrary: s)
  case (Cons e es)
  then show ?case by (cases "EnvironmentState_apply s e") auto
qed simp

text \<open>
  C11. Over every accepted history from \<open>Pending\<close>: an Environment is \<open>Running\<close> only after a start
  that became ready, \<open>Paused\<close> only after such a run was paused and checkpointed, \<open>Deleted\<close> only
  after a delete whose removal completed; and after \<open>Deleted\<close> every further event is a conflict.
\<close>

theorem lifecycle_history:
  assumes "run_events Pending es = Inr s"
  shows "(s = Running \<longrightarrow> subseq [EvStart, EvReady] es)
       \<and> (s = Paused \<longrightarrow> subseq [EvStart, EvReady, EvPause, EvCheckpointed] es)
       \<and> (s = Deleted \<longrightarrow> subseq [EvDelete, EvRemoved] es
            \<and> (\<forall>more. more \<noteq> [] \<longrightarrow> run_events Pending (es @ more) = Inl Conflict))"
proof -
  have "run_events Deleted more = Inl Conflict" if "more \<noteq> []" for more
    using that by (cases more) (auto simp: Deleted_final)
  with run_events_seen [OF assms] assms show ?thesis
    by (auto simp: run_events_append)
qed

theorem lifecycle_history_witness:
  "run_events Pending [EvStart, EvReady, EvPause, EvCheckpointed] = Inr Paused
   \<and> subseq [EvStart, EvReady, EvPause, EvCheckpointed] [EvStart, EvReady, EvPause, EvCheckpointed]"
proof -
  have r: "run_events Pending [EvStart, EvReady, EvPause, EvCheckpointed] = Inr Paused" by code_simp
  with lifecycle_history [OF r] show ?thesis by blast
qed

section \<open>Execution evidence\<close>

datatype create_stage =
  Scheduling | RuntimePrepare | RuntimeStart | Readiness | RouteActivation | StatePublish | UnknownStage

datatype interruption_reason =
    Oom | RuntimeExit | ReasonProbeFailed | ExecutionMissing | NodeUnreachable | ControlUnhealthy
  | UnknownReason

datatype evidence_source = BackendExit | Probe | Reconcile | CoordinatorSource | Control | UnknownSource

datatype operation_intent = UserIntent | IdleIntent | PolicyIntent

fun CreateStage_as_str :: "create_stage \<Rightarrow> string" where
  "CreateStage_as_str Scheduling = ''scheduling''"
| "CreateStage_as_str RuntimePrepare = ''runtime_prepare''"
| "CreateStage_as_str RuntimeStart = ''runtime_start''"
| "CreateStage_as_str Readiness = ''readiness''"
| "CreateStage_as_str RouteActivation = ''route_activation''"
| "CreateStage_as_str StatePublish = ''state_publish''"
| "CreateStage_as_str UnknownStage = ''unknown''"

fun InterruptionReason_as_str :: "interruption_reason \<Rightarrow> string" where
  "InterruptionReason_as_str Oom = ''oom''"
| "InterruptionReason_as_str RuntimeExit = ''runtime_exit''"
| "InterruptionReason_as_str ReasonProbeFailed = ''probe_failed''"
| "InterruptionReason_as_str ExecutionMissing = ''execution_missing''"
| "InterruptionReason_as_str NodeUnreachable = ''node_unreachable''"
| "InterruptionReason_as_str ControlUnhealthy = ''control_unhealthy''"
| "InterruptionReason_as_str UnknownReason = ''unknown''"

fun EvidenceSource_as_str :: "evidence_source \<Rightarrow> string" where
  "EvidenceSource_as_str BackendExit = ''backend_exit''"
| "EvidenceSource_as_str Probe = ''probe''"
| "EvidenceSource_as_str Reconcile = ''reconcile''"
| "EvidenceSource_as_str CoordinatorSource = ''coordinator''"
| "EvidenceSource_as_str Control = ''control''"
| "EvidenceSource_as_str UnknownSource = ''unknown''"

fun OperationIntent_as_str :: "operation_intent \<Rightarrow> string" where
  "OperationIntent_as_str UserIntent = ''user''"
| "OperationIntent_as_str IdleIntent = ''idle''"
| "OperationIntent_as_str PolicyIntent = ''policy''"

record interruption_evidence =
  ie_event_id :: string
  ie_detected_at_unix_millis :: u64
  ie_assignment_generation :: u64
  ie_runtime_id :: string
  ie_worker_id :: string
  ie_reason :: interruption_reason
  ie_evidence_source :: evidence_source
  ie_exit_code :: "int option"
  ie_detail :: string

definition InterruptionEvidence_validate :: "interruption_evidence \<Rightarrow> unit result" where
  "InterruptionEvidence_validate e =
     (if ie_event_id e = [] \<or> length (ie_event_id e) > 2048 \<or> ie_runtime_id e = []
         \<or> length (ie_runtime_id e) > 1024 \<or> ie_worker_id e = [] \<or> length (ie_worker_id e) > 1024
         \<or> ie_assignment_generation e = 0 \<or> ie_detected_at_unix_millis e = 0
         \<or> length (ie_detail e) > 4096
      then Inl (Invalid ''invalid execution interruption evidence'') else Inr ())"

record execution_observation =
  eo_interruption :: "interruption_evidence option"
  eo_intent :: "operation_intent option"
  eo_create_stage :: "create_stage option"

text \<open>\<open>is_char_boundary\<close> and the loop that moves left to the nearest boundary.\<close>

definition continuation :: "char \<Rightarrow> bool" where
  "continuation c \<longleftrightarrow> 128 \<le> byte c \<and> byte c < 192"

definition is_char_boundary :: "string \<Rightarrow> nat \<Rightarrow> bool" where
  "is_char_boundary s i \<longleftrightarrow> i = 0 \<or> i = length s \<or> i < length s \<and> \<not> continuation (s ! i)"

fun floor_boundary :: "string \<Rightarrow> nat \<Rightarrow> nat" where
  "floor_boundary s 0 = 0"
| "floor_boundary s (Suc i) = (if is_char_boundary s (Suc i) then Suc i else floor_boundary s i)"

definition bounded_detail :: "string \<Rightarrow> string" where
  "bounded_detail s = take (floor_boundary s (min (length s) 4096)) s"

lemma floor_boundary_le: "floor_boundary s i \<le> i"
  by (induction i) auto

lemma floor_boundary_is_boundary: "is_char_boundary s (floor_boundary s i)"
  by (induction i) (auto simp: is_char_boundary_def)

lemma floor_boundary_greatest: "j \<le> i \<Longrightarrow> is_char_boundary s j \<Longrightarrow> j \<le> floor_boundary s i"
  by (induction i) (auto simp: le_Suc_eq)

text \<open>
  Bounded evidence detail is the longest prefix of the text that ends on a character boundary
  and has at most 4096 bytes: validation accepts its length, no character is cut, and a text within
  the bound is kept whole.
\<close>

theorem bounded_detail_longest_prefix:
  "\<exists>n. bounded_detail s = take n s \<and> n \<le> length s \<and> n \<le> 4096 \<and> is_char_boundary s n
     \<and> (\<forall>m. m \<le> length s \<and> m \<le> 4096 \<and> is_char_boundary s m \<longrightarrow> m \<le> n)"
proof -
  let ?n = "floor_boundary s (min (length s) 4096)"
  have "?n \<le> min (length s) 4096" by (rule floor_boundary_le)
  then have "?n \<le> length s" "?n \<le> 4096" by simp_all
  moreover have "is_char_boundary s ?n" by (rule floor_boundary_is_boundary)
  moreover have "m \<le> ?n" if "m \<le> length s" "m \<le> 4096" "is_char_boundary s m" for m
    using that by (intro floor_boundary_greatest) auto
  ultimately show ?thesis unfolding bounded_detail_def by blast
qed

theorem bounded_detail_longest_prefix_witness:
  "bounded_detail ''hi'' = ''hi'' \<and> (\<exists>n. bounded_detail ''hi'' = take n ''hi'' \<and> n \<le> 4096)"
proof -
  have "bounded_detail ''hi'' = ''hi''" by code_simp
  with bounded_detail_longest_prefix [of "''hi''"] show ?thesis by blast
qed

section \<open>Durable record\<close>

datatype runtime_failure_reason = OomKilled | Exited | Missing | RuntimeProbeFailed | RuntimeDeadlineExceeded

record runtime_failure =
  rf_probe_failure :: "probe_failure option"
  rf_reason :: runtime_failure_reason
  rf_exit_code :: "int option"
  rf_message :: string

definition RuntimeFailure_from :: "probe_failure \<Rightarrow> runtime_failure" where
  "RuntimeFailure_from failure =
     \<lparr>rf_probe_failure = Some failure, rf_reason = RuntimeProbeFailed,
      rf_exit_code = pf_exit_code failure, rf_message = pf_message failure\<rparr>"

datatype ip_addr = V4 u32 | V6 "128 word"

record runtime =
  rt_id :: string
  rt_ip :: "ip_addr option"

record environment_record =
  er_observation :: "execution_observation option"
  er_failure :: "runtime_failure option"
  er_restart_attempts :: u32
  er_restart_pending :: bool
  er_spec :: environment_spec
  er_assignment :: assignment
  er_state :: environment_state
  er_revision :: u64
  er_runtime :: runtime
  er_resources_held :: bool
  er_checkpoint :: "restore_point option"
  er_execution_artifacts :: "checkpoint_artifact list"
  er_snapshot_source :: "restore_point option"
  er_last_operation :: "completed_operation option"

end
