(* ===== verification/Reusable_Snapshot.thy ===== *)
theory Reusable_Snapshot
  imports Environment
begin

text \<open>
  Reusable snapshots (\<^verbatim>\<open>platform/crates/core/src/snapshots.rs\<close>): durable references, revisions
  and deletion; and the preparation metadata of snapshot templates (\<^verbatim>\<open>snapshot_preparation.rs\<close>).
\<close>

section \<open>References\<close>

datatype reference =
    Restore (ref_environment_id: string) | Template (ref_node_id: string) (ref_template_id: string)

text \<open>The derived order: variants in declaration order, then their fields.\<close>

fun reference_key :: "reference \<Rightarrow> nat \<times> string \<times> string" where
  "reference_key (Restore e) = (0, e, [])"
| "reference_key (Template n t) = (1, n, t)"

lemma reference_key_inject: "reference_key a = reference_key b \<Longrightarrow> a = b"
  by (cases a; cases b) auto

instantiation reference :: linorder
begin

definition less_eq_reference :: "reference \<Rightarrow> reference \<Rightarrow> bool" where
  "less_eq_reference a b \<longleftrightarrow> reference_key a \<le> reference_key b"

definition less_reference :: "reference \<Rightarrow> reference \<Rightarrow> bool" where
  "less_reference a b \<longleftrightarrow> reference_key a < reference_key b"

instance
  by standard (auto simp: less_eq_reference_def less_reference_def intro: reference_key_inject)

end

definition valid_id :: "string \<Rightarrow> bool" where
  "valid_id i \<longleftrightarrow> i \<noteq> [] \<and> length i \<le> 256 \<and> \<not> any_control i"

fun Reference_validate :: "reference \<Rightarrow> unit result" where
  "Reference_validate (Restore e) = ensure (valid_id e) (Invalid ''invalid snapshot reference'')"
| "Reference_validate (Template n t) =
     ensure (valid_id n \<and> valid_id t) (Invalid ''invalid snapshot reference'')"

section \<open>Snapshots\<close>

datatype snapshot_kind = Regular | Golden
datatype snapshot_state = SnReady | SnDeleting | SnDeleted

record snapshot =
  sn_id :: string
  sn_names :: "string list"
  sn_kind :: snapshot_kind
  sn_created_at_unix_ms :: u64
  sn_template :: environment_spec
  sn_source_node_id :: string
  sn_source_runtime_id :: string
  sn_artifact :: checkpoint_artifact
  sn_revision :: u64
  sn_state :: snapshot_state
  sn_references :: "reference oset"

text \<open>
  The capture identity is a digest of the serialized triple; the serializer and the digest are
  libraries and stay parameters.
\<close>

definition snapshot_id ::
  "(string \<times> string \<times> string \<Rightarrow> string option) \<Rightarrow> (string \<Rightarrow> string) \<Rightarrow> string \<Rightarrow> string \<Rightarrow> string
     \<Rightarrow> string result" where
  "snapshot_id to_vec digest_hex tenant environment operation =
     bindE (ok_or (to_vec (tenant, environment, operation)) (Invalid ''invalid snapshot capture identity''))
       (\<lambda>identity. Inr (''snapshot-'' @ digest_hex identity))"

definition Snapshot_validate :: "int \<Rightarrow> snapshot \<Rightarrow> unit result" where
  "Snapshot_validate now s =
     checks
       ([EnvironmentSpec_validate now (sn_template s),
         ensure (\<not> (\<not> valid_id (sn_id s) \<or> \<not> valid_id (sn_source_node_id s)
                  \<or> \<not> valid_id (sn_source_runtime_id s) \<or> sn_revision s = 0
                  \<or> art_storage (sn_artifact s) = [] \<or> art_location (sn_artifact s) = []
                  \<or> art_size_bytes (sn_artifact s) = 0 \<or> length (sn_names s) > 16
                  \<or> list_ex (\<lambda>n. \<not> valid_id n) (sn_names s)
                  \<or> length (os_of_list (sn_names s)) \<noteq> length (sn_names s)
                  \<or> sn_state s = SnDeleted \<and> sn_references s \<noteq> []))
           (Invalid ''invalid reusable snapshot'')]
        @ map Reference_validate (sn_references s))"

text \<open>\<open>clock\<close> is the wall clock in milliseconds, when it can be read and represented.\<close>

definition new_with_kind ::
  "int \<Rightarrow> u64 option \<Rightarrow> snapshot_kind \<Rightarrow> string \<Rightarrow> string list \<Rightarrow> environment_spec \<Rightarrow> string \<Rightarrow> string
     \<Rightarrow> checkpoint_artifact \<Rightarrow> snapshot result" where
  "new_with_kind now clock kind i names template source_node_id source_runtime_id artifact =
     bindE (ok_or clock (Unavailable ''snapshot capture clock unavailable'')) (\<lambda>created.
     let s = \<lparr>sn_id = i, sn_names = names, sn_kind = kind, sn_created_at_unix_ms = created,
              sn_template = template, sn_source_node_id = source_node_id,
              sn_source_runtime_id = source_runtime_id, sn_artifact = artifact, sn_revision = 1,
              sn_state = SnReady, sn_references = []\<rparr>
     in bindE (Snapshot_validate now s) (\<lambda>_. Inr s))"

definition Snapshot_new ::
  "int \<Rightarrow> u64 option \<Rightarrow> string \<Rightarrow> string list \<Rightarrow> environment_spec \<Rightarrow> string \<Rightarrow> string \<Rightarrow> checkpoint_artifact
     \<Rightarrow> snapshot result" where
  "Snapshot_new now clock = new_with_kind now clock Regular"

definition origin :: "snapshot \<Rightarrow> runtime_identity result" where
  "origin s =
     bindE (ok_or (strip_prefix (spec_id (sn_template s) @ ''-'') (sn_source_runtime_id s)) Conflict) (\<lambda>suffix.
     bindE (ok_or (Option.bind (parse_uint (before_str ''-r'' suffix)) (\<lambda>g. if g > 0 then Some g else None))
              Conflict) (\<lambda>generation.
     if \<not> valid_runtime_id (spec_id (sn_template s)) generation (sn_source_runtime_id s) then Inl Conflict
     else Inr \<lparr>ri_environment_id = spec_id (sn_template s), ri_runtime_id = sn_source_runtime_id s,
               ri_ownership_generation = generation\<rparr>))"

definition collectable :: "snapshot \<Rightarrow> bool" where
  "collectable s \<longleftrightarrow> sn_state s = SnDeleting \<and> sn_references s = []"

definition Snapshot_authorize :: "string \<Rightarrow> snapshot \<Rightarrow> unit result" where
  "Snapshot_authorize tenant s =
     (if spec_tenant_id (sn_template s) \<noteq> tenant
      then Inl (Invalid ''snapshot belongs to another tenant'') else Inr ())"

definition advance :: "(snapshot, unit) op" where
  "advance s =
     (case checked_add (sn_revision s) 1 of
        None \<Rightarrow> (Inl Conflict, s)
      | Some r \<Rightarrow> (Inr (), s\<lparr>sn_revision := r\<rparr>))"

definition acquire :: "string \<Rightarrow> reference \<Rightarrow> (snapshot, unit) op" where
  "acquire tenant reference s =
     (case Snapshot_authorize tenant s of
        Inl e \<Rightarrow> (Inl e, s)
      | Inr _ \<Rightarrow>
          (case Reference_validate reference of
             Inl e \<Rightarrow> (Inl e, s)
           | Inr _ \<Rightarrow>
               if reference \<in> set (sn_references s) then (Inr (), s)
               else if sn_state s \<noteq> SnReady then (Inl Conflict, s)
               else
                 (case advance s of
                    (Inl e, s') \<Rightarrow> (Inl e, s')
                  | (Inr _, s') \<Rightarrow>
                      (Inr (), s'\<lparr>sn_references := os_insert reference (sn_references s')\<rparr>))))"

definition Snapshot_release :: "reference \<Rightarrow> (snapshot, unit) op" where
  "Snapshot_release reference s =
     (case Reference_validate reference of
        Inl e \<Rightarrow> (Inl e, s)
      | Inr _ \<Rightarrow>
          if reference \<in> set (sn_references s) then
            (case advance s of
               (Inl e, s') \<Rightarrow> (Inl e, s')
             | (Inr _, s') \<Rightarrow>
                 (Inr (), s'\<lparr>sn_references := os_remove reference (sn_references s')\<rparr>))
          else (Inr (), s))"

definition restore_ids :: "reference list \<Rightarrow> string list" where
  "restore_ids rs = List.map_filter (\<lambda>r. case r of Restore e \<Rightarrow> Some e | _ \<Rightarrow> None) rs"

definition template_labels :: "reference list \<Rightarrow> string list" where
  "template_labels rs = List.map_filter (\<lambda>r. case r of Template n t \<Rightarrow> Some (n @ ''/'' @ t) | _ \<Rightarrow> None) rs"

definition delete :: "string \<Rightarrow> (snapshot, unit) op" where
  "delete tenant s =
     (case Snapshot_authorize tenant s of
        Inl e \<Rightarrow> (Inl e, s)
      | Inr _ \<Rightarrow>
          if sn_state s = SnReady then
            if sn_references s \<noteq> []
            then (Inl (SnapshotInUse (restore_ids (sn_references s)) (template_labels (sn_references s))), s)
            else
              (case advance s of
                 (Inl e, s') \<Rightarrow> (Inl e, s')
               | (Inr _, s') \<Rightarrow> (Inr (), s'\<lparr>sn_state := SnDeleting\<rparr>))
          else (Inr (), s))"

definition deleted :: "u64 \<Rightarrow> (snapshot, unit) op" where
  "deleted expected s =
     (if sn_state s = SnDeleted then (Inr (), s)
      else if sn_revision s \<noteq> expected \<or> \<not> collectable s then (Inl Conflict, s)
      else
        (case advance s of
           (Inl e, s') \<Rightarrow> (Inl e, s')
         | (Inr _, s') \<Rightarrow> (Inr (), s'\<lparr>sn_state := SnDeleted\<rparr>)))"

definition matches_template :: "snapshot \<Rightarrow> environment_spec \<Rightarrow> bool" where
  "matches_template s spec = matches_fixed_spec spec (sn_template s)"

definition same_content :: "snapshot \<Rightarrow> snapshot \<Rightarrow> bool" where
  "same_content s other \<longleftrightarrow>
     sn_id s = sn_id other \<and> sn_names s = sn_names other \<and> sn_kind s = sn_kind other
     \<and> sn_created_at_unix_ms s = sn_created_at_unix_ms other \<and> matches_template s (sn_template other)
     \<and> sn_source_node_id s = sn_source_node_id other \<and> sn_source_runtime_id s = sn_source_runtime_id other
     \<and> sn_artifact s = sn_artifact other"

section \<open>Histories\<close>

inductive snapshot_step :: "snapshot \<Rightarrow> snapshot \<Rightarrow> bool" where
  step_acquire: "snapshot_step s (snd (acquire tenant r s))"
| step_release: "snapshot_step s (snd (Snapshot_release r s))"
| step_delete: "snapshot_step s (snd (delete tenant s))"
| step_deleted: "snapshot_step s (snd (deleted expected s))"

inductive_cases snapshot_step_cases: "snapshot_step s t"

lemma advance_cases:
  "(\<exists>r. advance s = (Inr (), s\<lparr>sn_revision := r\<rparr>) \<and> unat r = unat (sn_revision s) + 1)
   \<or> advance s = (Inl Conflict, s)"
proof (cases "checked_add (sn_revision s) 1")
  case (Some r)
  then have "unat r = unat (sn_revision s) + 1"
    by (simp add: checked_add_eq_Some)
  with Some show ?thesis by (auto simp: advance_def)
qed (simp add: advance_def)

lemmas snapshot_op_defs = acquire_def Snapshot_release_def delete_def deleted_def

lemma snapshot_step_revision:
  "snapshot_step s t \<Longrightarrow> t = s \<or> unat (sn_revision t) = unat (sn_revision s) + 1"
  by (erule snapshot_step_cases; insert advance_cases [of s])
     (auto simp: snapshot_op_defs split: sum.splits)

lemma failed_op_unchanged:
  "acquire tenant r s = (Inl e, t) \<Longrightarrow> t = s" "Snapshot_release r s = (Inl e, t) \<Longrightarrow> t = s"
  "delete tenant s = (Inl e, t) \<Longrightarrow> t = s" "deleted expected s = (Inl e, t) \<Longrightarrow> t = s"
  by (insert advance_cases [of s])
     (auto simp: snapshot_op_defs split: sum.splits if_splits)

text \<open>
  C12. A snapshot revision identifies its state. Along any sequence of acquire, release, delete and
  deleted calls, successful or not, the revision never decreases or wraps, and equal revisions mean
  equal snapshots; so a deletion confirmed against an expected revision acts on the state observed.
\<close>

theorem revision_identifies_state:
  assumes "snapshot_step\<^sup>*\<^sup>* s t"
  shows "sn_revision s \<le> sn_revision t \<and> (sn_revision s = sn_revision t \<longrightarrow> s = t)"
proof -
  have "t = s \<or> unat (sn_revision s) < unat (sn_revision t)"
    using assms
  proof (induction rule: rtranclp_induct)
    case (step t u)
    with snapshot_step_revision [OF step(2)] show ?case by auto
  qed simp
  then show ?thesis by (auto simp: word_le_nat_alt)
qed

section \<open>References protect a snapshot\<close>

definition snapshot_inv :: "snapshot \<Rightarrow> bool" where
  "snapshot_inv s \<longleftrightarrow>
     (sn_references s \<noteq> [] \<longrightarrow> sn_state s = SnReady)
     \<and> (\<forall>r \<in> set (sn_references s). Reference_validate r = Inr ()) \<and> sorted_wrt (<) (sn_references s)"

lemma snapshot_inv_step: "snapshot_step s t \<Longrightarrow> snapshot_inv s \<Longrightarrow> snapshot_inv t"
  by (erule snapshot_step_cases; insert advance_cases [of s])
     (auto simp: snapshot_op_defs snapshot_inv_def collectable_def sorted_os_insert sorted_os_remove
      split: sum.splits)

lemma snapshot_inv_steps: "snapshot_step\<^sup>*\<^sup>* s t \<Longrightarrow> snapshot_inv s \<Longrightarrow> snapshot_inv t"
  by (induction rule: rtranclp_induct) (auto intro: snapshot_inv_step)

lemma new_with_kind_inv: "new_with_kind now clock kind i ns spec n r a = Inr s \<Longrightarrow> snapshot_inv s"
  by (auto simp: new_with_kind_def result_simps Let_def snapshot_inv_def)

text \<open>
  C13. A snapshot in use survives. In every state reachable from a newly created snapshot, one that
  is referenced is \<open>Ready\<close>: deleting it fails, changes nothing and names all users; and once it is
  no longer \<open>Ready\<close> no new reference can be acquired.
\<close>

theorem referenced_snapshot_survives:
  assumes "new_with_kind now clock kind i names spec node source_runtime artifact = Inr s0"
    and "snapshot_step\<^sup>*\<^sup>* s0 s"
  shows "(sn_references s \<noteq> [] \<longrightarrow> sn_state s = SnReady
            \<and> (\<exists>e. delete tenant s = (Inl e, s)) \<and> deleted expected s = (Inl Conflict, s)
            \<and> (\<forall>e. Restore e \<in> set (sn_references s) \<and> tenant = spec_tenant_id (sn_template s) \<longrightarrow>
                 (\<exists>boxes templates. delete tenant s = (Inl (SnapshotInUse boxes templates), s) \<and> e \<in> set boxes)))
       \<and> (sn_state s \<noteq> SnReady \<longrightarrow> (\<exists>e. acquire tenant r s = (Inl e, s)))"
proof -
  have inv: "snapshot_inv s"
    using assms new_with_kind_inv snapshot_inv_steps by blast
  have boxes: "e \<in> set (restore_ids rs)" if "Restore e \<in> set rs" for e rs
    using that by (force simp: restore_ids_def List.map_filter_def)
  show ?thesis
    using inv boxes
    by (auto simp: snapshot_inv_def delete_def deleted_def collectable_def acquire_def
        Snapshot_authorize_def split: sum.splits)
qed

section \<open>Origin of a snapshot\<close>

lemma origin_ok:
  assumes "valid_runtime_id (spec_id (sn_template s)) g (sn_source_runtime_id s)" "g > 0"
  shows "origin s = Inr \<lparr>ri_environment_id = spec_id (sn_template s),
                         ri_runtime_id = sn_source_runtime_id s, ri_ownership_generation = g\<rparr>"
proof -
  let ?e = "spec_id (sn_template s)"
  obtain tail where t: "sn_source_runtime_id s = ?e @ ''-'' @ dec (unat g) @ tail"
    and tail: "tail = [] \<or> (\<exists>u. tail = ''-r'' @ u)"
    using assms(1) by (auto simp: valid_runtime_id_cases runtime_base_def)
  have "strip_prefix (?e @ ''-'') (sn_source_runtime_id s) = Some (dec (unat g) @ tail)"
    unfolding t by (metis append.assoc strip_prefix_append)
  moreover have "before_str ''-r'' (dec (unat g) @ tail) = dec (unat g)"
    using tail before_str_append [of "''-r''" "dec (unat g)"] by (auto simp: digit_not_in)
  ultimately show ?thesis
    using assms by (simp add: origin_def)
qed

text \<open>
  The origin of a snapshot is recovered exactly: it is an identity of the template's own
  Environment with a positive generation for which the recorded runtime id is valid, and whenever
  such a generation exists the recovery succeeds and returns it.
\<close>

theorem origin_recovers_owner:
  "origin s = Inr i \<longleftrightarrow>
     ri_environment_id i = spec_id (sn_template s) \<and> ri_runtime_id i = sn_source_runtime_id s
     \<and> ri_ownership_generation i > 0
     \<and> valid_runtime_id (ri_environment_id i) (ri_ownership_generation i) (ri_runtime_id i)"
proof
  assume "origin s = Inr i"
  then show "ri_environment_id i = spec_id (sn_template s) \<and> ri_runtime_id i = sn_source_runtime_id s
     \<and> ri_ownership_generation i > 0
     \<and> valid_runtime_id (ri_environment_id i) (ri_ownership_generation i) (ri_runtime_id i)"
    by (auto simp: origin_def result_simps bind_eq_Some_conv split: if_splits)
next
  assume "ri_environment_id i = spec_id (sn_template s) \<and> ri_runtime_id i = sn_source_runtime_id s
     \<and> ri_ownership_generation i > 0
     \<and> valid_runtime_id (ri_environment_id i) (ri_ownership_generation i) (ri_runtime_id i)"
  with origin_ok [of s "ri_ownership_generation i"] show "origin s = Inr i" by auto
qed

section \<open>Snapshot templates\<close>

definition MAX_SNAPSHOT_TEMPLATE_NAME_BYTES :: nat where
  "MAX_SNAPSHOT_TEMPLATE_NAME_BYTES = 128"

definition MAX_PREPARATION_ERROR_BYTES :: nat where
  "MAX_PREPARATION_ERROR_BYTES = 2048"

datatype preparation_state = Registered | Creating | Snapshotting | Cleaning | PrepReady | PrepFailed

record snapshot_preparation =
  prep_id :: string
  prep_created_at_unix_ms :: u64
  prep_resources :: resources
  prep_state :: preparation_state
  prep_spec :: "environment_spec option"
  prep_snapshot_id :: "string option"
  prep_expected_revision :: "u64 option"
  prep_error :: "string option"
  prep_cleanup_pending :: bool

record successful_preparation =
  ok_preparation_id :: string
  ok_snapshot_id :: string

record snapshot_template =
  tmpl_id :: string
  tmpl_tenant_id :: string
  tmpl_name :: string
  tmpl_created_at_unix_ms :: u64
  tmpl_revision :: u64
  tmpl_deleted :: bool
  tmpl_preparation :: snapshot_preparation
  tmpl_latest_successful :: "successful_preparation option"

definition valid_preparation_id :: "string \<Rightarrow> bool" where
  "valid_preparation_id v \<longleftrightarrow>
     length v = 36 \<and>
     list_all (\<lambda>(index, b). if index \<in> {8, 13, 18, 23} then b = CHR ''-''
                            else is_digit b \<or> in_range CHR ''a'' CHR ''f'' b)
       (zip [0..<length v] v)"

definition to_ascii_lowercase :: "string \<Rightarrow> string" where
  "to_ascii_lowercase s = map (\<lambda>c. if in_range CHR ''A'' CHR ''Z'' c then char_of (byte c + 32) else c) s"

definition name_byte :: "char \<Rightarrow> bool" where
  "name_byte b \<longleftrightarrow> in_range CHR ''a'' CHR ''z'' b \<or> is_digit b \<or> b \<in> {CHR ''-'', CHR ''_''}"

definition normalize_name :: "string \<Rightarrow> string result" where
  "normalize_name v =
     (let name = to_ascii_lowercase (trim v) in
      if name = [] \<or> length name > MAX_SNAPSHOT_TEMPLATE_NAME_BYTES \<or> \<not> list_all name_byte name
      then Inl (Invalid ''invalid snapshot template name'') else Inr name)"

definition validate_template_tenant :: "string \<Rightarrow> unit result" where
  "validate_template_tenant tenant =
     (if tenant = [] \<or> length tenant > 128 \<or> trim tenant \<noteq> tenant \<or> any_control tenant
      then Inl (Invalid ''invalid snapshot template tenant'') else Inr ())"

definition bad_snapshot_id :: "string \<Rightarrow> bool" where
  "bad_snapshot_id i \<longleftrightarrow> i = [] \<or> length i > 256 \<or> any_control i"

definition SnapshotPreparation_validate :: "int \<Rightarrow> snapshot_preparation \<Rightarrow> unit result" where
  "SnapshotPreparation_validate now p =
     checks
       [Resources_validate (prep_resources p),
        opt_check (EnvironmentSpec_validate now) (prep_spec p),
        ensure (\<not> (\<not> valid_preparation_id (prep_id p) \<or> prep_created_at_unix_ms p = 0
                 \<or> prep_expected_revision p = Some 0 \<or> is_some_and bad_snapshot_id (prep_snapshot_id p)
                 \<or> is_some_and (\<lambda>e. length e > MAX_PREPARATION_ERROR_BYTES \<or> nul \<in> set e) (prep_error p)
                 \<or> prep_state p \<in> {Creating, Snapshotting, Cleaning} \<and> prep_spec p = None
                 \<or> prep_state p = Snapshotting \<and> prep_expected_revision p = None
                 \<or> prep_state p = Cleaning \<and> prep_snapshot_id p = None
                 \<or> prep_state p = PrepReady \<and> (prep_snapshot_id p = None \<or> prep_cleanup_pending p)))
          (Invalid ''invalid snapshot preparation'')]"

definition bad_build :: "snapshot_template \<Rightarrow> successful_preparation \<Rightarrow> bool" where
  "bad_build t build \<longleftrightarrow>
     \<not> valid_preparation_id (ok_preparation_id build) \<or> bad_snapshot_id (ok_snapshot_id build)
     \<or> ok_preparation_id build = prep_id (tmpl_preparation t)
       \<and> (prep_state (tmpl_preparation t) \<noteq> PrepReady
          \<or> prep_snapshot_id (tmpl_preparation t) \<noteq> Some (ok_snapshot_id build))"

definition SnapshotTemplate_validate :: "int \<Rightarrow> snapshot_template \<Rightarrow> unit result" where
  "SnapshotTemplate_validate now t =
     bindE (validate_template_tenant (tmpl_tenant_id t)) (\<lambda>_.
     bindE (SnapshotPreparation_validate now (tmpl_preparation t)) (\<lambda>_.
     if \<not> valid_preparation_id (tmpl_id t) then Inl (Invalid ''invalid snapshot template'')
     else
       bindE (normalize_name (tmpl_name t)) (\<lambda>normal.
       ensure (\<not> (normal \<noteq> tmpl_name t \<or> tmpl_created_at_unix_ms t = 0 \<or> tmpl_revision t = 0
                \<or> is_some_and (\<lambda>spec. spec_tenant_id spec \<noteq> tmpl_tenant_id t) (prep_spec (tmpl_preparation t))
                \<or> is_some_and (bad_build t) (tmpl_latest_successful t)
                \<or> prep_state (tmpl_preparation t) = PrepReady
                  \<and> is_none_or (\<lambda>build. ok_preparation_id build \<noteq> prep_id (tmpl_preparation t))
                      (tmpl_latest_successful t)))
         (Invalid ''invalid snapshot template''))))"

lemma chunks_ascii: "\<forall>c \<in> set s. byte c < 128 \<Longrightarrow> chunks s = map (\<lambda>c. [c]) s"
  by (induction s) (auto simp: char_width_def)

lemma name_byte_range: "name_byte b \<Longrightarrow> byte b < 128 \<and> \<not> is_whitespace [b] \<and> \<not> in_range CHR ''A'' CHR ''Z'' b"
  by (auto simp: name_byte_def in_range_def is_digit_def is_whitespace_def code_point_def Let_def)

lemma dropWhile_none: "\<forall>x \<in> set xs. \<not> P x \<Longrightarrow> dropWhile P xs = xs"
  by (cases xs) auto

lemma trim_plain:
  assumes "\<forall>c \<in> set s. byte c < 128 \<and> \<not> is_whitespace [c]"
  shows "trim s = s"
proof -
  have c: "chunks s = map (\<lambda>c. [c]) s" using assms by (simp add: chunks_ascii)
  then have "dropWhile is_whitespace (chunks s) = chunks s"
    "dropWhile is_whitespace (rev (chunks s)) = rev (chunks s)"
    using assms by (auto intro!: dropWhile_none)
  then have "trim s = concat (chunks s)" by (simp add: trim_def)
  then show ?thesis by (simp add: concat_chunks)
qed

text \<open>
  Normalizing a template name is idempotent: a name it returns is accepted again unchanged, so
  the canonical-form test of a stored template accepts exactly the stored results.
\<close>

theorem normalize_name_idempotent:
  assumes "normalize_name v = Inr name"
  shows "normalize_name name = Inr name"
proof -
  have n: "name \<noteq> []" "length name \<le> MAX_SNAPSHOT_TEMPLATE_NAME_BYTES" "list_all name_byte name"
    using assms by (auto simp: normalize_name_def Let_def split: if_splits)
  then have "trim name = name"
    by (intro trim_plain) (auto simp: list_all_iff dest: name_byte_range)
  moreover have "to_ascii_lowercase name = name"
    unfolding to_ascii_lowercase_def using n(3)
    by (intro map_idI) (auto simp: list_all_iff dest: name_byte_range)
  ultimately show ?thesis using n by (simp add: normalize_name_def)
qed

theorem normalize_name_idempotent_witness:
  "normalize_name '' My-T1 '' = Inr ''my-t1'' \<and> normalize_name ''my-t1'' = Inr ''my-t1''"
proof -
  have n: "normalize_name '' My-T1 '' = Inr ''my-t1''" by code_simp
  with normalize_name_idempotent [OF n] show ?thesis by blast
qed

section \<open>A snapshot's life\<close>

definition sample_artifact :: checkpoint_artifact where
  "sample_artifact = \<lparr>art_storage = ''s3'', art_scope = [], art_location = ''k'', art_size_bytes = 1\<rparr>"

definition sample_snapshot :: snapshot where
  "sample_snapshot =
     \<lparr>sn_id = ''s'', sn_names = [], sn_kind = Regular, sn_created_at_unix_ms = 5, sn_template = plain_spec,
      sn_source_node_id = ''n'', sn_source_runtime_id = ''e-1'', sn_artifact = sample_artifact,
      sn_revision = 1, sn_state = SnReady, sn_references = []\<rparr>"

definition used_snapshot :: snapshot where
  "used_snapshot = snd (acquire ''t'' (Restore ''x'') sample_snapshot)"

theorem revision_identifies_state_witness:
  "sn_revision sample_snapshot < sn_revision used_snapshot"
proof -
  have "snapshot_step\<^sup>*\<^sup>* sample_snapshot used_snapshot"
    unfolding used_snapshot_def by (intro r_into_rtranclp step_acquire)
  from revision_identifies_state [OF this]
  have "sn_revision sample_snapshot \<le> sn_revision used_snapshot" by blast
  moreover have "sn_revision sample_snapshot \<noteq> sn_revision used_snapshot" by code_simp
  ultimately show ?thesis by simp
qed

theorem referenced_snapshot_survives_witness:
  "sn_references used_snapshot = [Restore ''x'']
   \<and> (\<exists>boxes templates. delete ''t'' used_snapshot = (Inl (SnapshotInUse boxes templates), used_snapshot)
        \<and> ''x'' \<in> set boxes)"
proof -
  have new: "new_with_kind 0 (Some 5) Regular ''s'' [] plain_spec ''n'' ''e-1'' sample_artifact = Inr sample_snapshot"
    by code_simp
  have step: "snapshot_step\<^sup>*\<^sup>* sample_snapshot used_snapshot"
    unfolding used_snapshot_def by (intro r_into_rtranclp step_acquire)
  have refs: "sn_references used_snapshot = [Restore ''x'']" "spec_tenant_id (sn_template used_snapshot) = ''t''"
    by code_simp+
  from referenced_snapshot_survives [OF new step, of "''t''"] refs show ?thesis by simp
qed

end
