(* ===== verification/Cluster_Snapshot.thy ===== *)
theory Cluster_Snapshot
  imports Environment
begin

text \<open>
  The scheduler's view of the cluster (\<^verbatim>\<open>platform/crates/scheduling/src/snapshot.rs\<close>): nodes,
  placed Environments and the tenant, label and reverse anti-affinity indexes kept beside them.
  The persistent \<open>OrdMap\<close> and \<open>OrdSet\<close> of the source are the ordered maps and sets of this library.
\<close>

section \<open>Inverted indexes\<close>

definition index_ids :: "('k, 'i oset) omap \<Rightarrow> 'k \<Rightarrow> 'i oset" where
  "index_ids m k = (case map_of m k of None \<Rightarrow> [] | Some ids \<Rightarrow> ids)"

definition index_add :: "'k::linorder \<Rightarrow> 'i::linorder \<Rightarrow> ('k, 'i oset) omap \<Rightarrow> ('k, 'i oset) omap" where
  "index_add k i m = om_put k (os_insert i (index_ids m k)) m"

definition index_del :: "'k::linorder \<Rightarrow> 'i::linorder \<Rightarrow> ('k, 'i oset) omap \<Rightarrow> ('k, 'i oset) omap" where
  "index_del k i m =
     (case map_of m k of
        None \<Rightarrow> m
      | Some ids \<Rightarrow>
          let rest = os_remove i ids in if rest = [] then om_del k m else om_put k rest m)"

definition index_wf :: "('k::linorder, 'i::linorder oset) omap \<Rightarrow> bool" where
  "index_wf m \<longleftrightarrow> om_wf m \<and> (\<forall>k ids. map_of m k = Some ids \<longrightarrow> ids \<noteq> [] \<and> sorted_wrt (<) ids)"

lemma index_ids_add [simp]:
  "set (index_ids (index_add k i m) k') = (if k' = k then insert i (set (index_ids m k')) else set (index_ids m k'))"
  by (auto simp: index_ids_def index_add_def)

lemma index_ids_del [simp]:
  "set (index_ids (index_del k i m) k') = (if k' = k then set (index_ids m k') - {i} else set (index_ids m k'))"
proof (cases "map_of m k")
  case (Some ids)
  have "set ids - {i} = {}" if "os_remove i ids = []"
    using that set_os_remove [of i ids] by simp
  with Some show ?thesis by (auto simp: index_ids_def index_del_def Let_def)
qed (simp add: index_ids_def index_del_def)

lemma os_insert_nonempty [simp]: "os_insert x xs \<noteq> []"
  using set_os_insert [of x xs] by (metis insert_not_empty list.set(1))

lemma index_sorted: "index_wf m \<Longrightarrow> sorted_wrt (<) (index_ids m k)"
  by (auto simp: index_wf_def index_ids_def split: option.splits)

lemma index_wf_add [simp]: "index_wf m \<Longrightarrow> index_wf (index_add k i m)"
  using index_sorted [of m k] by (auto simp: index_wf_def index_add_def)

lemma index_wf_del [simp]: "index_wf m \<Longrightarrow> index_wf (index_del k i m)"
  by (auto simp: index_wf_def index_del_def Let_def split: option.splits)

lemma index_wf_Nil [simp]: "index_wf []" "index_ids [] k = []"
  by (simp_all add: index_wf_def index_ids_def)

lemma index_fold_add:
  "set (index_ids (fold (\<lambda>e. index_add (f e) i) es m) k) =
     set (index_ids m k) \<union> (if k \<in> f ` set es then {i} else {})"
  by (induction es arbitrary: m) auto

lemma index_fold_del:
  "set (index_ids (fold (\<lambda>e. index_del (f e) i) es m) k) =
     set (index_ids m k) - (if k \<in> f ` set es then {i} else {})"
  by (induction es arbitrary: m) auto

lemma index_wf_fold:
  "index_wf m \<Longrightarrow> index_wf (fold (\<lambda>e. index_add (f e) i) es m)"
  "index_wf m \<Longrightarrow> index_wf (fold (\<lambda>e. index_del (f e) i) es m)"
  by (induction es arbitrary: m) auto

section \<open>State and operations\<close>

record placed_environment =
  pe_spec :: environment_spec
  pe_node_id :: string

abbreviation pe_tenant :: "placed_environment \<Rightarrow> string" where
  "pe_tenant p \<equiv> spec_tenant_id (pe_spec p)"

abbreviation pe_labels :: "placed_environment \<Rightarrow> labels" where
  "pe_labels p \<equiv> sp_labels (spec_scheduling (pe_spec p))"

record cluster =
  cl_revision :: u64
  cl_nodes :: "(string, node) omap"
  cl_environments :: "(string, placed_environment) omap"
  cl_tenants :: "(string, string oset) omap"
  cl_labels :: "(string \<times> string \<times> string, string oset) omap"
  cl_reverse_anti :: "string oset"

definition cluster_default :: cluster where
  "cluster_default =
     \<lparr>cl_revision = 0, cl_nodes = [], cl_environments = [], cl_tenants = [], cl_labels = [],
      cl_reverse_anti = []\<rparr>"

definition remove_node :: "string \<Rightarrow> cluster \<Rightarrow> cluster" where
  "remove_node i c = c\<lparr>cl_nodes := om_del i (cl_nodes c), cl_revision := cl_revision c + 1\<rparr>"

definition update_node :: "node \<Rightarrow> cluster \<Rightarrow> cluster" where
  "update_node n c = c\<lparr>cl_nodes := om_put (node_id n) n (cl_nodes c), cl_revision := cl_revision c + 1\<rparr>"

definition label_key :: "string \<Rightarrow> string \<times> string \<Rightarrow> string \<times> string \<times> string" where
  "label_key tenant e = (tenant, fst e, snd e)"

definition reverse_group :: "placement_group \<Rightarrow> bool" where
  "reverse_group g \<longleftrightarrow> pg_target g = TargetEnvironment \<and> pg_required g \<and> pg_anti g"

definition has_reverse_anti :: "scheduling_policy \<Rightarrow> bool" where
  "has_reverse_anti p \<longleftrightarrow>
     sp_required_anti_affinity p \<noteq> [] \<or> list_ex reverse_group (sp_placement_groups p)"

definition remove_indexes :: "string \<Rightarrow> cluster \<Rightarrow> cluster" where
  "remove_indexes i c =
     (case map_of (cl_environments c) i of
        None \<Rightarrow> c
      | Some p \<Rightarrow>
          c\<lparr>cl_environments := om_del i (cl_environments c),
            cl_tenants := index_del (pe_tenant p) i (cl_tenants c),
            cl_labels := fold (\<lambda>e. index_del (label_key (pe_tenant p) e) i) (pe_labels p) (cl_labels c),
            cl_reverse_anti := os_remove i (cl_reverse_anti c)\<rparr>)"

definition place :: "placed_environment \<Rightarrow> cluster \<Rightarrow> cluster" where
  "place p c =
     (let i = spec_id (pe_spec p); c' = remove_indexes i c in
      c'\<lparr>cl_tenants := index_add (pe_tenant p) i (cl_tenants c'),
         cl_labels := fold (\<lambda>e. index_add (label_key (pe_tenant p) e) i) (pe_labels p) (cl_labels c'),
         cl_reverse_anti :=
           (if has_reverse_anti (spec_scheduling (pe_spec p)) then os_insert i (cl_reverse_anti c')
            else cl_reverse_anti c'),
         cl_environments := om_put i p (cl_environments c'),
         cl_revision := cl_revision c' + 1\<rparr>)"

definition remove :: "string \<Rightarrow> cluster \<Rightarrow> cluster" where
  "remove i c = (let c' = remove_indexes i c in c'\<lparr>cl_revision := cl_revision c' + 1\<rparr>)"

text \<open>The narrowest index among the tenant's and those of the selector's exact labels.\<close>

fun narrow :: "cluster \<Rightarrow> string \<Rightarrow> (string \<times> string) list \<Rightarrow> string oset option \<Rightarrow> string oset option" where
  "narrow c tenant [] ids = ids"
| "narrow c tenant (e # es) ids =
     (case map_of (cl_labels c) (label_key tenant e) of
        None \<Rightarrow> None
      | Some index \<Rightarrow>
          narrow c tenant es
            (if is_some_and (\<lambda>current. length index < length current) ids then Some index else ids))"

definition matching :: "cluster \<Rightarrow> string \<Rightarrow> label_selector \<Rightarrow> placed_environment list" where
  "matching c tenant selector =
     (case narrow c tenant (match_labels selector) (map_of (cl_tenants c) tenant) of
        None \<Rightarrow> []
      | Some ids \<Rightarrow>
          filter (\<lambda>p. LabelSelector_matches selector (pe_labels p))
            (List.map_filter (map_of (cl_environments c)) ids))"

definition has_reverse_anti_affinity :: "cluster \<Rightarrow> bool" where
  "has_reverse_anti_affinity c \<longleftrightarrow> cl_reverse_anti c \<noteq> []"

section \<open>Index invariant\<close>

type_synonym placements = "string \<Rightarrow> placed_environment option"

definition tenant_exact :: "placements \<Rightarrow> (string, string oset) omap \<Rightarrow> bool" where
  "tenant_exact env m \<longleftrightarrow>
     (\<forall>t. set (index_ids m t) = {i. \<exists>p. env i = Some p \<and> pe_tenant p = t})"

definition label_exact :: "placements \<Rightarrow> (string \<times> string \<times> string, string oset) omap \<Rightarrow> bool" where
  "label_exact env m \<longleftrightarrow>
     (\<forall>k. set (index_ids m k) =
        {i. \<exists>p. env i = Some p \<and> k \<in> label_key (pe_tenant p) ` set (pe_labels p)})"

definition reverse_exact :: "placements \<Rightarrow> string oset \<Rightarrow> bool" where
  "reverse_exact env ids \<longleftrightarrow>
     set ids = {i. \<exists>p. env i = Some p \<and> has_reverse_anti (spec_scheduling (pe_spec p))}"

text \<open>Entries are stored under their own identity.\<close>

definition keyed :: "('v \<Rightarrow> 'k::linorder) \<Rightarrow> ('k, 'v) omap \<Rightarrow> bool" where
  "keyed f m \<longleftrightarrow> (\<forall>k v. map_of m k = Some v \<longrightarrow> f v = k)"

lemma keyed_ops [simp]:
  "keyed f []" "keyed f m \<Longrightarrow> keyed f (om_del k m)" "keyed f m \<Longrightarrow> keyed f (om_put (f v) v m)"
  by (auto simp: keyed_def)

lemma keyedD: "keyed f m \<Longrightarrow> map_of m k = Some v \<Longrightarrow> f v = k"
  by (simp add: keyed_def)

definition cluster_inv :: "cluster \<Rightarrow> bool" where
  "cluster_inv c \<longleftrightarrow>
     om_wf (cl_nodes c) \<and> om_wf (cl_environments c) \<and> index_wf (cl_tenants c) \<and> index_wf (cl_labels c)
     \<and> sorted_wrt (<) (cl_reverse_anti c)
     \<and> keyed node_id (cl_nodes c) \<and> keyed (\<lambda>p. spec_id (pe_spec p)) (cl_environments c)
     \<and> tenant_exact (map_of (cl_environments c)) (cl_tenants c)
     \<and> label_exact (map_of (cl_environments c)) (cl_labels c)
     \<and> reverse_exact (map_of (cl_environments c)) (cl_reverse_anti c)"

lemma exact_add:
  assumes "env i = None"
  shows "tenant_exact env m \<Longrightarrow> tenant_exact (env(i \<mapsto> p)) (index_add (pe_tenant p) i m)"
    and "label_exact env l \<Longrightarrow>
           label_exact (env(i \<mapsto> p)) (fold (\<lambda>e. index_add (label_key (pe_tenant p) e) i) (pe_labels p) l)"
    and "reverse_exact env ids \<Longrightarrow>
           reverse_exact (env(i \<mapsto> p))
             (if has_reverse_anti (spec_scheduling (pe_spec p)) then os_insert i ids else ids)"
  using assms by (auto simp: tenant_exact_def label_exact_def reverse_exact_def index_fold_add)

lemma exact_del:
  assumes "env i = Some p"
  shows "tenant_exact env m \<Longrightarrow> tenant_exact (env(i := None)) (index_del (pe_tenant p) i m)"
    and "label_exact env l \<Longrightarrow>
           label_exact (env(i := None)) (fold (\<lambda>e. index_del (label_key (pe_tenant p) e) i) (pe_labels p) l)"
    and "reverse_exact env ids \<Longrightarrow> reverse_exact (env(i := None)) (os_remove i ids)"
  using assms by (auto simp: tenant_exact_def label_exact_def reverse_exact_def index_fold_del)

lemma cluster_inv_default: "cluster_inv cluster_default"
  by (simp add: cluster_inv_def cluster_default_def tenant_exact_def label_exact_def reverse_exact_def)

lemma remove_indexes_inv:
  assumes "cluster_inv c"
  shows "cluster_inv (remove_indexes i c)"
proof (cases "map_of (cl_environments c) i")
  case (Some p)
  with assms show ?thesis
    by (simp add: cluster_inv_def remove_indexes_def exact_del index_wf_fold)
qed (use assms in \<open>simp add: remove_indexes_def\<close>)

lemma remove_indexes_env:
  "map_of (cl_environments (remove_indexes i c)) = (map_of (cl_environments c))(i := None)"
  by (auto simp: remove_indexes_def fun_eq_iff split: option.splits)

lemma place_inv:
  assumes "cluster_inv c"
  shows "cluster_inv (place p c)"
proof -
  let ?i = "spec_id (pe_spec p)"
  let ?c = "remove_indexes ?i c"
  have inv: "cluster_inv ?c" and none: "map_of (cl_environments ?c) ?i = None"
    using assms by (simp_all add: remove_indexes_inv remove_indexes_env)
  have "keyed (\<lambda>p. spec_id (pe_spec p)) (om_put ?i p (cl_environments ?c))"
    using inv keyed_ops(3) [of "\<lambda>p. spec_id (pe_spec p)" _ p] by (simp add: cluster_inv_def)
  with inv exact_add [where env = "map_of (cl_environments ?c)" and i = ?i and p = p, OF none] show ?thesis
    unfolding cluster_inv_def by (simp add: place_def Let_def index_wf_fold)
qed

lemma remove_inv: "cluster_inv c \<Longrightarrow> cluster_inv (remove i c)"
  using remove_indexes_inv [of c i] by (simp add: cluster_inv_def remove_def Let_def)

lemma update_node_inv: "cluster_inv c \<Longrightarrow> cluster_inv (update_node n c)"
  by (auto simp: cluster_inv_def update_node_def)

lemma remove_node_inv: "cluster_inv c \<Longrightarrow> cluster_inv (remove_node i c)"
  by (auto simp: cluster_inv_def remove_node_def)

lemmas cluster_inv_ops [intro] = cluster_inv_default place_inv remove_inv update_node_inv remove_node_inv

inductive cluster_reach :: "cluster \<Rightarrow> bool" where
  creach_default: "cluster_reach cluster_default"
| creach_place: "cluster_reach c \<Longrightarrow> cluster_reach (place p c)"
| creach_remove: "cluster_reach c \<Longrightarrow> cluster_reach (remove i c)"
| creach_update: "cluster_reach c \<Longrightarrow> cluster_reach (update_node n c)"
| creach_remove_node: "cluster_reach c \<Longrightarrow> cluster_reach (remove_node i c)"

lemma cluster_reach_inv: "cluster_reach c \<Longrightarrow> cluster_inv c"
  by (induction rule: cluster_reach.induct) auto

section \<open>Index lookup equals a full scan\<close>

text \<open>Looking up a sorted list of keys lists the entries with those keys in map order.\<close>

lemma lookup_sorted:
  assumes "om_wf m" "sorted_wrt (<) ids"
  shows "List.map_filter (map_of m) ids = map snd (filter (\<lambda>e. fst e \<in> set ids) m)"
proof -
  let ?has = "\<lambda>i. map_of m i \<noteq> None"
  have keys: "filter ?has ids = map fst (filter (\<lambda>e. fst e \<in> set ids) m)"
  proof (rule strict_sorted_equal)
    show "sorted_wrt (<) (filter ?has ids)" using assms(2) by (rule sorted_wrt_filter)
    show "sorted_wrt (<) (map fst (filter (\<lambda>e. fst e \<in> set ids) m))"
      using assms(1) unfolding om_wf_def sorted_wrt_map by (rule sorted_wrt_filter)
    show "set (filter ?has ids) = set (map fst (filter (\<lambda>e. fst e \<in> set ids) m))"
      by (auto simp: map_of_eq_None_iff image_iff)
  qed
  have "List.map_filter (map_of m) ids = map (the \<circ> map_of m) (filter ?has ids)"
    by (simp add: List.map_filter_def)
  also have "\<dots> = map (\<lambda>e. the (map_of m (fst e))) (filter (\<lambda>e. fst e \<in> set ids) m)"
    by (simp only: keys map_map comp_def)
  also have "\<dots> = map snd (filter (\<lambda>e. fst e \<in> set ids) m)"
    by (intro map_cong) (auto dest: om_wf_map_of [OF assms(1), THEN iffD2])
  finally show ?thesis .
qed

lemma narrow_sound:
  assumes "narrow c tenant es ids = Some out" "index_wf (cl_labels c)" "\<forall>x. ids = Some x \<longrightarrow> sorted_wrt (<) x"
  shows "sorted_wrt (<) out \<and>
         (\<forall>i. (\<forall>x. ids = Some x \<longrightarrow> i \<in> set x) \<longrightarrow>
              (\<forall>e \<in> set es. i \<in> set (index_ids (cl_labels c) (label_key tenant e))) \<longrightarrow> i \<in> set out) \<and>
         (set out \<subseteq> (case ids of Some x \<Rightarrow> set x | None \<Rightarrow> {})
          \<or> (\<exists>e \<in> set es. set out \<subseteq> set (index_ids (cl_labels c) (label_key tenant e))))"
  using assms
proof (induction es arbitrary: ids)
  case (Cons e es)
  from Cons.prems(1) obtain index where index: "map_of (cl_labels c) (label_key tenant e) = Some index"
    by (auto split: option.splits)
  then have ids: "index_ids (cl_labels c) (label_key tenant e) = index"
    by (simp add: index_ids_def)
  have sorted: "sorted_wrt (<) index"
    using index_sorted [OF Cons.prems(2), of "label_key tenant e"] ids by simp
  show ?case
  proof (cases "is_some_and (\<lambda>current. length index < length current) ids")
    case True
    with Cons.IH [of "Some index"] Cons.prems index ids sorted show ?thesis by auto
  next
    case False
    with Cons.IH [of ids] Cons.prems index ids show ?thesis by auto
  qed
qed (auto split: option.splits)

definition scan :: "cluster \<Rightarrow> string \<Rightarrow> label_selector \<Rightarrow> placed_environment list" where
  "scan c tenant selector =
     filter (\<lambda>p. pe_tenant p = tenant \<and> LabelSelector_matches selector (pe_labels p))
       (map snd (cl_environments c))"

lemma narrow_None:
  assumes "narrow c tenant es ids = None" "\<forall>e \<in> set es. i \<in> set (index_ids (cl_labels c) (label_key tenant e))"
  shows "ids = None"
  using assms
proof (induction es arbitrary: ids)
  case (Cons e es)
  then obtain index where "map_of (cl_labels c) (label_key tenant e) = Some index"
    by (cases "map_of (cl_labels c) (label_key tenant e)") (auto simp: index_ids_def)
  with Cons.prems Cons.IH [of "if is_some_and (\<lambda>current. length index < length current) ids then Some index else ids"]
  show ?case by (simp split: if_splits)
qed simp

lemma matching_scan:
  assumes inv: "cluster_inv c"
  shows "matching c tenant selector = scan c tenant selector"
proof -
  let ?envs = "cl_environments c" and ?sel = "\<lambda>p. LabelSelector_matches selector (pe_labels p)"
  let ?ids = "map_of (cl_tenants c) tenant" and ?es = "match_labels selector"
  have wf: "om_wf ?envs" "index_wf (cl_labels c)" "index_wf (cl_tenants c)"
    and tenants: "\<And>t. set (index_ids (cl_tenants c) t) = {i. \<exists>p. map_of ?envs i = Some p \<and> pe_tenant p = t}"
    and labels: "\<And>k. set (index_ids (cl_labels c) k) =
      {i. \<exists>p. map_of ?envs i = Some p \<and> k \<in> label_key (pe_tenant p) ` set (pe_labels p)}"
    using inv unfolding cluster_inv_def tenant_exact_def label_exact_def by blast+
  have hit1: "i \<in> set (index_ids (cl_labels c) (label_key tenant e))"
    if "(i, p) \<in> set ?envs" "pe_tenant p = tenant" "?sel p" "e \<in> set ?es" for i p e
  proof -
    have "map_of (pe_labels p) (fst e) = Some (snd e)"
      using that(3,4) by (auto simp: LabelSelector_matches_def list_all_iff)
    then have "e \<in> set (pe_labels p)" using map_of_SomeD by fastforce
    then show ?thesis
      using that(1,2) om_wf_map_of [OF wf(1)] unfolding labels by blast
  qed
  have hit2: "i \<in> set (index_ids (cl_tenants c) tenant)"
    if "(i, p) \<in> set ?envs" "pe_tenant p = tenant" for i p
    using that om_wf_map_of [OF wf(1)] unfolding tenants by blast
  show ?thesis
  proof (cases "narrow c tenant ?es ?ids")
    case None
    have "\<not> (pe_tenant p = tenant \<and> ?sel p)" if ip: "(i, p) \<in> set ?envs" for i p
    proof
      assume hit: "pe_tenant p = tenant \<and> ?sel p"
      then have t: "pe_tenant p = tenant" "?sel p" by blast+
      have "\<forall>e \<in> set ?es. i \<in> set (index_ids (cl_labels c) (label_key tenant e))"
        by (intro ballI hit1 [OF ip t])
      then have "?ids = None" by (rule narrow_None [OF None])
      with hit2 [OF ip t(1)] show False by (simp add: index_ids_def)
    qed
    then have "scan c tenant selector = []"
      unfolding scan_def filter_empty_conv by auto
    with None show ?thesis by (simp add: matching_def)
  next
    case (Some out)
    have "\<forall>x. ?ids = Some x \<longrightarrow> sorted_wrt (<) x" using wf(3) by (auto simp: index_wf_def)
    note ns = narrow_sound [OF Some wf(2) this]
    have cur: "(case ?ids of Some x \<Rightarrow> set x | None \<Rightarrow> {}) = set (index_ids (cl_tenants c) tenant)"
      by (simp add: index_ids_def split: option.split)
    have tenant: "pe_tenant p = tenant" if "(i, p) \<in> set ?envs" "i \<in> set out" for i p
    proof -
      have m: "map_of ?envs i = Some p" using that(1) om_wf_map_of [OF wf(1)] by blast
      have "i \<in> set (index_ids (cl_tenants c) tenant)
          \<or> (\<exists>e. i \<in> set (index_ids (cl_labels c) (label_key tenant e)))"
        using ns that(2) unfolding cur by blast
      with m show ?thesis unfolding tenants labels by (auto simp: label_key_def)
    qed
    have mem: "i \<in> set out" if "(i, p) \<in> set ?envs" "pe_tenant p = tenant" "?sel p" for i p
    proof -
      have "\<forall>x. ?ids = Some x \<longrightarrow> i \<in> set x"
        using hit2 [OF that(1,2)] by (auto simp: index_ids_def)
      moreover have "\<forall>e \<in> set ?es. i \<in> set (index_ids (cl_labels c) (label_key tenant e))"
        by (intro ballI hit1 [OF that])
      ultimately show ?thesis using ns by blast
    qed
    have "matching c tenant selector = filter ?sel (map snd (filter (\<lambda>e. fst e \<in> set out) ?envs))"
      using lookup_sorted [OF wf(1)] ns Some by (simp add: matching_def)
    also have "\<dots> = map snd (filter (\<lambda>e. fst e \<in> set out \<and> ?sel (snd e)) ?envs)"
      by (simp add: filter_map comp_def conj_commute)
    also have "filter (\<lambda>e. fst e \<in> set out \<and> ?sel (snd e)) ?envs
        = filter (\<lambda>e. pe_tenant (snd e) = tenant \<and> ?sel (snd e)) ?envs"
    proof (rule filter_cong [OF refl])
      fix e assume "e \<in> set ?envs"
      then have e: "(fst e, snd e) \<in> set ?envs" by simp
      show "(fst e \<in> set out \<and> ?sel (snd e)) = (pe_tenant (snd e) = tenant \<and> ?sel (snd e))"
        using tenant [OF e] mem [OF e] by blast
    qed
    finally show ?thesis by (simp add: scan_def filter_map comp_def)
  qed
qed

text \<open>
  C14. The indexed lookup is exact. In every reachable cluster state, for every tenant and selector,
  \<open>matching\<close> lists precisely the placed Environments of the tenant whose labels the selector accepts,
  in identity order: the result of scanning all Environments.
\<close>

theorem matching_equals_scan:
  assumes "cluster_reach c"
  shows "matching c tenant selector =
           filter (\<lambda>p. spec_tenant_id (pe_spec p) = tenant
                     \<and> LabelSelector_matches selector (sp_labels (spec_scheduling (pe_spec p))))
             (map snd (cl_environments c))"
  using matching_scan [OF cluster_reach_inv [OF assms]] by (simp add: scan_def)

definition labelled_cluster :: cluster where
  "labelled_cluster =
     place \<lparr>pe_spec = plain_spec\<lparr>spec_scheduling := SchedulingPolicy_default\<lparr>sp_labels := [(''app'', ''db'')]\<rparr>\<rparr>,
            pe_node_id = ''n1''\<rparr> cluster_default"

theorem matching_equals_scan_witness:
  "let selector = \<lparr>match_labels = [(''app'', ''db'')], expressions = []\<rparr> in
     map (\<lambda>p. spec_id (pe_spec p)) (matching labelled_cluster ''t'' selector) = [''e'']
     \<and> matching labelled_cluster ''t'' selector =
         filter (\<lambda>p. spec_tenant_id (pe_spec p) = ''t''
                   \<and> LabelSelector_matches selector (sp_labels (spec_scheduling (pe_spec p))))
           (map snd (cl_environments labelled_cluster))"
proof -
  have reach: "cluster_reach labelled_cluster"
    unfolding labelled_cluster_def by (intro creach_place creach_default)
  have "map (\<lambda>p. spec_id (pe_spec p))
     (matching labelled_cluster ''t'' \<lparr>match_labels = [(''app'', ''db'')], expressions = []\<rparr>) = [''e'']"
    by code_simp
  with matching_equals_scan [OF reach] show ?thesis unfolding Let_def by blast
qed

end
