(* ===== verification/Placement_Query.thy ===== *)
theory Placement_Query
  imports Cluster_Snapshot
begin

text \<open>
  Request-scoped precomputation (\<^verbatim>\<open>platform/crates/scheduling/src/query.rs\<close>): which topology
  domains hold matching peers, which placed Environments object to the request, and how many peers
  each domain has; each with its meaning over the placed Environments.
\<close>

section \<open>Definitions\<close>

record peer_matches =
  pm_any :: bool
  pm_values :: "string oset"

definition PeerMatches_default :: peer_matches where
  "PeerMatches_default = \<lparr>pm_any = False, pm_values = []\<rparr>"

record prepared =
  pq_required :: "peer_matches list"
  pq_anti :: "peer_matches list"
  pq_preferred :: "peer_matches list"
  pq_preferred_anti :: "peer_matches list"
  pq_reverse :: "(string \<times> string option) oset"
  pq_reverse_missing_node :: bool
  pq_groups :: "string oset list list"
  pq_reverse_group_nodes :: "string oset"
  pq_spread :: "(string, u64) omap list"

definition node_label :: "cluster \<Rightarrow> string \<Rightarrow> string \<Rightarrow> string option" where
  "node_label c i key = Option.bind (map_of (cl_nodes c) i) (\<lambda>n. map_of (node_labels n) key)"

definition term_tenants :: "environment_spec \<Rightarrow> peer_term \<Rightarrow> string list" where
  "term_tenants r t = (if pt_tenants t = [] then [spec_tenant_id r] else pt_tenants t)"

definition add_peer :: "cluster \<Rightarrow> peer_term \<Rightarrow> placed_environment \<Rightarrow> peer_matches \<Rightarrow> peer_matches" where
  "add_peer c t p m =
     \<lparr>pm_any = True,
      pm_values = (case node_label c (pe_node_id p) (pt_topology_key t) of
                     Some v \<Rightarrow> os_insert v (pm_values m) | None \<Rightarrow> pm_values m)\<rparr>"

definition peers :: "environment_spec \<Rightarrow> cluster \<Rightarrow> peer_term \<Rightarrow> peer_matches" where
  "peers r c t =
     fold (\<lambda>tenant. fold (add_peer c t) (matching c tenant (pt_selector t))) (term_tenants r t)
       PeerMatches_default"

definition group_nodes :: "environment_spec \<Rightarrow> cluster \<Rightarrow> placement_group \<Rightarrow> string oset list" where
  "group_nodes r c g =
     map (\<lambda>term. if pg_target g = TargetNode then []
                 else os_of_list (map pe_node_id (matching c (spec_tenant_id r) (ws_selector term))))
       (pg_terms g)"

definition group_objects :: "environment_spec \<Rightarrow> placed_environment \<Rightarrow> bool" where
  "group_objects r p \<longleftrightarrow>
     pe_tenant p = spec_tenant_id r
     \<and> list_ex (\<lambda>g. reverse_group g \<and>
          list_ex (\<lambda>t. LabelSelector_matches (ws_selector t) (sp_labels (spec_scheduling r))) (pg_terms g))
         (sp_placement_groups (spec_scheduling (pe_spec p)))"

definition anti_objects :: "environment_spec \<Rightarrow> placed_environment \<Rightarrow> peer_term \<Rightarrow> bool" where
  "anti_objects r p t = PeerTerm_matches t (pe_tenant p) (spec_tenant_id r) (sp_labels (spec_scheduling r))"

definition reverse_term ::
  "environment_spec \<Rightarrow> cluster \<Rightarrow> placed_environment \<Rightarrow> peer_term \<Rightarrow> prepared \<Rightarrow> prepared" where
  "reverse_term r c p t q =
     (if anti_objects r p t then
        (case map_of (cl_nodes c) (pe_node_id p) of
           None \<Rightarrow> q\<lparr>pq_reverse_missing_node := True\<rparr>
         | Some n \<Rightarrow>
             q\<lparr>pq_reverse := os_insert (pt_topology_key t, map_of (node_labels n) (pt_topology_key t))
                              (pq_reverse q)\<rparr>)
      else q)"

definition reverse_step :: "environment_spec \<Rightarrow> cluster \<Rightarrow> placed_environment \<Rightarrow> prepared \<Rightarrow> prepared" where
  "reverse_step r c p q =
     fold (reverse_term r c p) (sp_required_anti_affinity (spec_scheduling (pe_spec p)))
       (if group_objects r p
        then q\<lparr>pq_reverse_group_nodes := os_insert (pe_node_id p) (pq_reverse_group_nodes q)\<rparr> else q)"

fun reverse_loop :: "environment_spec \<Rightarrow> cluster \<Rightarrow> string list \<Rightarrow> prepared \<Rightarrow> prepared result" where
  "reverse_loop r c [] q = Inr q"
| "reverse_loop r c (i # ids) q =
     (case map_of (cl_environments c) i of
        None \<Rightarrow> Inl (Panic ''OrdMap::index: invalid key'')
      | Some p \<Rightarrow> reverse_loop r c ids (reverse_step r c p q))"

definition bump :: "string \<Rightarrow> (string, u64) omap \<Rightarrow> (string, u64) omap" where
  "bump v m = (case map_of m v of None \<Rightarrow> m | Some n \<Rightarrow> om_put v (n + 1) m)"

definition spread_domains :: "environment_spec \<Rightarrow> cluster \<Rightarrow> topology_spread \<Rightarrow> string list" where
  "spread_domains r c t =
     List.map_filter (\<lambda>n. map_of (node_labels n) (ts_topology_key t))
       (filter (\<lambda>n. node_available n \<and> matches_node (spec_scheduling r) (node_labels n))
         (map snd (cl_nodes c)))"

definition spread_counts :: "environment_spec \<Rightarrow> cluster \<Rightarrow> topology_spread \<Rightarrow> (string, u64) omap" where
  "spread_counts r c t =
     fold (\<lambda>p m. case node_label c (pe_node_id p) (ts_topology_key t) of None \<Rightarrow> m | Some v \<Rightarrow> bump v m)
       (matching c (spec_tenant_id r) (ts_selector t))
       (om_of_list (map (\<lambda>v. (v, 0)) (spread_domains r c t)))"

definition Prepared_new :: "environment_spec \<Rightarrow> cluster \<Rightarrow> prepared result" where
  "Prepared_new r c =
     (let s = spec_scheduling r;
          base = \<lparr>pq_required = map (peers r c) (sp_required_affinity s),
                  pq_anti = map (peers r c) (sp_required_anti_affinity s),
                  pq_preferred = map (\<lambda>t. peers r c (wp_term t)) (sp_preferred_affinity s),
                  pq_preferred_anti = map (\<lambda>t. peers r c (wp_term t)) (sp_preferred_anti_affinity s),
                  pq_reverse = [], pq_reverse_missing_node = False,
                  pq_groups = map (group_nodes r c) (sp_placement_groups s),
                  pq_reverse_group_nodes = [], pq_spread = []\<rparr>
      in bindE (reverse_loop r c (cl_reverse_anti c) base) (\<lambda>q.
         Inr (q\<lparr>pq_spread := map (spread_counts r c) (sp_topology_spread s)\<rparr>)))"

section \<open>Meaning of the peer sets\<close>

text \<open>The placed Environments a term of \<open>r\<close> selects.\<close>

definition selected :: "environment_spec \<Rightarrow> cluster \<Rightarrow> peer_term \<Rightarrow> placed_environment set" where
  "selected r c t =
     {p \<in> snd ` set (cl_environments c). PeerTerm_matches t (spec_tenant_id r) (pe_tenant p) (pe_labels p)}"

lemma fold_add_peer:
  "pm_any (fold (add_peer c t) ps m) \<longleftrightarrow> pm_any m \<or> ps \<noteq> []"
  "set (pm_values (fold (add_peer c t) ps m)) =
     set (pm_values m) \<union> {v. \<exists>p \<in> set ps. node_label c (pe_node_id p) (pt_topology_key t) = Some v}"
  by (induction ps arbitrary: m) (auto simp: add_peer_def split: option.splits)

lemma fold_fold_add_peer:
  "pm_any (fold (\<lambda>u. fold (add_peer c t) (f u)) us m) \<longleftrightarrow> pm_any m \<or> (\<exists>u \<in> set us. f u \<noteq> [])"
  "set (pm_values (fold (\<lambda>u. fold (add_peer c t) (f u)) us m)) =
     set (pm_values m) \<union> {v. \<exists>u \<in> set us. \<exists>p \<in> set (f u). node_label c (pe_node_id p) (pt_topology_key t) = Some v}"
  by (induction us arbitrary: m) (auto simp: fold_add_peer)

lemma set_matching:
  "cluster_inv c \<Longrightarrow> set (matching c u s) =
     {p \<in> snd ` set (cl_environments c). pe_tenant p = u \<and> LabelSelector_matches s (pe_labels p)}"
  by (auto simp: matching_scan scan_def)

lemma selected_matching:
  assumes "cluster_inv c"
  shows "selected r c t = (\<Union>u \<in> set (term_tenants r t). set (matching c u (pt_selector t)))"
  by (auto simp: selected_def term_tenants_def PeerTerm_matches_def list_ex_iff set_matching [OF assms])

lemma peers_any:
  assumes "cluster_inv c"
  shows "pm_any (peers r c t) \<longleftrightarrow> selected r c t \<noteq> {}"
  by (auto simp: peers_def fold_fold_add_peer PeerMatches_default_def selected_matching [OF assms])

lemma peers_values:
  assumes "cluster_inv c"
  shows "set (pm_values (peers r c t)) =
           {v. \<exists>p \<in> selected r c t. node_label c (pe_node_id p) (pt_topology_key t) = Some v}"
  by (auto simp: peers_def fold_fold_add_peer PeerMatches_default_def selected_matching [OF assms])

section \<open>Meaning of the objections\<close>

definition objections ::
  "environment_spec \<Rightarrow> placed_environment list \<Rightarrow> (placed_environment \<times> peer_term) set" where
  "objections r ps =
     {(p, t). p \<in> set ps \<and> t \<in> set (sp_required_anti_affinity (spec_scheduling (pe_spec p)))
              \<and> anti_objects r p t}"

definition reverse_ok :: "environment_spec \<Rightarrow> cluster \<Rightarrow> (placed_environment \<times> peer_term) set \<Rightarrow> prepared \<Rightarrow> bool" where
  "reverse_ok r c obj q \<longleftrightarrow>
     (pq_reverse_missing_node q \<longleftrightarrow> (\<exists>(p, t) \<in> obj. map_of (cl_nodes c) (pe_node_id p) = None))
     \<and> set (pq_reverse q) =
         {(pt_topology_key t, map_of (node_labels n) (pt_topology_key t)) | p t n.
            (p, t) \<in> obj \<and> map_of (cl_nodes c) (pe_node_id p) = Some n}"

lemma reverse_term_ok:
  assumes "reverse_ok r c obj q"
  shows "reverse_ok r c (obj \<union> (if anti_objects r p t then {(p, t)} else {})) (reverse_term r c p t q)"
  using assms unfolding reverse_ok_def reverse_term_def
  by (cases "map_of (cl_nodes c) (pe_node_id p)") auto

lemma reverse_terms_ok:
  "reverse_ok r c obj q \<Longrightarrow>
     reverse_ok r c (obj \<union> {(p, t) | t. t \<in> set ts \<and> anti_objects r p t}) (fold (reverse_term r c p) ts q)"
proof (induction ts arbitrary: obj q)
  case (Cons t ts)
  have "obj \<union> (if anti_objects r p t then {(p, t)} else {}) \<union> {(p, u) | u. u \<in> set ts \<and> anti_objects r p u}
      = obj \<union> {(p, u) | u. u \<in> set (t # ts) \<and> anti_objects r p u}" by auto
  with Cons.IH [OF reverse_term_ok [OF Cons.prems, of p t]]
  have "reverse_ok r c (obj \<union> {(p, u) | u. u \<in> set (t # ts) \<and> anti_objects r p u})
          (fold (reverse_term r c p) ts (reverse_term r c p t q))" by argo
  then show ?case by simp
qed simp

lemma fold_reverse_term_frame:
  "pq_reverse_group_nodes (fold (reverse_term r c p) ts q) = pq_reverse_group_nodes q"
  "pq_required (fold (reverse_term r c p) ts q) = pq_required q"
  "pq_anti (fold (reverse_term r c p) ts q) = pq_anti q"
  "pq_preferred (fold (reverse_term r c p) ts q) = pq_preferred q"
  "pq_preferred_anti (fold (reverse_term r c p) ts q) = pq_preferred_anti q"
  "pq_groups (fold (reverse_term r c p) ts q) = pq_groups q"
  by (induction ts arbitrary: q) (auto simp: reverse_term_def split: option.splits)

lemma reverse_step_frame:
  "set (pq_reverse_group_nodes (reverse_step r c p q)) =
     set (pq_reverse_group_nodes q) \<union> (if group_objects r p then {pe_node_id p} else {})"
  "pq_required (reverse_step r c p q) = pq_required q" "pq_anti (reverse_step r c p q) = pq_anti q"
  "pq_preferred (reverse_step r c p q) = pq_preferred q"
  "pq_preferred_anti (reverse_step r c p q) = pq_preferred_anti q"
  "pq_groups (reverse_step r c p q) = pq_groups q"
  by (auto simp: reverse_step_def fold_reverse_term_frame)

lemma reverse_step_ok:
  assumes "reverse_ok r c (objections r ps) q"
  shows "reverse_ok r c (objections r (ps @ [p])) (reverse_step r c p q)"
proof -
  let ?q = "if group_objects r p
            then q\<lparr>pq_reverse_group_nodes := os_insert (pe_node_id p) (pq_reverse_group_nodes q)\<rparr> else q"
  let ?ts = "sp_required_anti_affinity (spec_scheduling (pe_spec p))"
  have "reverse_ok r c (objections r ps) ?q" using assms by (simp add: reverse_ok_def)
  from reverse_terms_ok [OF this, of p ?ts]
  have "reverse_ok r c (objections r ps \<union> {(p, t) | t. t \<in> set ?ts \<and> anti_objects r p t}) (reverse_step r c p q)"
    by (simp add: reverse_step_def)
  moreover have "objections r ps \<union> {(p, t) | t. t \<in> set ?ts \<and> anti_objects r p t} = objections r (ps @ [p])"
    by (auto simp: objections_def)
  ultimately show ?thesis by simp
qed

lemma reverse_loop_ok:
  assumes "\<forall>i \<in> set ids. map_of (cl_environments c) i \<noteq> None" "reverse_ok r c (objections r ps) q"
  shows "\<exists>q'. reverse_loop r c ids q = Inr q'
     \<and> reverse_ok r c (objections r (ps @ List.map_filter (map_of (cl_environments c)) ids)) q'
     \<and> set (pq_reverse_group_nodes q') = set (pq_reverse_group_nodes q) \<union>
         {pe_node_id p | p. p \<in> set (List.map_filter (map_of (cl_environments c)) ids) \<and> group_objects r p}
     \<and> pq_required q' = pq_required q \<and> pq_anti q' = pq_anti q \<and> pq_preferred q' = pq_preferred q
     \<and> pq_preferred_anti q' = pq_preferred_anti q \<and> pq_groups q' = pq_groups q"
  using assms
proof (induction ids arbitrary: ps q)
  case Nil
  then show ?case by (simp add: map_filter_simps)
next
  case (Cons i ids)
  then obtain p where p: "map_of (cl_environments c) i = Some p" by auto
  from Cons.IH [OF _ reverse_step_ok [OF Cons.prems(2), of p]] Cons.prems(1)
  obtain q' where "reverse_loop r c ids (reverse_step r c p q) = Inr q'"
    "reverse_ok r c (objections r ((ps @ [p]) @ List.map_filter (map_of (cl_environments c)) ids)) q'"
    "set (pq_reverse_group_nodes q') = set (pq_reverse_group_nodes (reverse_step r c p q)) \<union>
         {pe_node_id p | p. p \<in> set (List.map_filter (map_of (cl_environments c)) ids) \<and> group_objects r p}"
    "pq_required q' = pq_required q" "pq_anti q' = pq_anti q" "pq_preferred q' = pq_preferred q"
    "pq_preferred_anti q' = pq_preferred_anti q" "pq_groups q' = pq_groups q"
    by (auto simp: reverse_step_frame)
  with p show ?case
    by (auto simp: map_filter_simps reverse_step_frame split: if_splits)
qed

lemma reverse_ids:
  assumes "cluster_inv c"
  shows "set (List.map_filter (map_of (cl_environments c)) (cl_reverse_anti c)) =
           {p \<in> snd ` set (cl_environments c). has_reverse_anti (spec_scheduling (pe_spec p))}"
proof -
  have wf: "om_wf (cl_environments c)"
    and rev: "set (cl_reverse_anti c) =
      {i. \<exists>p. map_of (cl_environments c) i = Some p \<and> has_reverse_anti (spec_scheduling (pe_spec p))}"
    using assms by (simp_all add: cluster_inv_def reverse_exact_def)
  have mf: "set (List.map_filter f xs) = {y. \<exists>x \<in> set xs. f x = Some y}" for f :: "'x \<Rightarrow> 'y option" and xs
    by (force simp: List.map_filter_def)
  show ?thesis
    unfolding mf rev om_values [OF wf] by auto
qed

lemma objections_reverse:
  assumes "cluster_inv c"
  shows "objections r (List.map_filter (map_of (cl_environments c)) (cl_reverse_anti c)) =
           objections r (map snd (cl_environments c))"
  by (auto simp: objections_def reverse_ids [OF assms] has_reverse_anti_def)

lemma group_objects_reverse: "group_objects r p \<Longrightarrow> has_reverse_anti (spec_scheduling (pe_spec p))"
  by (auto simp: group_objects_def has_reverse_anti_def list_ex_iff)

text \<open>The precomputation succeeds on every consistent cluster, and its parts mean what they name.\<close>

lemma Prepared_new_ok:
  assumes "cluster_inv c"
  obtains q where "Prepared_new r c = Inr q"
    and "reverse_ok r c (objections r (map snd (cl_environments c))) q"
    and "set (pq_reverse_group_nodes q) =
           {pe_node_id p | p. p \<in> snd ` set (cl_environments c) \<and> group_objects r p}"
    and "pq_required q = map (peers r c) (sp_required_affinity (spec_scheduling r))"
    and "pq_anti q = map (peers r c) (sp_required_anti_affinity (spec_scheduling r))"
    and "pq_preferred q = map (\<lambda>t. peers r c (wp_term t)) (sp_preferred_affinity (spec_scheduling r))"
    and "pq_preferred_anti q = map (\<lambda>t. peers r c (wp_term t)) (sp_preferred_anti_affinity (spec_scheduling r))"
    and "pq_groups q = map (group_nodes r c) (sp_placement_groups (spec_scheduling r))"
    and "pq_spread q = map (spread_counts r c) (sp_topology_spread (spec_scheduling r))"
proof -
  let ?s = "spec_scheduling r"
  let ?base = "\<lparr>pq_required = map (peers r c) (sp_required_affinity ?s),
                pq_anti = map (peers r c) (sp_required_anti_affinity ?s),
                pq_preferred = map (\<lambda>t. peers r c (wp_term t)) (sp_preferred_affinity ?s),
                pq_preferred_anti = map (\<lambda>t. peers r c (wp_term t)) (sp_preferred_anti_affinity ?s),
                pq_reverse = [], pq_reverse_missing_node = False,
                pq_groups = map (group_nodes r c) (sp_placement_groups ?s),
                pq_reverse_group_nodes = [], pq_spread = []\<rparr>"
  have present: "\<forall>i \<in> set (cl_reverse_anti c). map_of (cl_environments c) i \<noteq> None"
    using assms by (auto simp: cluster_inv_def reverse_exact_def)
  have start: "reverse_ok r c (objections r []) ?base"
    by (simp add: reverse_ok_def objections_def)
  have nodes: "{pe_node_id p | p. p \<in> set (List.map_filter (map_of (cl_environments c)) (cl_reverse_anti c)) \<and> group_objects r p}
      = {pe_node_id p | p. p \<in> snd ` set (cl_environments c) \<and> group_objects r p}"
    unfolding reverse_ids [OF assms] using group_objects_reverse by blast
  from reverse_loop_ok [OF present start] obtain q where
    q: "reverse_loop r c (cl_reverse_anti c) ?base = Inr q"
      "reverse_ok r c (objections r (map snd (cl_environments c))) q"
      "set (pq_reverse_group_nodes q) =
         {pe_node_id p | p. p \<in> snd ` set (cl_environments c) \<and> group_objects r p}"
      "pq_required q = pq_required ?base" "pq_anti q = pq_anti ?base" "pq_preferred q = pq_preferred ?base"
      "pq_preferred_anti q = pq_preferred_anti ?base" "pq_groups q = pq_groups ?base"
    by (auto simp: objections_reverse [OF assms] nodes)
  show thesis
    by (rule that [of "q\<lparr>pq_spread := map (spread_counts r c) (sp_topology_spread ?s)\<rparr>"])
       (use q in \<open>simp_all add: Prepared_new_def reverse_ok_def\<close>)
qed

lemma Prepared_new_total: "cluster_inv c \<Longrightarrow> \<exists>q. Prepared_new r c = Inr q"
  by (erule Prepared_new_ok) blast

lemma Prepared_new_facts:
  assumes "cluster_inv c" "Prepared_new r c = Inr q"
  shows "reverse_ok r c (objections r (map snd (cl_environments c))) q"
    and "set (pq_reverse_group_nodes q) =
           {pe_node_id p | p. p \<in> snd ` set (cl_environments c) \<and> group_objects r p}"
    and "pq_required q = map (peers r c) (sp_required_affinity (spec_scheduling r))"
    and "pq_anti q = map (peers r c) (sp_required_anti_affinity (spec_scheduling r))"
    and "pq_preferred q = map (\<lambda>t. peers r c (wp_term t)) (sp_preferred_affinity (spec_scheduling r))"
    and "pq_preferred_anti q = map (\<lambda>t. peers r c (wp_term t)) (sp_preferred_anti_affinity (spec_scheduling r))"
    and "pq_groups q = map (group_nodes r c) (sp_placement_groups (spec_scheduling r))"
    and "pq_spread q = map (spread_counts r c) (sp_topology_spread (spec_scheduling r))"
  by (rule Prepared_new_ok [OF assms(1), of r]; simp add: assms(2))+

section \<open>Meaning of the spread counts\<close>

lemma map_of_zeros: "map_of (fold (\<lambda>(k, v). om_put k v) (map (\<lambda>v. (v, z)) vs) m) k =
     (if k \<in> set vs then Some z else map_of m k)"
  by (induction vs arbitrary: m) auto

lemma map_of_bump: "map_of (bump v m) k = (if k = v then map_option (\<lambda>n. n + 1) (map_of m k) else map_of m k)"
  by (auto simp: bump_def split: option.splits)

definition in_domain :: "cluster \<Rightarrow> string \<Rightarrow> string \<Rightarrow> placed_environment \<Rightarrow> bool" where
  "in_domain c key v p \<longleftrightarrow> node_label c (pe_node_id p) key = Some v"

lemma map_of_bumps:
  "map_of (fold (\<lambda>p m. case node_label c (pe_node_id p) key of None \<Rightarrow> m | Some v \<Rightarrow> bump v m) ps m) k =
     map_option (\<lambda>n. n + of_nat (length (filter (in_domain c key k) ps))) (map_of m k)"
proof (induction ps arbitrary: m)
  case (Cons p ps)
  then show ?case
    by (cases "node_label c (pe_node_id p) key"; cases "map_of m k")
       (auto simp: map_of_bump in_domain_def algebra_simps)
qed (simp add: option.map_ident)

text \<open>Peers of the request that a spread constraint counts in one domain.\<close>

definition domain_peers :: "environment_spec \<Rightarrow> cluster \<Rightarrow> topology_spread \<Rightarrow> string \<Rightarrow> nat" where
  "domain_peers r c t v =
     length (filter (\<lambda>p. pe_tenant p = spec_tenant_id r \<and> LabelSelector_matches (ts_selector t) (pe_labels p)
                         \<and> in_domain c (ts_topology_key t) v p) (map snd (cl_environments c)))"

lemma spread_counts_map:
  assumes "cluster_inv c"
  shows "map_of (spread_counts r c t) v =
           (if v \<in> set (spread_domains r c t) then Some (of_nat (domain_peers r c t v)) else None)"
proof -
  have "length (filter (in_domain c (ts_topology_key t) v) (matching c (spec_tenant_id r) (ts_selector t)))
      = domain_peers r c t v"
    by (simp add: matching_scan [OF assms] scan_def domain_peers_def conj_ac)
  then show ?thesis
    by (simp add: spread_counts_def map_of_bumps om_of_list_def map_of_zeros)
qed

lemma om_wf_spread_counts: "om_wf (spread_counts r c t)"
proof -
  have bump: "om_wf m \<Longrightarrow> om_wf (bump v m)" for v m
    by (simp add: bump_def split: option.split)
  have bumps: "om_wf m \<Longrightarrow>
      om_wf (fold (\<lambda>p m. case node_label c (pe_node_id p) key of None \<Rightarrow> m | Some v \<Rightarrow> bump v m) ps m)"
    for ps key and m :: "(string, u64) omap"
    by (induction ps arbitrary: m) (auto simp: bump split: option.splits)
  have puts: "om_wf m \<Longrightarrow> om_wf (fold (\<lambda>(k, v). om_put k v) kvs m)"
    for kvs and m :: "(string, u64) omap"
    by (induction kvs arbitrary: m) auto
  show ?thesis
    unfolding spread_counts_def om_of_list_def by (intro bumps puts om_wf_Nil)
qed

lemma domain_peers_le: "domain_peers r c t v \<le> length (cl_environments c)"
  unfolding domain_peers_def by (rule order_trans [OF length_filter_le]) simp

end
