(* ===== verification/Placement_Plugins.thy ===== *)
theory Placement_Plugins
  imports Placement_Query
begin

text \<open>
  The built-in hard rules and scores (\<^verbatim>\<open>platform/crates/scheduling/src/plugins.rs\<close>,
  \<^verbatim>\<open>constraints.rs\<close> and \<^verbatim>\<open>groups.rs\<close>) over one candidate node of one cluster snapshot.

  Sums of \<open>u128\<close> over the terms of a policy are natural numbers: a list has fewer than \<open>2 ^ 63\<close>
  elements and a term adds less than \<open>2 ^ 32\<close>, so neither they nor their products with \<open>MAX_SCORE\<close>
  reach \<open>2 ^ 128\<close>. Arithmetic on \<open>u64\<close> and \<open>u32\<close> keeps its width and its panics.
\<close>

datatype placement = Pack | Spread

record candidate =
  cand_node :: node
  cand_available :: resources
  cand_devices :: "device list"
  cand_snapshot :: cluster
  cand_prepared :: "prepared option"

definition MAX_SCORE :: u32 where
  "MAX_SCORE = 3000000"

definition candidate_prepared :: "environment_spec \<Rightarrow> candidate \<Rightarrow> prepared result" where
  "candidate_prepared r c =
     (case cand_prepared c of Some q \<Rightarrow> Inr q | None \<Rightarrow> Prepared_new r (cand_snapshot c))"

abbreviation cand_label :: "candidate \<Rightarrow> string \<Rightarrow> string option" where
  "cand_label c key \<equiv> map_of (node_labels (cand_node c)) key"

section \<open>Node, resource, device and runtime rules\<close>

definition NodeAvailable_filter :: "environment_spec \<Rightarrow> candidate \<Rightarrow> bool result" where
  "NodeAvailable_filter r c = Inr (node_available (cand_node c))"

definition ResourceFit_filter :: "environment_spec \<Rightarrow> candidate \<Rightarrow> bool result" where
  "ResourceFit_filter r c = Inr (fits (spec_resources r) (cand_available c))"

definition DeviceFit_filter :: "environment_spec \<Rightarrow> candidate \<Rightarrow> bool result" where
  "DeviceFit_filter r c =
     (case select_devices (sp_devices (spec_scheduling r)) (cand_devices c) of
        Inr _ \<Rightarrow> Inr True
      | Inl e \<Rightarrow> if e = NoCapacity then Inr False else Inl e)"

definition RuntimeFit_filter :: "environment_spec \<Rightarrow> candidate \<Rightarrow> bool result" where
  "RuntimeFit_filter r c = Inr (spec_runtime_class r \<in> set (node_runtime_classes (cand_node c)))"

definition NodeAffinity_filter :: "environment_spec \<Rightarrow> candidate \<Rightarrow> bool result" where
  "NodeAffinity_filter r c = Inr (matches_node (spec_scheduling r) (node_labels (cand_node c)))"

section \<open>Environment affinity\<close>

definition peer_here :: "candidate \<Rightarrow> peer_term \<Rightarrow> peer_matches \<Rightarrow> bool" where
  "peer_here c t m = is_some_and (\<lambda>v. v \<in> set (pm_values m)) (cand_label c (pt_topology_key t))"

definition affinity_holds :: "environment_spec \<Rightarrow> candidate \<Rightarrow> peer_term \<times> peer_matches \<Rightarrow> bool" where
  "affinity_holds r c e =
     (case e of (t, m) \<Rightarrow>
        \<not> cand_label c (pt_topology_key t) = None
        \<and> \<not> (\<not> peer_here c t m
             \<and> (pm_any m \<or> \<not> PeerTerm_matches t (spec_tenant_id r) (spec_tenant_id r)
                                 (sp_labels (spec_scheduling r)))))"

definition anti_holds :: "candidate \<Rightarrow> peer_term \<times> peer_matches \<Rightarrow> bool" where
  "anti_holds c e =
     (case e of (t, m) \<Rightarrow> \<not> (cand_label c (pt_topology_key t) = None \<or> peer_here c t m))"

definition reverse_holds :: "candidate \<Rightarrow> string \<times> string option \<Rightarrow> bool" where
  "reverse_holds c e =
     (case e of (key, val) \<Rightarrow> \<not> (val = None \<or> cand_label c key = None \<or> cand_label c key = val))"

definition EnvironmentAffinity_filter :: "environment_spec \<Rightarrow> candidate \<Rightarrow> bool result" where
  "EnvironmentAffinity_filter r c =
     bindE (candidate_prepared r c) (\<lambda>q.
     Inr (list_all (affinity_holds r c) (zip (sp_required_affinity (spec_scheduling r)) (pq_required q))
          \<and> list_all (anti_holds c) (zip (sp_required_anti_affinity (spec_scheduling r)) (pq_anti q))
          \<and> \<not> pq_reverse_missing_node q
          \<and> list_all (reverse_holds c) (pq_reverse q)))"

section \<open>Topology spread\<close>

definition min_count :: "(string, u64) omap \<Rightarrow> u64" where
  "min_count counts = (case map snd counts of [] \<Rightarrow> 0 | v # vs \<Rightarrow> fold min vs v)"

definition spread_floor :: "topology_spread \<Rightarrow> (string, u64) omap \<Rightarrow> u64" where
  "spread_floor t counts = (if length counts < unat (ts_min_domains t) then 0 else min_count counts)"

definition cand_count :: "candidate \<Rightarrow> topology_spread \<Rightarrow> (string, u64) omap \<Rightarrow> u64 option" where
  "cand_count c t counts = Option.bind (cand_label c (ts_topology_key t)) (map_of counts)"

fun topology_loop ::
  "environment_spec \<Rightarrow> candidate \<Rightarrow> (topology_spread \<times> (string, u64) omap) list \<Rightarrow> bool result" where
  "topology_loop r c [] = Inr True"
| "topology_loop r c ((t, counts) # rest) =
     (case cand_count c t counts of
        None \<Rightarrow> Inr False
      | Some cnt \<Rightarrow>
          let incoming = (if LabelSelector_matches (ts_selector t) (sp_labels (spec_scheduling r)) then 1 else 0) in
          bindE (rust_add cnt incoming) (\<lambda>total.
          bindE (rust_sub total (spread_floor t counts)) (\<lambda>skew.
          if skew > ucast (ts_max_skew t) then Inr False else topology_loop r c rest)))"

definition Topology_filter :: "environment_spec \<Rightarrow> candidate \<Rightarrow> bool result" where
  "Topology_filter r c =
     bindE (candidate_prepared r c) (\<lambda>q.
     topology_loop r c
       (filter (\<lambda>(t, _). ts_when_unsatisfiable t = DoNotSchedule)
         (zip (sp_topology_spread (spec_scheduling r)) (pq_spread q))))"

section \<open>Placement groups\<close>

definition group_term_matches ::
  "candidate \<Rightarrow> prepared \<Rightarrow> nat \<Rightarrow> placement_group \<Rightarrow> nat \<times> weighted_selector \<Rightarrow> bool result" where
  "group_term_matches c q index g e =
     (case e of (i, term) \<Rightarrow>
      case pg_target g of
        TargetNode \<Rightarrow> Inr (LabelSelector_matches (ws_selector term) (node_labels (cand_node c)))
      | TargetEnvironment \<Rightarrow>
          bindE (index_at (pq_groups q) index) (\<lambda>sets.
          bindE (index_at sets i) (\<lambda>nodes. Inr (node_id (cand_node c) \<in> set nodes))))"

definition group_matching :: "environment_spec \<Rightarrow> candidate \<Rightarrow> prepared \<Rightarrow> nat \<Rightarrow> bool list result" where
  "group_matching r c q index =
     bindE (index_at (sp_placement_groups (spec_scheduling r)) index) (\<lambda>g.
     mapE (group_term_matches c q index g) (enumerate 0 (pg_terms g)))"

definition bootstrap_group ::
  "environment_spec \<Rightarrow> prepared \<Rightarrow> nat \<Rightarrow> placement_group \<Rightarrow> bool result" where
  "bootstrap_group r q i g =
     (if pg_target g = TargetEnvironment then
        bindE (index_at (pq_groups q) i) (\<lambda>sets.
        Inr (list_all (\<lambda>s. s = []) sets
             \<and> list_ex (\<lambda>t. LabelSelector_matches (ws_selector t) (sp_labels (spec_scheduling r))) (pg_terms g)))
      else Inr False)"

fun required_loop ::
  "environment_spec \<Rightarrow> candidate \<Rightarrow> prepared \<Rightarrow> (nat \<times> placement_group) list \<Rightarrow> bool result" where
  "required_loop r c q [] = Inr True"
| "required_loop r c q ((i, g) # rest) =
     bindE (group_matching r c q i) (\<lambda>values.
     let found = list_ex (\<lambda>v. v) values in
     if pg_anti g then (if found then Inr False else required_loop r c q rest)
     else if \<not> found then
       bindE (bootstrap_group r q i g) (\<lambda>bootstrap.
       if \<not> bootstrap then Inr False else required_loop r c q rest)
     else required_loop r c q rest)"

definition Required_filter :: "environment_spec \<Rightarrow> candidate \<Rightarrow> bool result" where
  "Required_filter r c =
     bindE (candidate_prepared r c) (\<lambda>q.
     if node_id (cand_node c) \<in> set (pq_reverse_group_nodes q) then Inr False
     else required_loop r c q
            (filter (\<lambda>(_, g). pg_required g) (enumerate 0 (sp_placement_groups (spec_scheduling r)))))"

section \<open>Scores\<close>

definition fraction :: "u64 \<Rightarrow> u64 \<Rightarrow> u32" where
  "fraction free cap =
     (if cap = 0 then 0
      else ucast ((ucast (min free cap) * 1000000) div ucast cap :: 128 word))"

definition ResourceBalance_score :: "placement \<Rightarrow> environment_spec \<Rightarrow> candidate \<Rightarrow> u32 result" where
  "ResourceBalance_score p r c =
     (let avail = Resources_saturating_sub (cand_available c) (spec_resources r);
          cap = node_capacity (cand_node c)
      in bindE (rust_add (fraction (cpu_millis avail) (cpu_millis cap))
                  (fraction (memory_bytes avail) (memory_bytes cap))) (\<lambda>two.
         bindE (rust_add two (fraction (disk_bytes avail) (disk_bytes cap))) (\<lambda>free.
         case p of Pack \<Rightarrow> rust_sub MAX_SCORE free | Spread \<Rightarrow> Inr free)))"

definition normalized :: "(u32 \<times> bool) list \<Rightarrow> u32" where
  "normalized terms =
     (let val = (\<Sum>(weight, matched) \<leftarrow> terms. if matched then unat weight else 0);
          total = (\<Sum>(weight, _) \<leftarrow> terms. unat weight)
      in if total = 0 then 0 else of_nat (val * unat MAX_SCORE div total))"

definition NodePreference_score :: "environment_spec \<Rightarrow> candidate \<Rightarrow> u32 result" where
  "NodePreference_score r c =
     Inr (normalized (map (\<lambda>t. (ws_weight t, LabelSelector_matches (ws_selector t) (node_labels (cand_node c))))
            (sp_preferred_node (spec_scheduling r))))"

definition EnvironmentPreference_score :: "environment_spec \<Rightarrow> candidate \<Rightarrow> u32 result" where
  "EnvironmentPreference_score r c =
     bindE (candidate_prepared r c) (\<lambda>q.
     Inr (normalized
       (map (\<lambda>(t, m). (wp_weight t, peer_here c (wp_term t) m))
          (zip (sp_preferred_affinity (spec_scheduling r)) (pq_preferred q))
        @ map (\<lambda>(t, m). (wp_weight t, cand_label c (pt_topology_key (wp_term t)) \<noteq> None
                                        \<and> \<not> peer_here c (wp_term t) m))
            (zip (sp_preferred_anti_affinity (spec_scheduling r)) (pq_preferred_anti q)))))"

definition TopologyPreference_score :: "environment_spec \<Rightarrow> candidate \<Rightarrow> u32 result" where
  "TopologyPreference_score r c =
     bindE (candidate_prepared r c) (\<lambda>q.
     let terms = filter (\<lambda>(t, _). ts_when_unsatisfiable t = ScheduleAnyway)
                   (zip (sp_topology_spread (spec_scheduling r)) (pq_spread q));
         total = (\<Sum>(t, counts) \<leftarrow> terms.
                    case cand_count c t counts of
                      Some cnt \<Rightarrow> unat MAX_SCORE div (unat cnt + 1) | None \<Rightarrow> 0)
     in Inr (if terms = [] then 0 else of_nat (total div length terms)))"

fun position :: "('a \<Rightarrow> bool) \<Rightarrow> 'a list \<Rightarrow> nat option" where
  "position p [] = None"
| "position p (x # xs) = (if p x then Some 0 else map_option Suc (position p xs))"

definition desired :: "placement_group \<Rightarrow> bool \<Rightarrow> bool" where
  "desired g matched = (if pg_anti g then \<not> matched else matched)"

definition group_score :: "placement_group \<Rightarrow> bool list \<Rightarrow> u64 result" where
  "group_score g values =
     (if pg_ordered g then
        (case position (desired g) values of
           None \<Rightarrow> Inr 0
         | Some index \<Rightarrow>
             bindE (rust_mul (ucast MAX_SCORE) (of_nat (length values - index))) (\<lambda>n.
             rust_div n (of_nat (length values))))
      else
        bindE (rust_sum 0 (map (\<lambda>t. ucast (ws_weight t)) (pg_terms g))) (\<lambda>total.
        bindE (rust_sum 0 (map (\<lambda>(t, _). ucast (ws_weight t))
                 (filter (\<lambda>(_, v). desired g v) (zip (pg_terms g) values)))) (\<lambda>hit.
        bindE (rust_mul (ucast MAX_SCORE) hit) (\<lambda>n. rust_div n total))))"

fun preference_loop ::
  "environment_spec \<Rightarrow> candidate \<Rightarrow> prepared \<Rightarrow> u64 \<Rightarrow> u64 \<Rightarrow> (nat \<times> placement_group) list \<Rightarrow> (u64 \<times> u64) result" where
  "preference_loop r c q acc cnt [] = Inr (acc, cnt)"
| "preference_loop r c q acc cnt ((i, g) # rest) =
     bindE (group_matching r c q i) (\<lambda>values.
     bindE (rust_add cnt 1) (\<lambda>cnt'.
     bindE (group_score g values) (\<lambda>score.
     bindE (rust_add acc score) (\<lambda>acc'.
     preference_loop r c q acc' cnt' rest))))"

definition Preference_score :: "environment_spec \<Rightarrow> candidate \<Rightarrow> u32 result" where
  "Preference_score r c =
     bindE (candidate_prepared r c) (\<lambda>q.
     bindE (preference_loop r c q 0 0
              (filter (\<lambda>(_, g). \<not> pg_required g \<or> pg_ordered g)
                (enumerate 0 (sp_placement_groups (spec_scheduling r))))) (\<lambda>(acc, cnt).
     Inr (if cnt = 0 then 0 else ucast (acc div cnt))))"

section \<open>Candidates of a consistent cluster\<close>

text \<open>
  A candidate the scheduler builds: its snapshot satisfies the index invariant and a handed-over
  precomputation is the one of this request over this snapshot.
\<close>

definition candidate_ok :: "environment_spec \<Rightarrow> candidate \<Rightarrow> bool" where
  "candidate_ok r c \<longleftrightarrow>
     cluster_inv (cand_snapshot c) \<and> validate_inventory (cand_devices c) = Inr ()
     \<and> length (cl_environments (cand_snapshot c)) < 2 ^ 64 - 1
     \<and> is_none_or (\<lambda>q. Prepared_new r (cand_snapshot c) = Inr q) (cand_prepared c)"

lemma candidate_ok_inv [simp]: "candidate_ok r c \<Longrightarrow> cluster_inv (cand_snapshot c)"
  by (simp add: candidate_ok_def)

lemma candidate_prepared_new:
  "candidate_ok r c \<Longrightarrow> candidate_prepared r c = Prepared_new r (cand_snapshot c)"
  by (auto simp: candidate_ok_def candidate_prepared_def split: option.splits)

text \<open>What a required affinity term and a required anti-affinity term ask of the candidate's domain.\<close>

definition peers_in_domain :: "environment_spec \<Rightarrow> cluster \<Rightarrow> peer_term \<Rightarrow> string \<Rightarrow> placed_environment set" where
  "peers_in_domain r cl t v = {p \<in> selected r cl t. node_label cl (pe_node_id p) (pt_topology_key t) = Some v}"

lemma peer_here_peers:
  assumes "cluster_inv cl"
  shows "peer_here c t (peers r cl t) \<longleftrightarrow>
           (\<exists>v. cand_label c (pt_topology_key t) = Some v \<and> peers_in_domain r cl t v \<noteq> {})"
  by (auto simp: peer_here_def is_some_and_iff peers_values [OF assms] peers_in_domain_def)

definition separated :: "cluster \<Rightarrow> candidate \<Rightarrow> placed_environment \<Rightarrow> peer_term \<Rightarrow> bool" where
  "separated cl c p t \<longleftrightarrow>
     (\<exists>v w. cand_label c (pt_topology_key t) = Some v
            \<and> node_label cl (pe_node_id p) (pt_topology_key t) = Some w \<and> v \<noteq> w)"

lemma list_all_zip_map: "list_all f (zip xs (map g xs)) \<longleftrightarrow> (\<forall>x \<in> set xs. f (x, g x))"
  by (induction xs) auto

lemma reverse_separated:
  assumes "reverse_ok r cl obj q"
  shows "\<not> pq_reverse_missing_node q \<and> list_all (reverse_holds c) (pq_reverse q)
           \<longleftrightarrow> (\<forall>(p, t) \<in> obj. separated cl c p t)"
proof -
  have sep: "separated cl c p t \<longleftrightarrow>
      (\<exists>n. map_of (cl_nodes cl) (pe_node_id p) = Some n
           \<and> reverse_holds c (pt_topology_key t, map_of (node_labels n) (pt_topology_key t)))" for p t
    by (auto simp: separated_def node_label_def reverse_holds_def split: Option.bind_splits)
  show ?thesis
    using assms unfolding reverse_ok_def list_all_iff sep by fastforce
qed

text \<open>Affinity, anti-affinity and the objections of placed Environments, as one condition.\<close>

definition affinity_met :: "environment_spec \<Rightarrow> candidate \<Rightarrow> cluster \<Rightarrow> bool" where
  "affinity_met r c cl \<longleftrightarrow>
     (\<forall>t \<in> set (sp_required_affinity (spec_scheduling r)).
        \<exists>v. cand_label c (pt_topology_key t) = Some v
            \<and> (peers_in_domain r cl t v \<noteq> {}
               \<or> selected r cl t = {}
                 \<and> PeerTerm_matches t (spec_tenant_id r) (spec_tenant_id r) (sp_labels (spec_scheduling r))))
     \<and> (\<forall>t \<in> set (sp_required_anti_affinity (spec_scheduling r)).
          \<exists>v. cand_label c (pt_topology_key t) = Some v \<and> peers_in_domain r cl t v = {})
     \<and> (\<forall>(p, t) \<in> objections r (map snd (cl_environments cl)). separated cl c p t)"

lemma EnvironmentAffinity_filter_eq:
  assumes "candidate_ok r c"
  shows "EnvironmentAffinity_filter r c = Inr (affinity_met r c (cand_snapshot c))"
proof -
  let ?cl = "cand_snapshot c"
  have inv: "cluster_inv ?cl" using assms by simp
  from Prepared_new_total [OF inv] obtain q where q: "Prepared_new r ?cl = Inr q" by blast
  note facts = Prepared_new_facts [OF inv q]
  have "affinity_holds r c (t, peers r ?cl t) \<longleftrightarrow>
      (\<exists>v. cand_label c (pt_topology_key t) = Some v
            \<and> (peers_in_domain r ?cl t v \<noteq> {}
               \<or> selected r ?cl t = {}
                 \<and> PeerTerm_matches t (spec_tenant_id r) (spec_tenant_id r) (sp_labels (spec_scheduling r))))" for t
    by (auto simp: affinity_holds_def peer_here_peers [OF inv] peers_any [OF inv] peers_in_domain_def)
  moreover have "anti_holds c (t, peers r ?cl t) \<longleftrightarrow>
      (\<exists>v. cand_label c (pt_topology_key t) = Some v \<and> peers_in_domain r ?cl t v = {})" for t
    by (auto simp: anti_holds_def peer_here_peers [OF inv])
  ultimately show ?thesis
    using reverse_separated [OF facts(1), of c] unfolding affinity_met_def
    by (simp add: EnvironmentAffinity_filter_def candidate_prepared_new [OF assms] q facts(3,4) list_all_zip_map)
qed

section \<open>Meaning of the topology rule\<close>

definition incoming :: "environment_spec \<Rightarrow> topology_spread \<Rightarrow> nat" where
  "incoming r t = (if LabelSelector_matches (ts_selector t) (sp_labels (spec_scheduling r)) then 1 else 0)"

definition peers_floor :: "environment_spec \<Rightarrow> cluster \<Rightarrow> topology_spread \<Rightarrow> nat" where
  "peers_floor r cl t =
     (if card (set (spread_domains r cl t)) < unat (ts_min_domains t) then 0
      else Min (domain_peers r cl t ` set (spread_domains r cl t)))"

definition spread_met :: "environment_spec \<Rightarrow> candidate \<Rightarrow> cluster \<Rightarrow> topology_spread \<Rightarrow> bool" where
  "spread_met r c cl t \<longleftrightarrow>
     (\<exists>v. cand_label c (ts_topology_key t) = Some v \<and> v \<in> set (spread_domains r cl t)
          \<and> domain_peers r cl t v + incoming r t \<le> unat (ts_max_skew t) + peers_floor r cl t)"

lemma unat_of_nat_64: "n < 2 ^ 64 \<Longrightarrow> unat (of_nat n :: u64) = n"
  by (simp add: unat_of_nat take_bit_nat_eq_self)

lemma spread_counts_shape:
  assumes "cluster_inv cl"
  shows "length (spread_counts r cl t) = card (set (spread_domains r cl t))"
    and "snd ` set (spread_counts r cl t) = (\<lambda>v. of_nat (domain_peers r cl t v)) ` set (spread_domains r cl t)"
proof -
  let ?m = "spread_counts r cl t"
  note wf = om_wf_spread_counts [of r cl t]
  have "fst ` set ?m = dom (map_of ?m)" by (simp add: dom_map_of_conv_image_fst)
  also have "\<dots> = set (spread_domains r cl t)"
    by (auto simp: spread_counts_map [OF assms] split: if_splits)
  finally have "card (fst ` set ?m) = card (set (spread_domains r cl t))" by simp
  then show "length ?m = card (set (spread_domains r cl t))"
    using distinct_card [OF om_wf_distinct [OF wf]] by simp
  show "snd ` set ?m = (\<lambda>v. of_nat (domain_peers r cl t v)) ` set (spread_domains r cl t)"
    by (auto simp: set_eq_iff om_values [OF wf] spread_counts_map [OF assms] split: if_splits)
qed

lemma min_count_Min: "m \<noteq> [] \<Longrightarrow> min_count m = Min (snd ` set m)"
  by (cases m) (simp_all add: min_count_def flip: Min.set_eq_fold)

lemma domain_peers_word:
  assumes "candidate_ok r c"
  shows "unat (of_nat (domain_peers r (cand_snapshot c) t v) :: u64) = domain_peers r (cand_snapshot c) t v"
    and "domain_peers r (cand_snapshot c) t v < 2 ^ 64 - 1"
proof -
  show "domain_peers r (cand_snapshot c) t v < 2 ^ 64 - 1"
    using assms domain_peers_le [of r "cand_snapshot c" t v] unfolding candidate_ok_def by linarith
  then show "unat (of_nat (domain_peers r (cand_snapshot c) t v) :: u64) = domain_peers r (cand_snapshot c) t v"
    by (intro unat_of_nat_64) simp
qed

lemma unat_spread_floor:
  assumes "candidate_ok r c" "set (spread_domains r (cand_snapshot c) t) \<noteq> {}"
  shows "unat (spread_floor t (spread_counts r (cand_snapshot c) t)) = peers_floor r (cand_snapshot c) t"
proof -
  let ?cl = "cand_snapshot c" and ?m = "spread_counts r (cand_snapshot c) t"
  let ?ds = "set (spread_domains r (cand_snapshot c) t)"
  have shape: "length ?m = card ?ds" "snd ` set ?m = (\<lambda>v. of_nat (domain_peers r ?cl t v)) ` ?ds"
    using spread_counts_shape candidate_ok_inv [OF assms(1)] by blast+
  have "?m \<noteq> []" using shape(1) assms(2) by auto
  then have "unat (min_count ?m) = unat (Min (snd ` set ?m))" by (simp add: min_count_Min)
  also have "\<dots> = Min (unat ` snd ` set ?m)"
    using \<open>?m \<noteq> []\<close> by (intro mono_Min_commute monoI) (auto simp: word_le_nat_alt)
  also have "unat ` snd ` set ?m = domain_peers r ?cl t ` ?ds"
    unfolding shape(2) image_image domain_peers_word(1) [OF assms(1)] ..
  finally show ?thesis
    by (simp add: spread_floor_def peers_floor_def shape(1))
qed

lemma peers_floor_le: "v \<in> set (spread_domains r cl t) \<Longrightarrow> peers_floor r cl t \<le> domain_peers r cl t v"
  by (simp add: peers_floor_def)

lemma topology_loop_eq:
  assumes "candidate_ok r c"
  shows "topology_loop r c (map (\<lambda>t. (t, spread_counts r (cand_snapshot c) t)) ts)
           = Inr (\<forall>t \<in> set ts. spread_met r c (cand_snapshot c) t)"
proof (induction ts)
  case (Cons t ts)
  let ?cl = "cand_snapshot c"
  note counts = spread_counts_map [OF candidate_ok_inv [OF assms]]
  show ?case
  proof (cases "\<exists>v. cand_label c (ts_topology_key t) = Some v \<and> v \<in> set (spread_domains r ?cl t)")
    case False
    then show ?thesis
      by (auto simp: cand_count_def counts spread_met_def split: option.splits Option.bind_splits)
  next
    case True
    then obtain v where v: "cand_label c (ts_topology_key t) = Some v" "v \<in> set (spread_domains r ?cl t)"
      by blast
    let ?n = "domain_peers r ?cl t v" and ?floor = "spread_floor t (spread_counts r ?cl t)"
    let ?in = "if LabelSelector_matches (ts_selector t) (sp_labels (spec_scheduling r)) then 1 else (0 :: u64)"
    have inc: "unat ?in = incoming r t" by (simp add: incoming_def)
    have n: "unat (of_nat ?n :: u64) = ?n" "?n < 2 ^ 64 - 1" using domain_peers_word [OF assms] by blast+
    have "unat (of_nat ?n :: u64) + unat ?in < 2 ^ LENGTH(64)"
      using n by (simp add: inc incoming_def)
    note add = rust_add_ok [OF this]
    have floor: "unat ?floor = peers_floor r ?cl t"
      by (rule unat_spread_floor [OF assms]) (use v(2) in auto)
    have "?floor \<le> of_nat ?n + ?in"
      unfolding word_le_nat_alt add(2) floor n(1) using peers_floor_le [OF v(2)] by simp
    note sub = rust_sub_ok [OF this]
    have "of_nat ?n + ?in - ?floor > ucast (ts_max_skew t) \<longleftrightarrow> \<not> spread_met r c ?cl t"
      unfolding word_less_nat_alt sub(2) add(2) floor n(1) inc using v peers_floor_le [OF v(2)]
      by (auto simp: spread_met_def unat_ucast_up)
    with Cons.IH v add(1) sub(1) show ?thesis
      by (simp add: cand_count_def counts Let_def)
  qed
qed simp

lemma filter_zip_map:
  "filter (\<lambda>(x, _). p x) (zip xs (map f xs)) = map (\<lambda>x. (x, f x)) (filter p xs)"
  by (induction xs) auto

lemma Topology_filter_eq:
  assumes "candidate_ok r c"
  shows "Topology_filter r c =
           Inr (\<forall>t \<in> set (sp_topology_spread (spec_scheduling r)).
                  ts_when_unsatisfiable t = DoNotSchedule \<longrightarrow> spread_met r c (cand_snapshot c) t)"
proof -
  note inv = candidate_ok_inv [OF assms]
  from Prepared_new_total [OF inv] obtain q where q: "Prepared_new r (cand_snapshot c) = Inr q" by blast
  show ?thesis
    by (auto simp: Topology_filter_def candidate_prepared_new [OF assms] q Prepared_new_facts(8) [OF inv q] filter_zip_map topology_loop_eq [OF assms])
qed

section \<open>Meaning of the placement groups\<close>

definition group_here :: "environment_spec \<Rightarrow> candidate \<Rightarrow> cluster \<Rightarrow> placement_group \<Rightarrow> weighted_selector \<Rightarrow> bool" where
  "group_here r c cl g t \<longleftrightarrow>
     (case pg_target g of
        TargetNode \<Rightarrow> LabelSelector_matches (ws_selector t) (node_labels (cand_node c))
      | TargetEnvironment \<Rightarrow>
          \<exists>p \<in> snd ` set (cl_environments cl).
            pe_node_id p = node_id (cand_node c) \<and> pe_tenant p = spec_tenant_id r
            \<and> LabelSelector_matches (ws_selector t) (pe_labels p))"

definition group_empty :: "environment_spec \<Rightarrow> cluster \<Rightarrow> weighted_selector \<Rightarrow> bool" where
  "group_empty r cl t \<longleftrightarrow>
     \<not> (\<exists>p \<in> snd ` set (cl_environments cl). pe_tenant p = spec_tenant_id r
          \<and> LabelSelector_matches (ws_selector t) (pe_labels p))"

text \<open>A required group holds, or (for a group over Environments) it bootstraps an empty set of peers.\<close>

definition group_met :: "environment_spec \<Rightarrow> candidate \<Rightarrow> cluster \<Rightarrow> placement_group \<Rightarrow> bool" where
  "group_met r c cl g \<longleftrightarrow>
     (if pg_anti g then \<not> (\<exists>t \<in> set (pg_terms g). group_here r c cl g t)
      else (\<exists>t \<in> set (pg_terms g). group_here r c cl g t)
           \<or> pg_target g = TargetEnvironment
             \<and> (\<forall>t \<in> set (pg_terms g). group_empty r cl t)
             \<and> (\<exists>t \<in> set (pg_terms g). LabelSelector_matches (ws_selector t) (sp_labels (spec_scheduling r))))"

abbreviation groups_of :: "environment_spec \<Rightarrow> placement_group list" where
  "groups_of r \<equiv> sp_placement_groups (spec_scheduling r)"

lemma in_image_Collect: "x \<in> f ` {p \<in> A. P p \<and> Q p} \<longleftrightarrow> (\<exists>p \<in> A. f p = x \<and> P p \<and> Q p)"
  by auto

lemma group_nodes_here:
  assumes "cluster_inv cl" "pg_target g = TargetEnvironment" "j < length (pg_terms g)"
  shows "node_id (cand_node c) \<in> set (group_nodes r cl g ! j) \<longleftrightarrow> group_here r c cl g (pg_terms g ! j)"
proof -
  have "set (group_nodes r cl g ! j) =
      pe_node_id ` {p \<in> snd ` set (cl_environments cl). pe_tenant p = spec_tenant_id r
                      \<and> LabelSelector_matches (ws_selector (pg_terms g ! j)) (pe_labels p)}"
    using assms by (simp add: group_nodes_def set_matching)
  then show ?thesis
    by (simp only: group_here_def assms(2) placement_target.case in_image_Collect)
qed

lemma group_nodes_empty:
  assumes "cluster_inv cl" "pg_target g = TargetEnvironment"
  shows "list_all (\<lambda>s. s = []) (group_nodes r cl g) \<longleftrightarrow> (\<forall>t \<in> set (pg_terms g). group_empty r cl t)"
proof -
  have "(os_of_list (map pe_node_id (matching cl (spec_tenant_id r) (ws_selector t))) = []) = group_empty r cl t" for t
  proof -
    have "(os_of_list xs = []) = (set xs = {})" for xs :: "string list"
      by (simp flip: set_empty)
    then have "(os_of_list (map pe_node_id (matching cl (spec_tenant_id r) (ws_selector t))) = [])
        \<longleftrightarrow> set (matching cl (spec_tenant_id r) (ws_selector t)) = {}" by simp
    then show ?thesis unfolding set_matching [OF assms(1)] group_empty_def by blast
  qed
  with assms(2) show ?thesis by (auto simp: group_nodes_def list_all_iff)
qed

lemma group_matching_eq:
  assumes "cluster_inv cl" "pq_groups q = map (group_nodes r cl) (groups_of r)" "i < length (groups_of r)"
  shows "group_matching r c q i = Inr (map (group_here r c cl (groups_of r ! i)) (pg_terms (groups_of r ! i)))"
proof -
  let ?g = "groups_of r ! i"
  have "group_term_matches c q i ?g e = Inr (group_here r c cl ?g (snd e))"
    if e: "e \<in> set (enumerate 0 (pg_terms ?g))" for e
  proof -
    obtain j t where [simp]: "e = (j, t)" by (cases e)
    have j: "j < length (pg_terms ?g)" "t = pg_terms ?g ! j"
      using e by (auto simp: in_set_enumerate_eq)
    show ?thesis
    proof (cases "pg_target ?g")
      case TargetEnvironment
      have "j < length (group_nodes r cl ?g)" using j by (simp add: group_nodes_def)
      with TargetEnvironment j assms show ?thesis
        by (simp add: group_term_matches_def index_at_def group_nodes_here [OF assms(1)])
    qed (simp add: group_term_matches_def group_here_def)
  qed
  then have "mapE (group_term_matches c q i ?g) (enumerate 0 (pg_terms ?g))
      = Inr (map (\<lambda>e. group_here r c cl ?g (snd e)) (enumerate 0 (pg_terms ?g)))"
    by (rule mapE_ok)
  also have "map (\<lambda>e. group_here r c cl ?g (snd e)) (enumerate 0 (pg_terms ?g))
      = map (group_here r c cl ?g) (map snd (enumerate 0 (pg_terms ?g)))" by (simp only: map_map comp_def)
  finally show ?thesis
    using assms(3) by (simp add: group_matching_def index_at_def)
qed

definition indexed :: "'a list \<Rightarrow> (nat \<times> 'a) list \<Rightarrow> bool" where
  "indexed xs l \<longleftrightarrow> (\<forall>(i, x) \<in> set l. i < length xs \<and> x = xs ! i)"

lemma indexed_simps [simp]: "indexed xs []" "indexed xs ((i, x) # l) \<longleftrightarrow> i < length xs \<and> x = xs ! i \<and> indexed xs l"
  by (auto simp: indexed_def)

lemma indexed_enumerate [simp]: "indexed xs (filter p (enumerate 0 xs))"
  by (auto simp: indexed_def in_set_enumerate_eq)

lemma required_loop_eq:
  assumes "cluster_inv cl" "pq_groups q = map (group_nodes r cl) (groups_of r)"
  shows "indexed (groups_of r) l \<Longrightarrow> required_loop r c q l = Inr (\<forall>(i, g) \<in> set l. group_met r c cl g)"
proof (induction l)
  case (Cons e l)
  obtain i g where e: "e = (i, g)" by (cases e)
  with Cons.prems have i: "i < length (groups_of r)" "g = groups_of r ! i" "indexed (groups_of r) l" by auto
  have found: "list_ex (\<lambda>v. v) (map (group_here r c cl g) (pg_terms g)) \<longleftrightarrow>
      (\<exists>t \<in> set (pg_terms g). group_here r c cl g t)" by (simp add: list_ex_iff)
  have boot: "bootstrap_group r q i g = Inr (pg_target g = TargetEnvironment
      \<and> (\<forall>t \<in> set (pg_terms g). group_empty r cl t)
      \<and> (\<exists>t \<in> set (pg_terms g). LabelSelector_matches (ws_selector t) (sp_labels (spec_scheduling r))))"
    using i assms group_nodes_empty [OF assms(1)]
    by (auto simp: bootstrap_group_def index_at_def list_ex_iff)
  show ?case
    using Cons.IH [OF i(3)] group_matching_eq [OF assms i(1), folded i(2)] boot
    by (auto simp add: e Let_def found group_met_def)
qed simp

lemma Required_filter_eq:
  assumes "candidate_ok r c"
  shows "Required_filter r c =
     Inr (\<not> (\<exists>p \<in> snd ` set (cl_environments (cand_snapshot c)).
               group_objects r p \<and> pe_node_id p = node_id (cand_node c))
          \<and> (\<forall>g \<in> set (groups_of r). pg_required g \<longrightarrow> group_met r c (cand_snapshot c) g))"
proof -
  let ?cl = "cand_snapshot c"
  have inv: "cluster_inv ?cl" using assms by simp
  from Prepared_new_total [OF inv] obtain q where q: "Prepared_new r ?cl = Inr q" by blast
  note facts = Prepared_new_facts [OF inv q]
  have all: "(\<forall>(i, g) \<in> set (filter (\<lambda>(_, g). pg_required g) (enumerate 0 xs)). P g)
      \<longleftrightarrow> (\<forall>g \<in> set xs. pg_required g \<longrightarrow> P g)" for P and xs :: "placement_group list"
  proof -
    have "g \<in> set xs \<longleftrightarrow> (\<exists>i. (i, g) \<in> set (enumerate 0 xs))" for g
      unfolding in_set_enumerate_eq in_set_conv_nth [of g xs] by auto
    then show ?thesis by auto
  qed
  show ?thesis
    unfolding Required_filter_def candidate_prepared_new [OF assms] q bindE_simps facts(2)
      required_loop_eq [OF inv facts(7) indexed_enumerate] all
    by auto
qed

section \<open>Every score stays within its scale\<close>

definition score_ok :: "u32 result \<Rightarrow> bool" where
  "score_ok s \<longleftrightarrow> (\<exists>v. s = Inr v \<and> v \<le> MAX_SCORE)"

lemma unat_MAX_SCORE [simp]: "unat MAX_SCORE = 3000000"
  by (simp add: MAX_SCORE_def)

lemma score_okI: "unat v \<le> 3000000 \<Longrightarrow> score_ok (Inr v)"
  by (simp add: score_ok_def word_le_nat_alt)

lemma unat_of_nat_score: "n \<le> 3000000 \<Longrightarrow> unat (of_nat n :: u32) = n"
  by (simp add: unat_of_nat take_bit_nat_eq_self)

lemma mult_div_le: "a \<le> b \<Longrightarrow> a * n div b \<le> (n :: nat)"
  by (cases "b = 0") (auto intro: order.trans [OF div_le_mono [of _ "b * n"]])

text \<open>One dimension of a node, in millionths, exactly.\<close>

lemma unat_fraction:
  "unat (fraction free cap) = (if cap = 0 then 0 else min (unat free) (unat cap) * 1000000 div unat cap)"
proof (cases "cap = 0")
  case False
  let ?m = "min (unat free) (unat cap)"
  have up: "unat (ucast w :: 128 word) = unat w" for w :: u64 by (simp add: unat_ucast_up)
  have "unat (min free cap) < 2 ^ 64" using unsigned_less [of "min free cap"] by simp
  then have "unat (ucast (min free cap) :: 128 word) * unat (1000000 :: 128 word) < 2 ^ LENGTH(128)"
    by (simp add: up)
  note mult = rust_mul_ok(2) [OF this]
  have le: "?m * 1000000 div unat cap \<le> 1000000" by (rule mult_div_le) simp
  have "unat ((ucast (min free cap) * 1000000) div ucast cap :: 128 word) = ?m * 1000000 div unat cap"
    unfolding unat_div_word mult up unat_min_word by simp
  with le False show ?thesis
    by (simp add: fraction_def unsigned_ucast_eq take_bit_nat_eq_self)
qed (simp add: fraction_def)

lemma fraction_le: "unat (fraction free cap) \<le> 1000000"
  by (simp add: unat_fraction mult_div_le)

lemma ResourceBalance_score_ok: "score_ok (ResourceBalance_score p r c)"
proof -
  let ?av = "Resources_saturating_sub (cand_available c) (spec_resources r)" and ?cap = "node_capacity (cand_node c)"
  let ?a = "fraction (cpu_millis ?av) (cpu_millis ?cap)" and ?b = "fraction (memory_bytes ?av) (memory_bytes ?cap)"
  let ?d = "fraction (disk_bytes ?av) (disk_bytes ?cap)"
  have le: "unat ?a \<le> 1000000" "unat ?b \<le> 1000000" "unat ?d \<le> 1000000" by (rule fraction_le)+
  then have "unat ?a + unat ?b < 2 ^ LENGTH(32)" by simp
  note two = rust_add_ok [OF this]
  have "unat (?a + ?b) + unat ?d < 2 ^ LENGTH(32)" using le by (simp add: two)
  note three = rust_add_ok [OF this]
  have free: "unat (?a + ?b + ?d) \<le> 3000000" using le by (simp add: two three)
  then have "?a + ?b + ?d \<le> MAX_SCORE" by (simp add: word_le_nat_alt)
  note sub = rust_sub_ok [OF this]
  show ?thesis
    unfolding ResourceBalance_score_def Let_def two(1) three(1) bindE_simps
    by (cases p) (use free in \<open>simp_all add: sub score_okI\<close>)
qed

lemma normalized_le: "unat (normalized terms) \<le> 3000000"
proof -
  let ?v = "\<Sum>(weight, matched) \<leftarrow> terms. if matched then unat weight else 0"
  let ?t = "\<Sum>(weight, _) \<leftarrow> terms. unat weight"
  have "?v \<le> ?t" by (rule sum_list_mono) auto
  then have "?v * 3000000 div ?t \<le> 3000000" by (rule mult_div_le)
  then show ?thesis by (simp add: normalized_def Let_def unat_of_nat_score)
qed

lemma NodePreference_score_ok: "score_ok (NodePreference_score r c)"
  by (simp add: NodePreference_score_def score_okI normalized_le)

lemma EnvironmentPreference_score_ok:
  assumes "candidate_ok r c"
  shows "score_ok (EnvironmentPreference_score r c)"
proof -
  from Prepared_new_total [OF candidate_ok_inv [OF assms]] obtain q where
    q: "Prepared_new r (cand_snapshot c) = Inr q" by blast
  show ?thesis
    by (simp add: EnvironmentPreference_score_def candidate_prepared_new [OF assms] q score_okI normalized_le)
qed

lemma average_le: "(\<forall>x \<in> set xs. f x \<le> (b :: nat)) \<Longrightarrow> sum_list (map f xs) div length xs \<le> b"
proof -
  assume "\<forall>x \<in> set xs. f x \<le> b"
  then have "sum_list (map f xs) \<le> length xs * b" by (induction xs) auto
  then show ?thesis
    by (cases "xs = []") (auto intro: order.trans [OF div_le_mono])
qed

lemma TopologyPreference_score_ok:
  assumes "candidate_ok r c"
  shows "score_ok (TopologyPreference_score r c)"
proof -
  from Prepared_new_total [OF candidate_ok_inv [OF assms]] obtain q where
    q: "Prepared_new r (cand_snapshot c) = Inr q" by blast
  let ?f = "\<lambda>(t, counts). case cand_count c t counts of
              Some cnt \<Rightarrow> unat MAX_SCORE div (unat cnt + 1) | None \<Rightarrow> 0"
  have "\<forall>x \<in> set xs. ?f x \<le> 3000000" for xs
    by (auto split: option.splits)
  from average_le [OF this] have "unat (of_nat (sum_list (map ?f xs) div length xs) :: u32) \<le> 3000000" for xs
    by (simp add: unat_of_nat_score)
  then show ?thesis
    by (simp add: TopologyPreference_score_def candidate_prepared_new [OF assms] q Let_def score_okI)
qed

text \<open>The score of one preferred group, and the mean over the groups.\<close>

lemma position_less: "position p xs = Some i \<Longrightarrow> i < length xs"
  by (induction xs arbitrary: i) (auto split: if_splits)

lemma sum_weights_le:
  "sum_list (map (\<lambda>t. unat (ws_weight t)) ts) \<le> length ts * 2 ^ 32"
proof -
  have "unat (ws_weight t) < 2 ^ LENGTH(32)" for t by (rule unsigned_less)
  then have "unat (ws_weight t) \<le> 2 ^ 32" for t using less_imp_le by fastforce
  then show ?thesis by (induction ts) (auto intro: add_mono)
qed

lemma sum_hits_le:
  "sum_list (map (\<lambda>(t, _). unat (ws_weight t)) (filter p (zip ts vs))) \<le> sum_list (map (\<lambda>t. unat (ws_weight t)) ts)"
  by (induction ts vs rule: list_induct2') auto

lemma group_score_ordered:
  assumes "length values \<le> 256" "position (desired g) values = Some i" "pg_ordered g"
  shows "\<exists>s. group_score g values = Inr s \<and> unat s \<le> 3000000"
proof -
  let ?n = "length values"
  have i: "i < ?n" using position_less assms(2) .
  have u: "unat (of_nat k :: u64) = k" if "k \<le> 256" for k using that by (simp add: unat_of_nat_64)
  have m: "unat (ucast MAX_SCORE :: u64) = 3000000" by (simp add: unat_ucast_up)
  have "unat (ucast MAX_SCORE :: u64) * unat (of_nat (?n - i) :: u64) < 2 ^ LENGTH(64)"
    using assms(1) by (simp add: m u)
  note mult = rust_mul_ok [OF this]
  have "unat (of_nat ?n :: u64) \<noteq> 0" using i assms(1) by (auto simp: u)
  then have "(of_nat ?n :: u64) \<noteq> 0" by (metis unat_0)
  moreover have "unat (ucast MAX_SCORE * of_nat (?n - i) div of_nat ?n :: u64) \<le> 3000000"
    unfolding unat_div_word mult(2) m using mult_div_le [of "?n - i" ?n 3000000] assms(1)
    by (simp add: u mult.commute)
  ultimately show ?thesis
    using assms by (simp add: group_score_def mult rust_div_ok)
qed

lemma group_score_weighted:
  assumes "pg_terms g \<noteq> []" "length (pg_terms g) \<le> 256" "\<forall>t \<in> set (pg_terms g). ws_weight t \<noteq> 0"
    and "\<not> pg_ordered g"
  shows "\<exists>s. group_score g values = Inr s \<and> unat s \<le> 3000000"
proof -
  let ?w = "\<lambda>t. ucast (ws_weight t) :: u64" and ?hits = "filter (\<lambda>(_, v). desired g v) (zip (pg_terms g) values)"
  let ?total = "sum_list (map (\<lambda>t. unat (ws_weight t)) (pg_terms g))"
  let ?hit = "sum_list (map (\<lambda>(t, _). unat (ws_weight t)) ?hits)"
  have up: "unat (ucast w :: u64) = unat w" for w :: u32 by (simp add: unat_ucast_up)
  have bound: "?total \<le> 256 * 2 ^ 32"
    using order.trans [OF sum_weights_le mult_right_mono [OF assms(2)]] by simp
  have hit: "?hit \<le> ?total" by (rule sum_hits_le)
  have sums: "sum_list (map unat (map ?w (pg_terms g))) = ?total"
    "sum_list (map unat (map (\<lambda>(t, _). ?w t) ?hits)) = ?hit"
    by (simp_all add: up comp_def case_prod_unfold)
  obtain t where t: "rust_sum 0 (map ?w (pg_terms g)) = Inr t" "unat t = ?total"
    using rust_sum_ok [of 0 "map ?w (pg_terms g)"] bound unfolding sums(1) by auto
  obtain h where h: "rust_sum 0 (map (\<lambda>(t, _). ?w t) ?hits) = Inr h" "unat h = ?hit"
    using rust_sum_ok [of 0 "map (\<lambda>(t, _). ?w t) ?hits"] bound hit unfolding sums(2) by auto
  have m: "unat (ucast MAX_SCORE :: u64) = 3000000" by (simp add: unat_ucast_up)
  have "unat (ucast MAX_SCORE :: u64) * unat h < 2 ^ LENGTH(64)"
    using bound hit by (simp add: m h)
  note mult = rust_mul_ok [OF this]
  have "0 < ?total"
    using assms(1,3) by (cases "pg_terms g") (simp_all add: unat_gt_0)
  then have "t \<noteq> 0" using t(2) by (metis less_irrefl unat_0)
  moreover have "unat (ucast MAX_SCORE * h div t) \<le> 3000000"
    unfolding unat_div_word mult(2) m h(2) t(2) using mult_div_le [OF hit, of 3000000] by (simp add: mult.commute)
  ultimately show ?thesis
    using assms(4) by (simp add: group_score_def t h mult rust_div_ok)
qed

lemma group_score_ok:
  assumes "pg_terms g \<noteq> []" "length (pg_terms g) \<le> 256" "\<forall>t \<in> set (pg_terms g). ws_weight t \<noteq> 0"
    and "length values = length (pg_terms g)"
  shows "\<exists>s. group_score g values = Inr s \<and> unat s \<le> 3000000"
proof (cases "pg_ordered g")
  case True
  then show ?thesis
    using group_score_ordered [of "values" g] assms(2,4)
    by (cases "position (desired g) values") (auto simp: group_score_def)
qed (use group_score_weighted assms in blast)

lemma preference_loop_ok:
  assumes "SchedulingPolicy_validate (spec_scheduling r) = Inr ()" "cluster_inv cl"
    and "pq_groups q = map (group_nodes r cl) (groups_of r)"
  shows "indexed (groups_of r) l \<Longrightarrow> unat cnt + length l \<le> 8 \<Longrightarrow> unat acc \<le> 3000000 * unat cnt \<Longrightarrow>
    \<exists>a k. preference_loop r c q acc cnt l = Inr (a, k) \<and> unat a \<le> 3000000 * unat k"
proof (induction l arbitrary: acc cnt)
  case (Cons e l)
  obtain i g where e: "e = (i, g)" by (cases e)
  with Cons.prems have i: "i < length (groups_of r)" "g = groups_of r ! i" "indexed (groups_of r) l" by auto
  then have "g \<in> set (groups_of r)" by simp
  note valid = policy_group_valid [OF assms(1) this]
  note match = group_matching_eq [OF assms(2,3) i(1), of c, folded i(2)]
  obtain s where s: "group_score g (map (group_here r c cl g) (pg_terms g)) = Inr s" "unat s \<le> 3000000"
    using group_score_ok [of g "map (group_here r c cl g) (pg_terms g)"] valid by auto
  have "unat cnt + unat (1 :: u64) < 2 ^ LENGTH(64)" using Cons.prems(2) by simp
  note inc = rust_add_ok [OF this]
  have "unat cnt \<le> 8" using Cons.prems(2) by simp
  then have "unat acc + unat s < 2 ^ LENGTH(64)" using Cons.prems(3) s(2) by simp
  note add = rust_add_ok [OF this]
  have "unat (cnt + 1) + length l \<le> 8" using Cons.prems(2) inc(2) by simp
  moreover have "unat (acc + s) \<le> 3000000 * unat (cnt + 1)"
    unfolding add(2) inc(2) using Cons.prems(3) s(2) by simp
  ultimately show ?case
    using Cons.IH [OF i(3)] by (simp add: e match inc(1) s(1) add(1))
qed simp

lemma Preference_score_ok:
  assumes "candidate_ok r c" "SchedulingPolicy_validate (spec_scheduling r) = Inr ()"
  shows "score_ok (Preference_score r c)"
proof -
  note inv = candidate_ok_inv [OF assms(1)]
  from Prepared_new_total [OF inv] obtain q where q: "Prepared_new r (cand_snapshot c) = Inr q" by blast
  let ?l = "filter (\<lambda>(_, g). \<not> pg_required g \<or> pg_ordered g) (enumerate 0 (groups_of r))"
  have "length ?l \<le> 8"
    using length_filter_le [of _ "enumerate 0 (groups_of r)"] policy_groups_bound [OF assms(2)]
    by (metis (no_types, lifting) length_enumerate order.trans)
  then have "unat (0 :: u64) + length ?l \<le> 8" "unat (0 :: u64) \<le> 3000000 * unat (0 :: u64)" by simp_all
  from preference_loop_ok [OF assms(2) inv Prepared_new_facts(7) [OF inv q] indexed_enumerate this]
  obtain a k where ak: "preference_loop r c q 0 0 ?l = Inr (a, k)" "unat a \<le> 3000000 * unat k" by blast
  have "unat a div unat k \<le> 3000000"
    using order.trans [OF div_le_mono [OF ak(2)]] by (cases "unat k = 0") simp_all
  then have "unat (if k = 0 then 0 else ucast (a div k) :: u32) \<le> 3000000"
    by (simp add: unsigned_ucast_eq unat_div_word take_bit_nat_eq_self)
  with ak(1) show ?thesis
    by (simp add: Preference_score_def candidate_prepared_new [OF assms(1)] q score_okI)
qed

section \<open>The device rule\<close>

lemma select_loop_errors: "select_loop rs ds taken acc = Inl e \<Longrightarrow> e = NoCapacity"
  by (induction rs ds taken acc rule: select_loop.induct) (auto split: prod.splits if_splits)

lemma DeviceFit_filter_ok:
  assumes "validate_requests (sp_devices (spec_scheduling r)) = Inr ()" "validate_inventory (cand_devices c) = Inr ()"
  shows "DeviceFit_filter r c = Inr (is_ok (select_devices (sp_devices (spec_scheduling r)) (cand_devices c)))"
proof (cases "select_devices (sp_devices (spec_scheduling r)) (cand_devices c)")
  case (Inl e)
  with assms have "select_loop (sort_key request_order (sp_devices (spec_scheduling r)))
      (sort_key dev_key (filter healthy (cand_devices c))) [] [] = Inl e"
    by (simp add: select_devices_def bindE_def split: sum.splits)
  with Inl show ?thesis by (simp add: DeviceFit_filter_def select_loop_errors)
qed (simp add: DeviceFit_filter_def)

end
