(* ===== verification/Placement_Framework.thy ===== *)
theory Placement_Framework
  imports Placement_Plugins
begin

text \<open>
  The placement framework (\<^verbatim>\<open>platform/crates/scheduling/src/lib.rs\<close>): ordered hard rules and
  weighted scores, the built-in profile, the explanation of rejections, and the choice of a node.

  A plugin is a record of its name and its function, so a framework may hold rules this library
  does not know. The clock is read once per call: \<open>now\<close> is the instant at which the request is
  validated.
\<close>

section \<open>Plugins and frameworks\<close>

record filter_plugin =
  fp_name :: string
  fp_filter :: "environment_spec \<Rightarrow> candidate \<Rightarrow> bool result"

record score_plugin =
  scp_name :: string
  scp_score :: "environment_spec \<Rightarrow> candidate \<Rightarrow> u32 result"

record weighted_score =
  wsc_plugin :: score_plugin
  wsc_weight :: u32

record framework =
  fw_filters :: "filter_plugin list"
  fw_scores :: "weighted_score list"
  fw_builtin_profile :: bool

definition WeightedScore_new :: "score_plugin \<Rightarrow> u32 \<Rightarrow> weighted_score result" where
  "WeightedScore_new plugin w =
     (if w = 0 then Inl (Invalid ''score weight must be positive'')
      else Inr \<lparr>wsc_plugin = plugin, wsc_weight = w\<rparr>)"

fun validate_names_from :: "string list \<Rightarrow> string list \<Rightarrow> unit result" where
  "validate_names_from earlier [] = Inr ()"
| "validate_names_from earlier (name # names) =
     (if blank name \<or> name \<in> set earlier
      then Inl (Invalid (''empty or duplicate plugin name: '' @ name))
      else validate_names_from (name # earlier) names)"

definition validate_names :: "string list \<Rightarrow> unit result" where
  "validate_names names = validate_names_from [] names"

definition mandatory_filters :: "filter_plugin list" where
  "mandatory_filters =
     [\<lparr>fp_name = ''node-available'', fp_filter = NodeAvailable_filter\<rparr>,
      \<lparr>fp_name = ''resource-fit'', fp_filter = ResourceFit_filter\<rparr>,
      \<lparr>fp_name = ''runtime-fit'', fp_filter = RuntimeFit_filter\<rparr>,
      \<lparr>fp_name = ''device-fit'', fp_filter = DeviceFit_filter\<rparr>,
      \<lparr>fp_name = ''node-affinity'', fp_filter = NodeAffinity_filter\<rparr>,
      \<lparr>fp_name = ''placement-groups'', fp_filter = Required_filter\<rparr>,
      \<lparr>fp_name = ''environment-affinity'', fp_filter = EnvironmentAffinity_filter\<rparr>,
      \<lparr>fp_name = ''topology-spread'', fp_filter = Topology_filter\<rparr>]"

text \<open>\<open>try_fold\<close> with \<open>checked_add\<close>: \<open>None\<close> is the overflow of the total.\<close>

fun max_total :: "u64 \<Rightarrow> weighted_score list \<Rightarrow> u64 option result" where
  "max_total t [] = Inr (Some t)"
| "max_total t (s # ss) =
     bindE (rust_mul (ucast MAX_SCORE) (ucast (wsc_weight s))) (\<lambda>m.
     case checked_add t m of None \<Rightarrow> Inr None | Some t' \<Rightarrow> max_total t' ss)"

definition Framework_new :: "filter_plugin list \<Rightarrow> weighted_score list \<Rightarrow> framework result" where
  "Framework_new additional_filters scores =
     (let filters = mandatory_filters @ additional_filters in
      bindE (validate_names (map fp_name filters)) (\<lambda>_.
      bindE (validate_names (map (\<lambda>s. scp_name (wsc_plugin s)) scores)) (\<lambda>_.
      bindE (max_total 0 scores) (\<lambda>m.
      if m = None then Inl (Invalid ''total score weight overflow'')
      else Inr \<lparr>fw_filters = filters, fw_scores = scores, fw_builtin_profile = False\<rparr>))))"

definition expect :: "string \<Rightarrow> 'a result \<Rightarrow> 'a result" where
  "expect msg r = (case r of Inl _ \<Rightarrow> Inl (Panic msg) | Inr x \<Rightarrow> Inr x)"

definition builtin_scores :: "placement \<Rightarrow> score_plugin list" where
  "builtin_scores placement =
     [\<lparr>scp_name = ''placement-group-preference'', scp_score = Preference_score\<rparr>,
      \<lparr>scp_name = ''resource-balance'', scp_score = ResourceBalance_score placement\<rparr>,
      \<lparr>scp_name = ''node-preference'', scp_score = NodePreference_score\<rparr>,
      \<lparr>scp_name = ''environment-preference'', scp_score = EnvironmentPreference_score\<rparr>,
      \<lparr>scp_name = ''topology-preference'', scp_score = TopologyPreference_score\<rparr>]"

definition Framework_builtin :: "placement \<Rightarrow> framework result" where
  "Framework_builtin placement =
     bindE (mapE (\<lambda>p. expect ''static weight'' (WeightedScore_new p 1)) (builtin_scores placement)) (\<lambda>scores.
     bindE (expect ''static plugin profile'' (Framework_new [] scores)) (\<lambda>fw.
     Inr (fw\<lparr>fw_builtin_profile := True\<rparr>)))"

definition filter_names :: "framework \<Rightarrow> string list" where
  "filter_names fw = map fp_name (fw_filters fw)"

definition score_weights :: "framework \<Rightarrow> (string \<times> u32) list" where
  "score_weights fw = map (\<lambda>p. (scp_name (wsc_plugin p), wsc_weight p)) (fw_scores fw)"

definition supports_aggregation :: "framework \<Rightarrow> environment_spec \<Rightarrow> cluster \<Rightarrow> bool" where
  "supports_aggregation fw r cl \<longleftrightarrow>
     fw_builtin_profile fw \<and> disk_bytes (spec_resources r) = 0
     \<and> spec_scheduling r = SchedulingPolicy_default \<and> \<not> has_reverse_anti_affinity cl"

section \<open>Verdicts\<close>

fun allows_loop :: "environment_spec \<Rightarrow> candidate \<Rightarrow> filter_plugin list \<Rightarrow> bool result" where
  "allows_loop r c [] = Inr True"
| "allows_loop r c (f # fs) =
     bindE (fp_filter f r c) (\<lambda>ok. if \<not> ok then Inr False else allows_loop r c fs)"

definition Framework_allows :: "int \<Rightarrow> framework \<Rightarrow> environment_spec \<Rightarrow> candidate \<Rightarrow> bool result" where
  "Framework_allows now fw r c =
     bindE (EnvironmentSpec_validate now r) (\<lambda>_. allows_loop r c (fw_filters fw))"

definition resource_reasons :: "environment_spec \<Rightarrow> candidate \<Rightarrow> string list" where
  "resource_reasons r c =
     map fst (filter (\<lambda>(_, requested, avail). requested > avail)
       [(''insufficient_cpu'', cpu_millis (spec_resources r), cpu_millis (cand_available c)),
        (''insufficient_memory'', memory_bytes (spec_resources r), memory_bytes (cand_available c)),
        (''insufficient_disk'', disk_bytes (spec_resources r), disk_bytes (cand_available c))])"

fun rejections_loop ::
  "environment_spec \<Rightarrow> candidate \<Rightarrow> string list \<Rightarrow> filter_plugin list \<Rightarrow> string list result" where
  "rejections_loop r c reasons [] = Inr reasons"
| "rejections_loop r c reasons (f # fs) =
     bindE (fp_filter f r c) (\<lambda>ok.
     if ok then rejections_loop r c reasons fs
     else if fp_name f = ''resource-fit'' then rejections_loop r c (reasons @ resource_reasons r c) fs
     else rejections_loop r c
            (reasons @ [map (\<lambda>ch. if ch = CHR ''-'' then CHR ''_'' else ch) (fp_name f)]) fs)"

definition Framework_rejections ::
  "int \<Rightarrow> framework \<Rightarrow> environment_spec \<Rightarrow> candidate \<Rightarrow> string list result" where
  "Framework_rejections now fw r c =
     bindE (EnvironmentSpec_validate now r) (\<lambda>_. rejections_loop r c [] (fw_filters fw))"

fun score_loop :: "environment_spec \<Rightarrow> candidate \<Rightarrow> u64 \<Rightarrow> weighted_score list \<Rightarrow> u64 result" where
  "score_loop r c acc [] = Inr acc"
| "score_loop r c acc (s # ss) =
     bindE (scp_score (wsc_plugin s) r c) (\<lambda>v.
     if v > MAX_SCORE
     then Inl (Invalid (''score plugin '' @ scp_name (wsc_plugin s) @ '' returned '' @ dec (unat v)
                        @ '', maximum '' @ dec (unat MAX_SCORE)))
     else bindE (rust_mul (ucast v) (ucast (wsc_weight s))) (\<lambda>m.
          bindE (rust_add acc m) (\<lambda>acc'. score_loop r c acc' ss)))"

definition Framework_evaluate :: "int \<Rightarrow> framework \<Rightarrow> environment_spec \<Rightarrow> candidate \<Rightarrow> u64 option result" where
  "Framework_evaluate now fw r c =
     bindE (Framework_allows now fw r c) (\<lambda>ok.
     if \<not> ok then Inr None
     else bindE (score_loop r c 0 (fw_scores fw)) (\<lambda>total. Inr (Some total)))"

definition better :: "string \<Rightarrow> u64 \<Rightarrow> (string \<times> u64) option \<Rightarrow> bool" where
  "better i s best = is_none_or (\<lambda>(bi, bs). s > bs \<or> s = bs \<and> i < bi) best"

fun best_loop ::
  "(candidate \<Rightarrow> u64 option result) \<Rightarrow> (string \<times> u64) option \<Rightarrow> candidate list \<Rightarrow> (string \<times> u64) option result" where
  "best_loop ev best [] = Inr best"
| "best_loop ev best (c # cs) =
     bindE (ev c) (\<lambda>v.
     case v of
       None \<Rightarrow> best_loop ev best cs
     | Some s \<Rightarrow>
         best_loop ev (if better (node_id (cand_node c)) s best then Some (node_id (cand_node c), s) else best) cs)"

definition Framework_select ::
  "int \<Rightarrow> framework \<Rightarrow> environment_spec \<Rightarrow> candidate list \<Rightarrow> string option result" where
  "Framework_select now fw r cs =
     bindE (EnvironmentSpec_validate now r) (\<lambda>_.
     case cs of
       [] \<Rightarrow> Inr None
     | first # _ \<Rightarrow>
         bindE (Prepared_new r (cand_snapshot first)) (\<lambda>q.
         bindE (best_loop (\<lambda>c. Framework_evaluate now fw r (c\<lparr>cand_prepared := Some q\<rparr>)) None cs) (\<lambda>best.
         Inr (map_option fst best))))"

section \<open>Construction\<close>

lemma validate_names_from_ok:
  "validate_names_from earlier names = Inr u \<longleftrightarrow>
     (\<forall>n \<in> set names. \<not> blank n \<and> n \<notin> set earlier) \<and> distinct names"
  by (induction names arbitrary: earlier) auto

lemma validate_names_ok: "validate_names names = Inr u \<longleftrightarrow> (\<forall>n \<in> set names. \<not> blank n) \<and> distinct names"
  by (simp add: validate_names_def validate_names_from_ok)

definition weight_total :: "weighted_score list \<Rightarrow> nat" where
  "weight_total ss = sum_list (map (\<lambda>s. 3000000 * unat (wsc_weight s)) ss)"

lemma weight_total_simps [simp]:
  "weight_total [] = 0" "weight_total (s # ss) = 3000000 * unat (wsc_weight s) + weight_total ss"
  by (simp_all add: weight_total_def)

lemma scaled_weight:
  assumes "v \<le> MAX_SCORE"
  shows "rust_mul (ucast v) (ucast w :: u64) = Inr (ucast v * ucast w)"
    and "unat (ucast v * ucast w :: u64) = unat v * unat (w :: u32)"
proof -
  have up: "unat (ucast x :: u64) = unat x" for x :: u32 by (simp add: unat_ucast_up)
  have v: "unat v \<le> 3000000" using assms by (simp add: word_le_nat_alt)
  have "unat w < 2 ^ LENGTH(32)" by (rule unsigned_less)
  then have w: "unat w \<le> 2 ^ 32" by simp
  have "unat (ucast v :: u64) * unat (ucast w :: u64) < 2 ^ LENGTH(64)"
    unfolding up using mult_mono [OF v w] by simp
  note * = rust_mul_ok [OF this]
  show "rust_mul (ucast v) (ucast w :: u64) = Inr (ucast v * ucast w)" by (rule *)
  show "unat (ucast v * ucast w :: u64) = unat v * unat w" using * by (simp add: up)
qed

text \<open>The constructor accepts a list of scores exactly when no total can overflow.\<close>

lemma max_total_eq:
  "\<exists>m. max_total t ss = Inr m \<and> (m \<noteq> None \<longleftrightarrow> unat t + weight_total ss < 2 ^ 64)"
proof (induction ss arbitrary: t)
  case Nil
  have "unat t < 2 ^ LENGTH(64)" by (rule unsigned_less)
  then show ?case by simp
next
  case (Cons s ss)
  let ?m = "ucast MAX_SCORE * ucast (wsc_weight s) :: u64"
  note mult = scaled_weight [OF order_refl, of "wsc_weight s"]
  show ?case
  proof (cases "checked_add t ?m")
    case None
    then have "2 ^ 64 \<le> unat t + 3000000 * unat (wsc_weight s)"
      unfolding checked_add_eq_None mult(2) by simp
    with None mult(1) show ?thesis by simp
  next
    case (Some t')
    then have "unat t' = unat t + 3000000 * unat (wsc_weight s)" using mult(2) by (simp add: checked_add_eq_Some)
    with Some Cons.IH [of t'] mult(1) show ?thesis by (simp add: add.assoc)
  qed
qed

lemma Framework_new_ok:
  assumes "Framework_new fs ss = Inr fw"
  shows "fw_filters fw = mandatory_filters @ fs" "fw_scores fw = ss"
    and "distinct (map fp_name (fw_filters fw))" "weight_total ss < 2 ^ 64"
proof -
  obtain m where m: "max_total 0 ss = Inr m" "m \<noteq> None \<longleftrightarrow> weight_total ss < 2 ^ 64"
    using max_total_eq [of 0 ss] by auto
  with assms show "fw_filters fw = mandatory_filters @ fs" "fw_scores fw = ss"
    "distinct (map fp_name (fw_filters fw))" "weight_total ss < 2 ^ 64"
    by (auto simp: Framework_new_def Let_def bindE_eq_Inr validate_names_ok split: if_splits)
qed

definition builtin_framework :: "placement \<Rightarrow> framework" where
  "builtin_framework p =
     \<lparr>fw_filters = mandatory_filters,
      fw_scores = map (\<lambda>s. \<lparr>wsc_plugin = s, wsc_weight = 1\<rparr>) (builtin_scores p),
      fw_builtin_profile = True\<rparr>"

lemma builtin_names:
  "validate_names [''node-available'', ''resource-fit'', ''runtime-fit'', ''device-fit'', ''node-affinity'',
     ''placement-groups'', ''environment-affinity'', ''topology-spread''] = Inr ()"
  "validate_names [''placement-group-preference'', ''resource-balance'', ''node-preference'',
     ''environment-preference'', ''topology-preference''] = Inr ()"
  by code_simp+

lemma Framework_builtin_eq: "Framework_builtin p = Inr (builtin_framework p)"
proof -
  let ?ss = "map (\<lambda>s. \<lparr>wsc_plugin = s, wsc_weight = 1\<rparr>) (builtin_scores p)"
  have "mapE (\<lambda>s. expect ''static weight'' (WeightedScore_new s 1)) (builtin_scores p) = Inr ?ss"
    by (rule mapE_ok) (simp add: expect_def WeightedScore_new_def)
  moreover obtain m where "max_total 0 ?ss = Inr m" "m \<noteq> None"
    using max_total_eq [of 0 ?ss] by (auto simp: builtin_scores_def)
  ultimately show ?thesis
    using builtin_names
    by (simp add: Framework_builtin_def Framework_new_def mandatory_filters_def builtin_scores_def
        builtin_framework_def expect_def)
qed

section \<open>Evaluation\<close>

lemma score_loop_ok:
  assumes "\<forall>s \<in> set ss. score_ok (scp_score (wsc_plugin s) r c)" "unat acc + weight_total ss < 2 ^ 64"
  shows "\<exists>t. score_loop r c acc ss = Inr t \<and> unat t \<le> unat acc + weight_total ss"
  using assms
proof (induction ss arbitrary: acc)
  case (Cons s ss)
  then obtain v where v: "scp_score (wsc_plugin s) r c = Inr v" "v \<le> MAX_SCORE"
    by (auto simp: score_ok_def)
  note mult = scaled_weight [OF v(2), of "wsc_weight s"]
  have le: "unat v * unat (wsc_weight s) \<le> 3000000 * unat (wsc_weight s)"
    using v(2) by (simp add: word_le_nat_alt)
  then have room: "unat acc + unat v * unat (wsc_weight s) + weight_total ss < 2 ^ 64"
    using Cons.prems(2) unfolding weight_total_simps by linarith
  then have "unat acc + unat (ucast v * ucast (wsc_weight s) :: u64) < 2 ^ LENGTH(64)"
    by (simp add: mult(2))
  note add = rust_add_ok [OF this]
  have "unat (acc + ucast v * ucast (wsc_weight s)) + weight_total ss < 2 ^ 64"
    unfolding add(2) mult(2) by (rule room)
  from Cons.IH [OF _ this] Cons.prems(1) obtain t where
    t: "score_loop r c (acc + ucast v * ucast (wsc_weight s)) ss = Inr t"
      "unat t \<le> unat (acc + ucast v * ucast (wsc_weight s)) + weight_total ss" by auto
  then have "unat t \<le> unat acc + weight_total (s # ss)"
    unfolding add(2) mult(2) weight_total_simps using le by linarith
  with t(1) v mult(1) add(1) show ?case by (simp add: not_less [symmetric])
qed simp

lemma allows_loop_ok:
  assumes "\<forall>f \<in> set fs. \<exists>b. fp_filter f r c = Inr b"
  shows "allows_loop r c fs = Inr (\<forall>f \<in> set fs. fp_filter f r c = Inr True)"
  using assms by (induction fs) auto

lemma allows_loop_True:
  "allows_loop r c fs = Inr True \<longleftrightarrow> (\<forall>f \<in> set fs. fp_filter f r c = Inr True)"
  by (induction fs) (auto simp: bindE_eq_Inr)

text \<open>Every mandatory rule decides every well-formed candidate: no error, no panic.\<close>

lemma mandatory_filters_decide:
  assumes "EnvironmentSpec_validate now r = Inr ()" "candidate_ok r c" "f \<in> set mandatory_filters"
  shows "\<exists>b. fp_filter f r c = Inr b"
proof -
  have "SchedulingPolicy_validate (spec_scheduling r) = Inr ()"
    using assms(1) by (simp add: EnvironmentSpec_validate_def result_simps)
  then have "validate_requests (sp_devices (spec_scheduling r)) = Inr ()" by (rule policy_devices_valid)
  moreover have "validate_inventory (cand_devices c) = Inr ()"
    using assms(2) by (simp add: candidate_ok_def)
  ultimately have "\<exists>b. DeviceFit_filter r c = Inr b" using DeviceFit_filter_ok by blast
  with assms(3) show ?thesis
    by (auto simp: mandatory_filters_def NodeAvailable_filter_def ResourceFit_filter_def RuntimeFit_filter_def
        NodeAffinity_filter_def Required_filter_eq [OF assms(2)] EnvironmentAffinity_filter_eq [OF assms(2)]
        Topology_filter_eq [OF assms(2)])
qed

lemma builtin_scores_ok:
  assumes "EnvironmentSpec_validate now r = Inr ()" "candidate_ok r c" "s \<in> set (builtin_scores p)"
  shows "score_ok (scp_score s r c)"
proof -
  have "SchedulingPolicy_validate (spec_scheduling r) = Inr ()"
    using assms(1) by (simp add: EnvironmentSpec_validate_def result_simps)
  with assms(2,3) show ?thesis
    by (auto simp: builtin_scores_def Preference_score_ok ResourceBalance_score_ok NodePreference_score_ok
        EnvironmentPreference_score_ok TopologyPreference_score_ok)
qed

section \<open>Anti-affinity in both directions\<close>

text \<open>
  \<open>p\<close> forbids \<open>q\<close>: a required anti-affinity term of \<open>p\<close> selects \<open>q\<close> and both are in the same domain
  of its topology, or a required anti group of \<open>p\<close> selects \<open>q\<close> and both are on one node.
\<close>

definition anti_conflict :: "cluster \<Rightarrow> placed_environment \<Rightarrow> placed_environment \<Rightarrow> bool" where
  "anti_conflict cl p q \<longleftrightarrow>
     (\<exists>t \<in> set (sp_required_anti_affinity (spec_scheduling (pe_spec p))).
        PeerTerm_matches t (pe_tenant p) (pe_tenant q) (pe_labels q)
        \<and> (\<exists>v. node_label cl (pe_node_id p) (pt_topology_key t) = Some v
               \<and> node_label cl (pe_node_id q) (pt_topology_key t) = Some v))
     \<or> group_objects (pe_spec q) p \<and> pe_node_id p = pe_node_id q"

definition anti_free :: "cluster \<Rightarrow> bool" where
  "anti_free cl \<longleftrightarrow>
     (\<forall>p \<in> snd ` set (cl_environments cl). \<forall>q \<in> snd ` set (cl_environments cl).
        spec_id (pe_spec p) \<noteq> spec_id (pe_spec q) \<longrightarrow> \<not> anti_conflict cl p q)"

abbreviation placed_at :: "environment_spec \<Rightarrow> candidate \<Rightarrow> placed_environment" where
  "placed_at r c \<equiv> \<lparr>pe_spec = r, pe_node_id = node_id (cand_node c)\<rparr>"

lemma cl_nodes_place [simp]: "cl_nodes (place p cl) = cl_nodes cl"
  by (simp add: place_def remove_indexes_def Let_def split: option.split)

lemma node_label_place [simp]: "node_label (place p cl) = node_label cl"
  by (simp add: node_label_def fun_eq_iff)

lemma anti_conflict_place [simp]: "anti_conflict (place p cl) = anti_conflict cl"
  by (simp add: anti_conflict_def fun_eq_iff)

lemma environments_place:
  "cl_environments (place p cl) = om_put (spec_id (pe_spec p)) p (om_del (spec_id (pe_spec p)) (cl_environments cl))"
proof (cases "map_of (cl_environments cl) (spec_id (pe_spec p))")
  case None
  then have "spec_id (pe_spec p) \<notin> fst ` set (cl_environments cl)" by (simp add: map_of_eq_None_iff)
  with None show ?thesis by (simp add: place_def remove_indexes_def Let_def)
qed (simp add: place_def remove_indexes_def Let_def)

lemma values_place:
  "snd ` set (cl_environments (place p cl)) \<subseteq> insert p (snd ` set (cl_environments cl))"
  unfolding environments_place using set_om_put_subset by (fastforce simp: set_om_del)

lemma node_label_cand:
  "map_of (cl_nodes cl) (node_id (cand_node c)) = Some (cand_node c) \<Longrightarrow>
     node_label cl (node_id (cand_node c)) key = cand_label c key"
  by (simp add: node_label_def)

text \<open>What the mandatory rules of an allowed candidate establish.\<close>

lemma allowed_facts:
  assumes "Framework_new fs ss = Inr fw" "candidate_ok r c" "Framework_allows now fw r c = Inr True"
  shows "affinity_met r c (cand_snapshot c)"
    and "\<not> (\<exists>p \<in> snd ` set (cl_environments (cand_snapshot c)).
              group_objects r p \<and> pe_node_id p = node_id (cand_node c))"
    and "\<forall>g \<in> set (groups_of r). pg_required g \<longrightarrow> group_met r c (cand_snapshot c) g"
    and "\<forall>t \<in> set (sp_topology_spread (spec_scheduling r)).
           ts_when_unsatisfiable t = DoNotSchedule \<longrightarrow> spread_met r c (cand_snapshot c) t"
    and "fits (spec_resources r) (cand_available c)" "node_available (cand_node c)"
proof -
  have "\<forall>f \<in> set mandatory_filters. fp_filter f r c = Inr True"
    using assms(3) Framework_new_ok(1) [OF assms(1)]
    by (auto simp: Framework_allows_def bindE_eq_Inr allows_loop_True)
  then have *: "NodeAvailable_filter r c = Inr True" "ResourceFit_filter r c = Inr True"
    "Required_filter r c = Inr True" "EnvironmentAffinity_filter r c = Inr True" "Topology_filter r c = Inr True"
    by (simp_all add: mandatory_filters_def)
  show "node_available (cand_node c)" "fits (spec_resources r) (cand_available c)"
    using *(1,2) by (simp_all add: NodeAvailable_filter_def ResourceFit_filter_def)
  show "affinity_met r c (cand_snapshot c)"
    using *(4) EnvironmentAffinity_filter_eq [OF assms(2)] by simp
  show "\<not> (\<exists>p \<in> snd ` set (cl_environments (cand_snapshot c)).
              group_objects r p \<and> pe_node_id p = node_id (cand_node c))"
    "\<forall>g \<in> set (groups_of r). pg_required g \<longrightarrow> group_met r c (cand_snapshot c) g"
    using *(3) unfolding Required_filter_eq [OF assms(2)] by simp_all
  show "\<forall>t \<in> set (sp_topology_spread (spec_scheduling r)).
           ts_when_unsatisfiable t = DoNotSchedule \<longrightarrow> spread_met r c (cand_snapshot c) t"
    using *(5) unfolding Topology_filter_eq [OF assms(2)] by simp
qed

text \<open>The new Environment forbids none of the placed ones.\<close>

lemma new_forbids_none:
  assumes "affinity_met r c cl" "\<forall>g \<in> set (groups_of r). pg_required g \<longrightarrow> group_met r c cl g"
    and "map_of (cl_nodes cl) (node_id (cand_node c)) = Some (cand_node c)"
    and "q \<in> snd ` set (cl_environments cl)"
  shows "\<not> anti_conflict cl (placed_at r c) q"
proof
  assume "anti_conflict cl (placed_at r c) q"
  then consider (peer) t v where "t \<in> set (sp_required_anti_affinity (spec_scheduling r))"
      "PeerTerm_matches t (spec_tenant_id r) (pe_tenant q) (pe_labels q)"
      "cand_label c (pt_topology_key t) = Some v" "node_label cl (pe_node_id q) (pt_topology_key t) = Some v"
    | (grp) "group_objects (pe_spec q) (placed_at r c)" "node_id (cand_node c) = pe_node_id q"
    unfolding anti_conflict_def placed_environment.select_convs node_label_cand [OF assms(3)] by blast
  then show False
  proof cases
    case peer
    then have "q \<in> peers_in_domain r cl t v" using assms(4) by (simp add: peers_in_domain_def selected_def)
    moreover have "peers_in_domain r cl t v = {}"
      using assms(1) peer(1,3) unfolding affinity_met_def by fastforce
    ultimately show False by blast
  next
    case grp
    then obtain g t where gt: "g \<in> set (groups_of r)" "reverse_group g" "t \<in> set (pg_terms g)"
      "LabelSelector_matches (ws_selector t) (pe_labels q)" "spec_tenant_id r = pe_tenant q"
      by (auto simp: group_objects_def list_ex_iff)
    have target: "pg_target g = TargetEnvironment" "pg_required g" "pg_anti g"
      using gt(2) by (simp_all add: reverse_group_def)
    have "group_here r c cl g t"
      unfolding group_here_def target(1) placement_target.case using gt(4,5) grp(2) assms(4) by metis
    moreover have "group_met r c cl g" using assms(2) gt(1) target(2) by blast
    ultimately show False using gt(3) target(3) by (simp add: group_met_def)
  qed
qed

text \<open>None of the placed Environments forbids the new one.\<close>

lemma none_forbids_new:
  assumes "affinity_met r c cl"
    and "\<not> (\<exists>p \<in> snd ` set (cl_environments cl). group_objects r p \<and> pe_node_id p = node_id (cand_node c))"
    and "map_of (cl_nodes cl) (node_id (cand_node c)) = Some (cand_node c)"
    and "p \<in> snd ` set (cl_environments cl)"
  shows "\<not> anti_conflict cl p (placed_at r c)"
proof
  assume "anti_conflict cl p (placed_at r c)"
  then obtain t v where t: "t \<in> set (sp_required_anti_affinity (spec_scheduling (pe_spec p)))"
      "PeerTerm_matches t (pe_tenant p) (spec_tenant_id r) (sp_labels (spec_scheduling r))"
      "node_label cl (pe_node_id p) (pt_topology_key t) = Some v" "cand_label c (pt_topology_key t) = Some v"
    using assms(2,4) by (auto simp: anti_conflict_def node_label_cand [OF assms(3)])
  then have "(p, t) \<in> objections r (map snd (cl_environments cl))"
    using assms(4) by (simp add: objections_def anti_objects_def)
  then have "separated cl c p t" using assms(1) unfolding affinity_met_def by blast
  with t(3,4) show False by (simp add: separated_def)
qed

text \<open>
  C15. Required anti-affinity holds in both directions. If no two placed Environments of a cluster
  forbid each other (by an anti-affinity term in a shared topology domain, or by a required anti
  group on one node) and any framework allows a request on a node, then after placing the request
  there still no two Environments forbid each other: neither the rules of the new Environment nor
  those of the Environments already placed are broken.
\<close>

theorem placement_keeps_anti_affinity:
  assumes "Framework_new fs ss = Inr fw" "candidate_ok r c" "Framework_allows now fw r c = Inr True"
    and "map_of (cl_nodes (cand_snapshot c)) (node_id (cand_node c)) = Some (cand_node c)"
    and "anti_free (cand_snapshot c)"
  shows "anti_free (place \<lparr>pe_spec = r, pe_node_id = node_id (cand_node c)\<rparr> (cand_snapshot c))"
proof -
  note allowed = allowed_facts [OF assms(1-3)]
  note one = new_forbids_none [OF allowed(1,3) assms(4)] and two = none_forbids_new [OF allowed(1,2) assms(4)]
  show ?thesis
    unfolding anti_free_def anti_conflict_place
  proof (intro ballI impI)
    fix p q
    assume "p \<in> snd ` set (cl_environments (place (placed_at r c) (cand_snapshot c)))"
      and "q \<in> snd ` set (cl_environments (place (placed_at r c) (cand_snapshot c)))"
      and ids: "spec_id (pe_spec p) \<noteq> spec_id (pe_spec q)"
    then have "p = placed_at r c \<or> p \<in> snd ` set (cl_environments (cand_snapshot c))"
      "q = placed_at r c \<or> q \<in> snd ` set (cl_environments (cand_snapshot c))"
      using values_place by blast+
    then show "\<not> anti_conflict (cand_snapshot c) p q"
      using one two assms(5) ids unfolding anti_free_def by metis
  qed
qed

text \<open>Two zones, one database in zone \<open>a\<close>, and a second database that wants zone \<open>b\<close>.\<close>

definition zone_node :: "string \<Rightarrow> string \<Rightarrow> node" where
  "zone_node i zone =
     \<lparr>node_id = i, node_capacity = \<lparr>cpu_millis = 1000, memory_bytes = 64, disk_bytes = 0\<rparr>, node_available = True,
      node_labels = [(''zone'', zone)], node_devices = [], node_runtime_classes = [''kata'']\<rparr>"

definition db_spec :: "string \<Rightarrow> environment_spec" where
  "db_spec i =
     (let db = \<lparr>match_labels = [(''app'', ''db'')], expressions = []\<rparr> in
      plain_spec\<lparr>spec_id := i,
        spec_scheduling := SchedulingPolicy_default
          \<lparr>sp_labels := [(''app'', ''db'')],
           sp_required_anti_affinity := [\<lparr>pt_selector = db, pt_topology_key = ''zone'', pt_tenants = []\<rparr>],
           sp_topology_spread :=
             [\<lparr>ts_topology_key = ''zone'', ts_selector = db, ts_max_skew = 1, ts_min_domains = 2,
               ts_when_unsatisfiable = DoNotSchedule\<rparr>]\<rparr>\<rparr>)"

definition zones_cluster :: cluster where
  "zones_cluster =
     place \<lparr>pe_spec = db_spec ''e'', pe_node_id = ''n1''\<rparr>
       (update_node (zone_node ''n2'' ''b'') (update_node (zone_node ''n1'' ''a'') cluster_default))"

definition zone_candidate :: "string \<Rightarrow> string \<Rightarrow> candidate" where
  "zone_candidate i zone =
     \<lparr>cand_node = zone_node i zone, cand_available = node_capacity (zone_node i zone), cand_devices = [],
      cand_snapshot = zones_cluster, cand_prepared = None\<rparr>"

lemma zones_cluster_facts:
  "cluster_inv zones_cluster"
  "cl_environments zones_cluster = [(''e'', \<lparr>pe_spec = db_spec ''e'', pe_node_id = ''n1''\<rparr>)]"
proof -
  show "cluster_inv zones_cluster" unfolding zones_cluster_def by (intro cluster_inv_ops)
  have "spec_id (db_spec ''e'') = ''e''" by (simp add: db_spec_def Let_def)
  then show "cl_environments zones_cluster = [(''e'', \<lparr>pe_spec = db_spec ''e'', pe_node_id = ''n1''\<rparr>)]"
    by (simp add: zones_cluster_def environments_place update_node_def cluster_default_def)
qed

lemma zone_candidate_ok: "candidate_ok r (zone_candidate i zone)"
  by (simp add: candidate_ok_def zone_candidate_def zones_cluster_facts validate_inventory_ok)

lemma zones_anti_free: "anti_free zones_cluster"
  by (simp add: anti_free_def zones_cluster_facts)

definition plain_framework :: framework where
  "plain_framework = \<lparr>fw_filters = mandatory_filters, fw_scores = [], fw_builtin_profile = False\<rparr>"

lemma plain_framework_new: "Framework_new [] [] = Inr plain_framework"
  using builtin_names(1) by (simp add: Framework_new_def plain_framework_def mandatory_filters_def validate_names_def)

lemma db_spec_valid: "EnvironmentSpec_validate 0 (db_spec ''f'') = Inr ()"
  by code_simp

lemma zone_b_allowed:
  "Framework_allows 0 plain_framework (db_spec ''f'') (zone_candidate ''n2'' ''b'') = Inr True"
  "Framework_allows 0 plain_framework (db_spec ''f'') (zone_candidate ''n1'' ''a'') = Inr False"
  unfolding Framework_allows_def db_spec_valid bindE_simps by code_simp+

lemma zone_b_node: "map_of (cl_nodes zones_cluster) ''n2'' = Some (zone_node ''n2'' ''b'')"
  by (simp add: zones_cluster_def update_node_def zone_node_def)

theorem placement_keeps_anti_affinity_witness:
  "Framework_allows 0 plain_framework (db_spec ''f'') (zone_candidate ''n1'' ''a'') = Inr False
   \<and> Framework_allows 0 plain_framework (db_spec ''f'') (zone_candidate ''n2'' ''b'') = Inr True
   \<and> anti_free (place \<lparr>pe_spec = db_spec ''f'', pe_node_id = ''n2''\<rparr> zones_cluster)"
  using placement_keeps_anti_affinity [OF plain_framework_new zone_candidate_ok zone_b_allowed(1)]
    zone_b_allowed zone_b_node zones_anti_free
  by (simp add: zone_candidate_def zone_node_def)

section \<open>Topology spread\<close>

lemma length_filter_om_put:
  "k \<notin> fst ` set m \<Longrightarrow>
     length (filter p (map snd (om_put k v m))) = (if p v then 1 else 0) + length (filter p (map snd m))"
  by (induction m) auto

lemma domain_peers_place:
  assumes "spec_id (pe_spec p) \<notin> fst ` set (cl_environments cl)"
  shows "domain_peers r (place p cl) t v =
     (if pe_tenant p = spec_tenant_id r \<and> LabelSelector_matches (ts_selector t) (pe_labels p)
         \<and> node_label cl (pe_node_id p) (ts_topology_key t) = Some v then 1 else 0) + domain_peers r cl t v"
  unfolding domain_peers_def environments_place
  by (subst length_filter_om_put) (simp_all add: assms in_domain_def)

text \<open>
  C16. Topology spread is enforced. When any framework allows a new request on a node, then after
  placing it there every \<open>DoNotSchedule\<close> constraint of the request holds: the node has the topology
  label, and its domain holds at most \<open>max_skew\<close> matching Environments more than any eligible
  domain; while there are fewer than \<open>min_domains\<close> eligible domains, at most \<open>max_skew\<close> in total.
\<close>

theorem placement_bounds_skew:
  assumes "Framework_new fs ss = Inr fw" "candidate_ok r c" "Framework_allows now fw r c = Inr True"
    and "map_of (cl_nodes (cand_snapshot c)) (node_id (cand_node c)) = Some (cand_node c)"
    and "spec_id r \<notin> fst ` set (cl_environments (cand_snapshot c))"
    and "t \<in> set (sp_topology_spread (spec_scheduling r))" "ts_when_unsatisfiable t = DoNotSchedule"
  defines "after \<equiv> place \<lparr>pe_spec = r, pe_node_id = node_id (cand_node c)\<rparr> (cand_snapshot c)"
    and "domains \<equiv> set (spread_domains r (cand_snapshot c) t)"
  shows "\<exists>v. map_of (node_labels (cand_node c)) (ts_topology_key t) = Some v
             \<and> (\<forall>w \<in> domains. domain_peers r after t v \<le> unat (ts_max_skew t) +
                  (if card domains < unat (ts_min_domains t) then 0 else domain_peers r after t w))"
proof -
  let ?cl = "cand_snapshot c"
  from allowed_facts(4) [OF assms(1-3)] assms(6,7) obtain v where
    v: "cand_label c (ts_topology_key t) = Some v" "v \<in> domains"
      "domain_peers r ?cl t v + incoming r t \<le> unat (ts_max_skew t) + peers_floor r ?cl t"
    unfolding spread_met_def domains_def by blast
  have after: "domain_peers r after t w = (if w = v then incoming r t else 0) + domain_peers r ?cl t w" for w
    unfolding after_def using domain_peers_place [of "placed_at r c" ?cl r t w] assms(5) v(1)
    by (auto simp: node_label_cand [OF assms(4)] incoming_def)
  have floor: "peers_floor r ?cl t \<le> (if card domains < unat (ts_min_domains t) then 0 else domain_peers r after t w)"
    if "w \<in> domains" for w
  proof (cases "card domains < unat (ts_min_domains t)")
    case False
    have "peers_floor r ?cl t \<le> domain_peers r ?cl t w" using peers_floor_le that domains_def by blast
    then show ?thesis using False after [of w] by simp
  qed (simp add: peers_floor_def domains_def)
  have "domain_peers r after t v = domain_peers r ?cl t v + incoming r t" by (simp add: after)
  then have "domain_peers r after t v \<le> unat (ts_max_skew t) +
      (if card domains < unat (ts_min_domains t) then 0 else domain_peers r after t w)" if "w \<in> domains" for w
    using v(3) floor [OF that] by linarith
  with v(1) show ?thesis by blast
qed

lemma db_spec_spread: "sp_topology_spread (spec_scheduling (db_spec i)) =
    [\<lparr>ts_topology_key = ''zone'', ts_selector = \<lparr>match_labels = [(''app'', ''db'')], expressions = []\<rparr>,
      ts_max_skew = 1, ts_min_domains = 2, ts_when_unsatisfiable = DoNotSchedule\<rparr>]"
  and db_spec_id: "spec_id (db_spec i) = i"
  by (simp_all add: db_spec_def Let_def)

theorem placement_bounds_skew_witness:
  "let r = db_spec ''f''; t = hd (sp_topology_spread (spec_scheduling r));
       after = place \<lparr>pe_spec = r, pe_node_id = ''n2''\<rparr> zones_cluster;
       domains = spread_domains r zones_cluster t
   in (\<exists>v. map_of (node_labels (zone_node ''n2'' ''b'')) (ts_topology_key t) = Some v
          \<and> list_all (\<lambda>w. domain_peers r after t v \<le> unat (ts_max_skew t) +
               (if card (set domains) < unat (ts_min_domains t) then 0 else domain_peers r after t w)) domains)
      \<and> domains = [''a'', ''b''] \<and> domain_peers r after t ''b'' = 1"
proof -
  let ?r = "db_spec ''f''" and ?after = "place \<lparr>pe_spec = db_spec ''f'', pe_node_id = ''n2''\<rparr> zones_cluster"
  let ?t = "hd (sp_topology_spread (spec_scheduling ?r))"
  have t: "?t \<in> set (sp_topology_spread (spec_scheduling ?r))" "ts_when_unsatisfiable ?t = DoNotSchedule"
    by (simp_all add: db_spec_spread)
  have fresh: "spec_id ?r \<notin> fst ` set (cl_environments (cand_snapshot (zone_candidate ''n2'' ''b'')))"
    by (simp add: zone_candidate_def zones_cluster_facts db_spec_id)
  have node: "map_of (cl_nodes (cand_snapshot (zone_candidate ''n2'' ''b'')))
      (node_id (cand_node (zone_candidate ''n2'' ''b''))) = Some (cand_node (zone_candidate ''n2'' ''b''))"
    using zone_b_node by (simp add: zone_candidate_def zone_node_def)
  have c: "cand_node (zone_candidate ''n2'' ''b'') = zone_node ''n2'' ''b''"
    "cand_snapshot (zone_candidate ''n2'' ''b'') = zones_cluster" "node_id (zone_node ''n2'' ''b'') = ''n2''"
    by (simp_all add: zone_candidate_def zone_node_def)
  have "spread_domains ?r zones_cluster ?t = [''a'', ''b'']" "domain_peers ?r ?after ?t ''b'' = 1"
    by code_simp+
  with placement_bounds_skew [OF plain_framework_new zone_candidate_ok zone_b_allowed(1) node fresh t] show ?thesis
    unfolding Let_def c list_all_iff by blast
qed

section \<open>The built-in profile decides every candidate\<close>

lemma builtin_evaluate_verdict:
  assumes "Framework_builtin p = Inr fw" "EnvironmentSpec_validate now r = Inr ()" "candidate_ok r c"
  shows "\<exists>v. Framework_evaluate now fw r c = Inr v
             \<and> (v \<noteq> None \<longleftrightarrow> Framework_allows now fw r c = Inr True)
             \<and> is_none_or (\<lambda>s. unat s \<le> 15000000) v"
proof -
  have fw: "fw = builtin_framework p" using assms(1) by (simp add: Framework_builtin_eq)
  obtain b where b: "Framework_allows now fw r c = Inr b"
    using allows_loop_ok [of mandatory_filters r c] mandatory_filters_decide [OF assms(2,3)] assms(2)
    by (simp add: Framework_allows_def fw builtin_framework_def)
  have total: "weight_total (fw_scores fw) = 15000000"
    by (simp add: fw builtin_framework_def builtin_scores_def)
  have "\<forall>s \<in> set (fw_scores fw). score_ok (scp_score (wsc_plugin s) r c)"
    using builtin_scores_ok [OF assms(2,3)] by (auto simp: fw builtin_framework_def)
  from score_loop_ok [OF this, of 0] total obtain t where
    "score_loop r c 0 (fw_scores fw) = Inr t" "unat t \<le> 15000000" by auto
  with b show ?thesis by (cases b) (simp_all add: Framework_evaluate_def)
qed

text \<open>
  C17. The built-in profile never fails on sane input. For a request that validates and a candidate
  taken from a consistent cluster with a valid device inventory, \<open>evaluate\<close> returns a verdict (no
  error, no index out of range, no overflow or division by zero in any rule or score); the verdict
  is a score exactly when every hard rule holds, and a score is at most \<open>5 * MAX_SCORE\<close>.
\<close>

theorem builtin_evaluate_total:
  assumes "Framework_builtin p = Inr fw" "EnvironmentSpec_validate now r = Inr ()" "candidate_ok r c"
  shows "\<exists>v. Framework_evaluate now fw r c = Inr v
             \<and> (v \<noteq> None \<longleftrightarrow> Framework_allows now fw r c = Inr True)
             \<and> is_none_or (\<lambda>s. unat s \<le> 5 * unat MAX_SCORE) v"
  using builtin_evaluate_verdict [OF assms] by simp

lemma zone_b_builtin:
  "Framework_evaluate 0 (builtin_framework Pack) (db_spec ''f'') (zone_candidate ''n2'' ''b'') = Inr (Some 1115625)"
  "Framework_evaluate 0 (builtin_framework Pack) (db_spec ''f'') (zone_candidate ''n1'' ''a'') = Inr None"
  unfolding Framework_evaluate_def Framework_allows_def db_spec_valid bindE_simps by code_simp+

theorem builtin_evaluate_total_witness:
  "Framework_evaluate 0 (builtin_framework Pack) (db_spec ''f'') (zone_candidate ''n2'' ''b'') = Inr (Some 1115625)
   \<and> (\<exists>v. Framework_evaluate 0 (builtin_framework Pack) (db_spec ''f'') (zone_candidate ''n2'' ''b'') = Inr v
          \<and> (v \<noteq> None \<longleftrightarrow>
               Framework_allows 0 (builtin_framework Pack) (db_spec ''f'') (zone_candidate ''n2'' ''b'') = Inr True)
          \<and> is_none_or (\<lambda>s. unat s \<le> 5 * unat MAX_SCORE) v)"
  using builtin_evaluate_total [OF Framework_builtin_eq db_spec_valid zone_candidate_ok] zone_b_builtin(1) by blast

section \<open>The shared precomputation changes no verdict\<close>

text \<open>No rule or score reads the handed-over precomputation except through \<open>candidate_prepared\<close>.\<close>

lemma with_prepared_loops [simp]:
  "topology_loop r (c\<lparr>cand_prepared := x\<rparr>) l = topology_loop r c l"
  "group_matching r (c\<lparr>cand_prepared := x\<rparr>) q i = group_matching r c q i"
  "required_loop r (c\<lparr>cand_prepared := x\<rparr>) q gs = required_loop r c q gs"
  "preference_loop r (c\<lparr>cand_prepared := x\<rparr>) q acc cnt gs = preference_loop r c q acc cnt gs"
proof -
  show "topology_loop r (c\<lparr>cand_prepared := x\<rparr>) l = topology_loop r c l"
    by (induction l) (auto simp: cand_count_def Let_def cong: option.case_cong if_cong)
  have "group_term_matches (c\<lparr>cand_prepared := x\<rparr>) = group_term_matches c"
    by (simp add: fun_eq_iff group_term_matches_def split: placement_target.split prod.split)
  then show *: "group_matching r (c\<lparr>cand_prepared := x\<rparr>) q i = group_matching r c q i" for i
    by (simp add: group_matching_def)
  show "required_loop r (c\<lparr>cand_prepared := x\<rparr>) q gs = required_loop r c q gs"
    by (induction gs) (auto simp: * Let_def cong: if_cong)
  show "preference_loop r (c\<lparr>cand_prepared := x\<rparr>) q acc cnt gs = preference_loop r c q acc cnt gs"
    by (induction gs arbitrary: acc cnt) (auto simp: *)
qed

lemma with_prepared:
  assumes "candidate_prepared r c = Inr q"
  shows "f \<in> set mandatory_filters \<Longrightarrow> fp_filter f r (c\<lparr>cand_prepared := Some q\<rparr>) = fp_filter f r c"
    and "s \<in> set (builtin_scores p) \<Longrightarrow> scp_score s r (c\<lparr>cand_prepared := Some q\<rparr>) = scp_score s r c"
proof -
  have q: "candidate_prepared r (c\<lparr>cand_prepared := Some q\<rparr>) = Inr q"
    by (simp add: candidate_prepared_def)
  have here: "peer_here (c\<lparr>cand_prepared := x\<rparr>) = peer_here c" "cand_count (c\<lparr>cand_prepared := x\<rparr>) = cand_count c"
    "affinity_holds r (c\<lparr>cand_prepared := x\<rparr>) = affinity_holds r c"
    "anti_holds (c\<lparr>cand_prepared := x\<rparr>) = anti_holds c" "reverse_holds (c\<lparr>cand_prepared := x\<rparr>) = reverse_holds c" for x
    by (simp_all add: fun_eq_iff peer_here_def cand_count_def affinity_holds_def anti_holds_def reverse_holds_def)
  show "f \<in> set mandatory_filters \<Longrightarrow> fp_filter f r (c\<lparr>cand_prepared := Some q\<rparr>) = fp_filter f r c"
    by (auto simp: mandatory_filters_def NodeAvailable_filter_def ResourceFit_filter_def RuntimeFit_filter_def
        DeviceFit_filter_def NodeAffinity_filter_def Required_filter_def EnvironmentAffinity_filter_def
        Topology_filter_def assms q here)
  show "s \<in> set (builtin_scores p) \<Longrightarrow> scp_score s r (c\<lparr>cand_prepared := Some q\<rparr>) = scp_score s r c"
    by (auto simp: builtin_scores_def Preference_score_def ResourceBalance_score_def NodePreference_score_def
        EnvironmentPreference_score_def TopologyPreference_score_def assms q here)
qed

lemma allows_loop_cong:
  "(\<forall>f \<in> set fs. fp_filter f r c = fp_filter f r d) \<Longrightarrow> allows_loop r c fs = allows_loop r d fs"
  by (induction fs) (auto cong: if_cong)

lemma score_loop_cong:
  "(\<forall>s \<in> set ss. scp_score (wsc_plugin s) r c = scp_score (wsc_plugin s) r d) \<Longrightarrow>
     score_loop r c acc ss = score_loop r d acc ss"
  by (induction ss arbitrary: acc) (auto cong: if_cong)

lemma evaluate_with_prepared:
  assumes "candidate_prepared r c = Inr q"
  shows "Framework_evaluate now (builtin_framework p) r (c\<lparr>cand_prepared := Some q\<rparr>)
           = Framework_evaluate now (builtin_framework p) r c"
proof -
  have "allows_loop r (c\<lparr>cand_prepared := Some q\<rparr>) mandatory_filters = allows_loop r c mandatory_filters"
    by (rule allows_loop_cong) (simp add: with_prepared(1) [OF assms])
  moreover have "score_loop r (c\<lparr>cand_prepared := Some q\<rparr>) 0 (fw_scores (builtin_framework p))
      = score_loop r c 0 (fw_scores (builtin_framework p))"
    by (rule score_loop_cong) (simp add: builtin_framework_def with_prepared(2) [OF assms])
  ultimately show ?thesis
    by (simp add: Framework_evaluate_def Framework_allows_def builtin_framework_def cong: if_cong)
qed

section \<open>The choice of a node\<close>

text \<open>The reference choice: the highest verdict, and among equals the smallest node identity.\<close>

definition best_choice :: "(candidate \<Rightarrow> u64 option result) \<Rightarrow> candidate list \<Rightarrow> string option \<Rightarrow> bool" where
  "best_choice ev cs out \<longleftrightarrow>
     (case out of
        None \<Rightarrow> list_all (\<lambda>c. ev c = Inr None) cs
      | Some i \<Rightarrow>
          list_ex (\<lambda>c. node_id (cand_node c) = i \<and>
            (case ev c of
               Inr (Some s) \<Rightarrow>
                 list_all (\<lambda>d. case ev d of
                     Inr (Some s') \<Rightarrow> s' < s \<or> s' = s \<and> i \<le> node_id (cand_node d)
                   | _ \<Rightarrow> True) cs
             | _ \<Rightarrow> False)) cs)"

lemma best_choice_cong:
  "(\<And>c. c \<in> set cs \<Longrightarrow> ev c = ev' c) \<Longrightarrow> best_choice ev cs out = best_choice ev' cs out"
  by (cases out) (auto simp: best_choice_def list_all_iff list_ex_iff split: sum.splits option.splits)

definition beats :: "string \<times> u64 \<Rightarrow> string \<times> u64 \<Rightarrow> bool" where
  "beats a b \<longleftrightarrow> snd b < snd a \<or> snd b = snd a \<and> fst a \<le> fst b"

lemma beats_refl [simp]: "beats a a"
  by (simp add: beats_def)

lemma beats_trans: "beats a b \<Longrightarrow> beats b c \<Longrightarrow> beats a c"
  by (auto simp: beats_def)

lemma better_beats: "better i s (Some b) \<Longrightarrow> beats (i, s) b" "\<not> better i s (Some b) \<Longrightarrow> beats b (i, s)"
  by (auto simp: better_def beats_def split: prod.splits)

definition verdicts :: "(candidate \<Rightarrow> u64 option result) \<Rightarrow> (string \<times> u64) option \<Rightarrow> candidate list \<Rightarrow> (string \<times> u64) set" where
  "verdicts ev best cs =
     set_option best \<union> {(node_id (cand_node c), s) | c s. c \<in> set cs \<and> ev c = Inr (Some s)}"

lemma verdicts_Cons:
  "ev c = Inr None \<Longrightarrow> verdicts ev best (c # cs) = verdicts ev best cs"
  "ev c = Inr (Some s) \<Longrightarrow> verdicts ev best (c # cs) = insert (node_id (cand_node c), s) (verdicts ev best cs)"
  by (auto simp: verdicts_def)

lemma best_loop_ok:
  assumes "\<forall>c \<in> set cs. \<exists>v. ev c = Inr v"
  shows "\<exists>out. best_loop ev best cs = Inr out
           \<and> (case out of None \<Rightarrow> verdicts ev best cs = {}
              | Some x \<Rightarrow> x \<in> verdicts ev best cs \<and> (\<forall>y \<in> verdicts ev best cs. beats x y))"
  using assms
proof (induction cs arbitrary: best)
  case Nil
  then show ?case by (cases best) (simp_all add: verdicts_def)
next
  case (Cons c cs)
  then obtain v where v: "ev c = Inr v" by auto
  show ?case
  proof (cases v)
    case None
    then have "verdicts ev best (c # cs) = verdicts ev best cs" using v by (simp add: verdicts_Cons(1))
    note eq = this
    from v None Cons show ?thesis unfolding eq by simp
  next
    case (Some s)
    let ?x = "(node_id (cand_node c), s)"
    let ?best = "if better (fst ?x) s best then Some ?x else best"
    have sub: "verdicts ev ?best cs \<subseteq> verdicts ev best (c # cs)"
      using v Some by (auto simp: verdicts_def split: if_splits)
    have above: "\<exists>z \<in> verdicts ev ?best cs. beats z y" if "y \<in> verdicts ev best (c # cs)" for y
    proof (cases "y \<in> verdicts ev ?best cs")
      case False
      with that v Some have y: "y = ?x \<or> best = Some y"
        by (auto simp: verdicts_def split: if_splits)
      obtain z where z: "?best = Some z" "beats z ?x" "best = Some y \<Longrightarrow> beats z y"
      proof (cases best)
        case (Some b)
        then show ?thesis
          using better_beats [of "fst ?x" s b] that by (cases "better (fst ?x) s best") auto
      qed (use that in \<open>simp add: better_def\<close>)
      from z(1) have "z \<in> verdicts ev ?best cs" by (simp only: verdicts_def option.set Un_insert_left insertI1)
      moreover have "beats z y" using y z(2,3) by blast
      ultimately show ?thesis by blast
    qed (use beats_refl in blast)
    from Cons.IH [of ?best] Cons.prems obtain out where out: "best_loop ev ?best cs = Inr out"
      "case out of None \<Rightarrow> verdicts ev ?best cs = {}
       | Some x \<Rightarrow> x \<in> verdicts ev ?best cs \<and> (\<forall>y \<in> verdicts ev ?best cs. beats x y)" by auto
    have "case out of None \<Rightarrow> verdicts ev best (c # cs) = {}
       | Some x \<Rightarrow> x \<in> verdicts ev best (c # cs) \<and> (\<forall>y \<in> verdicts ev best (c # cs). beats x y)"
    proof (cases out)
      case None
      then show ?thesis using out(2) above by auto
    next
      case (Some x)
      with out(2) have x: "x \<in> verdicts ev ?best cs" "\<And>z. z \<in> verdicts ev ?best cs \<Longrightarrow> beats x z" by auto
      have "beats x y" if "y \<in> verdicts ev best (c # cs)" for y
        using above [OF that] x(2) beats_trans by blast
      then show ?thesis using Some x(1) sub by auto
    qed
    with out(1) v Some show ?thesis by auto
  qed
qed

lemma best_loop_choice:
  assumes "\<forall>c \<in> set cs. \<exists>v. ev c = Inr v"
  shows "\<exists>out. best_loop ev None cs = Inr out \<and> best_choice ev cs (map_option fst out)"
proof -
  from best_loop_ok [OF assms, of None] obtain out where out: "best_loop ev None cs = Inr out"
    "case out of None \<Rightarrow> verdicts ev None cs = {}
     | Some x \<Rightarrow> x \<in> verdicts ev None cs \<and> (\<forall>y \<in> verdicts ev None cs. beats x y)" by blast
  have "best_choice ev cs (map_option fst out)"
  proof (cases out)
    case None
    then have none: "ev c \<noteq> Inr (Some s)" if "c \<in> set cs" for c s
      using out(2) that by (auto simp: verdicts_def)
    have "ev c = Inr None" if "c \<in> set cs" for c
      using assms none [OF that] that by (metis option.exhaust)
    with None show ?thesis by (simp add: best_choice_def list_all_iff)
  next
    case (Some x)
    with out(2) obtain c where c: "c \<in> set cs" "fst x = node_id (cand_node c)" "ev c = Inr (Some (snd x))"
      by (auto simp: verdicts_def)
    have "beats x (node_id (cand_node d), s)" if "d \<in> set cs" "ev d = Inr (Some s)" for d s
      using out(2) Some that by (auto simp: verdicts_def)
    then have "list_all (\<lambda>d. case ev d of Inr (Some s') \<Rightarrow>
          s' < snd x \<or> s' = snd x \<and> fst x \<le> node_id (cand_node d) | _ \<Rightarrow> True) cs"
      by (auto simp: list_all_iff beats_def split: sum.split option.split)
    with c have "best_choice ev cs (Some (fst x))"
      unfolding best_choice_def option.case list_ex_iff by (intro bexI [of _ c]) simp_all
    with Some show ?thesis by simp
  qed
  with out(1) show ?thesis by blast
qed

text \<open>
  C18. The choice of a node is the reference choice. On a request that validates and candidates of
  one consistent cluster, \<open>select\<close> of the built-in profile succeeds and returns the candidate with the
  highest verdict, the smallest identity among equals, and nothing exactly when no candidate is
  eligible; the verdicts are those of evaluating each candidate on its own, although the
  precomputation is done once for all of them.
\<close>

theorem builtin_select_best:
  assumes "Framework_builtin p = Inr fw" "EnvironmentSpec_validate now r = Inr ()"
    and "\<forall>c \<in> set cs. candidate_ok r c \<and> cand_snapshot c = cl"
  shows "\<exists>out. Framework_select now fw r cs = Inr out \<and> best_choice (Framework_evaluate now fw r) cs out"
proof (cases cs)
  case Nil
  then show ?thesis using assms(2) by (simp add: Framework_select_def best_choice_def)
next
  case (Cons first rest)
  have fw: "fw = builtin_framework p" using assms(1) by (simp add: Framework_builtin_eq)
  have first: "cand_snapshot first = cl" "cluster_inv cl" using assms(3) Cons by auto
  then obtain q where q: "Prepared_new r cl = Inr q" using Prepared_new_total by blast
  let ?ev = "\<lambda>c. Framework_evaluate now fw r (c\<lparr>cand_prepared := Some q\<rparr>)"
  have same: "?ev c = Framework_evaluate now fw r c" if "c \<in> set cs" for c
    using evaluate_with_prepared candidate_prepared_new assms(3) q that unfolding fw by metis
  have "\<forall>c \<in> set cs. \<exists>v. ?ev c = Inr v"
    using same builtin_evaluate_verdict [OF assms(1,2)] assms(3) by fastforce
  from best_loop_choice [OF this] obtain out where
    out: "best_loop ?ev None cs = Inr out" "best_choice ?ev cs (map_option fst out)" by blast
  have "best_choice (Framework_evaluate now fw r) cs (map_option fst out)"
    using out(2) best_choice_cong [of cs ?ev "Framework_evaluate now fw r"] same by blast
  with out(1) q first Cons assms(2) show ?thesis
    by (simp add: Framework_select_def)
qed

theorem builtin_select_best_witness:
  "Framework_select 0 (builtin_framework Pack) (db_spec ''f'')
     [zone_candidate ''n1'' ''a'', zone_candidate ''n2'' ''b''] = Inr (Some ''n2'')
   \<and> best_choice (Framework_evaluate 0 (builtin_framework Pack) (db_spec ''f''))
       [zone_candidate ''n1'' ''a'', zone_candidate ''n2'' ''b''] (Some ''n2'')"
proof -
  let ?cs = "[zone_candidate ''n1'' ''a'', zone_candidate ''n2'' ''b'']"
  have "\<forall>c \<in> set ?cs. candidate_ok (db_spec ''f'') c \<and> cand_snapshot c = zones_cluster"
    using zone_candidate_ok by (simp add: zone_candidate_def)
  from builtin_select_best [OF Framework_builtin_eq db_spec_valid this] obtain out where
    out: "Framework_select 0 (builtin_framework Pack) (db_spec ''f'') ?cs = Inr out"
      "best_choice (Framework_evaluate 0 (builtin_framework Pack) (db_spec ''f'')) ?cs out" by blast
  have "node_id (cand_node (zone_candidate i z)) = i" for i z by (simp add: zone_candidate_def zone_node_def)
  with out(2) have "out = Some ''n2''"
    by (cases out) (auto simp: best_choice_def zone_b_builtin)
  with out show ?thesis by simp
qed

section \<open>Explanations\<close>

lemma resource_reasons_empty: "resource_reasons r c = [] \<longleftrightarrow> fits (spec_resources r) (cand_available c)"
  by (auto simp: resource_reasons_def fits_def not_less)

lemma resource_fit_unique:
  assumes "Framework_new fs ss = Inr fw" "f \<in> set (fw_filters fw)" "fp_name f = ''resource-fit''"
  shows "fp_filter f = ResourceFit_filter"
proof -
  let ?rf = "\<lparr>fp_name = ''resource-fit'', fp_filter = ResourceFit_filter\<rparr>"
  have "?rf \<in> set (fw_filters fw)"
    using Framework_new_ok(1) [OF assms(1)] by (simp add: mandatory_filters_def)
  moreover have "inj_on fp_name (set (fw_filters fw))"
    using Framework_new_ok(3) [OF assms(1)] by (simp add: distinct_map)
  ultimately have "f = ?rf" using assms(2,3) inj_onD [of fp_name "set (fw_filters fw)" f ?rf] by simp
  then show ?thesis by simp
qed

lemma rejections_loop_grows: "rejections_loop r c reasons fs = Inr out \<Longrightarrow> \<exists>more. out = reasons @ more"
  by (induction fs arbitrary: reasons) (fastforce simp: bindE_eq_Inr split: if_splits)+

lemma rejections_loop_allows:
  assumes "\<forall>f \<in> set fs. fp_name f = ''resource-fit'' \<longrightarrow> fp_filter f = ResourceFit_filter"
    and "rejections_loop r c [] fs = Inr out"
  shows "allows_loop r c fs = Inr (out = [])"
  using assms
proof (induction fs)
  case (Cons f fs)
  from Cons.prems(2) obtain ok where ok: "fp_filter f r c = Inr ok" by (auto simp: bindE_eq_Inr)
  show ?case
  proof (cases ok)
    case True
    with Cons ok show ?thesis by simp
  next
    case False
    obtain first where first: "first \<noteq> []" "rejections_loop r c first fs = Inr out"
    proof (cases "fp_name f = ''resource-fit''")
      case True
      with Cons.prems(1) ok False have "resource_reasons r c \<noteq> []"
        by (simp add: resource_reasons_empty ResourceFit_filter_def)
      with Cons.prems(2) ok False True show ?thesis by (intro that) simp_all
    qed (use Cons.prems(2) ok False in \<open>auto intro: that\<close>)
    with ok False rejections_loop_grows [OF first(2)] show ?thesis by auto
  qed
qed simp

text \<open>
  C19. Explanations agree with decisions. Whenever \<open>rejections\<close> of any framework returns, the
  list of reasons is empty exactly when \<open>allows\<close> admits the candidate; a lack of scalar resources
  always names at least one dimension, and no plugin can take the name that is explained by dimension.
\<close>

theorem rejections_explain_refusal:
  assumes "Framework_new fs ss = Inr fw" "Framework_rejections now fw r c = Inr reasons"
  shows "Framework_allows now fw r c = Inr (reasons = [])"
proof -
  have "\<forall>f \<in> set (fw_filters fw). fp_name f = ''resource-fit'' \<longrightarrow> fp_filter f = ResourceFit_filter"
    using resource_fit_unique [OF assms(1)] by blast
  with assms(2) show ?thesis
    by (auto simp: Framework_rejections_def Framework_allows_def bindE_eq_Inr rejections_loop_allows)
qed

theorem rejections_explain_refusal_witness:
  "Framework_rejections 0 plain_framework (db_spec ''f'') (zone_candidate ''n1'' ''a'')
     = Inr [''environment_affinity'', ''topology_spread'']
   \<and> Framework_allows 0 plain_framework (db_spec ''f'') (zone_candidate ''n1'' ''a'') = Inr False"
proof -
  have "Framework_rejections 0 plain_framework (db_spec ''f'') (zone_candidate ''n1'' ''a'')
     = Inr [''environment_affinity'', ''topology_spread'']"
    unfolding Framework_rejections_def db_spec_valid bindE_simps by code_simp
  with rejections_explain_refusal [OF plain_framework_new this] show ?thesis by simp
qed

end
