(* ===== verification/Device_Ledger.thy ===== *)
theory Device_Ledger
  imports Devices
begin

text \<open>
  The node ledger of whole cards (\<open>DeviceLedger\<close> of
  \<^verbatim>\<open>platform/crates/core/src/scheduling.rs\<close>). The inventory may change under the holdings; a card
  stays busy until the identity that holds it is released.
\<close>

record device_ledger =
  inventory :: "device list"
  held :: "(string, device_allocation list) omap"
  busy :: "device_key oset"

definition DeviceLedger_default :: device_ledger where
  "DeviceLedger_default = \<lparr>inventory = [], held = [], busy = []\<rparr>"

definition allocated :: "device_ledger \<Rightarrow> device_allocation list" where
  "allocated l = concat (map snd (held l))"

definition DeviceLedger_update :: "device list \<Rightarrow> (device_ledger, unit) op" where
  "DeviceLedger_update devices l =
     (case validate_inventory devices of
        Inl e \<Rightarrow> (Inl e, l)
      | Inr _ \<Rightarrow> (Inr (), l\<lparr>inventory := devices\<rparr>))"

definition DeviceLedger_available :: "device_ledger \<Rightarrow> device list" where
  "DeviceLedger_available l =
     filter (\<lambda>d. healthy d \<and> dev_key d \<notin> set (busy l)) (inventory l)"

definition extend_busy :: "device_allocation list \<Rightarrow> device_key oset \<Rightarrow> device_key oset" where
  "extend_busy alloc b = fold (\<lambda>a. os_insert (alloc_key a)) alloc b"

definition card_offered :: "device list \<Rightarrow> device_allocation \<Rightarrow> bool" where
  "card_offered free a \<longleftrightarrow>
     list_ex (\<lambda>d. dev_id d = alloc_id a \<and> dev_kind d = alloc_kind a \<and> dev_model d = alloc_model a) free"

definition DeviceLedger_reserve ::
  "string \<Rightarrow> device_request list \<times> device_allocation list \<Rightarrow> (device_ledger, unit) op" where
  "DeviceLedger_reserve i q l =
     (case q of (requests, alloc) \<Rightarrow>
      case validate_device_assignment requests alloc of
        Inl e \<Rightarrow> (Inl e, l)
      | Inr _ \<Rightarrow>
          (case map_of (held l) i of
             Some existing \<Rightarrow> (if existing = alloc then Inr () else Inl Conflict, l)
           | None \<Rightarrow>
               let free = (if alloc = [] then [] else DeviceLedger_available l) in
               if list_ex (\<lambda>a. \<not> card_offered free a) alloc then (Inl NoCapacity, l)
               else (Inr (), l\<lparr>busy := extend_busy alloc (busy l), held := om_put i alloc (held l)\<rparr>)))"

definition DeviceLedger_release :: "string \<Rightarrow> (device_ledger, unit) op" where
  "DeviceLedger_release i l =
     (case map_of (held l) i of
        None \<Rightarrow> (Inl NotFound, l)
      | Some alloc \<Rightarrow>
          (Inr (), l\<lparr>held := om_del i (held l),
                     busy := fold (\<lambda>a. os_remove (alloc_key a)) alloc (busy l)\<rparr>))"

definition DeviceLedger_restore :: "string \<Rightarrow> device_allocation list \<Rightarrow> (device_ledger, unit) op" where
  "DeviceLedger_restore i alloc l =
     (case validate_allocations alloc of
        Inl e \<Rightarrow> (Inl e, l)
      | Inr _ \<Rightarrow>
          (case map_of (held l) i of
             Some old \<Rightarrow> (if old = alloc then Inr () else Inl Conflict, l)
           | None \<Rightarrow>
               if list_ex (\<lambda>a. alloc_key a \<in> set (busy l)) alloc then (Inl Conflict, l)
               else (Inr (), l\<lparr>busy := extend_busy alloc (busy l), held := om_put i alloc (held l)\<rparr>)))"

lemmas device_ledger_op_defs =
  DeviceLedger_update_def DeviceLedger_reserve_def DeviceLedger_release_def DeviceLedger_restore_def

section \<open>Exclusive ownership\<close>

definition held_keys :: "(string, device_allocation list) omap \<Rightarrow> device_key list" where
  "held_keys m = concat (map (\<lambda>e. map alloc_key (snd e)) m)"

definition device_ledger_inv :: "device_ledger \<Rightarrow> bool" where
  "device_ledger_inv l \<longleftrightarrow>
     validate_inventory (inventory l) = Inr () \<and> om_wf (held l)
     \<and> distinct (held_keys (held l)) \<and> set (busy l) = set (held_keys (held l))"

lemma set_extend_busy: "set (extend_busy alloc b) = alloc_key ` set alloc \<union> set b"
  unfolding extend_busy_def by (induction alloc arbitrary: b) auto

lemma set_shrink_busy: "set (fold (\<lambda>a. os_remove (alloc_key a)) alloc b) = set b - alloc_key ` set alloc"
  by (induction alloc arbitrary: b) auto

lemma held_keys_put:
  "i \<notin> fst ` set m \<Longrightarrow> mset (held_keys (om_put i alloc m)) = mset (map alloc_key alloc) + mset (held_keys m)"
  by (induction m) (auto simp: held_keys_def)

lemma held_keys_del:
  assumes "om_wf m" "map_of m i = Some alloc"
  shows "mset (held_keys m) = mset (map alloc_key alloc) + mset (held_keys (om_del i m))"
  using assms
proof (induction m)
  case (Cons e m)
  obtain a b where e: "e = (a, b)" by (cases e)
  with Cons.prems have "a \<notin> fst ` set m" by (auto simp: om_wf_Cons)
  with Cons e show ?case by (auto simp: om_wf_Cons held_keys_def)
qed simp

lemma device_ledger_inv_add:
  assumes "device_ledger_inv l" "map_of (held l) i = None" "distinct (map alloc_key alloc)"
    and "\<forall>a \<in> set alloc. alloc_key a \<notin> set (busy l)"
  shows "device_ledger_inv (l\<lparr>busy := extend_busy alloc (busy l), held := om_put i alloc (held l)\<rparr>)"
proof -
  have "mset (held_keys (om_put i alloc (held l))) = mset (map alloc_key alloc @ held_keys (held l))"
    using held_keys_put assms(2) by (simp add: map_of_eq_None_iff)
  then have "distinct (held_keys (om_put i alloc (held l))) = distinct (map alloc_key alloc @ held_keys (held l))"
    and "set (held_keys (om_put i alloc (held l))) = set (map alloc_key alloc @ held_keys (held l))"
    by (rule mset_eq_imp_distinct_iff, rule mset_eq_setD)
  with assms show ?thesis
    by (auto simp: device_ledger_inv_def set_extend_busy)
qed

lemma device_ledger_inv_release:
  assumes "device_ledger_inv l" "map_of (held l) i = Some alloc"
  shows "device_ledger_inv (l\<lparr>held := om_del i (held l),
           busy := fold (\<lambda>a. os_remove (alloc_key a)) alloc (busy l)\<rparr>)"
proof -
  have "mset (held_keys (held l)) = mset (map alloc_key alloc @ held_keys (om_del i (held l)))"
    using held_keys_del assms by (simp add: device_ledger_inv_def)
  then have "distinct (held_keys (held l)) = distinct (map alloc_key alloc @ held_keys (om_del i (held l)))"
    and "set (held_keys (held l)) = set (map alloc_key alloc @ held_keys (om_del i (held l)))"
    by (rule mset_eq_imp_distinct_iff, rule mset_eq_setD)
  with assms show ?thesis
    by (auto simp: device_ledger_inv_def set_shrink_busy)
qed

lemma offered_not_busy: "card_offered (DeviceLedger_available l) a \<Longrightarrow> alloc_key a \<notin> set (busy l)"
  by (auto simp: card_offered_def list_ex_iff DeviceLedger_available_def dev_key_def alloc_key_def)

lemma validate_device_assignment_distinct:
  "validate_device_assignment requests alloc = Inr u \<Longrightarrow> distinct (map alloc_key alloc)"
  by (auto simp: validate_device_assignment_def result_simps validate_allocations_ok)

lemma device_reserve_inv:
  assumes "device_ledger_inv l" "DeviceLedger_reserve i q l = (x, l')"
  shows "device_ledger_inv l'"
proof (cases "l' = l")
  case False
  obtain requests alloc where q: "q = (requests, alloc)" by (cases q)
  have v: "validate_device_assignment requests alloc = Inr ()" and new: "map_of (held l) i = None"
    and free: "\<forall>a \<in> set alloc. card_offered (DeviceLedger_available l) a"
    and l': "l' = l\<lparr>busy := extend_busy alloc (busy l), held := om_put i alloc (held l)\<rparr>"
    using assms(2) False q
    by (auto simp: DeviceLedger_reserve_def Let_def list_ex_iff split: sum.splits option.splits if_splits)
  show ?thesis
    unfolding l' using assms(1) v new free
    by (intro device_ledger_inv_add) (auto dest: offered_not_busy validate_device_assignment_distinct)
qed (use assms in simp)

lemma device_release_inv:
  "device_ledger_inv l \<Longrightarrow> DeviceLedger_release i l = (x, l') \<Longrightarrow> device_ledger_inv l'"
  by (auto simp: DeviceLedger_release_def device_ledger_inv_release split: option.splits)

lemma device_restore_inv:
  "device_ledger_inv l \<Longrightarrow> DeviceLedger_restore i alloc l = (x, l') \<Longrightarrow> device_ledger_inv l'"
  by (auto simp: DeviceLedger_restore_def list_ex_iff validate_allocations_ok
      intro!: device_ledger_inv_add split: sum.splits option.splits if_splits)

lemma device_update_inv:
  "device_ledger_inv l \<Longrightarrow> DeviceLedger_update ds l = (x, l') \<Longrightarrow> device_ledger_inv l'"
  by (auto simp: DeviceLedger_update_def device_ledger_inv_def split: sum.splits)

lemma device_ledger_inv_default: "device_ledger_inv DeviceLedger_default"
  by (simp add: device_ledger_inv_def DeviceLedger_default_def held_keys_def validate_inventory_def)

interpretation cards: reservation_ledger
  "\<lambda>l. map_of (held l)" device_ledger_inv snd
  DeviceLedger_reserve DeviceLedger_release DeviceLedger_restore
proof unfold_locales
  show "device_ledger_inv s \<Longrightarrow> DeviceLedger_reserve i q s = (r, t) \<Longrightarrow> device_ledger_inv t" for s i q r t
    by (rule device_reserve_inv)
  show "device_ledger_inv s \<Longrightarrow> DeviceLedger_release i s = (r, t) \<Longrightarrow> device_ledger_inv t" for s i r t
    by (rule device_release_inv)
  show "device_ledger_inv s \<Longrightarrow> DeviceLedger_restore i h s = (r, t) \<Longrightarrow> device_ledger_inv t" for s i h r t
    by (rule device_restore_inv)
qed (auto simp: device_ledger_op_defs Let_def split: sum.splits option.splits if_splits prod.splits)

inductive device_ledger_reach :: "device_ledger \<Rightarrow> bool" where
  dreach_new: "device_ledger_reach DeviceLedger_default"
| dreach_update: "device_ledger_reach l \<Longrightarrow> device_ledger_reach (snd (DeviceLedger_update ds l))"
| dreach_reserve: "device_ledger_reach l \<Longrightarrow> device_ledger_reach (snd (DeviceLedger_reserve i q l))"
| dreach_release: "device_ledger_reach l \<Longrightarrow> device_ledger_reach (snd (DeviceLedger_release i l))"
| dreach_restore: "device_ledger_reach l \<Longrightarrow> device_ledger_reach (snd (DeviceLedger_restore i a l))"

lemma device_ledger_reach_inv: "device_ledger_reach l \<Longrightarrow> device_ledger_inv l"
proof (induction rule: device_ledger_reach.induct)
  case (dreach_update l ds)
  then show ?case by (metis device_update_inv prod.collapse)
next
  case (dreach_reserve l i q)
  then show ?case by (metis device_reserve_inv prod.collapse)
next
  case (dreach_release l i)
  then show ?case by (metis device_release_inv prod.collapse)
next
  case (dreach_restore l i a)
  then show ?case by (metis device_restore_inv prod.collapse)
qed (rule device_ledger_inv_default)

lemma held_keys_disjoint:
  assumes "distinct (held_keys m)" "(i, a) \<in> set m" "(j, b) \<in> set m" "i \<noteq> j"
  shows "alloc_key ` set a \<inter> alloc_key ` set b = {}"
  using assms
proof (induction m)
  case (Cons e m)
  have "alloc_key ` set c \<subseteq> set (held_keys m)" if "(k, c) \<in> set m" for k c
    using that by (force simp: held_keys_def)
  with Cons show ?case
    by (auto simp: held_keys_def) blast+
qed simp

text \<open>
  C4. In every reachable ledger a physical card belongs to at most one identity, and the cards
  offered as available are healthy inventory cards that no identity holds, whatever inventory
  refreshes happened in between.
\<close>

theorem cards_are_exclusive:
  assumes "device_ledger_reach l"
  shows "(\<forall>i j a b. map_of (held l) i = Some a \<and> map_of (held l) j = Some b \<and> i \<noteq> j
            \<longrightarrow> alloc_key ` set a \<inter> alloc_key ` set b = {})
       \<and> (\<forall>d \<in> set (DeviceLedger_available l). healthy d \<and> d \<in> set (inventory l)
            \<and> (\<forall>i a. map_of (held l) i = Some a \<longrightarrow> dev_key d \<notin> alloc_key ` set a))"
proof -
  have inv: "device_ledger_inv l" by (rule device_ledger_reach_inv [OF assms])
  have "alloc_key ` set a \<subseteq> set (busy l)" if "map_of (held l) i = Some a" for i a
    using inv map_of_SomeD [OF that] by (force simp: device_ledger_inv_def held_keys_def)
  moreover have "alloc_key ` set a \<inter> alloc_key ` set b = {}"
    if "map_of (held l) i = Some a" "map_of (held l) j = Some b" "i \<noteq> j" for i j a b
    using held_keys_disjoint inv that map_of_SomeD unfolding device_ledger_inv_def by metis
  ultimately show ?thesis
    by (auto simp: DeviceLedger_available_def) blast+
qed

definition card_ledger :: device_ledger where
  "card_ledger = snd (DeviceLedger_reserve ''x''
     ([\<lparr>req_kind = Gpu, req_model = Some ''b'', req_count = 1\<rparr>], [alloc_of (two_gpus ! 1)])
     (snd (DeviceLedger_update two_gpus DeviceLedger_default)))"

theorem cards_are_exclusive_witness:
  "map_of (held card_ledger) ''x'' = Some [alloc_of (two_gpus ! 1)]
   \<and> DeviceLedger_available card_ledger = [two_gpus ! 0]
   \<and> dev_key (two_gpus ! 0) \<notin> alloc_key ` set [alloc_of (two_gpus ! 1)]"
proof -
  have "device_ledger_reach card_ledger"
    unfolding card_ledger_def by (intro dreach_reserve dreach_update dreach_new)
  moreover have "map_of (held card_ledger) ''x'' = Some [alloc_of (two_gpus ! 1)]"
    "DeviceLedger_available card_ledger = [two_gpus ! 0]"
    by code_simp+
  ultimately show ?thesis
    using cards_are_exclusive [of card_ledger] by (metis list.set_intros(1))
qed

end
