(* ===== verification/Tenant_Queue.thy ===== *)
theory Tenant_Queue
  imports Environment "HOL-Library.Multiset"
begin

text \<open>
  The scheduling queue of one shard (\<^verbatim>\<open>platform/coordinator/src/queue.rs\<close>): a round robin over the
  tenants with waiting requests, and within one tenant a map ordered by priority and ticket.

  \<open>Reverse\<close> of a priority is its negation, which reverses the order. The wall clock is an argument.
  A failed \<open>expect\<close> and an underflow of the length counter are panics of the model.
\<close>

section \<open>State and operations\<close>

record entry =
  en_sequence :: u64
  en_time :: u64
  en_spec :: environment_spec

definition Entry_new :: "u64 \<Rightarrow> u64 \<Rightarrow> environment_spec \<Rightarrow> entry" where
  "Entry_new millis sequence spec = \<lparr>en_sequence = sequence, en_time = millis, en_spec = spec\<rparr>"

type_synonym ticket = "int \<times> u64"

definition entry_key :: "entry \<Rightarrow> ticket" where
  "entry_key e = (- spec_priority (en_spec e), en_sequence e)"

abbreviation entry_tenant :: "entry \<Rightarrow> string" where
  "entry_tenant e \<equiv> spec_tenant_id (en_spec e)"

record tenant_queue =
  tq_tenants :: "string list"
  tq_queues :: "(string, (ticket, entry) omap) omap"
  tq_len :: nat
  tq_sequence :: u64

definition TenantQueue_default :: tenant_queue where
  "TenantQueue_default = \<lparr>tq_tenants = [], tq_queues = [], tq_len = 0, tq_sequence = 0\<rparr>"

definition tenant_entries :: "tenant_queue \<Rightarrow> string \<Rightarrow> (ticket, entry) omap" where
  "tenant_entries q t = (case map_of (tq_queues q) t of None \<Rightarrow> [] | Some m \<Rightarrow> m)"

definition Queue_restore :: "entry \<Rightarrow> (tenant_queue, unit) op" where
  "Queue_restore e q =
     (case rust_add (en_sequence e) 1 of
        Inl err \<Rightarrow> (Inl err, q)
      | Inr next \<Rightarrow>
          let t = entry_tenant e in
          (Inr (),
           q\<lparr>tq_sequence := max (tq_sequence q) next,
             tq_tenants := (if om_has t (tq_queues q) then tq_tenants q else tq_tenants q @ [t]),
             tq_queues := om_put t (om_put (entry_key e) e (tenant_entries q t)) (tq_queues q),
             tq_len := tq_len q + 1\<rparr>))"

definition Queue_push :: "u64 \<Rightarrow> environment_spec \<Rightarrow> (tenant_queue, unit) op" where
  "Queue_push millis request q =
     (case checked_add (tq_sequence q) 1 of
        None \<Rightarrow> (Inl (Panic ''queue sequence exhausted''), q)
      | Some next \<Rightarrow>
          Queue_restore (Entry_new millis (tq_sequence q) request) (q\<lparr>tq_sequence := next\<rparr>))"

fun remove_loop ::
  "string \<Rightarrow> nat \<Rightarrow> (string, (ticket, entry) omap) omap
     \<Rightarrow> (nat \<times> (string, (ticket, entry) omap) omap) result" where
  "remove_loop i n [] = Inr (n, [])"
| "remove_loop i n ((t, m) # rest) =
     (let m' = filter (\<lambda>(_, e). spec_id (en_spec e) \<noteq> i) m in
      bindE (usize_sub n (length m - length m')) (\<lambda>n'.
      bindE (remove_loop i n' rest) (\<lambda>(n'', rest'). Inr (n'', (t, m') # rest'))))"

definition Queue_remove :: "string \<Rightarrow> (tenant_queue, unit) op" where
  "Queue_remove i q =
     (case remove_loop i (tq_len q) (tq_queues q) of
        Inl err \<Rightarrow> (Inl err, q)
      | Inr (n, queues) \<Rightarrow>
          let left = filter (\<lambda>(_, m). m \<noteq> []) queues in
          (Inr (), q\<lparr>tq_len := n, tq_queues := left,
                     tq_tenants := filter (\<lambda>t. om_has t left) (tq_tenants q)\<rparr>))"

definition Queue_is_empty :: "tenant_queue \<Rightarrow> bool" where
  "Queue_is_empty q \<longleftrightarrow> tq_len q = 0"

definition Queue_pop_entry :: "(tenant_queue, entry option) op" where
  "Queue_pop_entry q =
     (case tq_tenants q of
        [] \<Rightarrow> (Inr None, q)
      | t # tenants \<Rightarrow>
          (case map_of (tq_queues q) t of
             None \<Rightarrow> (Inl (Panic ''tenant queue exists''), q)
           | Some [] \<Rightarrow> (Inl (Panic ''nonempty tenant queue''), q)
           | Some ((_, e) # rest) \<Rightarrow>
               (case usize_sub (tq_len q) 1 of
                  Inl err \<Rightarrow> (Inl err, q)
                | Inr n \<Rightarrow>
                    (Inr (Some e),
                     q\<lparr>tq_queues := (if rest = [] then om_del t (tq_queues q) else om_put t rest (tq_queues q)),
                       tq_tenants := (if rest = [] then tenants else tenants @ [t]),
                       tq_len := n\<rparr>))))"

definition Queue_pop :: "(tenant_queue, environment_spec option) op" where
  "Queue_pop q = (case Queue_pop_entry q of (r, q') \<Rightarrow> (map_sum id (map_option en_spec) r, q'))"

definition Queue_entries :: "tenant_queue \<Rightarrow> entry list" where
  "Queue_entries q = concat (map (\<lambda>(_, m). map snd m) (tq_queues q))"

section \<open>Invariant\<close>

definition subqueue_ok :: "u64 \<Rightarrow> string \<Rightarrow> (ticket, entry) omap \<Rightarrow> bool" where
  "subqueue_ok s t m \<longleftrightarrow>
     om_wf m \<and> m \<noteq> []
     \<and> (\<forall>(k, e) \<in> set m. k = entry_key e \<and> entry_tenant e = t \<and> en_sequence e < s)"

definition queue_inv :: "tenant_queue \<Rightarrow> bool" where
  "queue_inv q \<longleftrightarrow>
     om_wf (tq_queues q) \<and> (\<forall>(t, m) \<in> set (tq_queues q). subqueue_ok (tq_sequence q) t m)
     \<and> distinct (tq_tenants q) \<and> set (tq_tenants q) = fst ` set (tq_queues q)
     \<and> tq_len q = length (Queue_entries q)"

lemma queue_inv_default: "queue_inv TenantQueue_default"
  by (simp add: queue_inv_def TenantQueue_default_def Queue_entries_def)

lemma subqueue_mono: "subqueue_ok s t m \<Longrightarrow> s \<le> s' \<Longrightarrow> subqueue_ok s' t m"
  unfolding subqueue_ok_def by (auto intro: order.strict_trans2)

text \<open>The entries after replacing the queue of one tenant.\<close>

definition flat :: "(string, (ticket, entry) omap) omap \<Rightarrow> entry multiset" where
  "flat qs = sum_list (map (\<lambda>(_, m). mset (map snd m)) qs)"

lemma flat_laws:
  "t \<notin> fst ` set qs \<Longrightarrow> flat (om_put t m qs) = mset (map snd m) + flat qs"
  "om_wf qs \<Longrightarrow> map_of qs t = Some m' \<Longrightarrow> flat qs = mset (map snd m') + flat (om_del t qs)"
  "om_wf qs \<Longrightarrow> map_of qs t = Some m' \<Longrightarrow>
     flat (om_put t m qs) + mset (map snd m') = mset (map snd m) + flat qs"
  unfolding flat_def
  using sum_om_put_absent [of t qs "\<lambda>(_, m). mset (map snd m)" m, unfolded prod.case]
    sum_om_del_present [of qs t m' "\<lambda>(_, m). mset (map snd m)", unfolded prod.case]
    sum_om_put_present [of qs t m' "\<lambda>(_, m). mset (map snd m)" m, unfolded prod.case]
  by blast+

lemma sum_list_mset_single: "sum_list (map (\<lambda>(_, x). {#x#}) m) = mset (map snd m)"
  by (induction m) auto

lemma entries_flat: "mset (Queue_entries q) = flat (tq_queues q)"
  by (simp add: Queue_entries_def flat_def mset_concat comp_def case_prod_unfold)

lemma tenant_entries_ok:
  assumes "queue_inv q" "map_of (tq_queues q) t = Some m"
  shows "subqueue_ok (tq_sequence q) t m"
  using assms by (auto simp: queue_inv_def om_wf_map_of)

lemma len_flat: "queue_inv q \<Longrightarrow> tq_len q = size (flat (tq_queues q))"
  by (simp add: queue_inv_def flip: entries_flat)

lemma queue_invI:
  assumes "om_wf (tq_queues q)" "\<And>t m. map_of (tq_queues q) t = Some m \<Longrightarrow> subqueue_ok (tq_sequence q) t m"
    and "distinct (tq_tenants q)" "set (tq_tenants q) = fst ` set (tq_queues q)"
    and "tq_len q = size (flat (tq_queues q))"
  shows "queue_inv q"
proof -
  have "tq_len q = length (Queue_entries q)" using assms(5) by (simp flip: entries_flat)
  with assms show ?thesis by (auto simp: queue_inv_def om_wf_map_of)
qed

section \<open>Every operation keeps the invariant and loses no request\<close>

lemma subqueue_put:
  assumes "m = [] \<or> subqueue_ok s t m" "entry_tenant e = t" "en_sequence e < s" "om_wf m"
  shows "subqueue_ok s t (om_put (entry_key e) e m)"
proof -
  have "om_put (entry_key e) e m \<noteq> []" by (cases m) auto
  moreover have "\<forall>(k, x) \<in> set m. k = entry_key x \<and> entry_tenant x = t \<and> en_sequence x < s"
    using assms(1) by (auto simp: subqueue_ok_def)
  ultimately show ?thesis
    using set_om_put_subset [of "entry_key e" e m] assms(2-4) unfolding subqueue_ok_def by fastforce
qed

lemma restore_ok:
  assumes "queue_inv q" "unat (en_sequence e) + 1 < 2 ^ 64"
    and "entry_key e \<notin> fst ` set (tenant_entries q (entry_tenant e))"
  obtains q' where "Queue_restore e q = (Inr (), q')" "queue_inv q'"
    and "mset (Queue_entries q') = add_mset e (mset (Queue_entries q))"
    and "tq_tenants q' =
           (if entry_tenant e \<in> set (tq_tenants q) then tq_tenants q else tq_tenants q @ [entry_tenant e])"
    and "tq_sequence q' = max (tq_sequence q) (en_sequence e + 1)"
proof -
  let ?t = "entry_tenant e" and ?m = "tenant_entries q (entry_tenant e)"
  have "unat (en_sequence e) + unat (1 :: u64) < 2 ^ LENGTH(64)" using assms(2) by simp
  note succ = rust_add_ok [OF this]
  let ?s = "max (tq_sequence q) (en_sequence e + 1)"
  define q' where "q' = q\<lparr>tq_sequence := ?s,
    tq_tenants := (if om_has ?t (tq_queues q) then tq_tenants q else tq_tenants q @ [?t]),
    tq_queues := om_put ?t (om_put (entry_key e) e ?m) (tq_queues q), tq_len := tq_len q + 1\<rparr>"
  have wf: "om_wf (tq_queues q)" and tenants: "set (tq_tenants q) = fst ` set (tq_queues q)"
    "distinct (tq_tenants q)" using assms(1) by (simp_all add: queue_inv_def)
  have "en_sequence e < en_sequence e + 1" using succ(2) by (simp add: word_less_nat_alt)
  then have lt: "en_sequence e < ?s" by (simp add: less_max_iff_disj)
  have old: "?m = [] \<or> subqueue_ok (tq_sequence q) ?t ?m"
    using tenant_entries_ok [OF assms(1), of ?t] by (simp add: tenant_entries_def split: option.splits)
  then have m: "?m = [] \<or> subqueue_ok ?s ?t ?m" "om_wf ?m"
    using subqueue_mono [of "tq_sequence q" ?t ?m ?s] by (auto simp: subqueue_ok_def)
  have flat: "flat (tq_queues q') = add_mset e (flat (tq_queues q))"
  proof (cases "map_of (tq_queues q) ?t")
    case None
    then have "?t \<notin> fst ` set (tq_queues q)" by (simp add: map_of_eq_None_iff)
    with None show ?thesis by (simp add: q'_def tenant_entries_def flat_laws(1))
  next
    case (Some m)
    then have "mset (map snd (om_put (entry_key e) e m)) = add_mset e (mset (map snd m))"
      using assms(3) sum_om_put_absent [of "entry_key e" m "\<lambda>(_, x). {#x#}" e]
      by (simp add: tenant_entries_def sum_list_mset_single)
    with flat_laws(3) [OF wf Some, of "om_put (entry_key e) e m"] Some show ?thesis
      by (simp add: q'_def tenant_entries_def)
  qed
  have "queue_inv q'"
  proof (rule queue_invI)
    show "tq_len q' = size (flat (tq_queues q'))" unfolding flat using len_flat [OF assms(1)] by (simp add: q'_def)
    show "subqueue_ok (tq_sequence q') t x" if "map_of (tq_queues q') t = Some x" for t x
    proof (cases "t = ?t")
      case True
      with that have "x = om_put (entry_key e) e ?m" by (simp add: q'_def)
      then show ?thesis using subqueue_put [OF m(1) refl lt m(2)] True by (simp add: q'_def)
    next
      case False
      with that have "map_of (tq_queues q) t = Some x" by (simp add: q'_def)
      from subqueue_mono [OF tenant_entries_ok [OF assms(1) this], of ?s] show ?thesis by (simp add: q'_def)
    qed
  qed (use wf tenants in \<open>auto simp: q'_def\<close>)
  moreover have "Queue_restore e q = (Inr (), q')" by (simp add: Queue_restore_def succ(1) q'_def Let_def)
  ultimately show thesis using that flat tenants by (simp add: entries_flat q'_def)
qed

lemma fresh_ticket:
  assumes "queue_inv q" "tq_sequence q \<le> en_sequence e"
  shows "entry_key e \<notin> fst ` set (tenant_entries q (entry_tenant e))"
proof
  assume "entry_key e \<in> fst ` set (tenant_entries q (entry_tenant e))"
  then obtain m x where m: "map_of (tq_queues q) (entry_tenant e) = Some m" "(entry_key e, x) \<in> set m"
    by (cases "map_of (tq_queues q) (entry_tenant e)") (auto simp: tenant_entries_def)
  then have "entry_key e = entry_key x" "en_sequence x < tq_sequence q"
    using tenant_entries_ok [OF assms(1) m(1)] by (auto simp: subqueue_ok_def)
  with assms(2) show False by (simp add: entry_key_def)
qed

lemma push_ok:
  assumes "queue_inv q" "unat (tq_sequence q) + 1 < 2 ^ 64"
  obtains q' where "Queue_push ms r q = (Inr (), q')" "queue_inv q'"
    and "mset (Queue_entries q') = add_mset (Entry_new ms (tq_sequence q) r) (mset (Queue_entries q))"
    and "tq_tenants q' =
           (if spec_tenant_id r \<in> set (tq_tenants q) then tq_tenants q else tq_tenants q @ [spec_tenant_id r])"
    and "tq_sequence q' = tq_sequence q + 1"
proof -
  let ?e = "Entry_new ms (tq_sequence q) r" and ?q = "q\<lparr>tq_sequence := tq_sequence q + 1\<rparr>"
  have lt: "tq_sequence q < tq_sequence q + 1"
    using assms(2) rust_add_ok(2) [of "tq_sequence q" 1] by (simp add: word_less_nat_alt)
  have inv: "queue_inv ?q"
    by (rule queue_invI)
       (use assms(1) len_flat [OF assms(1)] tenant_entries_ok [OF assms(1)] lt in
         \<open>auto simp: queue_inv_def intro: subqueue_mono [OF _ less_imp_le]\<close>)
  have fresh: "entry_key ?e \<notin> fst ` set (tenant_entries ?q (entry_tenant ?e))"
    using fresh_ticket [OF assms(1), of ?e] by (simp add: tenant_entries_def Entry_new_def)
  obtain q' where q': "Queue_restore ?e ?q = (Inr (), q')" "queue_inv q'"
    "mset (Queue_entries q') = add_mset ?e (mset (Queue_entries ?q))"
    "tq_tenants q' = (if entry_tenant ?e \<in> set (tq_tenants ?q) then tq_tenants ?q else tq_tenants ?q @ [entry_tenant ?e])"
    "tq_sequence q' = max (tq_sequence ?q) (en_sequence ?e + 1)"
    using restore_ok [OF inv _ fresh] assms(2) by (auto simp: Entry_new_def)
  show thesis
    by (rule that [of q']) (use q' assms(2) in
      \<open>simp_all add: Queue_push_def checked_add_nat Entry_new_def Queue_entries_def\<close>)
qed

lemma pop_ok:
  assumes "queue_inv q" "tq_tenants q = t # ts"
  obtains e rest q' where "map_of (tq_queues q) t = Some ((entry_key e, e) # rest)"
    and "Queue_pop_entry q = (Inr (Some e), q')" "queue_inv q'" "entry_tenant e = t"
    and "mset (Queue_entries q) = add_mset e (mset (Queue_entries q'))"
    and "tq_tenants q' = (if rest = [] then ts else ts @ [t])" "tq_sequence q' = tq_sequence q"
proof -
  have wf: "om_wf (tq_queues q)" and tenants: "set (tq_tenants q) = fst ` set (tq_queues q)" "distinct (tq_tenants q)"
    using assms(1) by (simp_all add: queue_inv_def)
  then obtain m where m: "map_of (tq_queues q) t = Some m"
    using assms(2) by (metis list.set_intros(1) map_of_eq_None_iff not_Some_eq)
  note ok = tenant_entries_ok [OF assms(1) m]
  then obtain e rest where er: "m = (entry_key e, e) # rest" "entry_tenant e = t"
    by (cases m) (auto simp: subqueue_ok_def)
  let ?qs = "if rest = [] then om_del t (tq_queues q) else om_put t rest (tq_queues q)"
  define q' where "q' = q\<lparr>tq_queues := ?qs, tq_tenants := (if rest = [] then ts else ts @ [t]),
    tq_len := tq_len q - 1\<rparr>"
  have flat: "flat (tq_queues q) = add_mset e (flat ?qs)"
    using flat_laws(2) [OF wf m] flat_laws(3) [OF wf m, of rest] by (auto simp: er(1))
  then have len: "1 \<le> tq_len q" using len_flat [OF assms(1)] by simp
  have "subqueue_ok (tq_sequence q) t rest" if "rest \<noteq> []"
    using ok that by (auto simp: er(1) subqueue_ok_def om_wf_def)
  then have "queue_inv q'"
    by (intro queue_invI)
       (use wf tenants assms(2) len_flat [OF assms(1)] flat tenant_entries_ok [OF assms(1)] in
         \<open>auto simp: q'_def split: if_splits\<close>)
  moreover have "Queue_pop_entry q = (Inr (Some e), q')"
    using assms(2) m len by (simp add: Queue_pop_entry_def er(1) usize_sub_def q'_def)
  ultimately show thesis
    using that [of e rest q'] m er flat by (simp add: entries_flat q'_def)
qed

abbreviation other :: "string \<Rightarrow> entry \<Rightarrow> bool" where
  "other i e \<equiv> spec_id (en_spec e) \<noteq> i"

abbreviation listed :: "(string, (ticket, entry) omap) omap \<Rightarrow> entry list" where
  "listed qs \<equiv> concat (map (\<lambda>(_, m). map snd m) qs)"

lemma remove_loop_ok:
  assumes "length (listed qs) \<le> n"
  shows "remove_loop i n qs =
     Inr (n - length (listed qs) + length (filter (other i) (listed qs)),
          map (\<lambda>(t, m). (t, filter (\<lambda>(_, e). other i e) m)) qs)"
  using assms
proof (induction qs arbitrary: n)
  case (Cons x qs)
  obtain t m where x: "x = (t, m)" by (cases x)
  let ?kept = "length (filter (\<lambda>(_, e). other i e) m)"
  have kept: "length (filter (other i) (map snd m)) = ?kept" "?kept \<le> length m"
    by (simp_all add: filter_map comp_def case_prod_unfold)
  have "length (listed qs) \<le> n - (length m - ?kept)" "length m - ?kept \<le> n"
    using Cons.prems by (simp_all add: x)
  with Cons.IH [of "n - (length m - ?kept)"] Cons.prems kept x show ?case
    by (simp add: usize_sub_def Let_def)
qed simp

lemma remove_ok:
  assumes "queue_inv q"
  obtains q' where "Queue_remove i q = (Inr (), q')" "queue_inv q'"
    and "Queue_entries q' = filter (other i) (Queue_entries q)" "tq_sequence q' = tq_sequence q"
proof -
  let ?f = "\<lambda>(t, m). (t, filter (\<lambda>(_, e). other i e) m)"
  let ?left = "filter (\<lambda>(_, m). m \<noteq> []) (map ?f (tq_queues q))"
  define q' where "q' = q\<lparr>tq_len := length (filter (other i) (Queue_entries q)), tq_queues := ?left,
    tq_tenants := filter (\<lambda>t. om_has t ?left) (tq_tenants q)\<rparr>"
  have loop: "remove_loop i (tq_len q) (tq_queues q)
      = Inr (length (filter (other i) (Queue_entries q)), map ?f (tq_queues q))"
    using remove_loop_ok [of "tq_queues q" "tq_len q" i] assms by (simp add: queue_inv_def Queue_entries_def)
  have wf: "om_wf (tq_queues q)" and ok: "\<forall>(t, m) \<in> set (tq_queues q). subqueue_ok (tq_sequence q) t m"
    and tenants: "set (tq_tenants q) = fst ` set (tq_queues q)" "distinct (tq_tenants q)"
    using assms by (simp_all add: queue_inv_def)
  have "listed (filter (\<lambda>(_, m). m \<noteq> []) (map ?f qs)) = filter (other i) (listed qs)" for qs
    by (induction qs) (auto simp: filter_map comp_def case_prod_unfold)
  then have entries: "Queue_entries q' = filter (other i) (Queue_entries q)"
    by (simp add: Queue_entries_def q'_def)
  have "map fst (map ?f (tq_queues q)) = map fst (tq_queues q)" by (simp add: comp_def case_prod_unfold)
  then have "om_wf (map ?f (tq_queues q))" using wf by (simp only: om_wf_def)
  then have wf': "om_wf ?left" by (rule om_wf_filter)
  have "subqueue_ok (tq_sequence q) t (filter (\<lambda>(_, e). other i e) m)"
    if "(t, m) \<in> set (tq_queues q)" "filter (\<lambda>(_, e). other i e) m \<noteq> []" for t m
  proof -
    have m: "subqueue_ok (tq_sequence q) t m" using ok that(1) by auto
    then have "om_wf (filter (\<lambda>(_, e). other i e) m)" by (simp add: subqueue_ok_def om_wf_filter)
    with m that(2) show ?thesis unfolding subqueue_ok_def by auto
  qed
  then have ok': "\<forall>(t, m) \<in> set ?left. subqueue_ok (tq_sequence q) t m" by auto
  have "fst ` set ?left \<subseteq> fst ` set (tq_queues q)" by force
  then have "set (filter (\<lambda>t. om_has t ?left) (tq_tenants q)) = fst ` set ?left"
    unfolding set_filter tenants(1) om_has_iff by blast
  then have "queue_inv q'"
    unfolding queue_inv_def entries using wf' ok' tenants(2) by (simp add: q'_def)
  moreover have "Queue_remove i q = (Inr (), q')" by (simp add: Queue_remove_def loop q'_def Let_def)
  ultimately show thesis using that entries by (simp add: q'_def)
qed

section \<open>Properties\<close>

inductive queue_reach :: "tenant_queue \<Rightarrow> bool" where
  qreach_default: "queue_reach TenantQueue_default"
| qreach_push: "queue_reach q \<Longrightarrow> Queue_push ms r q = (Inr (), q') \<Longrightarrow> queue_reach q'"
| qreach_remove: "queue_reach q \<Longrightarrow> Queue_remove i q = (res, q') \<Longrightarrow> queue_reach q'"
| qreach_pop: "queue_reach q \<Longrightarrow> Queue_pop_entry q = (res, q') \<Longrightarrow> queue_reach q'"

lemma pop_empty: "tq_tenants q = [] \<Longrightarrow> Queue_pop_entry q = (Inr None, q)"
  by (simp add: Queue_pop_entry_def)

lemma push_room: "Queue_push ms r q = (Inr (), q') \<Longrightarrow> unat (tq_sequence q) + 1 < 2 ^ 64"
  by (auto simp: Queue_push_def checked_add_nat split: option.splits if_splits)

lemma queue_reach_inv: "queue_reach q \<Longrightarrow> queue_inv q"
proof (induction rule: queue_reach.induct)
  case (qreach_push q ms r q')
  then show ?case using push_ok [OF _ push_room] by (metis prod.inject)
next
  case (qreach_remove q i res q')
  then show ?case using remove_ok by (metis prod.inject)
next
  case (qreach_pop q res q')
  then show ?case using pop_ok pop_empty by (cases "tq_tenants q") (metis prod.inject)+
qed (rule queue_inv_default)

lemma no_tenants: "queue_inv q \<Longrightarrow> tq_tenants q = [] \<Longrightarrow> Queue_entries q = []"
  by (auto simp: queue_inv_def Queue_entries_def)

text \<open>Within one tenant the head of the map is the most urgent ticket.\<close>

lemma head_ticket:
  assumes "queue_inv q" "map_of (tq_queues q) t = Some ((entry_key e, e) # rest)"
    and "x \<in> set (Queue_entries q)" "entry_tenant x = t"
  shows "x = e \<or> entry_key e < entry_key x"
proof -
  obtain u m k where m: "(u, m) \<in> set (tq_queues q)" "(k, x) \<in> set m"
    using assms(3) by (auto simp: Queue_entries_def)
  have u: "map_of (tq_queues q) u = Some m" using m(1) assms(1) by (simp add: queue_inv_def om_wf_map_of)
  then have "k = entry_key x" "u = t"
    using tenant_entries_ok [OF assms(1) u] m(2) assms(4) by (auto simp: subqueue_ok_def)
  then show ?thesis
    using tenant_entries_ok [OF assms(1,2)] m(2) u assms(2)
    by (fastforce simp: subqueue_ok_def om_wf_Cons)
qed

text \<open>
  C20. A pop serves the tenant whose turn it is, and of that tenant the request with the highest
  priority, the earliest ticket among equals. It never panics, removes exactly that request and
  returns nothing only when nothing waits, in every state reachable by pushing, popping and removing.
\<close>

theorem pop_serves_best_ticket:
  assumes "queue_reach q"
  shows "case tq_tenants q of
           [] \<Rightarrow> Queue_pop_entry q = (Inr None, q) \<and> Queue_entries q = []
         | t # ts \<Rightarrow>
             \<exists>e q'. Queue_pop_entry q = (Inr (Some e), q') \<and> spec_tenant_id (en_spec e) = t
               \<and> mset (Queue_entries q) = add_mset e (mset (Queue_entries q'))
               \<and> (\<forall>x \<in> set (Queue_entries q'). spec_tenant_id (en_spec x) = t \<longrightarrow>
                    spec_priority (en_spec x) < spec_priority (en_spec e)
                    \<or> spec_priority (en_spec x) = spec_priority (en_spec e) \<and> en_sequence e \<le> en_sequence x)"
proof (cases "tq_tenants q")
  case Nil
  then show ?thesis using queue_reach_inv [OF assms] pop_empty no_tenants by simp
next
  case (Cons t ts)
  note inv = queue_reach_inv [OF assms]
  from pop_ok [OF inv Cons] obtain e rest q' where pop: "map_of (tq_queues q) t = Some ((entry_key e, e) # rest)"
    "Queue_pop_entry q = (Inr (Some e), q')" "entry_tenant e = t"
    "mset (Queue_entries q) = add_mset e (mset (Queue_entries q'))" by metis
  have "spec_priority (en_spec x) < spec_priority (en_spec e)
      \<or> spec_priority (en_spec x) = spec_priority (en_spec e) \<and> en_sequence e \<le> en_sequence x"
    if "x \<in> set (Queue_entries q')" "entry_tenant x = t" for x
  proof -
    have "x \<in># mset (Queue_entries q)" unfolding pop(4) using that(1) by simp
    then have "x = e \<or> entry_key e < entry_key x" using head_ticket [OF inv pop(1) _ that(2)] by simp
    then show ?thesis by (auto simp: entry_key_def less_prod_def)
  qed
  with pop Cons show ?thesis by auto
qed

definition tagged :: "string \<Rightarrow> int \<Rightarrow> string \<Rightarrow> environment_spec" where
  "tagged tenant priority i = plain_spec\<lparr>spec_id := i, spec_tenant_id := tenant, spec_priority := priority\<rparr>"

text \<open>Three requests of two tenants; the last one is the most urgent of its tenant.\<close>

definition three_waiting :: tenant_queue where
  "three_waiting =
     snd (Queue_push 7 (tagged ''a'' 5 ''a2'') (snd (Queue_push 6 (tagged ''b'' 0 ''b1'')
       (snd (Queue_push 5 (tagged ''a'' 1 ''a1'') TenantQueue_default)))))"

lemma three_waiting_reach: "queue_reach three_waiting"
proof -
  have "fst (Queue_push 5 (tagged ''a'' 1 ''a1'') TenantQueue_default) = Inr ()
    \<and> fst (Queue_push 6 (tagged ''b'' 0 ''b1'') (snd (Queue_push 5 (tagged ''a'' 1 ''a1'') TenantQueue_default))) = Inr ()
    \<and> fst (Queue_push 7 (tagged ''a'' 5 ''a2'') (snd (Queue_push 6 (tagged ''b'' 0 ''b1'')
         (snd (Queue_push 5 (tagged ''a'' 1 ''a1'') TenantQueue_default))))) = Inr ()"
    by code_simp
  then show ?thesis
    unfolding three_waiting_def by (metis prod.collapse qreach_default qreach_push)
qed

lemma three_waiting_state:
  "tq_tenants three_waiting = [''a'', ''b'']"
  "fst (Queue_pop_entry three_waiting) = Inr (Some (Entry_new 7 2 (tagged ''a'' 5 ''a2'')))"
  by code_simp+

theorem pop_serves_best_ticket_witness:
  "\<exists>e q'. Queue_pop_entry three_waiting = (Inr (Some e), q') \<and> spec_id (en_spec e) = ''a2''
     \<and> spec_tenant_id (en_spec e) = ''a''
     \<and> mset (Queue_entries three_waiting) = add_mset e (mset (Queue_entries q'))"
proof -
  from pop_serves_best_ticket [OF three_waiting_reach] obtain e q' where
    e: "Queue_pop_entry three_waiting = (Inr (Some e), q')" "spec_tenant_id (en_spec e) = ''a''"
      "mset (Queue_entries three_waiting) = add_mset e (mset (Queue_entries q'))"
    by (auto simp: three_waiting_state(1))
  with three_waiting_state(2) have "spec_id (en_spec e) = ''a2''" by (simp add: Entry_new_def tagged_def)
  with e show ?thesis by blast
qed

section \<open>Fairness\<close>

text \<open>A run of arrivals (\<open>Some\<close>) and pops (\<open>None\<close>): the requests served, in order.\<close>

fun run_queue :: "(u64 \<times> environment_spec) option list \<Rightarrow> tenant_queue \<Rightarrow> (entry list \<times> tenant_queue) result" where
  "run_queue [] q = Inr ([], q)"
| "run_queue (Some (ms, r) # evs) q =
     (case Queue_push ms r q of (Inl err, _) \<Rightarrow> Inl err | (Inr _, q') \<Rightarrow> run_queue evs q')"
| "run_queue (None # evs) q =
     (case Queue_pop_entry q of
        (Inl err, _) \<Rightarrow> Inl err
      | (Inr None, q') \<Rightarrow> run_queue evs q'
      | (Inr (Some e), q') \<Rightarrow> bindE (run_queue evs q') (\<lambda>(served, q''). Inr (e # served, q'')))"

abbreviation pops :: "(u64 \<times> environment_spec) option list \<Rightarrow> nat" where
  "pops evs \<equiv> length (filter (\<lambda>ev. ev = None) evs)"

lemma run_queue_total:
  assumes "queue_inv q" "unat (tq_sequence q) + length evs < 2 ^ 64"
  shows "\<exists>served q'. run_queue evs q = Inr (served, q')"
  using assms
proof (induction evs q rule: run_queue.induct)
  case (2 ms r evs q)
  then have room: "unat (tq_sequence q) + 1 < 2 ^ 64" by simp
  from push_ok [OF "2.prems"(1) room, of ms r] obtain q' where
    q': "Queue_push ms r q = (Inr (), q')" "queue_inv q'" "tq_sequence q' = tq_sequence q + 1" by metis
  have "unat (tq_sequence q + 1) = unat (tq_sequence q) + 1"
    using rust_add_ok(2) [of "tq_sequence q" 1] room by simp
  with "2.IH" [OF q'(1) [symmetric] refl q'(2)] "2.prems"(2) q' show ?case by simp
next
  case (3 evs q)
  show ?case
  proof (cases "tq_tenants q")
    case Nil
    then show ?thesis using "3.IH"(1) "3.prems" pop_empty by simp
  next
    case (Cons t ts)
    from pop_ok [OF "3.prems"(1) Cons] obtain e q' where
      "Queue_pop_entry q = (Inr (Some e), q')" "queue_inv q'" "tq_sequence q' = tq_sequence q" by metis
    with "3.IH"(2) "3.prems"(2) show ?thesis by fastforce
  qed
qed simp

text \<open>
  The tenant at position \<open>k\<close> of the rotation is served by one of the next \<open>k + 1\<close> pops, whatever
  arrives in between.
\<close>

lemma served_in_turn:
  assumes "queue_inv q" "k < length (tq_tenants q)" "run_queue evs q = Inr (served, q')" "k < pops evs"
  shows "\<exists>j \<le> k. j < length served \<and> entry_tenant (served ! j) = tq_tenants q ! k"
  using assms
proof (induction evs q arbitrary: k served rule: run_queue.induct)
  case (2 ms r evs q)
  from "2.prems"(3) obtain p where push: "Queue_push ms r q = (Inr (), p)" "run_queue evs p = Inr (served, q')"
    by (auto split: prod.splits sum.splits)
  from push_ok [OF "2.prems"(1) push_room [OF push(1)], of ms r] push(1) have
    p: "queue_inv p" "tq_tenants p = (if spec_tenant_id r \<in> set (tq_tenants q) then tq_tenants q
                                      else tq_tenants q @ [spec_tenant_id r])" by (metis prod.inject)+
  have k: "k < length (tq_tenants p)" "tq_tenants p ! k = tq_tenants q ! k"
    using "2.prems"(2) by (simp_all add: p(2) nth_append)
  from "2.IH" [OF push(1) [symmetric] refl p(1) k(1) push(2)] "2.prems"(4) k(2) show ?case by simp
next
  case (3 evs q)
  obtain t ts where t: "tq_tenants q = t # ts" using "3.prems"(2) by (cases "tq_tenants q") auto
  obtain e p where pop: "Queue_pop_entry q = (Inr (Some e), p)" "queue_inv p" "entry_tenant e = t"
    "tq_tenants p = ts \<or> tq_tenants p = ts @ [t]"
    by (rule pop_ok [OF "3.prems"(1) t]) metis
  then obtain more where more: "served = e # more" "run_queue evs p = Inr (more, q')"
    using "3.prems"(3) by (auto simp: bindE_eq_Inr)
  show ?case
  proof (cases k)
    case 0
    then show ?thesis using more(1) pop(3) t by auto
  next
    case (Suc i)
    then have i: "i < length (tq_tenants p)" "tq_tenants p ! i = tq_tenants q ! k" "i < pops evs"
      using "3.prems"(2,4) t pop(4) by (auto simp: nth_append)
    from "3.IH"(2) [OF pop(1) [symmetric] refl refl pop(2) i(1) more(2) i(3)] obtain j where
      "j \<le> i" "j < length more" "entry_tenant (more ! j) = tq_tenants q ! k" unfolding i(2) by blast
    then show ?thesis using Suc more(1) by (intro exI [of _ "Suc j"]) simp
  qed
qed simp

text \<open>
  C21. No tenant starves. From any reachable queue, whatever sequence of arrivals and pops follows
  (while fewer than \<open>2 ^ 64\<close> tickets are given out), every operation succeeds, and a tenant with
  waiting work that is at position \<open>k\<close> of the rotation is served by one of the next \<open>k + 1\<close> pops:
  the wait is bounded by the number of tenants and independent of how much the others submit.
\<close>

theorem waiting_tenant_is_served:
  assumes "queue_reach q" "k < length (tq_tenants q)" "unat (tq_sequence q) + length evs < 2 ^ 64" "k < pops evs"
  shows "\<exists>served q'. run_queue evs q = Inr (served, q')
           \<and> (\<exists>j \<le> k. j < length served \<and> spec_tenant_id (en_spec (served ! j)) = tq_tenants q ! k)"
proof -
  note inv = queue_reach_inv [OF assms(1)]
  from run_queue_total [OF inv assms(3)] obtain served q' where run: "run_queue evs q = Inr (served, q')" by blast
  from served_in_turn [OF inv assms(2) run assms(4)] run show ?thesis by blast
qed

text \<open>Tenant \<open>b\<close> is served by the second pop although urgent requests of tenant \<open>a\<close> keep arriving.\<close>

theorem waiting_tenant_is_served_witness:
  "\<exists>served q'. run_queue [Some (8, tagged ''a'' 9 ''a3''), None, Some (9, tagged ''a'' 9 ''a4''), None] three_waiting
       = Inr (served, q')
     \<and> (\<exists>j \<le> 1. j < length served \<and> spec_tenant_id (en_spec (served ! j)) = ''b'')"
proof -
  have "tq_sequence three_waiting = 3" by code_simp
  with waiting_tenant_is_served [OF three_waiting_reach, of 1
    "[Some (8, tagged ''a'' 9 ''a3''), None, Some (9, tagged ''a'' 9 ''a4''), None]"]
  show ?thesis by (simp add: three_waiting_state(1))
qed

end
