(* ===== verification/Mutation_Journal.thy ===== *)
theory Mutation_Journal
  imports Core_Error
begin

text \<open>
  The bounded journal of changed nodes (\<^verbatim>\<open>platform/coordinator/src/journal.rs\<close>): a sequence number
  and the last \<open>capacity\<close> changes. Readers keep a cursor and ask which nodes changed since. The
  specification is the unbounded history of all changes.
\<close>

record journal =
  mj_sequence :: u64
  mj_capacity :: nat
  mj_entries :: "(u64 \<times> string) list"

definition MutationJournal_new :: "nat \<Rightarrow> journal" where
  "MutationJournal_new cap = \<lparr>mj_sequence = 0, mj_capacity = cap, mj_entries = []\<rparr>"

definition Journal_record :: "string \<Rightarrow> (journal, unit) op" where
  "Journal_record node j =
     (case rust_add (mj_sequence j) 1 of
        Inl err \<Rightarrow> (Inl err, j)
      | Inr s \<Rightarrow>
          let es = mj_entries j @ [(s, node)] in
          (Inr (), j\<lparr>mj_sequence := s, mj_entries := (if length es > mj_capacity j then tl es else es)\<rparr>))"

definition Journal_since :: "journal \<Rightarrow> u64 \<Rightarrow> string oset option result" where
  "Journal_since j s =
     (if s = mj_sequence j then Inr (Some [])
      else if s > mj_sequence j then Inr None
      else case mj_entries j of
        [] \<Rightarrow> Inr None
      | (first, _) # _ \<Rightarrow>
          bindE (rust_sub first 1) (\<lambda>before.
          if s < before then Inr None
          else
            bindE (rust_sub (mj_sequence j) s) (\<lambda>n.
            bindE (usize_sub (length (mj_entries j)) (unat n)) (\<lambda>k.
            Inr (Some (os_of_list (map snd (drop k (mj_entries j)))))))))"

section \<open>The journal represents the recent part of the history\<close>

definition numbered :: "string list \<Rightarrow> (u64 \<times> string) list" where
  "numbered h = map (\<lambda>i. (of_nat (i + 1), h ! i)) [0..<length h]"

definition journal_of :: "nat \<Rightarrow> string list \<Rightarrow> journal" where
  "journal_of cap h =
     \<lparr>mj_sequence = of_nat (length h), mj_capacity = cap,
      mj_entries = drop (length h - cap) (numbered h)\<rparr>"

fun record_all :: "string list \<Rightarrow> (journal, unit) op" where
  "record_all [] j = (Inr (), j)"
| "record_all (n # ns) j =
     (case Journal_record n j of (Inl err, j') \<Rightarrow> (Inl err, j') | (Inr _, j') \<Rightarrow> record_all ns j')"

lemma length_numbered [simp]: "length (numbered h) = length h"
  by (simp add: numbered_def)

lemma numbered_snoc: "numbered (h @ [n]) = numbered h @ [(of_nat (length h + 1), n)]"
  by (simp add: numbered_def nth_append)

lemma map_snd_numbered: "map snd (drop k (numbered h)) = drop k h"
  by (simp add: numbered_def drop_map map_nth comp_def flip: drop_map)

lemma unat_u64: "n < 2 ^ 64 \<Longrightarrow> unat (of_nat n :: u64) = n"
  by (simp add: unat_of_nat take_bit_nat_eq_self)

lemma journal_of_Nil: "journal_of cap [] = MutationJournal_new cap"
  by (simp add: journal_of_def MutationJournal_new_def numbered_def)

lemma record_step:
  assumes "length h + 1 < 2 ^ 64"
  shows "Journal_record n (journal_of cap h) = (Inr (), journal_of cap (h @ [n]))"
proof -
  have len: "unat (of_nat (length h) :: u64) = length h" using assms by (simp add: unat_u64)
  have "unat (of_nat (length h) :: u64) + unat (1 :: u64) < 2 ^ LENGTH(64)" using assms len by simp
  note add = rust_add_ok [OF this]
  have s: "(of_nat (length h) + 1 :: u64) = of_nat (length h + 1)" by simp
  show ?thesis
  proof (cases "length h < cap")
    case True
    then show ?thesis
      using add(1) by (simp add: Journal_record_def journal_of_def numbered_snoc Let_def add.commute)
  next
    case False
    then have "length h + 1 - cap = Suc (length h - cap)" by simp
    then have "tl (drop (length h - cap) (numbered h @ [(of_nat (length h + 1), n)]))
        = drop (length h + 1 - cap) (numbered h @ [(of_nat (length h + 1), n)])"
      by (simp only: drop_Suc tl_drop)
    with False add(1) show ?thesis
      by (simp add: Journal_record_def journal_of_def numbered_snoc Let_def s)
  qed
qed

lemma record_all_ok:
  "length h + length ns < 2 ^ 64 \<Longrightarrow> record_all ns (journal_of cap h) = (Inr (), journal_of cap (h @ ns))"
proof (induction ns arbitrary: h)
  case (Cons n ns)
  then show ?case using record_step [of h n cap] Cons.IH [of "h @ [n]"] by simp
qed simp

lemma since_journal_of:
  assumes "length h < 2 ^ 64"
  shows "Journal_since (journal_of cap h) s =
     Inr (if unat s \<le> length h \<and> length h - unat s \<le> cap then Some (os_of_list (drop (unat s) h)) else None)"
proof -
  let ?n = "length h" and ?es = "drop (length h - cap) (numbered h)"
  have len: "unat (of_nat ?n :: u64) = ?n" using assms by (rule unat_u64)
  consider (now) "unat s = ?n" | (future) "?n < unat s" | (past) "unat s < ?n" by linarith
  then show ?thesis
  proof cases
    case now
    then have "s = of_nat ?n" using len by (metis word_unat_eq_iff)
    then show ?thesis using now by (simp add: Journal_since_def journal_of_def os_of_list_def)
  next
    case future
    then have "s > of_nat ?n" "s \<noteq> of_nat ?n" using len by (auto simp: word_less_nat_alt)
    then show ?thesis using future by (simp add: Journal_since_def journal_of_def)
  next
    case past
    then have lt: "s < of_nat ?n" "s \<noteq> of_nat ?n" "\<not> s > of_nat ?n"
      using len by (auto simp: word_less_nat_alt)
    show ?thesis
    proof (cases "cap = 0")
      case True
      then show ?thesis using past lt by (simp add: Journal_since_def journal_of_def)
    next
      case False
      have "?n - cap < ?n" using past False by simp
      then have "?es ! 0 = (of_nat (?n - cap + 1), h ! (?n - cap))" "?es \<noteq> []"
        by (simp_all add: numbered_def)
      then obtain name rest where es: "?es = (of_nat (?n - cap + 1), name) # rest" by (cases ?es) auto
      have first: "unat (of_nat (?n - cap + 1) :: u64) = ?n - cap + 1"
        using assms past False by (intro unat_u64) linarith
      have one: "1 \<le> (of_nat (?n - cap + 1) :: u64)" unfolding word_le_nat_alt first by simp
      note before = rust_sub_ok [OF one]
      have "s \<le> of_nat ?n" using lt(1) by simp
      note ago = rust_sub_ok [OF this]
      have old: "s < of_nat (?n - cap + 1) - 1 \<longleftrightarrow> \<not> ?n - unat s \<le> cap"
        unfolding word_less_nat_alt before(2) first using past by auto
      have k: "drop (length ?es - (?n - unat s)) ?es = drop (unat s) (numbered h)" if "?n - unat s \<le> cap"
        using that past by (simp add: min_def)
      have "Journal_since (journal_of cap h) s =
          (if s < of_nat (?n - cap + 1) - 1 then Inr None
           else bindE (usize_sub (length ?es) (?n - unat s)) (\<lambda>k. Inr (Some (os_of_list (map snd (drop k ?es))))))"
        using lt before(1) ago es unfolding Journal_since_def journal_of_def by (simp add: len)
      also have "\<dots> = Inr (if ?n - unat s \<le> cap then Some (os_of_list (drop (unat s) h)) else None)"
        unfolding old using past k by (auto simp: usize_sub_def map_snd_numbered)
      finally show ?thesis using past by simp
    qed
  qed
qed

text \<open>
  C22. The bounded journal implements the unbounded history. After recording any sequence of fewer
  than \<open>2 ^ 64\<close> node names in a new journal, \<open>since\<close> answers every cursor: with exactly the nodes
  recorded after it when that many changes are still kept, with a request to rebuild when more
  changes were made than the capacity or the cursor lies in the future. It never panics.
\<close>

theorem journal_since_refines_history:
  assumes "length h < 2 ^ 64"
  shows "\<exists>j. record_all h (MutationJournal_new cap) = (Inr (), j)
           \<and> (\<forall>s. Journal_since j s =
                Inr (if unat s \<le> length h \<and> length h - unat s \<le> cap
                     then Some (os_of_list (drop (unat s) h)) else None))"
  using record_all_ok [of "[]" h cap] since_journal_of [OF assms] assms by (simp add: journal_of_Nil)

theorem journal_since_refines_history_witness:
  "\<exists>j. record_all [''a'', ''b'', ''b'', ''c'', ''d''] (MutationJournal_new 3) = (Inr (), j)
     \<and> Journal_since j 1 = Inr None \<and> Journal_since j 2 = Inr (Some [''b'', ''c'', ''d''])
     \<and> Journal_since j 5 = Inr (Some []) \<and> Journal_since j 6 = Inr None"
proof -
  obtain j where j: "record_all [''a'', ''b'', ''b'', ''c'', ''d''] (MutationJournal_new 3) = (Inr (), j)"
    "\<forall>s. Journal_since j s =
       Inr (if unat s \<le> length [''a'', ''b'', ''b'', ''c'', ''d''] \<and> length [''a'', ''b'', ''b'', ''c'', ''d''] - unat s \<le> 3
            then Some (os_of_list (drop (unat s) [''a'', ''b'', ''b'', ''c'', ''d''])) else None)"
    using journal_since_refines_history [of "[''a'', ''b'', ''b'', ''c'', ''d'']" 3] by auto
  then show ?thesis by (simp add: os_of_list_def less_list_code)
qed

end
