(* ===== verification/Shard_Scheduler.thy ===== *)
theory Shard_Scheduler
  imports Placement_Framework Device_Ledger Tenant_Queue Mutation_Journal
begin

text \<open>
  One scheduling shard (\<^verbatim>\<open>platform/coordinator/src/shard.rs\<close>): the ledgers of its nodes, the queue
  and the deferred queue, the assignments it made, the nodes excluded per request and the cache of
  ranked candidates, composed of the components of the theories it imports.

  \<^item> \<open>now\<close> is the instant at which requests are validated.
  \<^item> \<open>Reverse\<close> of a score is its negation as an integer, which reverses the order.
  \<^item> The statistics counters wrap; nothing reads them.
  \<^item> The eviction loop of the cache does not end when the order list is empty while the cache is
    full; that outcome is a \<open>Panic\<close> of the model.
\<close>

section \<open>State\<close>

record node_state =
  ns_node :: node
  ns_scalar :: resource_ledger
  ns_devices :: device_ledger
  ns_free :: "device list"

type_synonym signature = "string \<times> string \<times> u64 \<times> u64"

definition signature_of :: "environment_spec \<Rightarrow> signature" where
  "signature_of r =
     (spec_image r, spec_runtime_class r, cpu_millis (spec_resources r), memory_bytes (spec_resources r))"

record candidates =
  ca_cursor :: u64
  ca_ranked :: "(int \<times> string) oset"
  ca_scores :: "(string, u64) omap"

definition Candidates_default :: candidates where
  "Candidates_default = \<lparr>ca_cursor = 0, ca_ranked = [], ca_scores = []\<rparr>"

definition rank :: "string \<Rightarrow> u64 \<Rightarrow> int \<times> string" where
  "rank i score = (- uint score, i)"

definition Candidates_update :: "string \<Rightarrow> u64 option \<Rightarrow> candidates \<Rightarrow> candidates" where
  "Candidates_update i score c =
     (let c1 = (case map_of (ca_scores c) i of
                  None \<Rightarrow> c
                | Some old \<Rightarrow> c\<lparr>ca_scores := om_del i (ca_scores c), ca_ranked := os_remove (rank i old) (ca_ranked c)\<rparr>)
      in case score of
           None \<Rightarrow> c1
         | Some v \<Rightarrow> c1\<lparr>ca_scores := om_put i v (ca_scores c1), ca_ranked := os_insert (rank i v) (ca_ranked c1)\<rparr>)"

record scheduling_stats =
  candidate_evaluations :: u64
  cache_hits :: u64
  cache_builds :: u64
  journal_rebuilds :: u64
  reconciled_nodes :: u64
  query_preparations :: u64
  attempts :: u64

definition SchedulingStats_default :: scheduling_stats where
  "SchedulingStats_default =
     \<lparr>candidate_evaluations = 0, cache_hits = 0, cache_builds = 0, journal_rebuilds = 0, reconciled_nodes = 0,
      query_preparations = 0, attempts = 0\<rparr>"

datatype attempt = Assigned assignment environment_spec | Deferred entry | Empty

record shard =
  sh_nodes :: "(string, node_state) omap"
  sh_queue :: tenant_queue
  sh_deferred :: tenant_queue
  sh_deferred_arrivals :: bool
  sh_sequence :: u64
  sh_assigned :: "(string, assignment) omap"
  sh_framework :: framework
  sh_cache :: "(signature, candidates) omap"
  sh_cache_order :: "signature list"
  sh_excluded :: "(string, string oset) omap"
  sh_stats :: scheduling_stats

record volume_placement =
  vp_storage_domains :: "string oset"
  vp_nodes :: "string oset"
  vp_waiting_for :: "string option"

definition VolumePlacement_allows :: "volume_placement \<Rightarrow> string \<Rightarrow> bool" where
  "VolumePlacement_allows p i \<longleftrightarrow> vp_waiting_for p = None \<and> i \<in> set (vp_nodes p)"

text \<open>The duration limit is in nanoseconds.\<close>

record scheduler_config =
  max_attempts :: nat
  max_duration :: nat
  candidate_cache_entries :: nat
  mutation_history :: nat

definition SchedulerConfig_default :: scheduler_config where
  "SchedulerConfig_default =
     \<lparr>max_attempts = 256, max_duration = 10000000, candidate_cache_entries = 32, mutation_history = 65536\<rparr>"

section \<open>Construction, nodes and lookups\<close>

definition Shard_new :: "framework \<Rightarrow> shard" where
  "Shard_new fw =
     \<lparr>sh_nodes = [], sh_queue = TenantQueue_default, sh_deferred = TenantQueue_default,
      sh_deferred_arrivals = False, sh_sequence = 0, sh_assigned = [], sh_framework = fw, sh_cache = [],
      sh_cache_order = [], sh_excluded = [], sh_stats = SchedulingStats_default\<rparr>"

definition Shard_reconsider_node :: "string \<Rightarrow> shard \<Rightarrow> shard" where
  "Shard_reconsider_node i s = s\<lparr>sh_excluded := map (\<lambda>(r, nodes). (r, os_remove i nodes)) (sh_excluded s)\<rparr>"

definition Shard_forget_node :: "string \<Rightarrow> (shard, unit) op" where
  "Shard_forget_node i s =
     (if list_ex (\<lambda>(_, a). as_node_id a = i) (sh_assigned s) then (Inl Conflict, s)
      else (Inr (), s\<lparr>sh_nodes := om_del i (sh_nodes s), sh_cache := [], sh_cache_order := [],
                      sh_excluded := map (\<lambda>(r, nodes). (r, os_remove i nodes)) (sh_excluded s)\<rparr>))"

definition Shard_node_count :: "shard \<Rightarrow> nat" where
  "Shard_node_count s = length (sh_nodes s)"

definition Shard_node_resources :: "string \<Rightarrow> shard \<Rightarrow> (resources \<times> resources) option" where
  "Shard_node_resources i s =
     map_option (\<lambda>st. (capacity (ns_scalar st), available (ns_scalar st))) (map_of (sh_nodes s) i)"

definition Shard_node_devices :: "string \<Rightarrow> shard \<Rightarrow> (device list \<times> device list) option" where
  "Shard_node_devices i s = map_option (\<lambda>st. (inventory (ns_devices st), ns_free st)) (map_of (sh_nodes s) i)"

definition Shard_assignment :: "string \<Rightarrow> shard \<Rightarrow> assignment option" where
  "Shard_assignment i s = map_of (sh_assigned s) i"

definition Shard_register :: "node \<Rightarrow> (shard, unit) op" where
  "Shard_register n s =
     (case Node_validate n of
        Inl e \<Rightarrow> (Inl e, s)
      | Inr _ \<Rightarrow>
          (case map_of (sh_nodes s) (node_id n) of
             Some st \<Rightarrow>
               (case DeviceLedger_update (node_devices n) (ns_devices st) of
                  (Inl e, _) \<Rightarrow> (Inl e, s)
                | (Inr _, d) \<Rightarrow>
                    (Inr (), s\<lparr>sh_nodes := om_put (node_id n)
                       \<lparr>ns_node = n, ns_scalar = set_capacity (node_capacity n) (ns_scalar st), ns_devices = d,
                        ns_free = DeviceLedger_available d\<rparr> (sh_nodes s)\<rparr>))
           | None \<Rightarrow>
               (case DeviceLedger_update (node_devices n) DeviceLedger_default of
                  (Inl e, _) \<Rightarrow> (Inl e, s)
                | (Inr _, d) \<Rightarrow>
                    (Inr (), s\<lparr>sh_nodes := om_put (node_id n)
                       \<lparr>ns_node = n, ns_scalar = ResourceLedger_new (node_capacity n), ns_devices = d,
                        ns_free = DeviceLedger_available d\<rparr> (sh_nodes s)\<rparr>))))"

definition Shard_restore :: "environment_spec \<Rightarrow> assignment \<Rightarrow> (shard, unit) op" where
  "Shard_restore r a s =
     (if om_has (spec_id r) (sh_assigned s) then (Inl Conflict, s)
      else case map_of (sh_nodes s) (as_node_id a) of
        None \<Rightarrow> (Inl NotFound, s)
      | Some st \<Rightarrow>
          (case ResourceLedger_restore (spec_id r) (spec_resources r) (ns_scalar st) of
             (Inl e, _) \<Rightarrow> (Inl e, s)
           | (Inr _, scalar) \<Rightarrow>
               (case DeviceLedger_restore (spec_id r) (as_devices a) (ns_devices st) of
                  (Inl e, _) \<Rightarrow> (Inl e, s)
                | (Inr _, devices) \<Rightarrow>
                    (Inr (), s\<lparr>sh_nodes := om_put (as_node_id a)
                                 (st\<lparr>ns_scalar := scalar, ns_devices := devices,
                                     ns_free := DeviceLedger_available devices\<rparr>) (sh_nodes s),
                               sh_assigned := om_put (spec_id r) a (sh_assigned s)\<rparr>))))"

section \<open>Queues\<close>

abbreviation on_queue :: "(tenant_queue, 'a) op \<Rightarrow> (shard, 'a) op" where
  "on_queue \<equiv> zoom sh_queue (\<lambda>q s. s\<lparr>sh_queue := q\<rparr>)"

abbreviation on_deferred :: "(tenant_queue, 'a) op \<Rightarrow> (shard, 'a) op" where
  "on_deferred \<equiv> zoom sh_deferred (\<lambda>q s. s\<lparr>sh_deferred := q\<rparr>)"

definition Shard_forget_queued :: "string \<Rightarrow> (shard, unit) op" where
  "Shard_forget_queued i =
     bindS (on_queue (Queue_remove i)) (\<lambda>_.
     bindS (on_deferred (Queue_remove i)) (\<lambda>_ s.
     (Inr (), s\<lparr>sh_excluded := om_del i (sh_excluded s)\<rparr>)))"

definition Shard_pending :: "shard \<Rightarrow> nat" where
  "Shard_pending s = tq_len (sh_queue s) + tq_len (sh_deferred s)"

definition Shard_remaining_sweep :: "shard \<Rightarrow> bool" where
  "Shard_remaining_sweep s \<longleftrightarrow> \<not> Queue_is_empty (sh_queue s)"

definition Shard_has_deferred_arrivals :: "shard \<Rightarrow> bool" where
  "Shard_has_deferred_arrivals s = sh_deferred_arrivals s"

definition Shard_begin_round :: "shard \<Rightarrow> shard" where
  "Shard_begin_round s =
     (if Queue_is_empty (sh_queue s)
      then s\<lparr>sh_queue := sh_deferred s, sh_deferred := sh_queue s, sh_deferred_arrivals := False\<rparr>
      else s)"

definition next_ticket :: "(shard, unit) op" where
  "next_ticket s =
     (case checked_add (sh_sequence s) 1 of
        None \<Rightarrow> (Inl (Panic ''queue sequence exhausted''), s)
      | Some n \<Rightarrow> (Inr (), s\<lparr>sh_sequence := n\<rparr>))"

definition Shard_enqueue_entry :: "entry \<Rightarrow> (shard, unit) op" where
  "Shard_enqueue_entry e s =
     (let s1 = Shard_begin_round s; ticket = e\<lparr>en_sequence := sh_sequence s1\<rparr> in
      if Queue_is_empty (sh_deferred s1)
      then bindS (on_queue (Queue_restore ticket)) (\<lambda>_. next_ticket) s1
      else bindS (on_deferred (Queue_restore ticket)) (\<lambda>_. next_ticket) (s1\<lparr>sh_deferred_arrivals := True\<rparr>))"

definition Shard_enqueue :: "u64 \<Rightarrow> environment_spec \<Rightarrow> (shard, unit) op" where
  "Shard_enqueue millis r = Shard_enqueue_entry (Entry_new millis 0 r)"

definition Shard_pending_requests :: "shard \<Rightarrow> entry list" where
  "Shard_pending_requests s = Queue_entries (sh_queue s) @ Queue_entries (sh_deferred s)"

definition Shard_defer :: "entry \<Rightarrow> (shard, unit) op" where
  "Shard_defer e = on_deferred (Queue_restore e)"

definition Shard_exclusions :: "string \<Rightarrow> shard \<Rightarrow> string oset" where
  "Shard_exclusions i s = (case map_of (sh_excluded s) i of None \<Rightarrow> [] | Some nodes \<Rightarrow> nodes)"

definition Shard_accept_transfer :: "entry \<Rightarrow> string oset \<Rightarrow> (shard, unit) op" where
  "Shard_accept_transfer e excluded s =
     Shard_enqueue_entry e
       (if excluded \<noteq> [] then s\<lparr>sh_excluded := om_put (spec_id (en_spec e)) excluded (sh_excluded s)\<rparr> else s)"

section \<open>Choosing a node\<close>

definition state_candidate :: "node_state \<Rightarrow> cluster \<Rightarrow> prepared \<Rightarrow> candidate" where
  "state_candidate st cl q =
     \<lparr>cand_node = ns_node st, cand_available = available (ns_scalar st), cand_devices = ns_free st,
      cand_snapshot = cl, cand_prepared = Some q\<rparr>"

definition Shard_local_candidate ::
  "int \<Rightarrow> environment_spec \<Rightarrow> string \<Rightarrow> device_allocation list \<Rightarrow> cluster \<Rightarrow> shard \<Rightarrow> bool result" where
  "Shard_local_candidate now r i devices cl s =
     (case map_of (sh_nodes s) i of
        None \<Rightarrow> Inr False
      | Some st \<Rightarrow>
          bindE (Prepared_new r cl) (\<lambda>q.
          bindE (Framework_allows now (sh_framework s) r (state_candidate st cl q)) (\<lambda>ok.
          if \<not> ok then Inr False
          else case fst (DeviceLedger_reserve (spec_id r) (sp_devices (spec_scheduling r), devices) (ns_devices st)) of
            Inr _ \<Rightarrow> Inr True
          | Inl e \<Rightarrow> if e = NoCapacity then Inr False else Inl e)))"

definition max_resources :: "resources \<Rightarrow> resources \<Rightarrow> resources" where
  "max_resources a b =
     \<lparr>cpu_millis = max (cpu_millis a) (cpu_millis b), memory_bytes = max (memory_bytes a) (memory_bytes b),
      disk_bytes = max (disk_bytes a) (disk_bytes b)\<rparr>"

definition count_reason :: "string \<Rightarrow> (string, u64) omap \<Rightarrow> (string, u64) omap" where
  "count_reason reason m = om_put reason ((case map_of m reason of None \<Rightarrow> 0 | Some n \<Rightarrow> n) + 1) m"

definition volume_reasons :: "volume_placement option \<Rightarrow> string \<Rightarrow> string list" where
  "volume_reasons placement i =
     (case placement of
        None \<Rightarrow> []
      | Some p \<Rightarrow>
          if vp_waiting_for p \<noteq> None then [''waiting_for_volume'']
          else if i \<notin> set (vp_nodes p) then [''volume_topology''] else [])"

fun diagnose_loop ::
  "int \<Rightarrow> framework \<Rightarrow> environment_spec \<Rightarrow> cluster \<Rightarrow> prepared \<Rightarrow> volume_placement option
     \<Rightarrow> node_state list \<Rightarrow> scheduling_failure \<Rightarrow> scheduling_failure result" where
  "diagnose_loop now fw r cl q placement [] f = Inr f"
| "diagnose_loop now fw r cl q placement (st # sts) f =
     (let f1 = f\<lparr>sf_node_count := sf_node_count f + 1,
                 sf_max_capacity := max_resources (sf_max_capacity f) (capacity (ns_scalar st)),
                 sf_max_available := max_resources (sf_max_available f) (available (ns_scalar st))\<rparr> in
      bindE (Framework_rejections now fw r (state_candidate st cl q)) (\<lambda>rejected.
      let reasons = rejected @ volume_reasons placement (node_id (ns_node st));
          f2 = (if reasons = [] then f1\<lparr>sf_eligible_nodes := sf_eligible_nodes f1 + 1\<rparr> else f1)
      in diagnose_loop now fw r cl q placement sts
           (f2\<lparr>sf_rejections := fold count_reason reasons (sf_rejections f2)\<rparr>)))"

definition Shard_diagnose ::
  "int \<Rightarrow> environment_spec \<Rightarrow> cluster \<Rightarrow> volume_placement option \<Rightarrow> shard \<Rightarrow> scheduling_failure
     \<Rightarrow> scheduling_failure result" where
  "Shard_diagnose now r cl placement s f =
     bindE (Prepared_new r cl) (\<lambda>q.
     diagnose_loop now (sh_framework s) r cl q placement (map snd (sh_nodes s)) f)"

definition skipped :: "string oset \<Rightarrow> volume_placement option \<Rightarrow> string \<Rightarrow> bool" where
  "skipped excluded placement i \<longleftrightarrow>
     i \<in> set excluded \<or> is_some_and (\<lambda>p. \<not> VolumePlacement_allows p i) placement"

definition better_score :: "u64 \<Rightarrow> string \<Rightarrow> (u64 \<times> string) option \<Rightarrow> bool" where
  "better_score score i best = is_none_or (\<lambda>(old, j). score > old \<or> score = old \<and> i < j) best"

fun candidate_loop ::
  "(node_state \<Rightarrow> u64 option result) \<Rightarrow> (string \<Rightarrow> bool) \<Rightarrow> node_state list \<Rightarrow> (u64 \<times> string) option
     \<Rightarrow> (scheduling_stats, (u64 \<times> string) option) op" where
  "candidate_loop ev skip [] best stats = (Inr best, stats)"
| "candidate_loop ev skip (st # sts) best stats =
     (let i = node_id (ns_node st) in
      if skip i then candidate_loop ev skip sts best stats
      else
        let stats' = stats\<lparr>candidate_evaluations := candidate_evaluations stats + 1\<rparr> in
        (case ev st of
           Inl e \<Rightarrow> (Inl e, stats')
         | Inr None \<Rightarrow> candidate_loop ev skip sts best stats'
         | Inr (Some score) \<Rightarrow>
             candidate_loop ev skip sts (if better_score score i best then Some (score, i) else best) stats'))"

definition waiting_for_volume :: "volume_placement option \<Rightarrow> bool" where
  "waiting_for_volume placement = is_some_and (\<lambda>p. vp_waiting_for p \<noteq> None) placement"

abbreviation on_stats :: "(scheduling_stats, 'a) op \<Rightarrow> (shard, 'a) op" where
  "on_stats \<equiv> zoom sh_stats (\<lambda>t s. s\<lparr>sh_stats := t\<rparr>)"

definition Shard_best_candidate ::
  "int \<Rightarrow> environment_spec \<Rightarrow> cluster \<Rightarrow> string oset \<Rightarrow> volume_placement option
     \<Rightarrow> (shard, (u64 \<times> string) option) op" where
  "Shard_best_candidate now r cl excluded placement s =
     (if waiting_for_volume placement then (Inr None, s)
      else
        let s1 = s\<lparr>sh_stats := (sh_stats s)\<lparr>query_preparations := query_preparations (sh_stats s) + 1\<rparr>\<rparr> in
        (case Prepared_new r cl of
           Inl e \<Rightarrow> (Inl e, s1)
         | Inr q \<Rightarrow>
             on_stats (candidate_loop (\<lambda>st. Framework_evaluate now (sh_framework s) r (state_candidate st cl q))
                         (skipped excluded placement) (map snd (sh_nodes s)) None) s1))"

definition Prepared_default :: prepared where
  "Prepared_default =
     \<lparr>pq_required = [], pq_anti = [], pq_preferred = [], pq_preferred_anti = [], pq_reverse = [],
      pq_reverse_missing_node = False, pq_groups = [], pq_reverse_group_nodes = [], pq_spread = []\<rparr>"

fun evict ::
  "nat \<Rightarrow> (signature, candidates) omap \<Rightarrow> signature list \<Rightarrow> ((signature, candidates) omap \<times> signature list) result" where
  "evict n cache [] =
     (if length cache < n then Inr (cache, []) else Inl (Panic ''candidate eviction does not end''))"
| "evict n cache (old # order) =
     (if length cache < n then Inr (cache, old # order) else evict n (om_del old cache) order)"

fun reconcile_loop ::
  "(node_state \<Rightarrow> u64 option result) \<Rightarrow> (string, node_state) omap \<Rightarrow> string list
     \<Rightarrow> (scheduling_stats \<times> candidates, unit) op" where
  "reconcile_loop ev nodes [] sc = (Inr (), sc)"
| "reconcile_loop ev nodes (i # ids) sc =
     (case map_of nodes i of
        None \<Rightarrow> reconcile_loop ev nodes ids sc
      | Some st \<Rightarrow>
          (case sc of (stats, c) \<Rightarrow>
           let stats' = stats\<lparr>candidate_evaluations := candidate_evaluations stats + 1,
                              reconciled_nodes := reconciled_nodes stats + 1\<rparr> in
           case ev st of
             Inl e \<Rightarrow> (Inl e, (stats', c))
           | Inr score \<Rightarrow> reconcile_loop ev nodes ids (stats', Candidates_update i score c)))"

definition cache_updates :: "journal \<Rightarrow> signature \<Rightarrow> (shard, string oset option) op" where
  "cache_updates j key s =
     (case map_of (sh_cache s) key of
        None \<Rightarrow> (Inr None, s)
      | Some c \<Rightarrow>
          let s1 = s\<lparr>sh_stats := (sh_stats s)\<lparr>cache_hits := cache_hits (sh_stats s) + 1\<rparr>\<rparr> in
          (case Journal_since j (ca_cursor c) of
             Inl e \<Rightarrow> (Inl e, s1)
           | Inr None \<Rightarrow>
               (Inr None, s1\<lparr>sh_stats := (sh_stats s1)\<lparr>journal_rebuilds := journal_rebuilds (sh_stats s1) + 1\<rparr>\<rparr>)
           | Inr (Some changes) \<Rightarrow> (Inr (Some changes), s1)))"

definition cache_slot :: "nat \<Rightarrow> signature \<Rightarrow> (shard, unit) op" where
  "cache_slot n key s =
     (if om_has key (sh_cache s) then (Inr (), s)
      else case evict n (sh_cache s) (sh_cache_order s) of
        Inl e \<Rightarrow> (Inl e, s)
      | Inr (cache, order) \<Rightarrow>
          (Inr (), s\<lparr>sh_cache := om_put key Candidates_default cache, sh_cache_order := order @ [key]\<rparr>))"

definition cached_for :: "signature \<Rightarrow> shard \<Rightarrow> candidates" where
  "cached_for key s = (case map_of (sh_cache s) key of None \<Rightarrow> Candidates_default | Some c \<Rightarrow> c)"

definition cache_reconcile ::
  "int \<Rightarrow> environment_spec \<Rightarrow> cluster \<Rightarrow> journal \<Rightarrow> string oset option \<Rightarrow> (shard, unit) op" where
  "cache_reconcile now r cl j updates s =
     (let key = signature_of r;
          ev = (\<lambda>st. Framework_evaluate now (sh_framework s) r (state_candidate st cl Prepared_default));
          loop = (case updates of
                    Some ids \<Rightarrow> reconcile_loop ev (sh_nodes s) ids (sh_stats s, cached_for key s)
                  | None \<Rightarrow>
                      reconcile_loop ev (sh_nodes s) (map fst (sh_nodes s))
                        ((sh_stats s)\<lparr>cache_builds := cache_builds (sh_stats s) + 1\<rparr>, Candidates_default))
      in case loop of
           (Inl e, (stats, c)) \<Rightarrow> (Inl e, s\<lparr>sh_stats := stats, sh_cache := om_put key c (sh_cache s)\<rparr>)
         | (Inr _, (stats, c)) \<Rightarrow>
             (Inr (), s\<lparr>sh_stats := stats,
                        sh_cache := om_put key (c\<lparr>ca_cursor := mj_sequence j\<rparr>) (sh_cache s)\<rparr>))"

definition cached_choice :: "environment_spec \<Rightarrow> volume_placement option \<Rightarrow> shard \<Rightarrow> string option" where
  "cached_choice r placement s =
     map_option snd
       (find (\<lambda>(_, i). is_none_or (\<lambda>p. VolumePlacement_allows p i) placement
                       \<and> \<not> is_some_and (\<lambda>ids. i \<in> set ids) (map_of (sh_excluded s) (spec_id r)))
         (ca_ranked (cached_for (signature_of r) s)))"

definition Shard_select ::
  "int \<Rightarrow> environment_spec \<Rightarrow> cluster \<Rightarrow> journal \<Rightarrow> scheduler_config \<Rightarrow> volume_placement option
     \<Rightarrow> (shard, string option) op" where
  "Shard_select now r cl j cfg placement s =
     (if waiting_for_volume placement then (Inr None, s)
      else if candidate_cache_entries cfg = 0 \<or> \<not> supports_aggregation (sh_framework s) r cl
      then bindS (Shard_best_candidate now r cl (Shard_exclusions (spec_id r) s) placement)
             (\<lambda>best. returnS (map_option snd best)) s
      else bindS (cache_updates j (signature_of r)) (\<lambda>updates.
           bindS (cache_slot (candidate_cache_entries cfg) (signature_of r)) (\<lambda>_.
           bindS (cache_reconcile now r cl j updates) (\<lambda>_ s'.
           (Inr (cached_choice r placement s'), s')))) s)"

section \<open>Attempts, retry and release\<close>

definition reserve_node :: "environment_spec \<Rightarrow> (node_state, device_allocation list) op" where
  "reserve_node r st =
     (case select_devices (sp_devices (spec_scheduling r)) (ns_free st) of
        Inl e \<Rightarrow> (Inl e, st)
      | Inr alloc \<Rightarrow>
          (case ResourceLedger_reserve (spec_id r) (spec_resources r) (ns_scalar st) of
             (Inl e, scalar) \<Rightarrow> (Inl e, st\<lparr>ns_scalar := scalar\<rparr>)
           | (Inr _, scalar) \<Rightarrow>
               (case DeviceLedger_reserve (spec_id r) (sp_devices (spec_scheduling r), alloc) (ns_devices st) of
                  (Inl e, devices) \<Rightarrow>
                    (case ResourceLedger_release (spec_id r) scalar of
                       (Inl _, scalar') \<Rightarrow>
                         (Inl (Panic ''just reserved''), st\<lparr>ns_scalar := scalar', ns_devices := devices\<rparr>)
                     | (Inr _, scalar') \<Rightarrow> (Inl e, st\<lparr>ns_scalar := scalar', ns_devices := devices\<rparr>))
                | (Inr _, devices) \<Rightarrow> (Inr alloc, st\<lparr>ns_scalar := scalar, ns_devices := devices\<rparr>))))"

abbreviation refresh_free :: "bool \<Rightarrow> node_state \<Rightarrow> node_state" where
  "refresh_free b st \<equiv> (if b then st\<lparr>ns_free := DeviceLedger_available (ns_devices st)\<rparr> else st)"

definition assign_entry :: "nat \<Rightarrow> u64 \<Rightarrow> entry \<Rightarrow> string \<Rightarrow> (shard, attempt) op" where
  "assign_entry shard_id generation e i s =
     (let r = en_spec e in
      case map_of (sh_nodes s) i of
        None \<Rightarrow> (Inl (Panic ''selected node exists''), s)
      | Some st \<Rightarrow>
          (case reserve_node r st of
             (Inl err, st') \<Rightarrow>
               let s' = s\<lparr>sh_nodes := om_put i st' (sh_nodes s)\<rparr> in
               if is_panic err then (Inl err, s')
               else bindS (on_queue (Queue_restore e)) (\<lambda>_. raiseS err) s'
           | (Inr devices, st') \<Rightarrow>
               let a = \<lparr>as_environment_id = spec_id r, as_node_id = i, as_shard_id = shard_id,
                        as_generation = generation, as_devices = devices\<rparr> in
               (Inr (Assigned a r),
                s\<lparr>sh_nodes := om_put i (refresh_free (devices \<noteq> []) st') (sh_nodes s),
                  sh_assigned := om_put (spec_id r) a (sh_assigned s)\<rparr>)))"

definition Shard_attempt ::
  "int \<Rightarrow> nat \<Rightarrow> u64 \<Rightarrow> cluster \<Rightarrow> journal \<Rightarrow> scheduler_config \<Rightarrow> (string, volume_placement) omap
     \<Rightarrow> (shard, attempt) op" where
  "Shard_attempt now shard_id generation cl j cfg placements =
     bindS (on_queue Queue_pop_entry) (\<lambda>popped s.
     case popped of
       None \<Rightarrow> (Inr Empty, s)
     | Some e \<Rightarrow>
         let s1 = s\<lparr>sh_stats := (sh_stats s)\<lparr>attempts := attempts (sh_stats s) + 1\<rparr>\<rparr> in
         (case Shard_select now (en_spec e) cl j cfg (map_of placements (spec_id (en_spec e))) s1 of
            (Inl err, s2) \<Rightarrow>
              if is_panic err then (Inl err, s2) else bindS (on_queue (Queue_restore e)) (\<lambda>_. raiseS err) s2
          | (Inr None, s2) \<Rightarrow> (Inr (Deferred e), s2)
          | (Inr (Some i), s2) \<Rightarrow> assign_entry shard_id generation e i s2))"

definition Shard_release :: "assignment \<Rightarrow> (shard, unit) op" where
  "Shard_release a s =
     (let i = as_environment_id a in
      if map_of (sh_assigned s) i \<noteq> Some a then (Inl Conflict, s)
      else case map_of (sh_nodes s) (as_node_id a) of
        None \<Rightarrow> (Inl NotFound, s)
      | Some st \<Rightarrow>
          (case ResourceLedger_release i (ns_scalar st) of
             (Inl e, scalar) \<Rightarrow>
               (Inl e, s\<lparr>sh_nodes := om_put (as_node_id a) (st\<lparr>ns_scalar := scalar\<rparr>) (sh_nodes s)\<rparr>)
           | (Inr _, scalar) \<Rightarrow>
               (case DeviceLedger_release i (ns_devices st) of
                  (Inl e, devices) \<Rightarrow>
                    (Inl e, s\<lparr>sh_nodes := om_put (as_node_id a)
                                (st\<lparr>ns_scalar := scalar, ns_devices := devices\<rparr>) (sh_nodes s)\<rparr>)
                | (Inr _, devices) \<Rightarrow>
                    (Inr (), s\<lparr>sh_nodes := om_put (as_node_id a)
                                 (refresh_free (as_devices a \<noteq> []) (st\<lparr>ns_scalar := scalar, ns_devices := devices\<rparr>))
                                 (sh_nodes s),
                               sh_assigned := om_del i (sh_assigned s),
                               sh_excluded := om_del i (sh_excluded s)\<rparr>))))"

definition Shard_retry :: "u64 \<Rightarrow> assignment \<Rightarrow> environment_spec \<Rightarrow> (shard, unit) op" where
  "Shard_retry millis a r s =
     (let excluded = os_insert (as_node_id a) (Shard_exclusions (as_environment_id a) s) in
      bindS (Shard_release a) (\<lambda>_ s1.
      Shard_enqueue millis r
        (s1\<lparr>sh_excluded := om_put (as_environment_id a) excluded (sh_excluded s1)\<rparr>)) s)"

end
