(* ===== verification/Shard_Accounting.thy ===== *)
theory Shard_Accounting
  imports Shard_Scheduler
begin

text \<open>
  The books of one shard: every assigned Environment is charged on the scalar ledger and on the
  card ledger of its node and nothing else is; every waiting request has its own ticket. The
  proofs use both ledgers only through the contract \<open>reservation_ledger\<close>, by its interpretations
  \<open>scalar\<close> and \<open>cards\<close>.
\<close>

section \<open>Ledgers and assignments\<close>

definition node_ok :: "node_state \<Rightarrow> bool" where
  "node_ok st \<longleftrightarrow>
     ledger_inv (ns_scalar st) \<and> device_ledger_inv (ns_devices st)
     \<and> ns_free st = DeviceLedger_available (ns_devices st)"

abbreviation scalar_held :: "node_state \<Rightarrow> string \<Rightarrow> resources option" where
  "scalar_held st \<equiv> map_of (reservations (ns_scalar st))"

abbreviation cards_held :: "node_state \<Rightarrow> string \<Rightarrow> device_allocation list option" where
  "cards_held st \<equiv> map_of (held (ns_devices st))"

text \<open>The assignments to one node.\<close>

definition assigned_on :: "(string, assignment) omap \<Rightarrow> string \<Rightarrow> string \<Rightarrow> assignment option" where
  "assigned_on m n i = (case map_of m i of Some a \<Rightarrow> if as_node_id a = n then Some a else None | None \<Rightarrow> None)"

definition charged :: "(string, assignment) omap \<Rightarrow> string \<Rightarrow> node_state \<Rightarrow> bool" where
  "charged m n st \<longleftrightarrow>
     (\<forall>i. (scalar_held st i = None \<longleftrightarrow> assigned_on m n i = None)
          \<and> cards_held st i = map_option as_devices (assigned_on m n i))"

definition accounts :: "(string, node_state) omap \<Rightarrow> (string, assignment) omap \<Rightarrow> bool" where
  "accounts nodes m \<longleftrightarrow>
     om_wf nodes \<and> keyed (\<lambda>st. node_id (ns_node st)) nodes \<and> om_wf m \<and> keyed as_environment_id m
     \<and> (\<forall>n st. map_of nodes n = Some st \<longrightarrow> node_ok st \<and> charged m n st)
     \<and> (\<forall>i a. map_of m i = Some a \<longrightarrow> map_of nodes (as_node_id a) \<noteq> None)"

lemma accountsD:
  assumes "accounts nodes m" "map_of nodes n = Some st"
  shows "node_ok st" "charged m n st" "node_id (ns_node st) = n"
  using assms by (auto simp: accounts_def dest: keyedD)

lemma assigned_on_put:
  "assigned_on (om_put i a m) n j = (if j = i then (if as_node_id a = n then Some a else None) else assigned_on m n j)"
  by (simp add: assigned_on_def)

lemma assigned_on_del: "assigned_on (om_del i m) n j = (if j = i then None else assigned_on m n j)"
  by (simp add: assigned_on_def)

lemma accounts_empty: "accounts [] []"
  by (simp add: accounts_def)

text \<open>Replacing the state of one node by one with the same holdings.\<close>

lemma accounts_same:
  assumes "accounts nodes m" "map_of nodes n = Some st" "node_ok st'" "node_id (ns_node st') = n"
    and "\<And>i. scalar_held st' i = None \<longleftrightarrow> scalar_held st i = None" "cards_held st' = cards_held st"
  shows "accounts (om_put n st' nodes) m"
proof -
  have "charged m n st'" using accountsD(2) [OF assms(1,2)] assms(5,6) by (simp add: charged_def)
  moreover have "keyed (\<lambda>st. node_id (ns_node st)) (om_put n st' nodes)"
    using keyed_ops(3) [of "\<lambda>st. node_id (ns_node st)" nodes st'] assms(1,4) by (simp add: accounts_def)
  ultimately show ?thesis using assms(1,3) by (simp add: accounts_def)
qed

lemma accounts_new_node:
  assumes "accounts nodes m" "map_of nodes n = None" "node_ok st'" "node_id (ns_node st') = n"
    and "\<And>i. scalar_held st' i = None" "\<And>i. cards_held st' i = None"
  shows "accounts (om_put n st' nodes) m"
proof -
  have "assigned_on m n i = None" for i
  proof (cases "map_of m i")
    case (Some a)
    then have "map_of nodes (as_node_id a) \<noteq> None" using assms(1) unfolding accounts_def by blast
    with Some assms(2) show ?thesis by (auto simp: assigned_on_def)
  qed (simp add: assigned_on_def)
  then have "charged m n st'" using assms(5,6) by (simp add: charged_def)
  moreover have "keyed (\<lambda>st. node_id (ns_node st)) (om_put n st' nodes)"
    using keyed_ops(3) [of "\<lambda>st. node_id (ns_node st)" nodes st'] assms(1,4) by (simp add: accounts_def)
  ultimately show ?thesis using assms(1,3) by (simp add: accounts_def)
qed

text \<open>Charging a new Environment to a node, and releasing one.\<close>

lemma accounts_add:
  assumes "accounts nodes m" "map_of nodes n = Some st" "map_of m i = None"
    and "node_ok st'" "node_id (ns_node st') = n" "as_environment_id a = i" "as_node_id a = n"
    and "scalar_held st' = (scalar_held st)(i \<mapsto> x)" "cards_held st' = (cards_held st)(i \<mapsto> as_devices a)"
  shows "accounts (om_put n st' nodes) (om_put i a m)"
proof -
  have old: "\<And>n st. map_of nodes n = Some st \<Longrightarrow> node_ok st \<and> charged m n st" using accountsD assms(1) by blast
  have here: "charged (om_put i a m) n st'"
    using old [OF assms(2)] assms(7-9) by (auto simp: charged_def assigned_on_put)
  have others: "charged (om_put i a m) k u" if "map_of nodes k = Some u" "k \<noteq> n" for k u
  proof -
    have "assigned_on (om_put i a m) k j = assigned_on m k j" for j
      using that(2) assms(3,7) by (simp add: assigned_on_put assigned_on_def)
    with old [OF that(1)] show ?thesis by (simp add: charged_def)
  qed
  have "keyed (\<lambda>st. node_id (ns_node st)) (om_put n st' nodes)" "keyed as_environment_id (om_put i a m)"
    using keyed_ops(3) [of "\<lambda>st. node_id (ns_node st)" nodes st'] keyed_ops(3) [of as_environment_id m a] assms(1,5,6)
    by (simp_all add: accounts_def)
  with here others old assms(1,2,4,7) show ?thesis by (auto simp: accounts_def)
qed

lemma accounts_del:
  assumes "accounts nodes m" "map_of m i = Some a" "map_of nodes (as_node_id a) = Some st"
    and "node_ok st'" "node_id (ns_node st') = as_node_id a"
    and "scalar_held st' = (scalar_held st)(i := None)" "cards_held st' = (cards_held st)(i := None)"
  shows "accounts (om_put (as_node_id a) st' nodes) (om_del i m)"
proof -
  let ?n = "as_node_id a"
  have old: "\<And>n st. map_of nodes n = Some st \<Longrightarrow> node_ok st \<and> charged m n st" using accountsD assms(1) by blast
  have here: "charged (om_del i m) ?n st'"
    using old [OF assms(3)] assms(6,7) by (auto simp: charged_def assigned_on_del)
  have others: "charged (om_del i m) k u" if "map_of nodes k = Some u" "k \<noteq> ?n" for k u
  proof -
    have "assigned_on (om_del i m) k j = assigned_on m k j" for j
      using that(2) assms(2) by (simp add: assigned_on_del assigned_on_def)
    with old [OF that(1)] show ?thesis by (simp add: charged_def)
  qed
  have "keyed (\<lambda>st. node_id (ns_node st)) (om_put ?n st' nodes)"
    using keyed_ops(3) [of "\<lambda>st. node_id (ns_node st)" nodes st'] assms(1,5) by (simp add: accounts_def)
  with here others old assms(1,3,4) show ?thesis by (auto simp: accounts_def)
qed

lemma uncharged:
  assumes "accounts nodes m" "map_of nodes n = Some st" "map_of m i = None"
  shows "scalar_held st i = None" "cards_held st i = None"
  using accountsD(2) [OF assms(1,2)] assms(3) by (simp_all add: charged_def assigned_on_def)

lemma charged_here:
  assumes "accounts nodes m" "map_of m i = Some a" "map_of nodes (as_node_id a) = Some st"
  shows "scalar_held st i \<noteq> None" "cards_held st i = Some (as_devices a)"
  using accountsD(2) [OF assms(1,3)] assms(2) by (simp_all add: charged_def assigned_on_def)

section \<open>Operations on the books\<close>

lemma ledger_reserve_capacity:
  "ResourceLedger_reserve i r l = (res, l') \<Longrightarrow> capacity l' = capacity l"
  by (auto simp: ResourceLedger_reserve_def split: sum.splits option.splits if_splits)

text \<open>A successful reservation charges both ledgers; a failed one leaves both holdings as they were.\<close>

lemma reserve_node_ok:
  assumes "node_ok st" "scalar_held st (spec_id r) = None" "cards_held st (spec_id r) = None"
    and "reserve_node r st = (Inr alloc, st')"
  shows "ns_node st' = ns_node st" "node_ok (refresh_free (alloc \<noteq> []) st')"
    and "scalar_held st' = (scalar_held st)(spec_id r \<mapsto> spec_resources r)"
    and "cards_held st' = (cards_held st)(spec_id r \<mapsto> alloc)"
proof -
  obtain sc d where sc: "ResourceLedger_reserve (spec_id r) (spec_resources r) (ns_scalar st) = (Inr (), sc)"
    and d: "DeviceLedger_reserve (spec_id r) (sp_devices (spec_scheduling r), alloc) (ns_devices st) = (Inr (), d)"
    and st': "st' = st\<lparr>ns_scalar := sc, ns_devices := d\<rparr>"
    using assms(4) by (auto simp: reserve_node_def split: sum.splits prod.splits)
  show "ns_node st' = ns_node st" by (simp add: st')
  show "scalar_held st' = (scalar_held st)(spec_id r \<mapsto> spec_resources r)"
    using scalar.reserve_ok [OF sc] by (simp add: st')
  show "cards_held st' = (cards_held st)(spec_id r \<mapsto> alloc)"
    using cards.reserve_ok [OF d] by (simp add: st')
  have inv: "ledger_inv sc" "device_ledger_inv d"
    using assms(1) scalar.inv_reserve [OF _ sc] cards.inv_reserve [OF _ d] by (auto simp: node_ok_def)
  have "DeviceLedger_available d = DeviceLedger_available (ns_devices st)" if "alloc = []"
    using d that assms(3) by (auto simp: DeviceLedger_reserve_def DeviceLedger_available_def extend_busy_def
        split: sum.splits)
  with inv assms(1) show "node_ok (refresh_free (alloc \<noteq> []) st')"
    by (simp add: node_ok_def st')
qed

lemma reserve_node_err:
  assumes "node_ok st" "scalar_held st (spec_id r) = None" "reserve_node r st = (Inl e, st')"
  shows "ns_node st' = ns_node st" "node_ok st'" "scalar_held st' = scalar_held st" "cards_held st' = cards_held st"
proof -
  let ?i = "spec_id r"
  have ok: "ledger_inv (ns_scalar st)" using assms(1) by (simp add: node_ok_def)
  have "st' = st \<or> (\<exists>sc. st' = st\<lparr>ns_scalar := sc\<rparr> \<and> ledger_inv sc
      \<and> map_of (reservations sc) = map_of (reservations (ns_scalar st)))"
  proof (cases "select_devices (sp_devices (spec_scheduling r)) (ns_free st)")
    case (Inl err)
    with assms(3) show ?thesis by (simp add: reserve_node_def)
  next
    case (Inr alloc)
    obtain res sc where sc: "ResourceLedger_reserve ?i (spec_resources r) (ns_scalar st) = (res, sc)" by fastforce
    obtain res' d where d: "DeviceLedger_reserve ?i (sp_devices (spec_scheduling r), alloc) (ns_devices st) = (res', d)"
      by fastforce
    show ?thesis
    proof (cases res)
      case (Inl err)
      with assms(3) Inr sc scalar.reserve_err show ?thesis by (auto simp: reserve_node_def)
    next
      case (Inr u)
      note reserved = sc [unfolded Inr]
      from scalar.reserve_release [OF ok assms(2)] reserved obtain sc' where
        rel: "ResourceLedger_release ?i sc = (Inr (), sc')" "map_of (reservations sc') = map_of (reservations (ns_scalar st))"
          "ledger_inv sc'" by (metis (full_types) old.unit.exhaust)
      have "d = ns_devices st" if "res' = Inl err" for err using cards.reserve_err d that by blast
      with assms(3) \<open>select_devices _ _ = Inr alloc\<close> reserved d rel show ?thesis
        by (auto simp: reserve_node_def split: sum.splits)
    qed
  qed
  then show "ns_node st' = ns_node st" "node_ok st'" "scalar_held st' = scalar_held st" "cards_held st' = cards_held st"
    using assms(1) by (auto simp: node_ok_def)
qed

lemma accounts_register:
  assumes "accounts (sh_nodes s) (sh_assigned s)" "Shard_register n s = (res, s')"
  shows "accounts (sh_nodes s') (sh_assigned s')"
proof (cases "map_of (sh_nodes s) (node_id n)")
  case None
  then show ?thesis
    using assms
    by (auto simp: Shard_register_def DeviceLedger_update_def DeviceLedger_default_def node_ok_def ledger_inv_new
        ResourceLedger_new_def device_ledger_inv_def held_keys_def split: sum.splits
        intro!: accounts_new_node ledger_inv_new [unfolded ResourceLedger_new_def])
next
  case (Some st)
  have ok: "node_ok st" using accountsD(1) [OF assms(1) Some] .
  then show ?thesis
    using assms Some
    by (auto simp: Shard_register_def DeviceLedger_update_def node_ok_def ledger_inv_set_capacity set_capacity_def
        device_ledger_inv_def split: sum.splits
        intro!: accounts_same ledger_inv_set_capacity [unfolded set_capacity_def])
qed

lemma accounts_restore:
  assumes "accounts (sh_nodes s) (sh_assigned s)" "Shard_restore r a s = (res, s')" "as_environment_id a = spec_id r"
  shows "accounts (sh_nodes s') (sh_assigned s')"
proof (cases res)
  case (Inl e)
  with assms(2) have "s' = s" by (auto simp: Shard_restore_def split: option.splits sum.splits prod.splits if_splits)
  with assms(1) show ?thesis by simp
next
  case (Inr u)
  with assms(2) obtain st sc d where new: "map_of (sh_assigned s) (spec_id r) = None"
    and st: "map_of (sh_nodes s) (as_node_id a) = Some st"
    and sc: "ResourceLedger_restore (spec_id r) (spec_resources r) (ns_scalar st) = (Inr (), sc)"
    and d: "DeviceLedger_restore (spec_id r) (as_devices a) (ns_devices st) = (Inr (), d)"
    and s': "sh_nodes s' = om_put (as_node_id a) (st\<lparr>ns_scalar := sc, ns_devices := d,
               ns_free := DeviceLedger_available d\<rparr>) (sh_nodes s)"
      "sh_assigned s' = om_put (spec_id r) a (sh_assigned s)"
    by (auto simp: Shard_restore_def map_of_eq_None_iff split: option.splits sum.splits prod.splits if_splits)
  have "node_ok st" using accountsD(1) [OF assms(1) st] .
  then have "ledger_inv sc" "device_ledger_inv d"
    using scalar.inv_restore [OF _ sc] cards.inv_restore [OF _ d] by (auto simp: node_ok_def)
  moreover have "node_id (ns_node st) = as_node_id a" using accountsD(3) [OF assms(1) st] .
  ultimately show ?thesis
    unfolding s' using scalar.restore_ok [OF sc] cards.restore_ok [OF d] assms(3)
    by (intro accounts_add [OF assms(1) st new]) (simp_all add: node_ok_def)
qed

lemma accounts_release:
  assumes "accounts (sh_nodes s) (sh_assigned s)" "Shard_release a s = (res, s')"
  shows "accounts (sh_nodes s') (sh_assigned s')"
    and "is_ok res \<Longrightarrow> sh_assigned s' = om_del (as_environment_id a) (sh_assigned s)"
    and "\<not> is_ok res \<Longrightarrow> s' = s"
    and "map_of (sh_assigned s) (as_environment_id a) = Some a \<Longrightarrow> res = Inr ()"
proof -
  let ?i = "as_environment_id a"
  have "accounts (sh_nodes s') (sh_assigned s')
      \<and> (is_ok res \<longrightarrow> sh_assigned s' = om_del ?i (sh_assigned s)) \<and> (\<not> is_ok res \<longrightarrow> s' = s)
      \<and> (map_of (sh_assigned s) ?i = Some a \<longrightarrow> res = Inr ())"
  proof (cases "map_of (sh_assigned s) ?i = Some a")
    case False
    with assms show ?thesis by (auto simp: Shard_release_def Let_def)
  next
    case True
    have "map_of (sh_nodes s) (as_node_id a) \<noteq> None" using assms(1) True unfolding accounts_def by blast
    then obtain st where st: "map_of (sh_nodes s) (as_node_id a) = Some st" by blast
    have ok: "node_ok st" "node_id (ns_node st) = as_node_id a" using accountsD [OF assms(1) st] by simp_all
    note here = charged_here [OF assms(1) True st]
    have inv: "ledger_inv (ns_scalar st)" "device_ledger_inv (ns_devices st)"
      using ok(1) by (simp_all add: node_ok_def)
    obtain sc where sc: "ResourceLedger_release ?i (ns_scalar st) = (Inr (), sc)"
      using scalar.release_held [OF inv(1)] here(1) by fastforce
    obtain d where d: "DeviceLedger_release ?i (ns_devices st) = (Inr (), d)"
      using cards.release_held [OF inv(2) here(2)] by blast
    let ?st = "refresh_free (as_devices a \<noteq> []) (st\<lparr>ns_scalar := sc, ns_devices := d\<rparr>)"
    have "DeviceLedger_available d = DeviceLedger_available (ns_devices st)" if "as_devices a = []"
      using d here(2) that by (auto simp: DeviceLedger_release_def DeviceLedger_available_def)
    then have "node_ok ?st"
      using ok(1) scalar.inv_release [OF _ sc] cards.inv_release [OF _ d] by (simp add: node_ok_def)
    then have "accounts (om_put (as_node_id a) ?st (sh_nodes s)) (om_del ?i (sh_assigned s))"
      using scalar.release_ok [OF sc] cards.release_ok [OF d] ok(2)
      by (intro accounts_del [OF assms(1) True st]) simp_all
    moreover have "res = Inr ()" "sh_nodes s' = om_put (as_node_id a) ?st (sh_nodes s)"
      "sh_assigned s' = om_del ?i (sh_assigned s)"
      using assms(2) True st sc d by (auto simp: Shard_release_def Let_def)
    ultimately show ?thesis by simp
  qed
  then show "accounts (sh_nodes s') (sh_assigned s')" "is_ok res \<Longrightarrow> sh_assigned s' = om_del ?i (sh_assigned s)"
    "\<not> is_ok res \<Longrightarrow> s' = s" "map_of (sh_assigned s) ?i = Some a \<Longrightarrow> res = Inr ()" by blast+
qed

lemma accounts_forget_node:
  assumes "accounts (sh_nodes s) (sh_assigned s)" "Shard_forget_node n s = (res, s')"
  shows "accounts (sh_nodes s') (sh_assigned s')"
proof (cases "list_ex (\<lambda>(_, a). as_node_id a = n) (sh_assigned s)")
  case True
  with assms show ?thesis by (auto simp: Shard_forget_node_def)
next
  case False
  then have none: "as_node_id a \<noteq> n" if "map_of (sh_assigned s) i = Some a" for i a
    using map_of_SomeD [OF that] by (auto simp: list_ex_iff)
  have s': "sh_nodes s' = om_del n (sh_nodes s)" "sh_assigned s' = sh_assigned s"
    using assms(2) False by (auto simp: Shard_forget_node_def)
  show ?thesis unfolding accounts_def s' using assms(1) none by (auto simp: accounts_def)
qed

section \<open>Tickets\<close>

definition tickets_ok :: "shard \<Rightarrow> bool" where
  "tickets_ok s \<longleftrightarrow>
     queue_inv (sh_queue s) \<and> queue_inv (sh_deferred s)
     \<and> distinct (map en_sequence (Shard_pending_requests s))
     \<and> distinct (map (\<lambda>e. spec_id (en_spec e)) (Shard_pending_requests s))
     \<and> (\<forall>e \<in> set (Shard_pending_requests s). en_sequence e < sh_sequence s
          \<and> map_of (sh_assigned s) (spec_id (en_spec e)) = None)"

text \<open>An entry that is neither waiting nor assigned, with a ticket of its own.\<close>

definition ticket_free :: "entry \<Rightarrow> shard \<Rightarrow> bool" where
  "ticket_free e s \<longleftrightarrow>
     en_sequence e < sh_sequence s \<and> map_of (sh_assigned s) (spec_id (en_spec e)) = None
     \<and> (\<forall>x \<in> set (Shard_pending_requests s).
          en_sequence x \<noteq> en_sequence e \<and> spec_id (en_spec x) \<noteq> spec_id (en_spec e))"

abbreviation waiting :: "shard \<Rightarrow> entry multiset" where
  "waiting s \<equiv> mset (Shard_pending_requests s)"

lemma waiting_queues: "waiting s = mset (Queue_entries (sh_queue s)) + mset (Queue_entries (sh_deferred s))"
  by (simp add: Shard_pending_requests_def)

lemma distinct_map_mset: "mset xs = mset ys \<Longrightarrow> distinct (map f xs) = distinct (map f ys)"
  by (rule mset_eq_imp_distinct_iff) (simp only: mset_map)

text \<open>The ticket invariant depends on the multiset of waiting entries only.\<close>

lemma tickets_transfer:
  assumes "waiting s' = waiting s" "sh_sequence s \<le> sh_sequence s'" "sh_assigned s' = sh_assigned s"
    and "queue_inv (sh_queue s')" "queue_inv (sh_deferred s')" "tickets_ok s"
  shows "tickets_ok s'"
  using assms(2-6) distinct_map_mset [OF assms(1), of en_sequence] mset_eq_setD [OF assms(1)]
    distinct_map_mset [OF assms(1), of "\<lambda>e. spec_id (en_spec e)"]
  unfolding tickets_ok_def by (auto intro: order.strict_trans2)

lemma tickets_add:
  assumes "tickets_ok s" "ticket_free e s" "waiting s' = add_mset e (waiting s)"
    and "sh_sequence s' = sh_sequence s" "sh_assigned s' = sh_assigned s"
    and "queue_inv (sh_queue s')" "queue_inv (sh_deferred s')"
  shows "tickets_ok s'"
proof -
  have m: "mset (Shard_pending_requests s') = mset (e # Shard_pending_requests s)" using assms(3) by simp
  show ?thesis
    unfolding tickets_ok_def
    using assms(1,2,4-7) distinct_map_mset [OF m, of en_sequence] mset_eq_setD [OF m]
      distinct_map_mset [OF m, of "\<lambda>e. spec_id (en_spec e)"]
    by (auto simp: tickets_ok_def ticket_free_def)
qed

lemma tickets_remove:
  assumes "tickets_ok s" "waiting s = add_mset e (waiting s')"
    and "sh_sequence s' = sh_sequence s" "sh_assigned s' = sh_assigned s"
    and "queue_inv (sh_queue s')" "queue_inv (sh_deferred s')"
  shows "tickets_ok s'" "ticket_free e s'"
proof -
  have m: "mset (Shard_pending_requests s) = mset (e # Shard_pending_requests s')" using assms(2) by simp
  note facts = distinct_map_mset [OF m, of en_sequence] mset_eq_setD [OF m]
      distinct_map_mset [OF m, of "\<lambda>e. spec_id (en_spec e)"]
  show "tickets_ok s'" "ticket_free e s'"
    using assms(1,3-6) facts by (auto simp: tickets_ok_def ticket_free_def image_iff)
qed

lemma restore_free:
  assumes "queue_inv q" "en_sequence e < n" "\<forall>x \<in> set (Queue_entries q). en_sequence x \<noteq> en_sequence e"
  obtains q' where "Queue_restore e q = (Inr (), q')" "queue_inv q'"
    and "mset (Queue_entries q') = add_mset e (mset (Queue_entries q))"
proof -
  have "unat n < 2 ^ LENGTH(64)" by (rule unsigned_less)
  then have room: "unat (en_sequence e) + 1 < 2 ^ 64" using assms(2) by (simp add: word_less_nat_alt)
  have "entry_key e \<notin> fst ` set (tenant_entries q (entry_tenant e))"
  proof
    assume "entry_key e \<in> fst ` set (tenant_entries q (entry_tenant e))"
    then obtain m x where m: "map_of (tq_queues q) (entry_tenant e) = Some m" "(entry_key e, x) \<in> set m"
      by (cases "map_of (tq_queues q) (entry_tenant e)") (auto simp: tenant_entries_def)
    have "x \<in> set (map snd m)" using m(2) by force
    then have "x \<in> set (Queue_entries q)"
      unfolding Queue_entries_def using map_of_SomeD [OF m(1)]
      by (auto intro!: bexI [of _ "(entry_tenant e, m)"])
    moreover have "entry_key e = entry_key x"
      using tenant_entries_ok [OF assms(1) m(1)] m(2) by (auto simp: subqueue_ok_def)
    ultimately show False using assms(3) by (auto simp: entry_key_def)
  qed
  from restore_ok [OF assms(1) room this] that show thesis by metis
qed

section \<open>The candidate cache\<close>

text \<open>Scores and ranking agree, and only registered nodes are ranked.\<close>

definition ranking_ok :: "(string, node_state) omap \<Rightarrow> candidates \<Rightarrow> bool" where
  "ranking_ok nodes c \<longleftrightarrow>
     sorted_wrt (<) (ca_ranked c) \<and> fst ` set (ca_scores c) \<subseteq> fst ` set nodes
     \<and> set (ca_ranked c) = {rank i v | i v. map_of (ca_scores c) i = Some v}"

definition cache_ok :: "(string, node_state) omap \<Rightarrow> (signature, candidates) omap \<Rightarrow> signature list \<Rightarrow> bool" where
  "cache_ok nodes cache order \<longleftrightarrow>
     om_wf cache \<and> distinct order \<and> set order = fst ` set cache
     \<and> (\<forall>key c. map_of cache key = Some c \<longrightarrow> ranking_ok nodes c)"

lemma rank_inject [simp]: "rank i v = rank j w \<longleftrightarrow> i = j \<and> v = w"
  by (auto simp: rank_def word_uint_eq_iff)

lemma ranking_ok_default [simp]: "ranking_ok nodes Candidates_default"
  by (simp add: ranking_ok_def Candidates_default_def)

lemma scores_update [simp]: "map_of (ca_scores (Candidates_update i score c)) = (map_of (ca_scores c))(i := score)"
  by (cases "map_of (ca_scores c) i"; cases score)
     (auto simp: Candidates_update_def Let_def fun_eq_iff)

lemma cursor_update [simp]: "ca_cursor (Candidates_update i score c) = ca_cursor c"
  by (simp add: Candidates_update_def Let_def split: option.split)

lemma ranking_ok_update:
  assumes "ranking_ok nodes c" "i \<in> fst ` set nodes"
  shows "ranking_ok nodes (Candidates_update i score c)"
proof -
  let ?c = "Candidates_update i score c"
  have ranked: "set (ca_ranked ?c) =
      (set (ca_ranked c) - {rank i v | v. map_of (ca_scores c) i = Some v}) \<union> {rank i v | v. score = Some v}"
    by (cases "map_of (ca_scores c) i"; cases score) (auto simp: Candidates_update_def Let_def)
  have "fst ` set (ca_scores ?c) = dom (map_of (ca_scores ?c))" by (simp only: dom_map_of_conv_image_fst)
  also have "\<dots> \<subseteq> insert i (fst ` set (ca_scores c))" by (auto simp: dom_map_of_conv_image_fst split: if_splits)
  finally have "fst ` set (ca_scores ?c) \<subseteq> fst ` set nodes" using assms by (auto simp: ranking_ok_def)
  moreover have "sorted_wrt (<) (ca_ranked ?c)"
    using assms(1) by (auto simp: Candidates_update_def Let_def ranking_ok_def split: option.split)
  moreover have "set (ca_ranked ?c) = {rank j v | j v. map_of (ca_scores ?c) j = Some v}"
    unfolding ranked scores_update using assms(1) by (auto simp: ranking_ok_def split: if_splits)
  ultimately show ?thesis by (simp add: ranking_ok_def)
qed

lemma reconcile_ranking:
  "reconcile_loop ev nodes ids (stats, c) = (res, (stats', c')) \<Longrightarrow> ranking_ok nodes c \<Longrightarrow> ranking_ok nodes c'"
proof (induction ids arbitrary: stats c)
  case (Cons i ids)
  show ?case
  proof (cases "map_of nodes i")
    case (Some st)
    then have "i \<in> fst ` set nodes" using map_of_SomeD [of nodes i st] by force
    then show ?thesis
      using Cons Some ranking_ok_update by (auto simp: Let_def split: sum.splits)
  qed (use Cons in simp)
qed simp

lemma evict_ok:
  assumes "cache_ok nodes cache order" "0 < n"
  shows "\<exists>cache' order'. evict n cache order = Inr (cache', order') \<and> cache_ok nodes cache' order'
           \<and> fst ` set cache' \<subseteq> fst ` set cache
           \<and> (\<forall>key c. map_of cache' key = Some c \<longrightarrow> map_of cache key = Some c)"
  using assms
proof (induction order arbitrary: cache)
  case Nil
  then have "cache = []" by (simp add: cache_ok_def)
  with Nil show ?case by simp
next
  case (Cons old order)
  show ?case
  proof (cases "length cache < n")
    case False
    have "cache_ok nodes (om_del old cache) order"
      using Cons.prems(1) by (auto simp: cache_ok_def)
    from Cons.IH [OF this Cons.prems(2)] obtain cache' order' where
      new: "evict n (om_del old cache) order = Inr (cache', order')" "cache_ok nodes cache' order'"
        "fst ` set cache' \<subseteq> fst ` set (om_del old cache)"
        "\<forall>key c. map_of cache' key = Some c \<longrightarrow> map_of (om_del old cache) key = Some c" by blast
    have "map_of cache key = Some c" if "map_of cache' key = Some c" for key c
      using new(4) that by (metis fun_upd_apply map_of_om_del option.distinct(1))
    with False new(1-3) show ?thesis by auto
  qed (use Cons.prems in simp)
qed

section \<open>The invariant of a shard\<close>

definition shard_inv :: "shard \<Rightarrow> bool" where
  "shard_inv s \<longleftrightarrow>
     accounts (sh_nodes s) (sh_assigned s) \<and> tickets_ok s
     \<and> cache_ok (sh_nodes s) (sh_cache s) (sh_cache_order s)"

lemma shard_inv_new: "shard_inv (Shard_new fw)"
  using queue_inv_default
  by (simp add: shard_inv_def Shard_new_def accounts_empty tickets_ok_def cache_ok_def
      Shard_pending_requests_def Queue_entries_def TenantQueue_default_def)

text \<open>What choosing a node leaves alone.\<close>

definition same_books :: "shard \<Rightarrow> shard \<Rightarrow> bool" where
  "same_books s s' \<longleftrightarrow>
     sh_nodes s' = sh_nodes s \<and> sh_queue s' = sh_queue s \<and> sh_deferred s' = sh_deferred s
     \<and> sh_deferred_arrivals s' = sh_deferred_arrivals s \<and> sh_sequence s' = sh_sequence s
     \<and> sh_assigned s' = sh_assigned s \<and> sh_framework s' = sh_framework s \<and> sh_excluded s' = sh_excluded s"

lemma same_books_refl [simp]: "same_books s s"
  by (simp add: same_books_def)

lemma same_books_trans: "same_books s t \<Longrightarrow> same_books t u \<Longrightarrow> same_books s u"
  by (simp add: same_books_def)

lemma same_books_inv:
  assumes "same_books s s'" "shard_inv s" "cache_ok (sh_nodes s) (sh_cache s') (sh_cache_order s')"
  shows "shard_inv s'"
  using assms by (simp add: shard_inv_def same_books_def tickets_ok_def Shard_pending_requests_def)

lemma same_books_waiting: "same_books s s' \<Longrightarrow> Shard_pending_requests s' = Shard_pending_requests s"
  by (simp add: same_books_def Shard_pending_requests_def)

section \<open>Choosing a node keeps the books\<close>

lemma candidate_loop_member:
  "candidate_loop ev skip sts best stats = (Inr (Some (v, i)), stats') \<Longrightarrow>
     best = Some (v, i) \<or> (\<exists>st \<in> set sts. node_id (ns_node st) = i \<and> ev st = Inr (Some v) \<and> \<not> skip i)"
  by (induction sts arbitrary: best stats) (fastforce simp: Let_def split: if_splits sum.splits option.splits)+

lemma best_candidate_frame:
  assumes "Shard_best_candidate now r cl excluded placement s = (res, s')"
  shows "same_books s s'" "sh_cache s' = sh_cache s" "sh_cache_order s' = sh_cache_order s"
    and "res = Inr (Some (v, i)) \<Longrightarrow> \<exists>st \<in> snd ` set (sh_nodes s). node_id (ns_node st) = i"
proof -
  show "same_books s s'" "sh_cache s' = sh_cache s" "sh_cache_order s' = sh_cache_order s"
    using assms by (auto simp: Shard_best_candidate_def same_books_def zoom_def Let_def split: if_splits sum.splits prod.splits)
  assume "res = Inr (Some (v, i))"
  then obtain ev skip stats stats' where
    "candidate_loop ev skip (map snd (sh_nodes s)) None stats = (Inr (Some (v, i)), stats')"
    using assms by (auto simp: Shard_best_candidate_def zoom_def Let_def split: if_splits sum.splits prod.splits)
  from candidate_loop_member [OF this] show "\<exists>st \<in> snd ` set (sh_nodes s). node_id (ns_node st) = i" by auto
qed

lemma cache_put:
  assumes "cache_ok nodes cache order" "ranking_ok nodes c" "key \<in> fst ` set cache"
  shows "cache_ok nodes (om_put key c cache) order"
  using assms by (auto simp: cache_ok_def)

lemma cache_updates_frame:
  assumes "cache_updates j key s = (res, s')"
  shows "same_books s s'" "sh_cache s' = sh_cache s" "sh_cache_order s' = sh_cache_order s"
  using assms by (auto simp: cache_updates_def same_books_def Let_def split: option.splits sum.splits)

lemma cache_slot_frame:
  assumes "cache_slot n key s = (res, s')" "cache_ok (sh_nodes s) (sh_cache s) (sh_cache_order s)" "0 < n"
  shows "res = Inr ()" "same_books s s'" "cache_ok (sh_nodes s) (sh_cache s') (sh_cache_order s')"
    and "key \<in> fst ` set (sh_cache s')"
    and "key \<in> fst ` set (sh_cache s) \<Longrightarrow> s' = s"
    and "key \<notin> fst ` set (sh_cache s) \<Longrightarrow> map_of (sh_cache s') key = Some Candidates_default"
    and "map_of (sh_cache s') k = Some c \<Longrightarrow> map_of (sh_cache s) k = Some c \<or> k = key \<and> c = Candidates_default"
proof -
  have "res = Inr () \<and> same_books s s' \<and> cache_ok (sh_nodes s) (sh_cache s') (sh_cache_order s')
      \<and> key \<in> fst ` set (sh_cache s') \<and> (key \<in> fst ` set (sh_cache s) \<longrightarrow> s' = s)
      \<and> (key \<notin> fst ` set (sh_cache s) \<longrightarrow> map_of (sh_cache s') key = Some Candidates_default)
      \<and> (map_of (sh_cache s') k = Some c \<longrightarrow> map_of (sh_cache s) k = Some c \<or> k = key \<and> c = Candidates_default)"
  proof (cases "key \<in> fst ` set (sh_cache s)")
    case True
    with assms show ?thesis by (simp add: cache_slot_def)
  next
    case False
    from evict_ok [OF assms(2,3)] obtain cache order where
      ev: "evict n (sh_cache s) (sh_cache_order s) = Inr (cache, order)" "cache_ok (sh_nodes s) cache order"
        "fst ` set cache \<subseteq> fst ` set (sh_cache s)"
        "\<forall>key c. map_of cache key = Some c \<longrightarrow> map_of (sh_cache s) key = Some c" by blast
    have s': "s' = s\<lparr>sh_cache := om_put key Candidates_default cache, sh_cache_order := order @ [key]\<rparr>" "res = Inr ()"
      using assms(1) False ev(1) by (simp_all add: cache_slot_def)
    have "cache_ok (sh_nodes s) (om_put key Candidates_default cache) (order @ [key])"
      using ev(2,3) False by (auto simp: cache_ok_def)
    moreover have "map_of (sh_cache s) k = Some c" if "map_of cache k = Some c" using ev(4) that by blast
    ultimately show ?thesis using False s' by (auto simp: same_books_def split: if_splits)
  qed
  then show "res = Inr ()" "same_books s s'" "cache_ok (sh_nodes s) (sh_cache s') (sh_cache_order s')"
    "key \<in> fst ` set (sh_cache s')" "key \<in> fst ` set (sh_cache s) \<Longrightarrow> s' = s"
    "key \<notin> fst ` set (sh_cache s) \<Longrightarrow> map_of (sh_cache s') key = Some Candidates_default"
    "map_of (sh_cache s') k = Some c \<Longrightarrow> map_of (sh_cache s) k = Some c \<or> k = key \<and> c = Candidates_default"
    by blast+
qed

lemma ranking_cached_for:
  assumes "cache_ok nodes (sh_cache s) order"
  shows "ranking_ok nodes (cached_for key s)"
proof (cases "map_of (sh_cache s) key")
  case (Some c)
  then have "ranking_ok nodes c" using assms unfolding cache_ok_def by blast
  with Some show ?thesis by (simp add: cached_for_def)
qed (simp add: cached_for_def)

lemma cache_reconcile_frame:
  assumes "cache_reconcile now r cl j updates s = (res, s')" "signature_of r \<in> fst ` set (sh_cache s)"
    and "cache_ok (sh_nodes s) (sh_cache s) (sh_cache_order s)"
  shows "same_books s s'" "cache_ok (sh_nodes s) (sh_cache s') (sh_cache_order s')"
proof -
  let ?ev = "\<lambda>st. Framework_evaluate now (sh_framework s) r (state_candidate st cl Prepared_default)"
  obtain ids sc where loop: "(case updates of
        Some ids \<Rightarrow> reconcile_loop ?ev (sh_nodes s) ids (sh_stats s, cached_for (signature_of r) s)
      | None \<Rightarrow> reconcile_loop ?ev (sh_nodes s) (map fst (sh_nodes s))
                  ((sh_stats s)\<lparr>cache_builds := cache_builds (sh_stats s) + 1\<rparr>, Candidates_default))
      = reconcile_loop ?ev (sh_nodes s) ids sc" and start: "ranking_ok (sh_nodes s) (snd sc)"
  proof (cases updates)
    case None
    then show ?thesis by (intro that [of "map fst (sh_nodes s)" "((sh_stats s)\<lparr>cache_builds := cache_builds (sh_stats s) + 1\<rparr>, Candidates_default)"]) simp_all
  next
    case (Some ids)
    then show ?thesis
      using that [of ids "(sh_stats s, cached_for (signature_of r) s)"] ranking_cached_for [OF assms(3)] by simp
  qed
  obtain out stats c where out: "reconcile_loop ?ev (sh_nodes s) ids sc = (out, (stats, c))" by (metis prod.exhaust)
  have rank: "ranking_ok (sh_nodes s) c"
    using reconcile_ranking [of ?ev "sh_nodes s" ids "fst sc" "snd sc" out stats c] out start by simp
  then have "ranking_ok (sh_nodes s) (c\<lparr>ca_cursor := mj_sequence j\<rparr>)" by (simp add: ranking_ok_def)
  with rank assms(1) cache_put [OF assms(3) _ assms(2)] show "same_books s s'"
    "cache_ok (sh_nodes s) (sh_cache s') (sh_cache_order s')"
    unfolding cache_reconcile_def Let_def loop out by (auto simp: same_books_def split: sum.splits)
qed

lemma cached_choice_node:
  assumes "cache_ok (sh_nodes s) (sh_cache s) order" "cached_choice r placement s = Some i"
  shows "i \<in> fst ` set (sh_nodes s)"
proof -
  have ok: "ranking_ok (sh_nodes s) (cached_for (signature_of r) s)" using ranking_cached_for [OF assms(1)] .
  obtain k where "(k, i) \<in> set (ca_ranked (cached_for (signature_of r) s))"
    using assms(2) find_some_iff by (fastforce simp: cached_choice_def)
  then obtain v where "map_of (ca_scores (cached_for (signature_of r) s)) i = Some v"
    using ok by (auto simp: ranking_ok_def rank_def)
  then have "i \<in> fst ` set (ca_scores (cached_for (signature_of r) s))" by (force dest: map_of_SomeD)
  with ok show ?thesis by (auto simp: ranking_ok_def)
qed

lemma select_ok:
  assumes "shard_inv s" "Shard_select now r cl j cfg placement s = (res, s')"
  shows "same_books s s'" "shard_inv s'" "res = Inr (Some i) \<Longrightarrow> map_of (sh_nodes s) i \<noteq> None"
proof -
  have books: "accounts (sh_nodes s) (sh_assigned s)" and cache: "cache_ok (sh_nodes s) (sh_cache s) (sh_cache_order s)"
    using assms(1) by (simp_all add: shard_inv_def)
  have "same_books s s' \<and> cache_ok (sh_nodes s) (sh_cache s') (sh_cache_order s')
      \<and> (res = Inr (Some i) \<longrightarrow> i \<in> fst ` set (sh_nodes s))"
  proof (cases "waiting_for_volume placement \<or> candidate_cache_entries cfg = 0 \<or> \<not> supports_aggregation (sh_framework s) r cl")
    case True
    show ?thesis
    proof (cases "waiting_for_volume placement")
      case False
      with True assms(2) have "bindS (Shard_best_candidate now r cl (Shard_exclusions (spec_id r) s) placement)
          (\<lambda>best. returnS (map_option snd best)) s = (res, s')" by (simp add: Shard_select_def)
      then show ?thesis
      proof (cases rule: bindS_cases)
        case (ok best t)
        note frame = best_candidate_frame [OF ok(1)]
        have "i \<in> fst ` set (sh_nodes s)" if "res = Inr (Some i)"
        proof -
          from that ok(2) obtain v where "Inr best = (Inr (Some (v, i)) :: (u64 \<times> string) option result)"
            by (cases best) auto
          from frame(4) [OF this] obtain n st where "(n, st) \<in> set (sh_nodes s)" "node_id (ns_node st) = i" by auto
          moreover have "map_of (sh_nodes s) n = Some st"
            using books calculation(1) by (simp add: accounts_def om_wf_map_of)
          ultimately show ?thesis using accountsD(3) [OF books] by (metis fst_conv image_eqI)
        qed
        with frame ok(2) cache show ?thesis by auto
      qed (use best_candidate_frame cache in fastforce)
    qed (use assms(2) cache in \<open>auto simp: Shard_select_def\<close>)
  next
    case False
    then have pos: "0 < candidate_cache_entries cfg" by simp
    from False assms(2) have "bindS (cache_updates j (signature_of r)) (\<lambda>updates.
           bindS (cache_slot (candidate_cache_entries cfg) (signature_of r)) (\<lambda>_.
           bindS (cache_reconcile now r cl j updates) (\<lambda>_ s'.
           (Inr (cached_choice r placement s'), s')))) s = (res, s')" by (simp add: Shard_select_def)
    then show ?thesis
    proof (cases rule: bindS_cases)
      case (err e)
      with cache_updates_frame [OF err(1)] cache show ?thesis by simp
    next
      case (ok updates t)
      note one = cache_updates_frame [OF ok(1)]
      have tcache: "cache_ok (sh_nodes t) (sh_cache t) (sh_cache_order t)"
        using one cache by (simp add: same_books_def)
      obtain slot u where u: "cache_slot (candidate_cache_entries cfg) (signature_of r) t = (slot, u)" by fastforce
      note two = cache_slot_frame [OF u tcache pos]
      have ucache: "cache_ok (sh_nodes u) (sh_cache u) (sh_cache_order u)" using two(2,3) by (simp add: same_books_def)
      obtain rec w where w: "cache_reconcile now r cl j updates u = (rec, w)" by fastforce
      note three = cache_reconcile_frame [OF w two(4) ucache]
      have books': "same_books s w" using same_books_trans one(1) two(2) three(1) by blast
      have wcache: "cache_ok (sh_nodes w) (sh_cache w) (sh_cache_order w)"
        using three by (simp add: same_books_def)
      have "s' = w \<and> (res = Inr (Some i) \<longrightarrow> cached_choice r placement w = Some i)"
        using ok(2) u w two(1) by (cases rec) auto
      with books' wcache cached_choice_node [OF wcache] show ?thesis by (auto simp: same_books_def)
    qed
  qed
  then show "same_books s s'" "shard_inv s'" "res = Inr (Some i) \<Longrightarrow> map_of (sh_nodes s) i \<noteq> None"
    using same_books_inv [OF _ assms(1)] by (auto simp: map_of_eq_None_iff)
qed

end
