(* ===== verification/Shard_Invariant.thy ===== *)
theory Shard_Invariant
  imports Shard_Accounting
begin

text \<open>
  Every operation of a shard keeps its invariant and says what becomes of the waiting requests;
  reachable states of a shard and the properties that hold in all of them.
\<close>

section \<open>Queue operations\<close>

lemma cache_ok_mono:
  assumes "cache_ok nodes cache order" "fst ` set nodes \<subseteq> fst ` set nodes'"
  shows "cache_ok nodes' cache order"
proof -
  have "ranking_ok nodes c \<Longrightarrow> ranking_ok nodes' c" for c using assms(2) subset_trans unfolding ranking_ok_def by blast
  with assms(1) show ?thesis unfolding cache_ok_def by blast
qed

lemma begin_round_books:
  "sh_nodes (Shard_begin_round s) = sh_nodes s" "sh_assigned (Shard_begin_round s) = sh_assigned s"
  "sh_sequence (Shard_begin_round s) = sh_sequence s" "sh_cache (Shard_begin_round s) = sh_cache s"
  "sh_cache_order (Shard_begin_round s) = sh_cache_order s" "waiting (Shard_begin_round s) = waiting s"
  "sh_framework (Shard_begin_round s) = sh_framework s" "sh_excluded (Shard_begin_round s) = sh_excluded s"
  by (simp_all add: Shard_begin_round_def waiting_queues)

lemma begin_round_inv: "shard_inv s \<Longrightarrow> shard_inv (Shard_begin_round s)"
  using tickets_transfer [of "Shard_begin_round s" s]
  by (auto simp: shard_inv_def begin_round_books tickets_ok_def)
     (auto simp: Shard_begin_round_def)

text \<open>Returning a popped entry to the queue or to the deferred queue.\<close>

lemma put_back:
  assumes "shard_inv s" "ticket_free e s"
  shows "\<exists>s'. on_queue (Queue_restore e) s = (Inr (), s') \<and> shard_inv s' \<and> waiting s' = add_mset e (waiting s)
           \<and> sh_assigned s' = sh_assigned s \<and> sh_nodes s' = sh_nodes s"
    and "\<exists>s'. Shard_defer e s = (Inr (), s') \<and> shard_inv s' \<and> waiting s' = add_mset e (waiting s)
           \<and> sh_assigned s' = sh_assigned s \<and> sh_nodes s' = sh_nodes s"
proof -
  have tickets: "tickets_ok s" "queue_inv (sh_queue s)" "queue_inv (sh_deferred s)" "en_sequence e < sh_sequence s"
    using assms by (simp_all add: shard_inv_def tickets_ok_def ticket_free_def)
  have free: "\<forall>x \<in> set (Queue_entries (sh_queue s)). en_sequence x \<noteq> en_sequence e"
    "\<forall>x \<in> set (Queue_entries (sh_deferred s)). en_sequence x \<noteq> en_sequence e"
    using assms(2) by (auto simp: ticket_free_def Shard_pending_requests_def)
  obtain q where q: "Queue_restore e (sh_queue s) = (Inr (), q)" "queue_inv q"
    "mset (Queue_entries q) = add_mset e (mset (Queue_entries (sh_queue s)))"
    using restore_free [OF tickets(2,4) free(1)] by metis
  have "tickets_ok (s\<lparr>sh_queue := q\<rparr>)"
    by (rule tickets_add [OF tickets(1) assms(2)]) (use q tickets in \<open>simp_all add: waiting_queues\<close>)
  with q assms(1) show "\<exists>s'. on_queue (Queue_restore e) s = (Inr (), s') \<and> shard_inv s' \<and> waiting s' = add_mset e (waiting s)
           \<and> sh_assigned s' = sh_assigned s \<and> sh_nodes s' = sh_nodes s"
    by (simp add: shard_inv_def waiting_queues)
  obtain d where d: "Queue_restore e (sh_deferred s) = (Inr (), d)" "queue_inv d"
    "mset (Queue_entries d) = add_mset e (mset (Queue_entries (sh_deferred s)))"
    using restore_free [OF tickets(3,4) free(2)] by metis
  have "tickets_ok (s\<lparr>sh_deferred := d\<rparr>)"
    by (rule tickets_add [OF tickets(1) assms(2)]) (use d tickets in \<open>simp_all add: waiting_queues\<close>)
  with d assms(1) show "\<exists>s'. Shard_defer e s = (Inr (), s') \<and> shard_inv s' \<and> waiting s' = add_mset e (waiting s)
           \<and> sh_assigned s' = sh_assigned s \<and> sh_nodes s' = sh_nodes s"
    by (simp add: shard_inv_def waiting_queues Shard_defer_def)
qed

definition unknown :: "string \<Rightarrow> shard \<Rightarrow> bool" where
  "unknown i s \<longleftrightarrow>
     map_of (sh_assigned s) i = None \<and> (\<forall>x \<in> set (Shard_pending_requests s). spec_id (en_spec x) \<noteq> i)"

lemma unknown_waiting:
  "unknown i s \<longleftrightarrow> map_of (sh_assigned s) i = None \<and> (\<forall>x \<in># waiting s. spec_id (en_spec x) \<noteq> i)"
  by (simp add: unknown_def)

lemma enqueue_entry_ok:
  assumes "shard_inv s" "unknown (spec_id (en_spec e)) s" "unat (sh_sequence s) + 1 < 2 ^ 64"
  obtains s' where "Shard_enqueue_entry e s = (Inr (), s')" "shard_inv s'"
    and "waiting s' = add_mset (e\<lparr>en_sequence := sh_sequence s\<rparr>) (waiting s)"
    and "sh_assigned s' = sh_assigned s" "sh_nodes s' = sh_nodes s" "sh_sequence s' = sh_sequence s + 1"
proof -
  let ?s = "Shard_begin_round s" and ?t = "e\<lparr>en_sequence := sh_sequence s\<rparr>"
  have inv: "shard_inv ?s" using begin_round_inv assms(1) .
  let ?deferred = "\<not> Queue_is_empty (sh_deferred ?s)"
  let ?u = "(if ?deferred then ?s\<lparr>sh_deferred_arrivals := True\<rparr> else ?s)\<lparr>sh_sequence := sh_sequence s + 1\<rparr>"
  have lt: "sh_sequence s < sh_sequence s + 1"
    using rust_add_ok(2) [of "sh_sequence s" 1] assms(3) by (simp add: word_less_nat_alt)
  have "tickets_ok ?u"
    by (rule tickets_transfer [of _ ?s])
       (use inv lt in \<open>simp_all add: begin_round_books shard_inv_def tickets_ok_def waiting_queues less_imp_le\<close>)
  then have u: "shard_inv ?u" using inv by (simp add: shard_inv_def)
  have seqs: "\<forall>x \<in># waiting s. en_sequence x < sh_sequence s"
    using assms(1) by (simp add: shard_inv_def tickets_ok_def)
  have "waiting ?u = waiting ?s" by (simp add: Shard_pending_requests_def)
  then have set: "set (Shard_pending_requests ?u) = set_mset (waiting s)"
    by (metis begin_round_books(6) set_mset_mset)
  have free: "ticket_free ?t ?u"
    unfolding ticket_free_def set using assms(2) seqs lt by (auto simp: begin_round_books unknown_waiting)
  have ticket: "next_ticket w = (Inr (), w\<lparr>sh_sequence := sh_sequence w + 1\<rparr>)" if "sh_sequence w = sh_sequence s" for w
    using that assms(3) by (simp add: next_ticket_def checked_add_nat)
  show thesis
  proof (cases ?deferred)
    case False
    from put_back(1) [OF u free] obtain v where v: "on_queue (Queue_restore ?t) ?u = (Inr (), v)" "shard_inv v"
      "waiting v = add_mset ?t (waiting ?u)" "sh_assigned v = sh_assigned ?u" "sh_nodes v = sh_nodes ?u" by blast
    then obtain q where q: "Queue_restore ?t (sh_queue ?s) = (Inr (), q)" "v = ?u\<lparr>sh_queue := q\<rparr>"
      using False by (auto simp: zoom_def split: prod.splits)
    show thesis
      by (rule that [of v]) (use False v q \<open>waiting ?u = waiting ?s\<close> in
        \<open>simp_all add: Shard_enqueue_entry_def Let_def ticket begin_round_books\<close>)
  next
    case True
    from put_back(2) [OF u free] obtain v where v: "Shard_defer ?t ?u = (Inr (), v)" "shard_inv v"
      "waiting v = add_mset ?t (waiting ?u)" "sh_assigned v = sh_assigned ?u" "sh_nodes v = sh_nodes ?u" by blast
    then obtain q where q: "Queue_restore ?t (sh_deferred ?s) = (Inr (), q)" "v = ?u\<lparr>sh_deferred := q\<rparr>"
      using True by (auto simp: zoom_def Shard_defer_def split: prod.splits)
    show thesis
      by (rule that [of v]) (use True v q \<open>waiting ?u = waiting ?s\<close> in
        \<open>simp_all add: Shard_enqueue_entry_def Let_def ticket begin_round_books\<close>)
  qed
qed

section \<open>Scheduling attempts\<close>

text \<open>What an attempt does with the request at the head of the queue.\<close>

definition attempt_outcome :: "nat \<Rightarrow> u64 \<Rightarrow> attempt result \<Rightarrow> shard \<Rightarrow> shard \<Rightarrow> bool" where
  "attempt_outcome k generation res s s' \<longleftrightarrow>
     (case res of
        Inr Empty \<Rightarrow> waiting s' = waiting s \<and> sh_assigned s' = sh_assigned s \<and> Queue_entries (sh_queue s) = []
      | Inr (Deferred e) \<Rightarrow>
          waiting s = add_mset e (waiting s') \<and> sh_assigned s' = sh_assigned s \<and> ticket_free e s'
      | Inr (Assigned a r) \<Rightarrow>
          (\<exists>e. waiting s = add_mset e (waiting s') \<and> en_spec e = r)
          \<and> as_environment_id a = spec_id r \<and> as_shard_id a = k \<and> as_generation a = generation
          \<and> map_of (sh_assigned s) (spec_id r) = None
          \<and> sh_assigned s' = om_put (spec_id r) a (sh_assigned s)
      | Inl err \<Rightarrow> is_panic err \<or> waiting s' = waiting s \<and> sh_assigned s' = sh_assigned s)"

lemma put_back_raise:
  assumes "shard_inv s" "ticket_free e s" "bindS (on_queue (Queue_restore e)) (\<lambda>_. raiseS err) s = (res, s')"
  shows "res = Inl err" "shard_inv s'" "waiting s' = add_mset e (waiting s)" "sh_assigned s' = sh_assigned s"
  using put_back(1) [OF assms(1,2)] assms(3) by (auto simp: bindS_def)

lemma assign_entry_ok:
  assumes "shard_inv s" "ticket_free e s" "assign_entry k generation e i s = (res, s')"
  shows "shard_inv s'"
    and "case res of Inl err \<Rightarrow> is_panic err \<or> waiting s' = add_mset e (waiting s) \<and> sh_assigned s' = sh_assigned s
         | Inr out \<Rightarrow> \<exists>a. out = Assigned a (en_spec e) \<and> as_environment_id a = spec_id (en_spec e)
             \<and> as_shard_id a = k \<and> as_generation a = generation
             \<and> waiting s' = waiting s \<and> sh_assigned s' = om_put (spec_id (en_spec e)) a (sh_assigned s)"
proof -
  let ?r = "en_spec e"
  let ?P = "shard_inv s' \<and> (case res of
      Inl err \<Rightarrow> is_panic err \<or> waiting s' = add_mset e (waiting s) \<and> sh_assigned s' = sh_assigned s
    | Inr out \<Rightarrow> \<exists>a. out = Assigned a ?r \<and> as_environment_id a = spec_id ?r \<and> as_shard_id a = k \<and> as_generation a = generation
        \<and> waiting s' = waiting s \<and> sh_assigned s' = om_put (spec_id ?r) a (sh_assigned s))"
  have books: "accounts (sh_nodes s) (sh_assigned s)" and tickets: "tickets_ok s"
    and cache: "cache_ok (sh_nodes s) (sh_cache s) (sh_cache_order s)"
    using assms(1) by (simp_all add: shard_inv_def)
  have new: "map_of (sh_assigned s) (spec_id ?r) = None" using assms(2) by (simp add: ticket_free_def)
  have "?P"
  proof (cases "map_of (sh_nodes s) i")
    case None
    with assms(1,3) show ?thesis by (auto simp: assign_entry_def Let_def)
  next
    case (Some st)
    note st = accountsD [OF books Some] and free = uncharged [OF books Some new]
    have grow: "cache_ok (om_put i st' (sh_nodes s)) (sh_cache s) (sh_cache_order s)" for st'
      by (rule cache_ok_mono [OF cache]) auto
    obtain r st' where rs: "reserve_node ?r st = (r, st')" by fastforce
    show ?thesis
    proof (cases r)
      case (Inl err)
      let ?s = "s\<lparr>sh_nodes := om_put i st' (sh_nodes s)\<rparr>"
      note err = reserve_node_err [OF st(1) free(1) rs [unfolded Inl]]
      have "accounts (sh_nodes ?s) (sh_assigned s)"
        using accounts_same [OF books Some err(2)] err st(3) by simp
      then have inv: "shard_inv ?s" and e: "ticket_free e ?s"
        using tickets grow assms(2)
        by (simp_all add: shard_inv_def tickets_ok_def ticket_free_def Shard_pending_requests_def)
      have "waiting ?s = waiting s" by (simp add: Shard_pending_requests_def)
      with put_back_raise [OF inv e, of err res s'] inv show ?thesis
        using assms(3) Some rs Inl by (auto simp: assign_entry_def Let_def split: if_splits)
    next
      case (Inr devices)
      note ok = reserve_node_ok [OF st(1) free rs [unfolded Inr]]
      let ?st = "refresh_free (devices \<noteq> []) st'"
      let ?a = "\<lparr>as_environment_id = spec_id ?r, as_node_id = i, as_shard_id = k, as_generation = generation,
        as_devices = devices\<rparr>"
      let ?s = "s\<lparr>sh_nodes := om_put i ?st (sh_nodes s), sh_assigned := om_put (spec_id ?r) ?a (sh_assigned s)\<rparr>"
      have out: "res = Inr (Assigned ?a ?r)" "s' = ?s"
        using assms(3) Some rs Inr by (auto simp: assign_entry_def Let_def)
      have "accounts (om_put i ?st (sh_nodes s)) (om_put (spec_id ?r) ?a (sh_assigned s))"
        by (rule accounts_add [OF books Some new ok(2), where x = "spec_resources ?r"]) (use ok st(3) in simp_all)
      then have "accounts (sh_nodes ?s) (sh_assigned ?s)" by simp
      moreover have "tickets_ok ?s"
        using tickets assms(2) by (simp add: tickets_ok_def ticket_free_def Shard_pending_requests_def)
      ultimately have "shard_inv ?s" using grow by (simp add: shard_inv_def)
      then show ?thesis by (simp add: out Shard_pending_requests_def)
    qed
  qed
  then show "shard_inv s'"
    and "case res of Inl err \<Rightarrow> is_panic err \<or> waiting s' = add_mset e (waiting s) \<and> sh_assigned s' = sh_assigned s
         | Inr out \<Rightarrow> \<exists>a. out = Assigned a ?r \<and> as_environment_id a = spec_id ?r \<and> as_shard_id a = k \<and> as_generation a = generation
             \<and> waiting s' = waiting s \<and> sh_assigned s' = om_put (spec_id ?r) a (sh_assigned s)"
    by blast+
qed

text \<open>Popping the head request leaves a state in which its ticket is free.\<close>

lemma pop_head:
  assumes "shard_inv s" "on_queue Queue_pop_entry s = (res, s1)"
  shows "res = Inr None \<and> s1 = s \<and> Queue_entries (sh_queue s) = []
    \<or> (\<exists>e. res = Inr (Some e) \<and> shard_inv s1 \<and> ticket_free e s1 \<and> waiting s = add_mset e (waiting s1)
         \<and> sh_assigned s1 = sh_assigned s)"
proof (cases "tq_tenants (sh_queue s)")
  case Nil
  have "queue_inv (sh_queue s)" using assms(1) by (simp add: shard_inv_def tickets_ok_def)
  then have "Queue_entries (sh_queue s) = []" using Nil by (auto simp: queue_inv_def Queue_entries_def)
  with Nil assms(2) show ?thesis by (auto simp: zoom_def Queue_pop_entry_def)
next
  case (Cons t ts)
  have tickets: "tickets_ok s" and inv: "queue_inv (sh_queue s)" "queue_inv (sh_deferred s)"
    using assms(1) by (simp_all add: shard_inv_def tickets_ok_def)
  obtain e q where q: "Queue_pop_entry (sh_queue s) = (Inr (Some e), q)" "queue_inv q"
    "mset (Queue_entries (sh_queue s)) = add_mset e (mset (Queue_entries q))"
    using pop_ok [OF inv(1) Cons] by metis
  let ?s = "s\<lparr>sh_queue := q\<rparr>"
  have w: "waiting s = add_mset e (waiting ?s)" using q(3) by (simp add: waiting_queues)
  have "tickets_ok ?s" "ticket_free e ?s"
    by (rule tickets_remove [OF tickets w]; use q(2) inv in simp)+
  with w q assms show ?thesis by (auto simp: shard_inv_def)
qed

lemma attempt_ok:
  assumes "shard_inv s" "Shard_attempt now k generation cl j cfg placements s = (res, s')"
  shows "shard_inv s'" "attempt_outcome k generation res s s'"
proof -
  have "shard_inv s' \<and> attempt_outcome k generation res s s'"
  proof (cases "on_queue Queue_pop_entry s")
    case (Pair popped s1)
    from pop_head [OF assms(1) Pair] show ?thesis
    proof (elim disjE exE conjE)
      assume "popped = Inr None" "s1 = s" "Queue_entries (sh_queue s) = []"
      with Pair assms show ?thesis by (auto simp: Shard_attempt_def bindS_def attempt_outcome_def)
    next
      fix e assume e: "popped = Inr (Some e)" "shard_inv s1" "ticket_free e s1" "waiting s = add_mset e (waiting s1)"
        "sh_assigned s1 = sh_assigned s"
      let ?s = "s1\<lparr>sh_stats := (sh_stats s1)\<lparr>attempts := attempts (sh_stats s1) + 1\<rparr>\<rparr>"
      have inv: "shard_inv ?s" using e(2) by (simp add: shard_inv_def tickets_ok_def Shard_pending_requests_def)
      have w: "waiting ?s = waiting s1" by (simp add: Shard_pending_requests_def)
      obtain r s2 where sel: "Shard_select now (en_spec e) cl j cfg (map_of placements (spec_id (en_spec e))) ?s = (r, s2)"
        by fastforce
      note sel_ok = select_ok [OF inv sel]
      have w2: "waiting s2 = waiting s1" "sh_assigned s2 = sh_assigned s"
        using same_books_waiting [OF sel_ok(1)] w sel_ok(1) e(5) by (simp_all add: same_books_def)
      have free: "ticket_free e s2"
        using e(3) sel_ok(1) by (simp add: same_books_def ticket_free_def Shard_pending_requests_def)
      have put: "bindS (on_queue (Queue_restore e)) (\<lambda>_. raiseS err) s2 = (res, s') \<Longrightarrow>
          shard_inv s' \<and> attempt_outcome k generation res s s'" for err
        using put_back_raise [OF sel_ok(2) free, of err res s'] w2 e(4) by (auto simp: attempt_outcome_def)
      have assign: "assign_entry k generation e i s2 = (res, s') \<Longrightarrow> shard_inv s' \<and> attempt_outcome k generation res s s'" for i
        using assign_entry_ok [OF sel_ok(2) free, of k generation i res s'] w2 e(4) free
        by (fastforce simp: attempt_outcome_def ticket_free_def split: sum.splits attempt.splits)
      from assms(2) sel Pair e(1) have run: "(case r of
            Inl err \<Rightarrow> if is_panic err then (Inl err, s2) else bindS (on_queue (Queue_restore e)) (\<lambda>_. raiseS err) s2
          | Inr None \<Rightarrow> (Inr (Deferred e), s2)
          | Inr (Some i) \<Rightarrow> assign_entry k generation e i s2) = (res, s')"
        by (simp add: Shard_attempt_def bindS_def split: sum.splits option.splits)
      show ?thesis
      proof (cases r)
        case (Inl err)
        with run put sel_ok(2) show ?thesis by (auto simp: attempt_outcome_def split: if_splits)
      next
        case (Inr c)
        with run assign sel_ok(2) free w2 e(4) show ?thesis
          by (cases c) (auto simp: attempt_outcome_def)
      qed
    qed
  qed
  then show "shard_inv s'" "attempt_outcome k generation res s s'" by blast+
qed

section \<open>The other operations\<close>

text \<open>Changing only the exclusions changes nothing in the books.\<close>

lemma excluded_frame [simp]:
  "shard_inv (s\<lparr>sh_excluded := x\<rparr>) \<longleftrightarrow> shard_inv s"
  "Shard_pending_requests (s\<lparr>sh_excluded := x\<rparr>) = Shard_pending_requests s"
  by (simp_all add: shard_inv_def tickets_ok_def Shard_pending_requests_def)

lemma reconsider_inv: "shard_inv (Shard_reconsider_node n s) \<longleftrightarrow> shard_inv s"
  by (simp add: Shard_reconsider_node_def)

lemma register_inv:
  assumes "shard_inv s" "Shard_register n s = (res, s')"
  shows "shard_inv s'" "waiting s' = waiting s" "sh_assigned s' = sh_assigned s"
    and "sh_sequence s' = sh_sequence s" "sh_framework s' = sh_framework s"
    and "fst ` set (sh_nodes s) \<subseteq> fst ` set (sh_nodes s')"
proof -
  have same: "sh_queue s' = sh_queue s" "sh_deferred s' = sh_deferred s" "sh_sequence s' = sh_sequence s"
    "sh_assigned s' = sh_assigned s" "sh_cache s' = sh_cache s" "sh_cache_order s' = sh_cache_order s"
    and framework: "sh_framework s' = sh_framework s"
    and nodes: "fst ` set (sh_nodes s) \<subseteq> fst ` set (sh_nodes s')"
    using assms(2) by (auto simp: subset_insertI Shard_register_def split: sum.splits option.splits prod.splits simp del: image_subset_iff del: subsetI)
  have "accounts (sh_nodes s') (sh_assigned s')" using assms(1) accounts_register [OF _ assms(2)] by (simp add: shard_inv_def)
  moreover have "cache_ok (sh_nodes s') (sh_cache s) (sh_cache_order s)"
    using assms(1) nodes cache_ok_mono by (auto simp: shard_inv_def)
  ultimately show "shard_inv s'"
    using assms(1) same by (simp add: shard_inv_def tickets_ok_def Shard_pending_requests_def)
  show "waiting s' = waiting s" using same by (simp add: Shard_pending_requests_def)
  show "sh_assigned s' = sh_assigned s" "sh_sequence s' = sh_sequence s" "sh_framework s' = sh_framework s"
    "fst ` set (sh_nodes s) \<subseteq> fst ` set (sh_nodes s')" by (fact same framework nodes)+
qed

lemma forget_node_inv:
  assumes "shard_inv s" "Shard_forget_node n s = (res, s')"
  shows "shard_inv s'" "waiting s' = waiting s" "sh_assigned s' = sh_assigned s" "sh_sequence s' = sh_sequence s"
proof -
  have same: "sh_queue s' = sh_queue s" "sh_deferred s' = sh_deferred s" "sh_sequence s' = sh_sequence s"
    "sh_assigned s' = sh_assigned s"
    and cache: "s' = s \<or> sh_cache s' = [] \<and> sh_cache_order s' = []"
    using assms(2) by (auto simp: Shard_forget_node_def split: if_splits)
  have "cache_ok (sh_nodes s') (sh_cache s') (sh_cache_order s')"
    using cache assms(1) by (auto simp: shard_inv_def cache_ok_def)
  with same assms accounts_forget_node [OF _ assms(2)] show "shard_inv s'"
    by (simp add: shard_inv_def tickets_ok_def Shard_pending_requests_def)
  show "waiting s' = waiting s" using same by (simp add: Shard_pending_requests_def)
  show "sh_assigned s' = sh_assigned s" "sh_sequence s' = sh_sequence s" by (fact same)+
qed

lemma forget_queued_ok:
  assumes "shard_inv s"
  obtains s' where "Shard_forget_queued i s = (Inr (), s')" "shard_inv s'"
    and "waiting s' = filter_mset (other i) (waiting s)" "sh_assigned s' = sh_assigned s"
    and "sh_nodes s' = sh_nodes s" "sh_sequence s' = sh_sequence s"
proof -
  have inv: "queue_inv (sh_queue s)" "queue_inv (sh_deferred s)" and tickets: "tickets_ok s"
    using assms by (simp_all add: shard_inv_def tickets_ok_def)
  obtain q where q: "Queue_remove i (sh_queue s) = (Inr (), q)" "queue_inv q"
    "Queue_entries q = filter (other i) (Queue_entries (sh_queue s))" using remove_ok [OF inv(1)] by metis
  obtain d where d: "Queue_remove i (sh_deferred s) = (Inr (), d)" "queue_inv d"
    "Queue_entries d = filter (other i) (Queue_entries (sh_deferred s))" using remove_ok [OF inv(2)] by metis
  let ?s = "s\<lparr>sh_queue := q, sh_deferred := d, sh_excluded := om_del i (sh_excluded s)\<rparr>"
  have pending: "Shard_pending_requests ?s = filter (other i) (Shard_pending_requests s)"
    by (simp add: Shard_pending_requests_def q d)
  have run: "Shard_forget_queued i s = (Inr (), ?s)"
    by (simp add: Shard_forget_queued_def bindS_def zoom_def q d)
  have "tickets_ok ?s"
    using tickets q(2) d(2) pending by (simp add: tickets_ok_def distinct_map_filter)
  then have "shard_inv ?s" using assms by (simp add: shard_inv_def)
  with pending run show thesis by (intro that [of ?s]) simp_all
qed

lemma release_inv:
  assumes "shard_inv s" "Shard_release a s = (res, s')"
  shows "shard_inv s'" "waiting s' = waiting s" "sh_sequence s' = sh_sequence s"
    and "sh_assigned s' = (if is_ok res then om_del (as_environment_id a) (sh_assigned s) else sh_assigned s)"
proof -
  have books: "accounts (sh_nodes s) (sh_assigned s)" using assms(1) by (simp add: shard_inv_def)
  note acc = accounts_release [OF books assms(2)]
  have same: "sh_queue s' = sh_queue s" "sh_deferred s' = sh_deferred s" "sh_sequence s' = sh_sequence s"
    "sh_cache s' = sh_cache s" "sh_cache_order s' = sh_cache_order s"
    "fst ` set (sh_nodes s) \<subseteq> fst ` set (sh_nodes s')"
    using assms(2) by (auto simp: subset_insertI Shard_release_def Let_def split: if_splits option.splits sum.splits prod.splits simp del: image_subset_iff del: subsetI)
  show assigned: "sh_assigned s' = (if is_ok res then om_del (as_environment_id a) (sh_assigned s) else sh_assigned s)"
    using acc(2,3) by auto
  have "tickets_ok s'"
    using assms(1) same assigned by (simp add: shard_inv_def tickets_ok_def Shard_pending_requests_def)
  moreover have "cache_ok (sh_nodes s') (sh_cache s') (sh_cache_order s')"
    using assms(1) same cache_ok_mono by (auto simp: shard_inv_def)
  ultimately show "shard_inv s'" using acc(1) by (simp add: shard_inv_def)
  show "waiting s' = waiting s" using same by (simp add: Shard_pending_requests_def)
  show "sh_sequence s' = sh_sequence s" by (fact same)
qed

lemma restore_inv:
  assumes "shard_inv s" "Shard_restore r a s = (res, s')" "as_environment_id a = spec_id r"
    and "\<forall>e \<in># waiting s. spec_id (en_spec e) \<noteq> spec_id r"
  shows "shard_inv s'" "waiting s' = waiting s" "sh_sequence s' = sh_sequence s"
    and "sh_assigned s' = (if is_ok res then om_put (spec_id r) a (sh_assigned s) else sh_assigned s)"
proof -
  have books: "accounts (sh_nodes s) (sh_assigned s)" using assms(1) by (simp add: shard_inv_def)
  have same: "sh_queue s' = sh_queue s" "sh_deferred s' = sh_deferred s" "sh_sequence s' = sh_sequence s"
    "sh_cache s' = sh_cache s" "sh_cache_order s' = sh_cache_order s"
    "fst ` set (sh_nodes s) \<subseteq> fst ` set (sh_nodes s')"
    and assigned: "sh_assigned s' = (if is_ok res then om_put (spec_id r) a (sh_assigned s) else sh_assigned s)"
    using assms(2) by (auto simp: subset_insertI Shard_restore_def split: if_splits option.splits sum.splits prod.splits simp del: image_subset_iff del: subsetI)
  show "sh_assigned s' = (if is_ok res then om_put (spec_id r) a (sh_assigned s) else sh_assigned s)" by (fact assigned)
  have "tickets_ok s'"
    using assms(1,4) same assigned by (auto simp: shard_inv_def tickets_ok_def Shard_pending_requests_def)
  moreover have "cache_ok (sh_nodes s') (sh_cache s') (sh_cache_order s')"
    using assms(1) same cache_ok_mono by (auto simp: shard_inv_def)
  ultimately show "shard_inv s'" using accounts_restore [OF books assms(2,3)] by (simp add: shard_inv_def)
  show "waiting s' = waiting s" using same by (simp add: Shard_pending_requests_def)
  show "sh_sequence s' = sh_sequence s" by (fact same)
qed

section \<open>Reachable shards\<close>

text \<open>
  A step is one operation of the shard that does not unwind. Callers enqueue only requests the
  shard does not know, restore only Environments that are not waiting, retry with the request of
  the failed assignment, and defer only an entry an attempt has handed out.
\<close>

definition panicked :: "'a result \<Rightarrow> bool" where
  "panicked res \<longleftrightarrow> (case res of Inl e \<Rightarrow> is_panic e | Inr _ \<Rightarrow> False)"

inductive shard_step :: "shard \<Rightarrow> shard \<Rightarrow> bool" where
  step_register: "Shard_register n s = (res, s') \<Longrightarrow> shard_step s s'"
| step_forget_node: "Shard_forget_node n s = (res, s') \<Longrightarrow> shard_step s s'"
| step_reconsider: "shard_step s (Shard_reconsider_node n s)"
| step_begin: "shard_step s (Shard_begin_round s)"
| step_enqueue:
    "unknown (spec_id (en_spec e)) s \<Longrightarrow> Shard_enqueue_entry e s = (Inr (), s') \<Longrightarrow> shard_step s s'"
| step_transfer:
    "unknown (spec_id (en_spec e)) s \<Longrightarrow> Shard_accept_transfer e excluded s = (Inr (), s') \<Longrightarrow> shard_step s s'"
| step_defer: "ticket_free e s \<Longrightarrow> Shard_defer e s = (res, s') \<Longrightarrow> shard_step s s'"
| step_attempt: "Shard_attempt now k generation cl j cfg placements s = (res, s') \<Longrightarrow> shard_step s s'"
| step_release: "Shard_release a s = (res, s') \<Longrightarrow> shard_step s s'"
| step_retry:
    "as_environment_id a = spec_id r \<Longrightarrow> Shard_retry millis a r s = (res, s') \<Longrightarrow> \<not> panicked res
     \<Longrightarrow> shard_step s s'"
| step_restore:
    "as_environment_id a = spec_id r \<Longrightarrow> \<forall>e \<in># waiting s. spec_id (en_spec e) \<noteq> spec_id r
     \<Longrightarrow> Shard_restore r a s = (res, s') \<Longrightarrow> shard_step s s'"
| step_forget_queued: "Shard_forget_queued i s = (res, s') \<Longrightarrow> shard_step s s'"

inductive shard_reach :: "framework \<Rightarrow> shard \<Rightarrow> bool" for fw where
  shard_init: "shard_reach fw (Shard_new fw)"
| shard_next: "shard_reach fw s \<Longrightarrow> shard_step s s' \<Longrightarrow> shard_reach fw s'"

lemma enqueue_panics:
  assumes "Shard_enqueue_entry e s = (res, s')" "\<not> panicked res"
  shows "res = Inr ()"
  using assms
  by (auto simp: Shard_enqueue_entry_def Let_def bindS_def zoom_def panicked_def Queue_restore_def next_ticket_def
      rust_add_def ok_or_def split: if_splits prod.splits sum.splits option.splits)

lemma enqueue_room:
  assumes "Shard_enqueue_entry e s = (Inr (), s')"
  shows "unat (sh_sequence s) + 1 < 2 ^ 64"
proof -
  have "\<exists>t. next_ticket t = (Inr (), s') \<and> sh_sequence t = sh_sequence s"
    using assms by (auto simp: Shard_enqueue_entry_def Let_def bindS_def zoom_def begin_round_books
        split: if_splits prod.splits sum.splits)
  then show ?thesis by (auto simp: next_ticket_def checked_add_nat split: option.splits if_splits)
qed

lemma enqueue_entry_inv:
  assumes "shard_inv s" "unknown (spec_id (en_spec e)) s" "Shard_enqueue_entry e s = (Inr (), s')"
  shows "shard_inv s'" "waiting s' = add_mset (e\<lparr>en_sequence := sh_sequence s\<rparr>) (waiting s)"
    "sh_assigned s' = sh_assigned s" "sh_nodes s' = sh_nodes s"
proof -
  from enqueue_entry_ok [OF assms(1,2) enqueue_room [OF assms(3)]] obtain t where
    t: "Shard_enqueue_entry e s = (Inr (), t)" "shard_inv t"
      "waiting t = add_mset (e\<lparr>en_sequence := sh_sequence s\<rparr>) (waiting s)" "sh_assigned t = sh_assigned s"
      "sh_nodes t = sh_nodes s" .
  moreover have "t = s'" using t(1) assms(3) by simp
  ultimately show "shard_inv s'" "waiting s' = add_mset (e\<lparr>en_sequence := sh_sequence s\<rparr>) (waiting s)"
    "sh_assigned s' = sh_assigned s" "sh_nodes s' = sh_nodes s" by simp_all
qed

lemma accept_transfer_inv:
  assumes "shard_inv s" "unknown (spec_id (en_spec e)) s" "Shard_accept_transfer e excluded s = (Inr (), s')"
  shows "shard_inv s'" "waiting s' = add_mset (e\<lparr>en_sequence := sh_sequence s\<rparr>) (waiting s)"
    "sh_assigned s' = sh_assigned s" "sh_nodes s' = sh_nodes s"
proof -
  let ?s = "if excluded \<noteq> [] then s\<lparr>sh_excluded := om_put (spec_id (en_spec e)) excluded (sh_excluded s)\<rparr> else s"
  have inv: "shard_inv ?s" "unknown (spec_id (en_spec e)) ?s" using assms(1,2) by (simp_all add: unknown_def)
  have "Shard_enqueue_entry e ?s = (Inr (), s')" using assms(3) by (simp only: Shard_accept_transfer_def)
  note run = enqueue_entry_inv [OF inv this]
  have same: "waiting ?s = waiting s" "sh_sequence ?s = sh_sequence s" "sh_assigned ?s = sh_assigned s"
    "sh_nodes ?s = sh_nodes s" by simp_all
  show "shard_inv s'" by (fact run(1))
  show "waiting s' = add_mset (e\<lparr>en_sequence := sh_sequence s\<rparr>) (waiting s)"
    "sh_assigned s' = sh_assigned s" "sh_nodes s' = sh_nodes s"
    using run(2-4) unfolding same .
qed

text \<open>A retry releases the failed assignment and queues its request again under a new ticket.\<close>

lemma retry_inv:
  assumes "shard_inv s" "as_environment_id a = spec_id r" "Shard_retry millis a r s = (res, s')" "\<not> panicked res"
  shows "shard_inv s'"
    and "if is_ok res
         then map_of (sh_assigned s) (spec_id r) = Some a \<and> sh_assigned s' = om_del (spec_id r) (sh_assigned s)
              \<and> waiting s' = add_mset (Entry_new millis (sh_sequence s) r) (waiting s)
         else s' = s"
proof -
  obtain rel s1 where rel: "Shard_release a s = (rel, s1)" by fastforce
  note acc = accounts_release [OF _ rel]
  have books: "accounts (sh_nodes s) (sh_assigned s)" using assms(1) by (simp add: shard_inv_def)
  note rel_ok = release_inv [OF assms(1) rel]
  have "shard_inv s' \<and> (if is_ok res
         then map_of (sh_assigned s) (spec_id r) = Some a \<and> sh_assigned s' = om_del (spec_id r) (sh_assigned s)
              \<and> waiting s' = add_mset (Entry_new millis (sh_sequence s) r) (waiting s)
         else s' = s)"
  proof (cases rel)
    case (Inl err)
    then have "s1 = s" using acc(3) [OF books] by simp
    with Inl rel assms(1,3) show ?thesis by (auto simp: Shard_retry_def Let_def bindS_def)
  next
    case (Inr u)
    have held: "map_of (sh_assigned s) (spec_id r) = Some a"
      using rel Inr assms(2) by (auto simp: Shard_release_def Let_def split: if_splits)
    have "\<forall>e \<in># waiting s. spec_id (en_spec e) \<noteq> spec_id r"
      using assms(1) held by (auto simp: shard_inv_def tickets_ok_def)
    then have un: "unknown (spec_id r) s1"
      using rel_ok(2,4) Inr assms(2) by (simp add: unknown_waiting)
    let ?s1 = "s1\<lparr>sh_excluded := om_put (as_environment_id a)
      (os_insert (as_node_id a) (Shard_exclusions (as_environment_id a) s)) (sh_excluded s1)\<rparr>"
    have run: "Shard_enqueue_entry (Entry_new millis 0 r) ?s1 = (res, s')"
      using assms(3) rel Inr by (simp add: Shard_retry_def Let_def bindS_def Shard_enqueue_def)
    have "res = Inr ()"
      using run assms(4) enqueue_panics by blast
    with run have run: "Shard_enqueue_entry (Entry_new millis 0 r) ?s1 = (Inr (), s')" by simp
    have "shard_inv ?s1" "unknown (spec_id (en_spec (Entry_new millis 0 r))) ?s1"
      using rel_ok(1) un by (simp_all add: unknown_def Entry_new_def)
    from enqueue_entry_inv [OF this run] show ?thesis
      using held rel_ok Inr assms(2) \<open>res = Inr ()\<close> by (simp add: Entry_new_def)
  qed
  then show "shard_inv s'" "if is_ok res
         then map_of (sh_assigned s) (spec_id r) = Some a \<and> sh_assigned s' = om_del (spec_id r) (sh_assigned s)
              \<and> waiting s' = add_mset (Entry_new millis (sh_sequence s) r) (waiting s)
         else s' = s" by blast+
qed

lemma shard_step_inv: "shard_step s s' \<Longrightarrow> shard_inv s \<Longrightarrow> shard_inv s'"
proof (induction rule: shard_step.induct)
  case (step_defer e s res s')
  then show ?case using put_back(2) [of s e] by auto
next
  case (step_forget_queued i s res s')
  then show ?case by (auto elim: forget_queued_ok [of s i])
qed (auto simp: reconsider_inv begin_round_inv intro: register_inv forget_node_inv enqueue_entry_inv
    accept_transfer_inv attempt_ok release_inv retry_inv restore_inv)

lemma shard_reach_inv: "shard_reach fw s \<Longrightarrow> shard_inv s"
  by (induction rule: shard_reach.induct) (auto intro: shard_inv_new shard_step_inv)

text \<open>
  C23. In every reachable shard the ledgers of a node and the assignments agree: an Environment has
  a scalar reservation on the node exactly when it is assigned there, the card ledger holds exactly
  the cards its assignment records, and two Environments assigned to the node share no card.
\<close>

theorem shard_books_balance:
  assumes "shard_reach fw s" "map_of (sh_nodes s) n = Some st"
  shows "(scalar_held st i \<noteq> None \<longleftrightarrow> (\<exists>a. Shard_assignment i s = Some a \<and> as_node_id a = n))
    \<and> (cards_held st i = Some cards \<longleftrightarrow>
         (\<exists>a. Shard_assignment i s = Some a \<and> as_node_id a = n \<and> as_devices a = cards))
    \<and> (\<forall>j a b. Shard_assignment i s = Some a \<and> Shard_assignment j s = Some b \<and> i \<noteq> j
         \<and> as_node_id a = n \<and> as_node_id b = n
         \<longrightarrow> alloc_key ` set (as_devices a) \<inter> alloc_key ` set (as_devices b) = {})"
proof -
  have books: "accounts (sh_nodes s) (sh_assigned s)" using shard_reach_inv [OF assms(1)] by (simp add: shard_inv_def)
  note ok = accountsD [OF books assms(2)]
  have here: "scalar_held st k \<noteq> None \<longleftrightarrow> assigned_on (sh_assigned s) n k \<noteq> None"
    "cards_held st k = map_option as_devices (assigned_on (sh_assigned s) n k)" for k
    using ok(2) by (simp_all add: charged_def)
  have on: "assigned_on (sh_assigned s) n k = Some a \<longleftrightarrow> Shard_assignment k s = Some a \<and> as_node_id a = n" for k a
    by (auto simp: assigned_on_def Shard_assignment_def split: option.split)
  have apart: "alloc_key ` set (as_devices a) \<inter> alloc_key ` set (as_devices b) = {}"
    if "assigned_on (sh_assigned s) n i = Some a" "assigned_on (sh_assigned s) n j = Some b" "i \<noteq> j" for j a b
  proof -
    have "distinct (held_keys (held (ns_devices st)))" using ok(1) by (simp add: node_ok_def device_ledger_inv_def)
    moreover have "(i, as_devices a) \<in> set (held (ns_devices st))" "(j, as_devices b) \<in> set (held (ns_devices st))"
      using here(2) [of i] here(2) [of j] that by (auto dest: map_of_SomeD)
    ultimately show ?thesis using held_keys_disjoint that(3) by blast
  qed
  have "scalar_held st i \<noteq> None \<longleftrightarrow> (\<exists>a. Shard_assignment i s = Some a \<and> as_node_id a = n)"
    unfolding here(1) by (simp only: not_None_eq on)
  moreover have "cards_held st i = Some cards \<longleftrightarrow>
      (\<exists>a. Shard_assignment i s = Some a \<and> as_node_id a = n \<and> as_devices a = cards)"
    by (simp only: here(2) map_option_eq_Some on conj_assoc)
  ultimately show ?thesis using apart unfolding on by blast
qed

text \<open>
  C24. A scheduling attempt on a reachable shard never loses the request it takes from the queue:
  the request is assigned (and only its assignment is added, under the generation and shard given),
  or handed back to the caller with its ticket still free, or, on an error, still waiting with all
  assignments unchanged; and the shard's books stay balanced. Only an unwinding panic escapes.
\<close>

theorem attempt_loses_no_request:
  assumes "shard_reach fw s" "Shard_attempt now k generation cl j cfg placements s = (res, s')"
  shows "attempt_outcome k generation res s s' \<and> accounts (sh_nodes s') (sh_assigned s')"
  using attempt_ok [OF shard_reach_inv [OF assms(1)] assms(2)] by (simp add: shard_inv_def)

definition one_node_shard :: shard where
  "one_node_shard = snd (Shard_register (zone_node ''n1'' ''a'') (Shard_new plain_framework))"

definition queued_shard :: shard where
  "queued_shard = snd (Shard_enqueue 7 (db_spec ''f'') one_node_shard)"

abbreviation run_attempt :: "shard \<Rightarrow> attempt result \<times> shard" where
  "run_attempt \<equiv> Shard_attempt 0 3 11 (update_node (zone_node ''n1'' ''a'') cluster_default) (MutationJournal_new 8)
     SchedulerConfig_default []"

lemma queued_shard_steps:
  "unknown ''f'' one_node_shard"
  "fst (Shard_enqueue 7 (db_spec ''f'') one_node_shard) = Inr ()"
  by code_simp+

text \<open>The attempt assigns the request and charges the node.\<close>

lemma attempted_shard_run:
  "(case run_attempt queued_shard of (res, s) \<Rightarrow> (res, map_option (\<lambda>st. scalar_held st ''f'') (map_of (sh_nodes s) ''n1'')))
     = (Inr (Assigned \<lparr>as_environment_id = ''f'', as_node_id = ''n1'', as_shard_id = 3, as_generation = 11,
          as_devices = []\<rparr> (db_spec ''f'')), Some (Some (spec_resources (db_spec ''f''))))"
  by code_simp

lemma attempted_shard:
  "is_ok (fst (run_attempt queued_shard))"
  "\<exists>st. map_of (sh_nodes (snd (run_attempt queued_shard))) ''n1'' = Some st \<and> scalar_held st ''f'' \<noteq> None"
  using attempted_shard_run by (auto split: prod.splits)

lemma queued_shard_reach: "shard_reach plain_framework queued_shard"
proof -
  have "shard_reach plain_framework one_node_shard"
    unfolding one_node_shard_def by (rule shard_next [OF shard_init step_register]) (rule prod.collapse [symmetric])
  moreover have "shard_step one_node_shard queued_shard"
  proof (rule step_enqueue)
    show "unknown (spec_id (en_spec (Entry_new 7 0 (db_spec ''f'')))) one_node_shard"
      using queued_shard_steps(1) by (simp add: Entry_new_def db_spec_def Let_def)
    show "Shard_enqueue_entry (Entry_new 7 0 (db_spec ''f'')) one_node_shard = (Inr (), queued_shard)"
      using queued_shard_steps(2) by (simp add: queued_shard_def Shard_enqueue_def prod_eq_iff)
  qed
  ultimately show ?thesis by (rule shard_next)
qed

theorem attempt_loses_no_request_witness:
  "attempt_outcome 3 11 (fst (run_attempt queued_shard)) queued_shard (snd (run_attempt queued_shard))
   \<and> is_ok (fst (run_attempt queued_shard))
   \<and> accounts (sh_nodes (snd (run_attempt queued_shard))) (sh_assigned (snd (run_attempt queued_shard)))"
proof -
  obtain res s where run: "run_attempt queued_shard = (res, s)" by fastforce
  from attempt_loses_no_request [OF queued_shard_reach run] attempted_shard(1) show ?thesis by (simp add: run)
qed

theorem shard_books_balance_witness:
  "\<exists>st a. map_of (sh_nodes (snd (run_attempt queued_shard))) ''n1'' = Some st \<and> scalar_held st ''f'' \<noteq> None
     \<and> Shard_assignment ''f'' (snd (run_attempt queued_shard)) = Some a \<and> as_node_id a = ''n1''"
proof -
  have reach: "shard_reach plain_framework (snd (run_attempt queued_shard))"
    by (rule shard_next [OF queued_shard_reach step_attempt]) (rule prod.collapse [symmetric])
  obtain st where st: "map_of (sh_nodes (snd (run_attempt queued_shard))) ''n1'' = Some st" "scalar_held st ''f'' \<noteq> None"
    using attempted_shard(2) by blast
  from shard_books_balance [OF reach st(1), of "''f''"] st(2) have
    "\<exists>a. Shard_assignment ''f'' (snd (run_attempt queued_shard)) = Some a \<and> as_node_id a = ''n1''" by blast
  with st show ?thesis by blast
qed

end
