(* ===== verification/Coordinator.thy ===== *)
theory Coordinator
  imports Shard_Invariant
begin

text \<open>
  The coordinator (\<^verbatim>\<open>platform/coordinator/src/lib.rs\<close>): it routes nodes and requests to shards,
  publishes every placement in the cluster snapshot, records every changed node in the journal and
  wakes the shards with waiting requests.

  \<^item> \<open>now\<close> is the instant at which requests are validated, \<open>millis\<close> the wall clock of a new ticket.
  \<^item> A round asks two questions of the outside: whether its time is over and, when a generation
    source is installed, which generation to use. Both are functions of the number of attempts made.
  \<^item> Indexing \<^verbatim>\<open>self.shards\<close> out of range is a panic; \<^verbatim>\<open>self.shards.get_mut\<close> out of range is the
    error \<open>NotFound\<close>.
\<close>

section \<open>State\<close>

record round_outcome =
  ro_assignments :: "assignment list"
  ro_attempted :: nat
  ro_yielded :: bool
  ro_snapshot_revision :: u64
  ro_error :: "error option"

definition RoundOutcome_default :: round_outcome where
  "RoundOutcome_default =
     \<lparr>ro_assignments = [], ro_attempted = 0, ro_yielded = False, ro_snapshot_revision = 0, ro_error = None\<rparr>"

record coordinator =
  co_shards :: "shard list"
  co_node_shards :: "(string, nat) omap"
  co_requests :: "(string, nat \<times> environment_spec) omap"
  co_recovery_requests :: "string oset"
  co_next_shard :: nat
  co_next_node_shard :: nat
  co_generation :: u64
  co_config :: scheduler_config
  co_snapshot :: cluster
  co_journal :: journal
  co_ready :: "nat list"
  co_retired :: "string oset"
  co_volume_placement :: "(string, volume_placement) omap"

record pending_request =
  pr_spec :: environment_spec
  pr_enqueue_time_millis :: u64

definition with_framework_config :: "nat \<Rightarrow> framework \<Rightarrow> scheduler_config \<Rightarrow> coordinator result" where
  "with_framework_config shard_count fw cfg =
     (if max_attempts cfg = 0 \<or> max_duration cfg = 0 \<or> mutation_history cfg = 0
      then Inl (Invalid ''round and journal limits must be positive'')
      else if shard_count = 0 then Inl (Invalid ''shard count must be positive'')
      else Inr \<lparr>co_shards = replicate shard_count (Shard_new fw), co_node_shards = [], co_requests = [],
                co_recovery_requests = [], co_next_shard = 0, co_next_node_shard = 0, co_generation = 0,
                co_config = cfg, co_snapshot = cluster_default,
                co_journal = MutationJournal_new (mutation_history cfg), co_ready = [], co_retired = [],
                co_volume_placement = []\<rparr>)"

definition with_framework :: "nat \<Rightarrow> framework \<Rightarrow> coordinator result" where
  "with_framework shard_count fw = with_framework_config shard_count fw SchedulerConfig_default"

definition with_config :: "nat \<Rightarrow> placement \<Rightarrow> scheduler_config \<Rightarrow> coordinator result" where
  "with_config shard_count placement cfg =
     bindE (Framework_builtin placement) (\<lambda>fw. with_framework_config shard_count fw cfg)"

definition Coordinator_new :: "nat \<Rightarrow> placement \<Rightarrow> coordinator result" where
  "Coordinator_new shard_count placement =
     bindE (Framework_builtin placement) (with_framework shard_count)"

section \<open>Waking shards\<close>

definition wake :: "nat \<Rightarrow> coordinator \<Rightarrow> coordinator" where
  "wake k c = (if k \<in> set (co_ready c) then c else c\<lparr>co_ready := co_ready c @ [k]\<rparr>)"

definition wake_pending :: "nat option \<Rightarrow> coordinator \<Rightarrow> coordinator" where
  "wake_pending exclude c =
     fold (\<lambda>k c. if Some k \<noteq> exclude \<and> Shard_pending (co_shards c ! k) > 0 then wake k c else c)
       [0..<length (co_shards c)] c"

definition take_ready_shard :: "coordinator \<Rightarrow> nat option \<times> coordinator" where
  "take_ready_shard c =
     (case co_ready c of [] \<Rightarrow> (None, c) | k # ks \<Rightarrow> (Some k, c\<lparr>co_ready := ks\<rparr>))"

text \<open>An operation on one shard; the error stands for a shard number out of range.\<close>

definition on_shard :: "error \<Rightarrow> nat \<Rightarrow> (shard, 'a) op \<Rightarrow> (coordinator, 'a) op" where
  "on_shard missing k m c =
     (if k < length (co_shards c)
      then zoom (\<lambda>c. co_shards c ! k) (\<lambda>s c. c\<lparr>co_shards := (co_shards c)[k := s]\<rparr>) m c
      else (Inl missing, c))"

abbreviation out_of_bounds :: error where
  "out_of_bounds \<equiv> Panic ''index out of bounds''"

fun each_shard :: "(shard, unit) op \<Rightarrow> nat list \<Rightarrow> (coordinator, unit) op" where
  "each_shard m [] c = (Inr (), c)"
| "each_shard m (k # ks) c = bindS (on_shard out_of_bounds k m) (\<lambda>_. each_shard m ks) c"

definition forget_everywhere :: "string \<Rightarrow> (coordinator, unit) op" where
  "forget_everywhere i c = each_shard (Shard_forget_queued i) [0..<length (co_shards c)] c"

text \<open>Every change of a node is recorded before the shards are woken.\<close>

definition record_and_wake :: "string \<Rightarrow> nat option \<Rightarrow> (coordinator, unit) op" where
  "record_and_wake i exclude =
     bindS (zoom co_journal (\<lambda>j c. c\<lparr>co_journal := j\<rparr>) (Journal_record i)) (\<lambda>_ c.
     (Inr (), wake_pending exclude c))"

section \<open>Nodes\<close>

definition Coordinator_forget_node :: "string \<Rightarrow> (coordinator, unit) op" where
  "Coordinator_forget_node i c =
     (case map_of (co_node_shards c) i of
        None \<Rightarrow> (Inr (), c)
      | Some k \<Rightarrow>
          bindS (on_shard out_of_bounds k (Shard_forget_node i)) (\<lambda>_ c1.
          record_and_wake i None
            (c1\<lparr>co_node_shards := om_del i (co_node_shards c1), co_snapshot := remove_node i (co_snapshot c1)\<rparr>)) c)"

text \<open>\<open>min_by_key\<close>: the first of the elements with the least key.\<close>

fun min_by_key :: "('a \<Rightarrow> nat) \<Rightarrow> 'a list \<Rightarrow> 'a option" where
  "min_by_key key [] = None"
| "min_by_key key (x # xs) =
     (case min_by_key key xs of None \<Rightarrow> Some x | Some y \<Rightarrow> if key y < key x then Some y else Some x)"

definition rotation :: "nat \<Rightarrow> nat \<Rightarrow> nat list" where
  "rotation from n = map (\<lambda>offset. (from + offset) mod n) [0..<n]"

definition choose_node_shard :: "string \<Rightarrow> (coordinator, nat) op" where
  "choose_node_shard i c =
     (case map_of (co_node_shards c) i of
        Some k \<Rightarrow> (Inr k, c)
      | None \<Rightarrow>
          (case min_by_key (\<lambda>k. Shard_node_count (co_shards c ! k))
                  (rotation (co_next_node_shard c) (length (co_shards c))) of
             None \<Rightarrow> (Inl (Panic ''Coordinator is constructed with at least one scheduling shard''), c)
           | Some k \<Rightarrow>
               (Inr k, c\<lparr>co_next_node_shard := (k + 1) mod length (co_shards c),
                         co_node_shards := om_put i k (co_node_shards c)\<rparr>)))"

definition Coordinator_register :: "node \<Rightarrow> (coordinator, nat) op" where
  "Coordinator_register n c =
     (if blank (node_id n) then (Inl (Invalid ''node id is required''), c)
      else case Node_validate n of
        Inl e \<Rightarrow> (Inl e, c)
      | Inr _ \<Rightarrow>
          bindS (choose_node_shard (node_id n)) (\<lambda>k.
          bindS (on_shard out_of_bounds k (Shard_register n)) (\<lambda>_ c2.
          bindS (record_and_wake (node_id n) None) (\<lambda>_. returnS k)
            (c2\<lparr>co_snapshot := update_node n (co_snapshot c2)\<rparr>))) c)"

definition register_at :: "node \<Rightarrow> nat \<Rightarrow> (coordinator, nat) op" where
  "register_at n k c =
     (if k \<ge> length (co_shards c) \<or> is_some_and (\<lambda>old. old \<noteq> k) (map_of (co_node_shards c) (node_id n))
      then (Inl Conflict, c)
      else Coordinator_register n (c\<lparr>co_node_shards := om_put (node_id n) k (co_node_shards c)\<rparr>))"

definition Coordinator_reconsider_node :: "string \<Rightarrow> coordinator \<Rightarrow> coordinator" where
  "Coordinator_reconsider_node i c =
     wake_pending None (c\<lparr>co_shards := map (Shard_reconsider_node i) (co_shards c)\<rparr>)"

section \<open>Requests\<close>

fun candidate_shard_loop ::
  "int \<Rightarrow> environment_spec \<Rightarrow> string oset \<Rightarrow> nat option \<Rightarrow> nat list \<Rightarrow> (u64 \<times> string \<times> nat) option
     \<Rightarrow> (coordinator, nat option) op" where
  "candidate_shard_loop now r excluded skip [] best c = (Inr (map_option (\<lambda>(_, _, k). k) best), c)"
| "candidate_shard_loop now r excluded skip (k # ks) best c =
     (if skip = Some k then candidate_shard_loop now r excluded skip ks best c
      else bindS (on_shard out_of_bounds k
               (Shard_best_candidate now r (co_snapshot c) excluded (map_of (co_volume_placement c) (spec_id r))))
             (\<lambda>found. candidate_shard_loop now r excluded skip ks
               (case found of
                  None \<Rightarrow> best
                | Some (score, i) \<Rightarrow>
                    if is_none_or (\<lambda>(old, old_node, _). score > old \<or> score = old \<and> i < old_node) best
                    then Some (score, i, k) else best)) c)"

definition candidate_shard ::
  "int \<Rightarrow> environment_spec \<Rightarrow> string oset \<Rightarrow> nat option \<Rightarrow> (coordinator, nat option) op" where
  "candidate_shard now r excluded skip c =
     candidate_shard_loop now r excluded skip [0..<length (co_shards c)] None c"

definition rotate_shard :: "nat option \<Rightarrow> (coordinator, nat) op" where
  "rotate_shard preferred c =
     (case preferred of
        Some k \<Rightarrow> (Inr k, c)
      | None \<Rightarrow> (Inr (co_next_shard c), c\<lparr>co_next_shard := (co_next_shard c + 1) mod length (co_shards c)\<rparr>))"

definition submit :: "int \<Rightarrow> u64 \<Rightarrow> environment_spec \<Rightarrow> (coordinator, nat) op" where
  "submit now millis r c =
     (case EnvironmentSpec_validate now r of
        Inl e \<Rightarrow> (Inl e, c)
      | Inr _ \<Rightarrow>
          if spec_id r \<in> set (co_retired c) then (Inl Conflict, c)
          else case map_of (co_requests c) (spec_id r) of
            Some (k, existing) \<Rightarrow> (if existing = r then Inr k else Inl Conflict, c)
          | None \<Rightarrow>
              bindS (if spec_snapshot_id r \<noteq> None then candidate_shard now r [] None else returnS None) (\<lambda>preferred.
              bindS (rotate_shard preferred) (\<lambda>k c2.
              bindS (on_shard out_of_bounds k (Shard_enqueue millis r)) (\<lambda>_ c3. (Inr k, wake k c3))
                (c2\<lparr>co_requests := om_put (spec_id r) (k, r) (co_requests c2)\<rparr>))) c)"

definition live_shard :: "coordinator \<Rightarrow> nat \<Rightarrow> bool" where
  "live_shard c k =
     list_ex (\<lambda>(_, n). node_available n \<and> map_of (co_node_shards c) (node_id n) = Some k) (cl_nodes (co_snapshot c))"

definition submit_recovery :: "int \<Rightarrow> u64 \<Rightarrow> environment_spec \<Rightarrow> (coordinator, nat) op" where
  "submit_recovery now millis r c =
     (let c1 = c\<lparr>co_retired := os_remove (spec_id r) (co_retired c)\<rparr>;
          c2 = (if om_has (spec_id r) (co_requests c1) then c1
                else case find (live_shard c1) (rotation (co_next_shard c1) (length (co_shards c1))) of
                  None \<Rightarrow> c1
                | Some k \<Rightarrow> c1\<lparr>co_next_shard := k\<rparr>)
      in bindS (submit now millis r) (\<lambda>k c3.
           (Inr k, c3\<lparr>co_recovery_requests := os_insert (spec_id r) (co_recovery_requests c3)\<rparr>)) c2)"

definition shard_assignment :: "coordinator \<Rightarrow> nat \<Rightarrow> string \<Rightarrow> assignment option result" where
  "shard_assignment c k i =
     (if k < length (co_shards c) then Inr (Shard_assignment i (co_shards c ! k)) else Inl out_of_bounds)"

definition finish_recovery_placement :: "int \<Rightarrow> environment_spec \<Rightarrow> assignment \<Rightarrow> (coordinator, unit) op" where
  "finish_recovery_placement now r a c =
     (case EnvironmentSpec_validate now r of
        Inl e \<Rightarrow> (Inl e, c)
      | Inr _ \<Rightarrow>
          (case map_of (co_requests c) (spec_id r) of
             None \<Rightarrow> (Inl Conflict, c)
           | Some (k, queued) \<Rightarrow>
               if k \<noteq> as_shard_id a then (Inl Conflict, c)
               else case shard_assignment c k (spec_id r) of
                 Inl e \<Rightarrow> (Inl e, c)
               | Inr owned \<Rightarrow>
                   let canonical = queued\<lparr>spec_scheduling :=
                         (spec_scheduling queued)\<lparr>sp_required_node := sp_required_node (spec_scheduling r)\<rparr>\<rparr> in
                   if owned \<noteq> Some a \<or> canonical \<noteq> r then (Inl Conflict, c)
                   else record_and_wake (as_node_id a) None
                     (c\<lparr>co_requests := om_put (spec_id r) (k, canonical) (co_requests c),
                        co_snapshot := place \<lparr>pe_spec = r, pe_node_id = as_node_id a\<rparr> (co_snapshot c)\<rparr>)))"

text \<open>A request whose shard has no room is deferred there, or moved to a shard that has a candidate.\<close>

definition defer_or_transfer :: "int \<Rightarrow> nat \<Rightarrow> entry \<Rightarrow> (coordinator, unit) op" where
  "defer_or_transfer now k e c =
     (let i = spec_id (en_spec e); defer = on_shard out_of_bounds k (Shard_defer e) in
      if spec_snapshot_id (en_spec e) = None \<and> \<not> om_has i (co_volume_placement c) then defer c
      else if k \<ge> length (co_shards c) then (Inl out_of_bounds, c)
      else
        let excluded = Shard_exclusions i (co_shards c ! k) in
        (case candidate_shard now (en_spec e) excluded (Some k) c of
           (Inl err, c1) \<Rightarrow> if is_panic err then (Inl err, c1) else bindS defer (\<lambda>_. raiseS err) c1
         | (Inr None, c1) \<Rightarrow> defer c1
         | (Inr (Some target), c1) \<Rightarrow>
             (case map_of (co_requests c1) i of
                None \<Rightarrow> bindS defer (\<lambda>_. raiseS Conflict) c1
              | Some (_, r) \<Rightarrow>
                  bindS (on_shard out_of_bounds k (Shard_forget_queued i)) (\<lambda>_.
                  bindS (on_shard out_of_bounds target (Shard_accept_transfer e excluded)) (\<lambda>_ c2.
                  (Inr (), wake target c2)))
                    (c1\<lparr>co_requests := om_put i (target, r) (co_requests c1)\<rparr>))))"

definition set_volume_placement :: "string \<Rightarrow> volume_placement \<Rightarrow> coordinator \<Rightarrow> coordinator" where
  "set_volume_placement i p c =
     (let c1 = c\<lparr>co_volume_placement := om_put i p (co_volume_placement c)\<rparr> in
      case map_of (co_requests c1) i of None \<Rightarrow> c1 | Some (k, _) \<Rightarrow> wake k c1)"

fun diagnose_shards ::
  "int \<Rightarrow> environment_spec \<Rightarrow> cluster \<Rightarrow> volume_placement option \<Rightarrow> shard list \<Rightarrow> scheduling_failure
     \<Rightarrow> scheduling_failure result" where
  "diagnose_shards now r cl placement [] f = Inr f"
| "diagnose_shards now r cl placement (s # ss) f =
     bindE (Shard_diagnose now r cl placement s f) (diagnose_shards now r cl placement ss)"

definition scheduling_failure_of :: "int \<Rightarrow> environment_spec \<Rightarrow> coordinator \<Rightarrow> scheduling_failure result" where
  "scheduling_failure_of now r c =
     bindE (EnvironmentSpec_validate now r) (\<lambda>_.
     bindE (diagnose_shards now r (co_snapshot c) (map_of (co_volume_placement c) (spec_id r)) (co_shards c)
              \<lparr>sf_snapshot_revision = cl_revision (co_snapshot c), sf_node_count = 0, sf_eligible_nodes = 0,
               sf_requested = spec_resources r, sf_max_capacity = Resources_default,
               sf_max_available = Resources_default, sf_rejections = []\<rparr>) (\<lambda>f.
     Inr (if sf_node_count f = 0 then f\<lparr>sf_rejections := om_put ''no_workers'' 1 (sf_rejections f)\<rparr> else f)))"

definition cancel_pending :: "string \<Rightarrow> (coordinator, bool) op" where
  "cancel_pending i c =
     (case map_of (co_requests c) i of
        None \<Rightarrow> (Inr False, c)
      | Some (k, _) \<Rightarrow>
          (case shard_assignment c k i of
             Inl e \<Rightarrow> (Inl e, c)
           | Inr (Some _) \<Rightarrow> (Inr False, c)
           | Inr None \<Rightarrow>
               bindS (forget_everywhere i) (\<lambda>_ c1.
               (Inr True, c1\<lparr>co_requests := om_del i (co_requests c1),
                             co_recovery_requests := os_remove i (co_recovery_requests c1),
                             co_volume_placement := om_del i (co_volume_placement c1)\<rparr>)) c))"

section \<open>Assignments\<close>

definition Coordinator_release :: "assignment \<Rightarrow> (coordinator, unit) op" where
  "Coordinator_release a =
     bindS (on_shard NotFound (as_shard_id a) (Shard_release a)) (\<lambda>_ c.
     record_and_wake (as_node_id a) None
       (c\<lparr>co_requests := om_del (as_environment_id a) (co_requests c),
          co_recovery_requests := os_remove (as_environment_id a) (co_recovery_requests c),
          co_snapshot := remove (as_environment_id a) (co_snapshot c)\<rparr>))"

definition restore_assignment :: "environment_spec \<Rightarrow> assignment \<Rightarrow> (coordinator, unit) op" where
  "restore_assignment r a c =
     (if om_has (spec_id r) (co_requests c) \<or> map_of (co_node_shards c) (as_node_id a) \<noteq> Some (as_shard_id a)
      then (Inl Conflict, c)
      else bindS (on_shard NotFound (as_shard_id a) (Shard_restore r a)) (\<lambda>_ c1.
           record_and_wake (as_node_id a) None
             (c1\<lparr>co_requests := om_put (spec_id r) (as_shard_id a, r) (co_requests c1),
                 co_snapshot := place \<lparr>pe_spec = r, pe_node_id = as_node_id a\<rparr> (co_snapshot c1),
                 co_retired := os_remove (spec_id r) (co_retired c1)\<rparr>)) c)"

definition raise_generation :: "u64 \<Rightarrow> coordinator \<Rightarrow> coordinator" where
  "raise_generation g c = c\<lparr>co_generation := max (co_generation c) g\<rparr>"

text \<open>Dropping every trace of a request that is not assigned.\<close>

definition drop_request :: "string \<Rightarrow> (coordinator, unit) op" where
  "drop_request i =
     bindS (forget_everywhere i) (\<lambda>_ c.
     (Inr (), c\<lparr>co_requests := om_del i (co_requests c),
                co_recovery_requests := os_remove i (co_recovery_requests c)\<rparr>))"

definition take_over :: "environment_spec \<Rightarrow> assignment \<Rightarrow> (coordinator, unit) op" where
  "take_over r a =
     bindS (drop_request (spec_id r)) (\<lambda>_.
     bindS (restore_assignment r a) (\<lambda>_ c. (Inr (), raise_generation (as_generation a) c)))"

definition accept_claim :: "int \<Rightarrow> environment_spec \<Rightarrow> assignment \<Rightarrow> (coordinator, unit) op" where
  "accept_claim now r a c =
     (case EnvironmentSpec_validate now r of
        Inl e \<Rightarrow> (Inl e, c)
      | Inr _ \<Rightarrow>
          if as_environment_id a \<noteq> spec_id r \<or> as_generation a = 0
             \<or> map_of (co_node_shards c) (as_node_id a) \<noteq> Some (as_shard_id a)
          then (Inl Conflict, c)
          else case map_of (co_requests c) (spec_id r) of
            None \<Rightarrow> take_over r a c
          | Some (k, existing) \<Rightarrow>
              if existing \<noteq> r then (Inl Conflict, c)
              else (case shard_assignment c k (spec_id r) of
                      Inl e \<Rightarrow> (Inl e, c)
                    | Inr None \<Rightarrow> take_over r a c
                    | Inr (Some old) \<Rightarrow>
                        if old = a then (Inr (), raise_generation (as_generation a) c)
                        else bindS (Coordinator_release old) (\<lambda>_. take_over r a) c))"

definition retire_claim :: "string \<Rightarrow> (coordinator, unit) op" where
  "retire_claim i c =
     (let owned = (case map_of (co_requests c) i of
                    None \<Rightarrow> Inr None
                  | Some (k, _) \<Rightarrow> shard_assignment c k i)
      in case owned of
           Inl e \<Rightarrow> (Inl e, c)
         | Inr old \<Rightarrow>
             bindS (case old of None \<Rightarrow> returnS () | Some a \<Rightarrow> Coordinator_release a) (\<lambda>_.
             bindS (drop_request i) (\<lambda>_ c1.
             (Inr (), c1\<lparr>co_retired := os_insert i (co_retired c1)\<rparr>))) c)"

definition forget_deleted :: "string \<Rightarrow> (coordinator, unit) op" where
  "forget_deleted i c =
     bindS (if i \<in> set (co_recovery_requests c) then retire_claim i else returnS ()) (\<lambda>_ c1.
     if om_has i (co_requests c1) \<or> om_has i (cl_environments (co_snapshot c1)) then (Inl Conflict, c1)
     else (Inr (), c1\<lparr>co_retired := os_remove i (co_retired c1)\<rparr>)) c"

definition Coordinator_retry :: "u64 \<Rightarrow> assignment \<Rightarrow> (coordinator, unit) op" where
  "Coordinator_retry millis a c =
     (case map_of (co_requests c) (as_environment_id a) of
        None \<Rightarrow> (Inl NotFound, c)
      | Some (_, r) \<Rightarrow>
          bindS (on_shard NotFound (as_shard_id a) (Shard_retry millis a r)) (\<lambda>_ c1.
          record_and_wake (as_node_id a) None
            (c1\<lparr>co_snapshot := remove (as_environment_id a) (co_snapshot c1)\<rparr>)) c)"

section \<open>Queries\<close>

definition Coordinator_local_candidate ::
  "int \<Rightarrow> environment_spec \<Rightarrow> string \<Rightarrow> device_allocation list \<Rightarrow> coordinator \<Rightarrow> bool result" where
  "Coordinator_local_candidate now r n devices c =
     (if is_some_and (\<lambda>p. \<not> VolumePlacement_allows p n) (map_of (co_volume_placement c) (spec_id r)) then Inr False
      else case map_of (co_node_shards c) n of
        None \<Rightarrow> Inr False
      | Some k \<Rightarrow>
          if k < length (co_shards c) then Shard_local_candidate now r n devices (co_snapshot c) (co_shards c ! k)
          else Inl out_of_bounds)"

definition shard_get :: "coordinator \<Rightarrow> nat \<Rightarrow> shard option" where
  "shard_get c k = (if k < length (co_shards c) then Some (co_shards c ! k) else None)"

definition Coordinator_node_resources :: "string \<Rightarrow> coordinator \<Rightarrow> (resources \<times> resources) option" where
  "Coordinator_node_resources i c =
     Option.bind (map_of (co_node_shards c) i) (\<lambda>k. Option.bind (shard_get c k) (Shard_node_resources i))"

definition Coordinator_node_devices :: "string \<Rightarrow> coordinator \<Rightarrow> (device list \<times> device list) option" where
  "Coordinator_node_devices i c =
     Option.bind (map_of (co_node_shards c) i) (\<lambda>k. Option.bind (shard_get c k) (Shard_node_devices i))"

definition Coordinator_pending :: "nat \<Rightarrow> coordinator \<Rightarrow> nat result" where
  "Coordinator_pending k c = ok_or (map_option Shard_pending (shard_get c k)) NotFound"

definition Coordinator_stats :: "nat \<Rightarrow> coordinator \<Rightarrow> scheduling_stats result" where
  "Coordinator_stats k c = ok_or (map_option sh_stats (shard_get c k)) NotFound"

definition Coordinator_pending_requests :: "coordinator \<Rightarrow> pending_request list" where
  "Coordinator_pending_requests c =
     sort_key (\<lambda>p. (pr_enqueue_time_millis p, spec_id (pr_spec p)))
       (map (\<lambda>e. \<lparr>pr_spec = en_spec e, pr_enqueue_time_millis = en_time e\<rparr>)
         (concat (map Shard_pending_requests (co_shards c))))"

section \<open>Rounds\<close>

definition next_generation :: "(nat \<Rightarrow> u64 result) option \<Rightarrow> nat \<Rightarrow> coordinator \<Rightarrow> u64 result" where
  "next_generation source attempted c =
     (case source of
        Some call \<Rightarrow> call attempted
      | None \<Rightarrow> ok_or (checked_add (co_generation c) 1) Conflict)"

definition publish :: "nat \<Rightarrow> u64 \<Rightarrow> assignment \<Rightarrow> environment_spec \<Rightarrow> (coordinator, unit) op" where
  "publish k g a r c =
     record_and_wake (as_node_id a) (Some k)
       (c\<lparr>co_generation := g,
          co_snapshot := place \<lparr>pe_spec = r, pe_node_id = as_node_id a\<rparr> (co_snapshot c)\<rparr>)"

text \<open>One attempt of a round: the outcome so far and whether the round goes on.\<close>

definition round_step ::
  "int \<Rightarrow> nat \<Rightarrow> u64 \<Rightarrow> round_outcome \<Rightarrow> (coordinator, bool \<times> round_outcome) op" where
  "round_step now k g out c =
     (let out1 = out\<lparr>ro_attempted := ro_attempted out + 1\<rparr>;
          stop = (\<lambda>err c. if is_panic err then (Inl err, c) else (Inr (False, out1\<lparr>ro_error := Some err\<rparr>), c))
      in case on_shard out_of_bounds k
                (Shard_attempt now k g (co_snapshot c) (co_journal c) (co_config c) (co_volume_placement c)) c of
           (Inl err, c1) \<Rightarrow> stop err c1
         | (Inr Empty, c1) \<Rightarrow> (Inr (True, out1), c1)
         | (Inr (Deferred e), c1) \<Rightarrow>
             (case defer_or_transfer now k e c1 of
                (Inl err, c2) \<Rightarrow> stop err c2
              | (Inr _, c2) \<Rightarrow> (Inr (True, out1), c2))
         | (Inr (Assigned a r), c1) \<Rightarrow>
             bindS (publish k g a r) (\<lambda>_. returnS (True, out1\<lparr>ro_assignments := ro_assignments out1 @ [a]\<rparr>)) c1)"

lemma round_step_attempted:
  "round_step now k g out c = (Inr (goes_on, out1), c1) \<Longrightarrow> ro_attempted out1 = ro_attempted out + 1"
  by (auto simp: round_step_def Let_def bindS_def split: prod.splits sum.splits attempt.splits if_splits)

function round_loop ::
  "int \<Rightarrow> nat \<Rightarrow> (nat \<Rightarrow> bool) \<Rightarrow> (nat \<Rightarrow> u64 result) option \<Rightarrow> scheduler_config \<Rightarrow> nat \<Rightarrow> round_outcome
     \<Rightarrow> (coordinator, round_outcome) op" where
  "round_loop now limit timed_out source cfg k out c =
     (if k \<ge> length (co_shards c) then (Inl out_of_bounds, c)
      else if \<not> Shard_remaining_sweep (co_shards c ! k) then (Inr out, c)
      else if ro_attempted out \<ge> max_attempts cfg \<or> length (ro_assignments out) \<ge> limit
              \<or> timed_out (ro_attempted out)
      then (Inr (out\<lparr>ro_yielded := True\<rparr>), c)
      else case next_generation source (ro_attempted out) c of
        Inl err \<Rightarrow> if is_panic err then (Inl err, c) else (Inr (out\<lparr>ro_error := Some err\<rparr>), c)
      | Inr g \<Rightarrow>
          (case round_step now k g out c of
             (Inl err, c1) \<Rightarrow> (Inl err, c1)
           | (Inr (goes_on, out1), c1) \<Rightarrow>
               if goes_on then round_loop now limit timed_out source cfg k out1 c1
               else (Inr out1, c1)))"
  by pat_completeness auto
termination
  by (relation "measure (\<lambda>(_, _, _, _, cfg, _, out, _). max_attempts cfg - ro_attempted out)")
     (auto dest!: round_step_attempted [OF sym])

declare round_loop.simps [simp del]

definition run_round ::
  "int \<Rightarrow> (nat \<Rightarrow> bool) \<Rightarrow> (nat \<Rightarrow> u64 result) option \<Rightarrow> nat \<Rightarrow> nat \<Rightarrow> (coordinator, round_outcome) op" where
  "run_round now timed_out source k limit c =
     (if k \<ge> length (co_shards c) then (Inl NotFound, c)
      else
        let c1 = c\<lparr>co_ready := filter (\<lambda>i. i \<noteq> k) (co_ready c),
                   co_shards := (co_shards c)[k := Shard_begin_round (co_shards c ! k)]\<rparr> in
        bindS (round_loop now limit timed_out source (co_config c) k
                 (RoundOutcome_default\<lparr>ro_snapshot_revision := cl_revision (co_snapshot c)\<rparr>)) (\<lambda>out c2.
        (Inr out,
         if ro_error out = None
            \<and> (ro_yielded out \<or> Shard_has_deferred_arrivals (co_shards c2 ! k)
                \<or> ro_assignments out \<noteq> [] \<and> Shard_pending (co_shards c2 ! k) > 0)
         then wake k c2 else c2)) c1)"

abbreviation usize_max :: nat where
  "usize_max \<equiv> 2 ^ 64 - 1"

definition schedule ::
  "int \<Rightarrow> (nat \<Rightarrow> bool) \<Rightarrow> (nat \<Rightarrow> u64 result) option \<Rightarrow> nat \<Rightarrow> (coordinator, assignment option) op" where
  "schedule now timed_out source k =
     bindS (run_round now timed_out source k 1) (\<lambda>out.
     case ro_error out of
       Some err \<Rightarrow> raiseS err
     | None \<Rightarrow> returnS (if ro_assignments out = [] then None else Some (last (ro_assignments out))))"

definition schedule_round ::
  "int \<Rightarrow> (nat \<Rightarrow> bool) \<Rightarrow> (nat \<Rightarrow> u64 result) option \<Rightarrow> nat \<Rightarrow> (coordinator, round_outcome) op" where
  "schedule_round now timed_out source k = run_round now timed_out source k usize_max"

end
