(* ===== verification/Shard_View.thy ===== *)
theory Shard_View
  imports Shard_Invariant
begin

text \<open>
  What the coordinator sees of a shard: for every Environment the requests waiting under its
  identity and its assignment, and for every node its registered description. Each operation of
  the shard changes the view of one identity at most.
\<close>

definition view :: "shard \<Rightarrow> string \<Rightarrow> environment_spec set \<times> assignment option" where
  "view s i = ({en_spec e | e. e \<in># waiting s \<and> spec_id (en_spec e) = i}, map_of (sh_assigned s) i)"

abbreviation absent :: "environment_spec set \<times> assignment option" where
  "absent \<equiv> ({}, None)"

definition nodes_of :: "shard \<Rightarrow> string \<Rightarrow> node option" where
  "nodes_of s i = map_option ns_node (map_of (sh_nodes s) i)"

lemma unknown_view: "unknown i s \<longleftrightarrow> view s i = absent"
  by (auto simp: unknown_waiting view_def)

lemma view_cong: "waiting s' = waiting s \<Longrightarrow> sh_assigned s' = sh_assigned s \<Longrightarrow> view s' = view s"
  by (rule ext) (simp add: view_def)

lemma view_add:
  assumes "waiting s' = add_mset e (waiting s)" "sh_assigned s' = sh_assigned s"
  shows "view s' = (view s)(spec_id (en_spec e) :=
    (insert (en_spec e) (fst (view s (spec_id (en_spec e)))), snd (view s (spec_id (en_spec e)))))"
  unfolding view_def assms by (rule ext) auto

lemma waiting_distinct:
  assumes "shard_inv s" "waiting s = add_mset e W" "x \<in># W"
  shows "spec_id (en_spec x) \<noteq> spec_id (en_spec e)"
proof -
  obtain ys where ys: "mset ys = W" using ex_mset by blast
  with assms(2) have "mset (Shard_pending_requests s) = mset (e # ys)" by simp
  note facts = distinct_map_mset [OF this, of "\<lambda>e. spec_id (en_spec e)"]
  have "distinct (map (\<lambda>e. spec_id (en_spec e)) (e # ys))"
    using facts assms(1) by (simp add: shard_inv_def tickets_ok_def)
  moreover have "x \<in> set ys" using assms(3) ys by auto
  ultimately show ?thesis by (metis (no_types, lifting) distinct.simps(2) image_eqI list.simps(9) set_map)
qed

lemma waiting_not_assigned:
  "shard_inv s \<Longrightarrow> e \<in># waiting s \<Longrightarrow> map_of (sh_assigned s) (spec_id (en_spec e)) = None"
  by (simp add: shard_inv_def tickets_ok_def)

lemma view_of_waiting:
  assumes "shard_inv s" "waiting s = add_mset e W"
  shows "view s (spec_id (en_spec e)) = ({en_spec e}, None)"
proof -
  have "map_of (sh_assigned s) (spec_id (en_spec e)) = None"
    by (rule waiting_not_assigned [OF assms(1)]) (simp add: assms(2))
  with waiting_distinct [OF assms] show ?thesis unfolding view_def assms(2) by auto
qed

lemma view_of_assigned:
  assumes "shard_inv s" "map_of (sh_assigned s) i = Some a"
  shows "view s i = ({}, Some a)"
  using waiting_not_assigned [OF assms(1)] assms(2) unfolding view_def by auto

text \<open>Taking an entry out of the queue makes its identity absent.\<close>

lemma view_remove:
  assumes "shard_inv s" "waiting s = add_mset e (waiting s')" "sh_assigned s' = sh_assigned s"
  shows "view s' = (view s)(spec_id (en_spec e) := absent)"
proof -
  have "map_of (sh_assigned s) (spec_id (en_spec e)) = None"
    by (rule waiting_not_assigned [OF assms(1)]) (simp add: assms(2))
  with waiting_distinct [OF assms(1,2)] show ?thesis
    unfolding view_def assms(2,3) by (intro ext) (auto simp del: set_mset_mset)
qed

lemma view_assigned:
  assumes "waiting s' = waiting s" "sh_assigned s' = om_put i a (sh_assigned s)"
  shows "view s' = (view s)(i := (fst (view s i), Some a))"
  unfolding view_def assms by (rule ext) auto

lemma view_unassigned:
  assumes "waiting s' = waiting s" "sh_assigned s' = om_del i (sh_assigned s)"
  shows "view s' = (view s)(i := (fst (view s i), None))"
  unfolding view_def assms by (rule ext) auto

section \<open>The view after each operation\<close>

lemma begin_round_view: "view (Shard_begin_round s) = view s"
  by (rule view_cong) (simp_all add: begin_round_books)

lemma reconsider_view: "view (Shard_reconsider_node n s) = view s"
  by (rule view_cong) (simp_all add: Shard_reconsider_node_def)

lemma register_view: "shard_inv s \<Longrightarrow> Shard_register n s = (res, s') \<Longrightarrow> view s' = view s"
  by (rule view_cong) (rule register_inv, assumption+)+

lemma forget_node_view: "shard_inv s \<Longrightarrow> Shard_forget_node n s = (res, s') \<Longrightarrow> view s' = view s"
  by (rule view_cong) (rule forget_node_inv, assumption+)+

lemma best_candidate_view:
  assumes "Shard_best_candidate now r cl excluded placement s = (res, s')"
  shows "same_books s s'" "view s' = view s"
proof -
  show books: "same_books s s'" using best_candidate_frame [OF assms] by simp
  show "view s' = view s"
    by (rule view_cong) (use same_books_waiting [OF books] books in \<open>simp_all add: same_books_def\<close>)
qed

lemma enqueue_entry_view:
  assumes "shard_inv s" "view s (spec_id (en_spec e)) = absent" "Shard_enqueue_entry e s = (Inr (), s')"
  shows "view s' = (view s)(spec_id (en_spec e) := ({en_spec e}, None))"
  using view_add [OF enqueue_entry_inv(2,3) [OF assms(1) _ assms(3)]] assms(2) by (simp add: unknown_view)

lemma accept_transfer_view:
  assumes "shard_inv s" "view s (spec_id (en_spec e)) = absent" "Shard_accept_transfer e excluded s = (Inr (), s')"
  shows "view s' = (view s)(spec_id (en_spec e) := ({en_spec e}, None))"
  using view_add [OF accept_transfer_inv(2,3) [OF assms(1) _ assms(3)]] assms(2) by (simp add: unknown_view)

lemma defer_view:
  assumes "shard_inv s" "ticket_free e s"
  obtains s' where "Shard_defer e s = (Inr (), s')" "shard_inv s'" "sh_nodes s' = sh_nodes s"
    and "view s' = (view s)(spec_id (en_spec e) := ({en_spec e}, None))"
proof -
  from put_back(2) [OF assms] obtain s' where s': "Shard_defer e s = (Inr (), s')" "shard_inv s'"
    "waiting s' = add_mset e (waiting s)" "sh_assigned s' = sh_assigned s" "sh_nodes s' = sh_nodes s" by blast
  have "view s (spec_id (en_spec e)) = absent"
    using assms(2) by (auto simp: ticket_free_def view_def)
  with view_add [OF s'(3,4)] s' show thesis by (intro that [of s']) simp_all
qed

lemma forget_queued_view:
  assumes "shard_inv s"
  obtains s' where "Shard_forget_queued i s = (Inr (), s')" "shard_inv s'" "sh_nodes s' = sh_nodes s"
    and "view s' = (view s)(i := ({}, snd (view s i)))"
proof -
  from forget_queued_ok [OF assms, of i] obtain s' where s': "Shard_forget_queued i s = (Inr (), s')" "shard_inv s'"
    "waiting s' = filter_mset (other i) (waiting s)" "sh_assigned s' = sh_assigned s" "sh_nodes s' = sh_nodes s" .
  have "view s' = (view s)(i := ({}, snd (view s i)))"
    unfolding view_def s'(3,4) by (rule ext) (auto simp del: mset_filter)
  with s' show thesis by (intro that [of s']) simp_all
qed

lemma release_view:
  assumes "shard_inv s" "Shard_release a s = (Inr u, s')"
  shows "view s (as_environment_id a) = ({}, Some a)" "view s' = (view s)(as_environment_id a := absent)"
proof -
  have "map_of (sh_assigned s) (as_environment_id a) = Some a"
    using assms(2) by (auto simp: Shard_release_def Let_def split: if_splits)
  then show v: "view s (as_environment_id a) = ({}, Some a)" by (rule view_of_assigned [OF assms(1)])
  have "waiting s' = waiting s" "sh_assigned s' = om_del (as_environment_id a) (sh_assigned s)"
    using release_inv(2,4) [OF assms] by simp_all
  from view_unassigned [OF this] v show "view s' = (view s)(as_environment_id a := absent)" by simp
qed

lemma restore_view:
  assumes "shard_inv s" "view s (spec_id r) = absent" "as_environment_id a = spec_id r"
    and "Shard_restore r a s = (Inr u, s')"
  shows "shard_inv s'" "view s' = (view s)(spec_id r := ({}, Some a))"
proof -
  have "\<forall>e \<in># waiting s. spec_id (en_spec e) \<noteq> spec_id r" using assms(2) by (auto simp: view_def)
  note inv = restore_inv [OF assms(1,4,3) this]
  show "shard_inv s'" by (fact inv(1))
  have "waiting s' = waiting s" "sh_assigned s' = om_put (spec_id r) a (sh_assigned s)" using inv(2,4) by simp_all
  from view_assigned [OF this] assms(2) show "view s' = (view s)(spec_id r := ({}, Some a))" by simp
qed

lemma retry_view:
  assumes "shard_inv s" "as_environment_id a = spec_id r" "Shard_retry millis a r s = (Inr u, s')"
  shows "shard_inv s'" "view s (spec_id r) = ({}, Some a)" "view s' = (view s)(spec_id r := ({r}, None))"
proof -
  have "\<not> panicked (Inr u)" by (simp add: panicked_def)
  note inv = retry_inv [OF assms(1-3) this]
  have out: "map_of (sh_assigned s) (spec_id r) = Some a" "sh_assigned s' = om_del (spec_id r) (sh_assigned s)"
    "waiting s' = add_mset (Entry_new millis (sh_sequence s) r) (waiting s)"
    using inv(2) by simp_all
  show "shard_inv s'" by (fact inv(1))
  show v: "view s (spec_id r) = ({}, Some a)" by (rule view_of_assigned [OF assms(1) out(1)])
  let ?t = "s\<lparr>sh_assigned := om_del (spec_id r) (sh_assigned s)\<rparr>"
  have t: "waiting ?t = waiting s" by (simp add: Shard_pending_requests_def)
  have "view ?t = (view s)(spec_id r := (fst (view s (spec_id r)), None))" by (rule view_unassigned [OF t]) simp
  moreover have "view s' = (view ?t)(spec_id r := (insert r (fst (view ?t (spec_id r))), snd (view ?t (spec_id r))))"
    using view_add [of s' "Entry_new millis (sh_sequence s) r" ?t] out(2,3) t by (simp add: Entry_new_def)
  ultimately show "view s' = (view s)(spec_id r := ({r}, None))" by (simp add: v)
qed

text \<open>A scheduling attempt, with the identity of the request it took.\<close>

lemma attempt_view:
  assumes "shard_inv s" "Shard_attempt now k g cl j cfg placements s = (res, s')"
  shows "res = Inr (Assigned a r) \<Longrightarrow> view s (spec_id r) = ({r}, None) \<and> as_environment_id a = spec_id r
           \<and> as_shard_id a = k \<and> as_generation a = g \<and> view s' = (view s)(spec_id r := ({}, Some a))"
    and "res = Inr (Deferred e) \<Longrightarrow> view s (spec_id (en_spec e)) = ({en_spec e}, None) \<and> ticket_free e s'
           \<and> view s' = (view s)(spec_id (en_spec e) := absent)"
    and "res = Inr Empty \<Longrightarrow> view s' = view s"
    and "res = Inl err \<Longrightarrow> \<not> is_panic err \<Longrightarrow> view s' = view s"
proof -
  note out = attempt_ok(2) [OF assms]
  show "view s' = view s" if "res = Inr Empty"
    using out that by (auto simp: attempt_outcome_def intro: view_cong)
  show "view s' = view s" if "res = Inl err" "\<not> is_panic err"
    using out that by (auto simp: attempt_outcome_def intro: view_cong)
  show "view s (spec_id (en_spec e)) = ({en_spec e}, None) \<and> ticket_free e s'
      \<and> view s' = (view s)(spec_id (en_spec e) := absent)" if res: "res = Inr (Deferred e)"
  proof -
    have w: "waiting s = add_mset e (waiting s')" "sh_assigned s' = sh_assigned s" "ticket_free e s'"
      using out res by (simp_all add: attempt_outcome_def)
    show ?thesis using view_of_waiting [OF assms(1) w(1)] view_remove [OF assms(1) w(1,2)] w(3) by simp
  qed
  show "view s (spec_id r) = ({r}, None) \<and> as_environment_id a = spec_id r \<and> as_shard_id a = k
      \<and> as_generation a = g \<and> view s' = (view s)(spec_id r := ({}, Some a))" if res: "res = Inr (Assigned a r)"
  proof -
    obtain e where w: "waiting s = add_mset e (waiting s')" "en_spec e = r"
      "sh_assigned s' = om_put (spec_id r) a (sh_assigned s)" "as_environment_id a = spec_id r" "as_shard_id a = k"
      "as_generation a = g"
      using out res by (auto simp: attempt_outcome_def)
    have "view s' = (view s)(spec_id r := ({}, Some a))"
      using waiting_distinct [OF assms(1) w(1)] unfolding view_def w(1,3) w(2) [symmetric]
      by (intro ext) (auto simp del: set_mset_mset)
    then show ?thesis using view_of_waiting [OF assms(1) w(1)] w by simp
  qed
qed

section \<open>The nodes after each operation\<close>

lemma nodes_of_put:
  "map_of (sh_nodes s) i = Some st \<Longrightarrow> ns_node st' = ns_node st
   \<Longrightarrow> sh_nodes s' = om_put i st' (sh_nodes s) \<Longrightarrow> nodes_of s' = nodes_of s"
  by (rule ext) (simp add: nodes_of_def)

lemma nodes_of_cong: "sh_nodes s' = sh_nodes s \<Longrightarrow> nodes_of s' = nodes_of s"
  by (rule ext) (simp add: nodes_of_def)

lemma reserve_node_node: "reserve_node r st = (res, st') \<Longrightarrow> ns_node st' = ns_node st"
  by (auto simp: reserve_node_def split: sum.splits prod.splits)

lemma restore_queue_nodes: "on_queue (Queue_restore e) s = (res, s') \<Longrightarrow> nodes_of s' = nodes_of s"
  by (auto simp: zoom_def intro: nodes_of_cong split: prod.splits)

lemma assign_entry_nodes: "assign_entry k g e i s = (res, s') \<Longrightarrow> nodes_of s' = nodes_of s"
  by (auto simp: assign_entry_def Let_def bindS_def zoom_def nodes_of_def fun_eq_iff dest: reserve_node_node
      split: option.splits prod.splits sum.splits if_splits)

lemma attempt_nodes:
  assumes "shard_inv s" "Shard_attempt now k g cl j cfg placements s = (res, s')"
  shows "nodes_of s' = nodes_of s"
proof -
  obtain popped s1 where pop: "on_queue Queue_pop_entry s = (popped, s1)" by fastforce
  have s1: "sh_nodes s1 = sh_nodes s" using pop by (auto simp: zoom_def split: prod.splits)
  from pop_head [OF assms(1) pop] show ?thesis
  proof (elim disjE exE conjE)
    assume "popped = Inr None"
    with pop assms(2) s1 show ?thesis by (auto simp: Shard_attempt_def bindS_def intro: nodes_of_cong)
  next
    fix e assume e: "popped = Inr (Some e)" "shard_inv s1"
    let ?s = "s1\<lparr>sh_stats := (sh_stats s1)\<lparr>attempts := attempts (sh_stats s1) + 1\<rparr>\<rparr>"
    have inv: "shard_inv ?s" using e(2) by (simp add: shard_inv_def tickets_ok_def Shard_pending_requests_def)
    obtain r s2 where sel: "Shard_select now (en_spec e) cl j cfg (map_of placements (spec_id (en_spec e))) ?s = (r, s2)"
      by fastforce
    have "sh_nodes s2 = sh_nodes s" using select_ok(1) [OF inv sel] s1 by (simp add: same_books_def)
    then have s2: "nodes_of s2 = nodes_of s" by (rule nodes_of_cong)
    from assms(2) pop e(1) sel s2 show ?thesis
      by (auto simp: Shard_attempt_def bindS_def dest: restore_queue_nodes assign_entry_nodes intro: nodes_of_cong
          split: sum.splits option.splits prod.splits if_splits)
  qed
qed

lemma release_nodes: "Shard_release a s = (res, s') \<Longrightarrow> nodes_of s' = nodes_of s"
  by (auto simp: Shard_release_def Let_def nodes_of_def fun_eq_iff
      split: option.splits prod.splits sum.splits if_splits)

lemma restore_nodes: "Shard_restore r a s = (res, s') \<Longrightarrow> nodes_of s' = nodes_of s"
  by (auto simp: Shard_restore_def nodes_of_def fun_eq_iff split: option.splits prod.splits sum.splits if_splits)

lemma enqueue_nodes: "Shard_enqueue_entry e s = (res, s') \<Longrightarrow> sh_nodes s' = sh_nodes s"
  by (auto simp: Shard_enqueue_entry_def Let_def bindS_def zoom_def next_ticket_def begin_round_books
      split: if_splits prod.splits sum.splits option.splits)

lemma retry_nodes:
  assumes "Shard_retry millis a r s = (res, s')"
  shows "nodes_of s' = nodes_of s"
proof -
  obtain rel s1 where rel: "Shard_release a s = (rel, s1)" by fastforce
  note same = release_nodes [OF rel]
  show ?thesis
  proof (cases rel)
    case (Inl err)
    with assms rel same show ?thesis by (simp add: Shard_retry_def Let_def bindS_def)
  next
    case (Inr u)
    let ?s1 = "s1\<lparr>sh_excluded := om_put (as_environment_id a)
      (os_insert (as_node_id a) (Shard_exclusions (as_environment_id a) s)) (sh_excluded s1)\<rparr>"
    have "Shard_enqueue_entry (Entry_new millis 0 r) ?s1 = (res, s')"
      using assms rel Inr by (simp add: Shard_retry_def Let_def bindS_def Shard_enqueue_def)
    from enqueue_nodes [OF this] have "sh_nodes s' = sh_nodes s1" by simp
    with same show ?thesis using nodes_of_cong by metis
  qed
qed

lemma register_nodes:
  "Shard_register n s = (res, s') \<Longrightarrow> nodes_of s' = (if is_ok res then (nodes_of s)(node_id n \<mapsto> n) else nodes_of s)"
  by (auto simp: Shard_register_def nodes_of_def fun_eq_iff split: option.splits prod.splits sum.splits)

lemma forget_node_nodes:
  "Shard_forget_node n s = (res, s') \<Longrightarrow> nodes_of s' = (if is_ok res then (nodes_of s)(n := None) else nodes_of s)"
  by (auto simp: Shard_forget_node_def nodes_of_def fun_eq_iff split: if_splits)

end
