(* ===== verification/Coordinator_Invariant.thy ===== *)
theory Coordinator_Invariant
  imports Coordinator Shard_View
begin

text \<open>
  The invariant of the coordinator: every accepted request is in exactly one place, the cluster
  snapshot shows exactly the assignments, every node belongs to one shard. Each operation that does
  not unwind keeps it.
\<close>

section \<open>The invariant\<close>

definition tracked_at ::
  "shard list \<Rightarrow> string \<Rightarrow> (nat \<times> environment_spec) option \<Rightarrow> placed_environment option \<Rightarrow> bool" where
  "tracked_at ss i q p \<longleftrightarrow>
     (case q of
        None \<Rightarrow> (\<forall>k < length ss. view (ss ! k) i = absent) \<and> p = None
      | Some (k, r) \<Rightarrow>
          k < length ss \<and> spec_id r = i \<and> (\<forall>j < length ss. j \<noteq> k \<longrightarrow> view (ss ! j) i = absent)
          \<and> (view (ss ! k) i = ({r}, None) \<and> p = None
             \<or> (\<exists>a. view (ss ! k) i = ({}, Some a) \<and> as_shard_id a = k
                  \<and> p = Some \<lparr>pe_spec = r, pe_node_id = as_node_id a\<rparr>)))"

definition homed_at :: "shard list \<Rightarrow> string \<Rightarrow> nat option \<Rightarrow> node option \<Rightarrow> bool" where
  "homed_at ss i h nd \<longleftrightarrow>
     (\<forall>k. h = Some k \<longrightarrow> k < length ss)
     \<and> (\<forall>k < length ss. nodes_of (ss ! k) i \<noteq> None \<longrightarrow> h = Some k \<and> nodes_of (ss ! k) i = nd)
     \<and> (nd \<noteq> None \<longrightarrow> (\<exists>k < length ss. h = Some k \<and> nodes_of (ss ! k) i = nd))"

definition tracked :: "coordinator \<Rightarrow> bool" where
  "tracked c \<longleftrightarrow>
     (\<forall>i. tracked_at (co_shards c) i (map_of (co_requests c) i) (map_of (cl_environments (co_snapshot c)) i))"

definition homed :: "coordinator \<Rightarrow> bool" where
  "homed c \<longleftrightarrow>
     (\<forall>i. homed_at (co_shards c) i (map_of (co_node_shards c) i) (map_of (cl_nodes (co_snapshot c)) i))"

definition counters_ok :: "coordinator \<Rightarrow> bool" where
  "counters_ok c \<longleftrightarrow>
     co_next_shard c < length (co_shards c) \<and> co_next_node_shard c < length (co_shards c)
     \<and> distinct (co_ready c) \<and> set (co_ready c) \<subseteq> {..<length (co_shards c)}
     \<and> cluster_inv (co_snapshot c)
     \<and> (\<forall>i \<in> set (co_retired c). map_of (co_requests c) i = None)
     \<and> (\<forall>i \<in> set (co_recovery_requests c). map_of (co_requests c) i \<noteq> None)"

definition shards_ok :: "coordinator \<Rightarrow> bool" where
  "shards_ok c \<longleftrightarrow> (\<forall>s \<in> set (co_shards c). shard_inv s)"

definition co_inv :: "coordinator \<Rightarrow> bool" where
  "co_inv c \<longleftrightarrow> shards_ok c \<and> tracked c \<and> homed c \<and> counters_ok c"

lemma shards_okD: "shards_ok c \<Longrightarrow> k < length (co_shards c) \<Longrightarrow> shard_inv (co_shards c ! k)"
  by (simp add: shards_ok_def)

lemma shards_ok_update:
  "shards_ok c \<Longrightarrow> shard_inv s \<Longrightarrow> co_shards c' = (co_shards c)[k := s] \<Longrightarrow> shards_ok c'"
  by (auto simp: shards_ok_def dest: set_update_subset_insert [THEN subsetD])

lemma tracked_at_cong:
  assumes "length ss' = length ss" "\<And>k. k < length ss \<Longrightarrow> view (ss' ! k) i = view (ss ! k) i"
  shows "tracked_at ss' i q p = tracked_at ss i q p"
proof (cases q)
  case (Some x)
  then show ?thesis using assms by (cases x) (auto simp: tracked_at_def)
qed (auto simp: tracked_at_def assms)

lemma homed_at_cong:
  assumes "length ss' = length ss" "\<And>k. k < length ss \<Longrightarrow> nodes_of (ss' ! k) i = nodes_of (ss ! k) i"
  shows "homed_at ss' i h nd = homed_at ss i h nd"
proof -
  have "(\<exists>k < length ss. h = Some k \<and> nodes_of (ss' ! k) i = nd) \<longleftrightarrow>
      (\<exists>k < length ss. h = Some k \<and> nodes_of (ss ! k) i = nd)"
    using assms(2) by metis
  then show ?thesis unfolding homed_at_def assms(1) using assms(2) by simp
qed

text \<open>A change of one shard that touches one identity.\<close>

lemma tracked_update:
  assumes "tracked c" "k < length (co_shards c)" "view s = (view (co_shards c ! k))(i := v)"
    and "co_shards c' = (co_shards c)[k := s]"
    and "\<And>j. j \<noteq> i \<Longrightarrow> map_of (co_requests c') j = map_of (co_requests c) j"
    and "\<And>j. j \<noteq> i \<Longrightarrow> map_of (cl_environments (co_snapshot c')) j = map_of (cl_environments (co_snapshot c)) j"
    and "tracked_at ((co_shards c)[k := s]) i (map_of (co_requests c') i) (map_of (cl_environments (co_snapshot c')) i)"
  shows "tracked c'"
  unfolding tracked_def
proof
  fix j
  show "tracked_at (co_shards c') j (map_of (co_requests c') j) (map_of (cl_environments (co_snapshot c')) j)"
  proof (cases "j = i")
    case False
    have "tracked_at ((co_shards c)[k := s]) j q p = tracked_at (co_shards c) j q p" for q p
      by (rule tracked_at_cong) (use assms(2,3) False in \<open>auto simp: nth_list_update\<close>)
    with False assms(1,4-6) show ?thesis by (simp add: tracked_def)
  qed (use assms(4,7) in simp)
qed

lemma tracked_same:
  assumes "tracked c" "length (co_shards c') = length (co_shards c)"
    and "\<And>k. k < length (co_shards c) \<Longrightarrow> view (co_shards c' ! k) = view (co_shards c ! k)"
    and "co_requests c' = co_requests c"
    and "map_of (cl_environments (co_snapshot c')) = map_of (cl_environments (co_snapshot c))"
  shows "tracked c'"
  unfolding tracked_def assms(4,5)
  using assms(1) tracked_at_cong [OF assms(2)] assms(3) unfolding tracked_def by simp

lemma homed_same:
  assumes "homed c" "length (co_shards c') = length (co_shards c)"
    and "\<And>k. k < length (co_shards c) \<Longrightarrow> nodes_of (co_shards c' ! k) = nodes_of (co_shards c ! k)"
    and "map_of (co_node_shards c') = map_of (co_node_shards c)" "cl_nodes (co_snapshot c') = cl_nodes (co_snapshot c)"
  shows "homed c'"
  unfolding homed_def assms(4,5)
  using assms(1) homed_at_cong [OF assms(2)] assms(3) unfolding homed_def by simp

lemma homed_update:
  assumes "homed c" "co_shards c' = (co_shards c)[k := s]" "nodes_of s = nodes_of (co_shards c ! k)"
    and "map_of (co_node_shards c') = map_of (co_node_shards c)" "cl_nodes (co_snapshot c') = cl_nodes (co_snapshot c)"
  shows "homed c'"
proof (rule homed_same [OF assms(1) _ _ assms(4,5)])
  fix l assume "l < length (co_shards c)"
  then show "nodes_of (co_shards c' ! l) = nodes_of (co_shards c ! l)"
    using assms(2,3) by (cases "l = k") simp_all
qed (simp add: assms(2))

lemma environments_ops [simp]:
  "map_of (cl_environments (place p cl)) = (map_of (cl_environments cl))(spec_id (pe_spec p) \<mapsto> p)"
  "map_of (cl_environments (remove i cl)) = (map_of (cl_environments cl))(i := None)"
  "cl_nodes (remove i cl) = cl_nodes cl" "cl_environments (update_node n cl) = cl_environments cl"
  "cl_environments (remove_node i cl) = cl_environments cl"
  by (auto simp: environments_place fun_eq_iff remove_def Let_def remove_indexes_env update_node_def remove_node_def)
     (simp add: remove_indexes_def split: option.split)

section \<open>Operations on one shard, journal and wakeups\<close>

lemma on_shard_cases:
  assumes "on_shard missing k m c = (res, c')"
  obtains (missing) "\<not> k < length (co_shards c)" "res = Inl missing" "c' = c"
  | (run) s where "k < length (co_shards c)" "m (co_shards c ! k) = (res, s)"
      "c' = c\<lparr>co_shards := (co_shards c)[k := s]\<rparr>"
  using assms by (cases "k < length (co_shards c)") (auto simp: on_shard_def zoom_def split: prod.splits)

lemma on_shard_run:
  "k < length (co_shards c) \<Longrightarrow> m (co_shards c ! k) = (res, s)
   \<Longrightarrow> on_shard missing k m c = (res, c\<lparr>co_shards := (co_shards c)[k := s]\<rparr>)"
  by (simp add: on_shard_def)

lemma set_wake [simp]: "set (co_ready (wake k c)) = insert k (set (co_ready c))"
  by (auto simp: wake_def)

lemma distinct_wake [simp]: "distinct (co_ready (wake k c)) \<longleftrightarrow> distinct (co_ready c)"
  by (simp add: wake_def)

lemma wake_loop:
  fixes ks :: "nat list" and exclude :: "nat option"
  defines "step \<equiv> \<lambda>k c. if Some k \<noteq> exclude \<and> Shard_pending (co_shards c ! k) > 0 then wake k c else c"
  shows "\<exists>r. fold step ks c = c\<lparr>co_ready := r\<rparr>
    \<and> set r = set (co_ready c) \<union> {k \<in> set ks. Some k \<noteq> exclude \<and> Shard_pending (co_shards c ! k) > 0}
    \<and> (distinct r \<longleftrightarrow> distinct (co_ready c))"
proof (induction ks arbitrary: c)
  case Nil
  show ?case by (intro exI [of _ "co_ready c"]) simp
next
  case (Cons k ks)
  obtain r where step: "step k c = c\<lparr>co_ready := r\<rparr>" and r: "set r = set (co_ready c) \<union>
      (if Some k \<noteq> exclude \<and> Shard_pending (co_shards c ! k) > 0 then {k} else {})"
      "distinct r \<longleftrightarrow> distinct (co_ready c)"
  proof
    show "step k c = c\<lparr>co_ready := co_ready (step k c)\<rparr>" by (simp add: step_def wake_def)
  qed (simp_all add: step_def)
  from Cons.IH [of "c\<lparr>co_ready := r\<rparr>"] obtain r' where "fold step ks (c\<lparr>co_ready := r\<rparr>) = c\<lparr>co_ready := r'\<rparr>"
    "set r' = set r \<union> {k \<in> set ks. Some k \<noteq> exclude \<and> Shard_pending (co_shards c ! k) > 0}"
    "distinct r' \<longleftrightarrow> distinct r" by auto
  with r show ?case by (intro exI [of _ r']) (auto simp: step)
qed

lemma wake_pending_eq:
  obtains r where "wake_pending exclude c = c\<lparr>co_ready := r\<rparr>"
    and "set r = set (co_ready c)
           \<union> {k. k < length (co_shards c) \<and> Some k \<noteq> exclude \<and> Shard_pending (co_shards c ! k) > 0}"
    and "distinct r \<longleftrightarrow> distinct (co_ready c)"
  using wake_loop [where ks = "[0..<length (co_shards c)]" and exclude = exclude and c = c] unfolding wake_pending_def
  by auto

text \<open>Invariants do not read the journal, and tolerate any set of ready shards.\<close>

lemma co_inv_journal: "co_inv (c\<lparr>co_journal := j\<rparr>) \<longleftrightarrow> co_inv c"
  by (simp add: co_inv_def shards_ok_def tracked_def homed_def counters_ok_def)

lemma co_inv_ready:
  assumes "co_inv c" "distinct r" "set r \<subseteq> {..<length (co_shards c)}"
  shows "co_inv (c\<lparr>co_ready := r\<rparr>)"
  using assms by (simp add: co_inv_def shards_ok_def tracked_def homed_def counters_ok_def)

lemma co_inv_readyD: "co_inv c \<Longrightarrow> distinct (co_ready c) \<and> set (co_ready c) \<subseteq> {..<length (co_shards c)}"
  by (simp add: co_inv_def counters_ok_def)

lemma wake_inv: "co_inv c \<Longrightarrow> k < length (co_shards c) \<Longrightarrow> co_inv (wake k c)"
  using co_inv_ready [of c "co_ready c @ [k]"] co_inv_readyD [of c] by (simp add: wake_def)

lemma wake_pending_inv:
  assumes "co_inv c"
  shows "co_inv (wake_pending exclude c)"
proof -
  obtain r where r: "wake_pending exclude c = c\<lparr>co_ready := r\<rparr>"
    "set r = set (co_ready c)
       \<union> {k. k < length (co_shards c) \<and> Some k \<noteq> exclude \<and> Shard_pending (co_shards c ! k) > 0}"
    "distinct r \<longleftrightarrow> distinct (co_ready c)"
    by (rule wake_pending_eq)
  show ?thesis unfolding r(1) by (rule co_inv_ready [OF assms]) (use co_inv_readyD [OF assms] r in auto)
qed

lemma record_and_wake_cases:
  assumes "record_and_wake i exclude c = (res, c')"
  obtains (panic) e where "res = Inl e" "is_panic e"
  | (ok) j where "res = Inr ()" "Journal_record i (co_journal c) = (Inr (), j)"
      "c' = wake_pending exclude (c\<lparr>co_journal := j\<rparr>)"
  using assms
  by (auto simp: record_and_wake_def bindS_def zoom_def Journal_record_def Let_def rust_add_def ok_or_def
      split: prod.splits sum.splits option.splits)

lemma record_and_wake_inv:
  assumes "co_inv c" "record_and_wake i exclude c = (res, c')" "\<not> panicked res"
  shows "co_inv c'" "res = Inr ()"
proof -
  have "co_inv c' \<and> res = Inr ()"
    using assms(2)
  proof (cases rule: record_and_wake_cases)
    case (ok j)
    with assms(1) show ?thesis by (simp add: co_inv_journal wake_pending_inv)
  qed (use assms(3) in \<open>simp add: panicked_def\<close>)
  then show "co_inv c'" "res = Inr ()" by blast+
qed

section \<open>Nodes\<close>

lemma min_by_key_mem: "min_by_key key xs = Some x \<Longrightarrow> x \<in> set xs"
  by (induction xs arbitrary: x) (auto split: option.splits if_splits)

lemma rotation_less: "k \<in> set (rotation from n) \<Longrightarrow> k < n"
  by (auto simp: rotation_def)

lemma counters_frame:
  assumes "counters_ok c" "length (co_shards c') = length (co_shards c)" "co_next_shard c' = co_next_shard c"
    and "co_next_node_shard c' = co_next_node_shard c" "co_ready c' = co_ready c" "cluster_inv (co_snapshot c')"
    and "co_retired c' = co_retired c" "co_recovery_requests c' = co_recovery_requests c"
    and "map_of (co_requests c') = map_of (co_requests c)"
  shows "counters_ok c'"
  using assms unfolding counters_ok_def by simp

lemma homed_node:
  assumes "homed c" "h < length (co_shards c)" "\<And>k. map_of (co_node_shards c) i = Some k \<Longrightarrow> k = h"
    and "co_shards c' = (co_shards c)[h := s]" "nodes_of s = (nodes_of (co_shards c ! h))(i := nd)"
    and "map_of (co_node_shards c') = (map_of (co_node_shards c))(i \<mapsto> h)"
    and "map_of (cl_nodes (co_snapshot c')) = (map_of (cl_nodes (co_snapshot c)))(i := nd)"
  shows "homed c'"
  unfolding homed_def
proof
  fix j
  show "homed_at (co_shards c') j (map_of (co_node_shards c') j) (map_of (cl_nodes (co_snapshot c')) j)"
  proof (cases "j = i")
    case True
    have "nodes_of (co_shards c ! k) i = None" if "k < length (co_shards c)" "k \<noteq> h" for k
      using assms(1,3) that unfolding homed_def homed_at_def by metis
    then show ?thesis
      unfolding homed_at_def assms(4,6,7) using assms(2,5) by (auto simp: nth_list_update True)
  next
    case False
    have "homed_at ((co_shards c)[h := s]) j q p = homed_at (co_shards c) j q p" for q p
      by (rule homed_at_cong) (use assms(2,5) False in \<open>auto simp: nth_list_update\<close>)
    with False assms(1,4,6,7) show ?thesis by (simp add: homed_def)
  qed
qed

text \<open>Choosing the shard of a node only reserves its place in the rotation.\<close>

lemma choose_node_shard_ok:
  assumes "co_inv c" "choose_node_shard i c = (res, c')" "\<not> panicked res"
  obtains k where "res = Inr k" "k < length (co_shards c)" "co_inv c'" "co_shards c' = co_shards c"
    and "co_snapshot c' = co_snapshot c" "map_of (co_node_shards c') = (map_of (co_node_shards c))(i \<mapsto> k)"
    and "\<And>h. map_of (co_node_shards c) i = Some h \<Longrightarrow> h = k" "co_requests c' = co_requests c"
proof (cases "map_of (co_node_shards c) i")
  case (Some k)
  have "k < length (co_shards c)" using assms(1) Some unfolding co_inv_def homed_def homed_at_def by blast
  with Some assms show thesis by (intro that [of k]) (auto simp: choose_node_shard_def fun_eq_iff)
next
  case None
  let ?n = "length (co_shards c)"
  obtain k where k: "min_by_key (\<lambda>k. Shard_node_count (co_shards c ! k)) (rotation (co_next_node_shard c) ?n) = Some k"
    using assms(2,3) None by (cases "min_by_key (\<lambda>k. Shard_node_count (co_shards c ! k))
      (rotation (co_next_node_shard c) ?n)") (auto simp: choose_node_shard_def panicked_def)
  have less: "k < ?n" using min_by_key_mem [OF k] rotation_less by blast
  let ?c = "c\<lparr>co_next_node_shard := (k + 1) mod ?n, co_node_shards := om_put i k (co_node_shards c)\<rparr>"
  have run: "res = Inr k" "c' = ?c" using assms(2) None k by (auto simp: choose_node_shard_def)
  have "homed ?c"
  proof (rule homed_node [where h = k and i = i and nd = "map_of (cl_nodes (co_snapshot c)) i" and s = "co_shards c ! k"])
    have "nodes_of (co_shards c ! j) i = None" if "j < ?n" for j
      using assms(1) None that unfolding co_inv_def homed_def homed_at_def by (metis option.distinct(1))
    moreover have "map_of (cl_nodes (co_snapshot c)) i = None"
      using assms(1) None unfolding co_inv_def homed_def homed_at_def by (metis option.distinct(1))
    ultimately show "nodes_of (co_shards c ! k)
        = (nodes_of (co_shards c ! k))(i := map_of (cl_nodes (co_snapshot c)) i)" using less by (auto simp: fun_eq_iff)
  qed (use assms(1) less None in \<open>simp_all add: co_inv_def\<close>)
  moreover have "(k + 1) mod ?n < ?n" using less by (intro mod_less_divisor) linarith
  ultimately have "co_inv ?c"
    using assms(1) less by (simp add: co_inv_def shards_ok_def tracked_def counters_ok_def)
  with None less run show thesis by (intro that [of k]) simp_all
qed

lemma register_ok:
  assumes "co_inv c" "Coordinator_register n c = (res, c')" "\<not> panicked res"
  shows "co_inv c'"
proof (cases "\<not> blank (node_id n) \<and> Node_validate n = Inr ()")
  case False
  with assms show ?thesis by (auto simp: Coordinator_register_def split: sum.splits if_splits)
next
  case True
  with assms(2) have run: "bindS (choose_node_shard (node_id n)) (\<lambda>k.
      bindS (on_shard out_of_bounds k (Shard_register n)) (\<lambda>_ c2.
      bindS (record_and_wake (node_id n) None) (\<lambda>_. returnS k)
        (c2\<lparr>co_snapshot := update_node n (co_snapshot c2)\<rparr>))) c = (res, c')"
    by (simp add: Coordinator_register_def)
  obtain r1 c1 where c1: "choose_node_shard (node_id n) c = (r1, c1)" by fastforce
  have "\<not> panicked r1" using run c1 assms(3) by (cases r1) (auto simp: bindS_def panicked_def)
  from choose_node_shard_ok [OF assms(1) c1 this] obtain k where k: "r1 = Inr k" "k < length (co_shards c)" "co_inv c1"
    "co_shards c1 = co_shards c" "co_snapshot c1 = co_snapshot c"
    "map_of (co_node_shards c1) = (map_of (co_node_shards c))(node_id n \<mapsto> k)" "co_requests c1 = co_requests c" .
  obtain r2 s where s: "Shard_register n (co_shards c ! k) = (r2, s)" by fastforce
  let ?c2 = "c1\<lparr>co_shards := (co_shards c)[k := s]\<rparr>"
  let ?c3 = "?c2\<lparr>co_snapshot := update_node n (co_snapshot ?c2)\<rparr>"
  have inv: "shard_inv (co_shards c ! k)" using assms(1) k(2) shards_okD by (simp add: co_inv_def)
  have on: "on_shard out_of_bounds k (Shard_register n) c1 = (r2, ?c2)" using on_shard_run [of k c1] k s by simp
  note s_inv = register_inv(1) [OF inv s] and s_view = register_view [OF inv s] and s_nodes = register_nodes [OF s]
  have parts: "shards_ok ?c2" "tracked ?c2"
  proof -
    show "shards_ok ?c2" using shards_ok_update [OF _ s_inv, of c1] k by (simp add: co_inv_def)
    show "tracked ?c2"
      by (rule tracked_same [of c1]) (use k s_view in \<open>auto simp: co_inv_def nth_list_update\<close>)
  qed
  show ?thesis
  proof (cases r2)
    case (Inl e)
    have "homed ?c2" by (rule homed_update [of c1 _ k s]) (use k s_nodes Inl in \<open>simp_all add: co_inv_def\<close>)
    moreover have "counters_ok ?c2" using k by (simp add: co_inv_def counters_ok_def)
    ultimately show ?thesis using parts run c1 k(1) on Inl by (auto simp: bindS_def co_inv_def)
  next
    case (Inr u)
    have "homed ?c3"
    proof (rule homed_node [of c1 k "node_id n"])
      show "nodes_of s = (nodes_of (co_shards c1 ! k))(node_id n := Some n)" using s_nodes Inr k(4) by simp
    qed (use k in \<open>auto simp: co_inv_def update_node_def\<close>)
    moreover have "counters_ok ?c3" using k by (auto simp: co_inv_def counters_ok_def)
    moreover have "shards_ok ?c3" "tracked ?c3" using parts by (simp_all add: shards_ok_def tracked_def)
    ultimately have inv3: "co_inv ?c3" by (simp add: co_inv_def)
    obtain r4 c4 where c4: "record_and_wake (node_id n) None ?c3 = (r4, c4)" by fastforce
    have out: "c' = c4" "panicked r4 \<Longrightarrow> panicked res"
      using run c1 k(1) on Inr c4 by (auto simp: bindS_def panicked_def split: sum.splits prod.splits)
    with record_and_wake_inv [OF inv3 c4] assms(3) show ?thesis by blast
  qed
qed

lemma register_at_ok:
  assumes "co_inv c" "register_at n k c = (res, c')" "\<not> panicked res"
  shows "co_inv c'"
proof (cases "k \<ge> length (co_shards c) \<or> is_some_and (\<lambda>old. old \<noteq> k) (map_of (co_node_shards c) (node_id n))")
  case True
  with assms show ?thesis by (auto simp: register_at_def)
next
  case False
  let ?c = "c\<lparr>co_node_shards := om_put (node_id n) k (co_node_shards c)\<rparr>"
  have k: "k < length (co_shards c)" "\<And>h. map_of (co_node_shards c) (node_id n) = Some h \<Longrightarrow> h = k"
    using False by (auto simp: is_some_and_iff)
  have "homed ?c"
  proof (rule homed_node [OF _ k, where s = "co_shards c ! k" and nd = "map_of (cl_nodes (co_snapshot c)) (node_id n)"])
    have "homed_at (co_shards c) (node_id n) (map_of (co_node_shards c) (node_id n))
        (map_of (cl_nodes (co_snapshot c)) (node_id n))" using assms(1) by (simp add: co_inv_def homed_def)
    then have "nodes_of (co_shards c ! k) (node_id n) = map_of (cl_nodes (co_snapshot c)) (node_id n)"
      using k unfolding homed_at_def by (metis not_None_eq)
    then show "nodes_of (co_shards c ! k) = (nodes_of (co_shards c ! k))
        (node_id n := map_of (cl_nodes (co_snapshot c)) (node_id n))" by (auto simp: fun_eq_iff)
  qed (use assms(1) in \<open>simp_all add: co_inv_def\<close>)
  then have "co_inv ?c" using assms(1) by (simp add: co_inv_def shards_ok_def tracked_def counters_ok_def)
  moreover have "Coordinator_register n ?c = (res, c')" using assms(2) False by (simp add: register_at_def)
  ultimately show ?thesis using register_ok assms(3) by blast
qed

lemma panicked_simps [simp]: "panicked (Inl e) \<longleftrightarrow> is_panic e" "\<not> panicked (Inr x)"
  by (simp_all add: panicked_def)

lemma forget_node_ok:
  assumes "co_inv c" "Coordinator_forget_node i c = (res, c')" "\<not> panicked res"
  shows "co_inv c'"
proof (cases "map_of (co_node_shards c) i")
  case None
  with assms show ?thesis by (simp add: Coordinator_forget_node_def)
next
  case (Some k)
  have k: "k < length (co_shards c)" using assms(1) Some unfolding co_inv_def homed_def homed_at_def by blast
  obtain r s where s: "Shard_forget_node i (co_shards c ! k) = (r, s)" by fastforce
  let ?c1 = "c\<lparr>co_shards := (co_shards c)[k := s]\<rparr>"
  let ?c2 = "?c1\<lparr>co_node_shards := om_del i (co_node_shards ?c1), co_snapshot := remove_node i (co_snapshot ?c1)\<rparr>"
  have inv: "shard_inv (co_shards c ! k)" using assms(1) k shards_okD by (simp add: co_inv_def)
  note s_inv = forget_node_inv(1) [OF inv s] and s_view = forget_node_view [OF inv s]
    and s_nodes = forget_node_nodes [OF s]
  have parts: "shards_ok ?c1" "tracked ?c1" "counters_ok ?c1"
  proof -
    show "shards_ok ?c1" using shards_ok_update [OF _ s_inv, of c] assms(1) by (simp add: co_inv_def)
    show "tracked ?c1"
      by (rule tracked_same [of c]) (use assms(1) k s_view in \<open>auto simp: co_inv_def nth_list_update\<close>)
    show "counters_ok ?c1" using assms(1) by (simp add: co_inv_def counters_ok_def)
  qed
  have run: "bindS (on_shard out_of_bounds k (Shard_forget_node i)) (\<lambda>_ c1.
      record_and_wake i None
        (c1\<lparr>co_node_shards := om_del i (co_node_shards c1), co_snapshot := remove_node i (co_snapshot c1)\<rparr>)) c
      = (res, c')" using assms(2) Some by (simp add: Coordinator_forget_node_def)
  have on: "on_shard out_of_bounds k (Shard_forget_node i) c = (r, ?c1)" using on_shard_run k s by blast
  show ?thesis
  proof (cases r)
    case (Inl e)
    have "homed ?c1" by (rule homed_update [of c _ k s]) (use assms(1) s_nodes Inl in \<open>simp_all add: co_inv_def\<close>)
    with parts run on Inl show ?thesis by (simp add: bindS_def co_inv_def)
  next
    case (Inr u)
    have home: "homed_at (co_shards c) j (map_of (co_node_shards c) j) (map_of (cl_nodes (co_snapshot c)) j)" for j
      using assms(1) by (simp add: co_inv_def homed_def)
    have "homed ?c2"
      unfolding homed_def
    proof
      fix j
      show "homed_at (co_shards ?c2) j (map_of (co_node_shards ?c2) j) (map_of (cl_nodes (co_snapshot ?c2)) j)"
      proof (cases "j = i")
        case True
        have "nodes_of (co_shards c ! l) i = None" if "l < length (co_shards c)" "l \<noteq> k" for l
          using home [of i] Some that unfolding homed_at_def by (metis option.inject)
        with True s_nodes Inr k show ?thesis by (auto simp: homed_at_def nth_list_update remove_node_def)
      next
        case False
        have "homed_at ((co_shards c)[k := s]) j q p = homed_at (co_shards c) j q p" for q p
          by (rule homed_at_cong) (use k s_nodes Inr False in \<open>auto simp: nth_list_update\<close>)
        with False home [of j] show ?thesis by (simp add: remove_node_def)
      qed
    qed
    moreover have "counters_ok ?c2" using parts(3) by (auto simp: counters_ok_def)
    moreover have "shards_ok ?c2" "tracked ?c2" using parts by (simp_all add: shards_ok_def tracked_def)
    ultimately have "co_inv ?c2" by (simp add: co_inv_def)
    then show ?thesis using record_and_wake_inv(1) run on Inr assms(3) by (simp add: bindS_def)
  qed
qed

lemma reconsider_ok:
  assumes "co_inv c"
  shows "co_inv (Coordinator_reconsider_node i c)"
proof -
  let ?c = "c\<lparr>co_shards := map (Shard_reconsider_node i) (co_shards c)\<rparr>"
  have nodes: "nodes_of (Shard_reconsider_node i s) = nodes_of s" for s
    by (rule nodes_of_cong) (simp add: Shard_reconsider_node_def)
  have "shards_ok ?c" using assms by (auto simp: co_inv_def shards_ok_def reconsider_inv)
  moreover have "tracked ?c" by (rule tracked_same [of c]) (use assms in \<open>simp_all add: co_inv_def reconsider_view\<close>)
  moreover have "homed ?c" by (rule homed_same [of c]) (use assms in \<open>simp_all add: co_inv_def nodes\<close>)
  moreover have "counters_ok ?c" using assms by (simp add: co_inv_def counters_ok_def)
  ultimately show ?thesis unfolding Coordinator_reconsider_node_def by (intro wake_pending_inv) (simp add: co_inv_def)
qed

section \<open>Requests\<close>

text \<open>A change of one shard and of what is known about one Environment.\<close>

lemma co_inv_shard:
  assumes "co_inv c" "k < length (co_shards c)" "shard_inv s" "nodes_of s = nodes_of (co_shards c ! k)"
    and "view s = (view (co_shards c ! k))(i := v)" "co_shards c' = (co_shards c)[k := s]"
    and "co_node_shards c' = co_node_shards c" "co_next_shard c' < length (co_shards c)"
    and "co_next_node_shard c' = co_next_node_shard c" "co_ready c' = co_ready c"
    and "cluster_inv (co_snapshot c')" "cl_nodes (co_snapshot c') = cl_nodes (co_snapshot c)"
    and "\<And>j. j \<noteq> i \<Longrightarrow> map_of (co_requests c') j = map_of (co_requests c) j"
    and "\<And>j. j \<noteq> i \<Longrightarrow> map_of (cl_environments (co_snapshot c')) j = map_of (cl_environments (co_snapshot c)) j"
    and "tracked_at ((co_shards c)[k := s]) i (map_of (co_requests c') i) (map_of (cl_environments (co_snapshot c')) i)"
    and "\<forall>j \<in> set (co_retired c'). map_of (co_requests c') j = None"
    and "\<forall>j \<in> set (co_recovery_requests c'). map_of (co_requests c') j \<noteq> None"
  shows "co_inv c'"
  unfolding co_inv_def
proof (intro conjI)
  show "shards_ok c'" using shards_ok_update [OF _ assms(3,6)] assms(1) by (simp add: co_inv_def)
  show "tracked c'" by (rule tracked_update [OF _ assms(2,5,6,13-15)]) (use assms(1) in \<open>simp add: co_inv_def\<close>)
  show "homed c'" by (rule homed_update [OF _ assms(6,4)]) (use assms in \<open>simp_all add: co_inv_def\<close>)
  show "counters_ok c'" using assms unfolding co_inv_def counters_ok_def by simp
qed

lemma tracked_set:
  assumes "tracked_at ss i q p" "k < length ss" "\<And>h r. q = Some (h, r) \<Longrightarrow> h = k"
  shows "view s i = ({r}, None) \<Longrightarrow> spec_id r = i \<Longrightarrow> tracked_at (ss[k := s]) i (Some (k, r)) None"
    and "view s i = ({}, Some a) \<Longrightarrow> spec_id r = i \<Longrightarrow> as_shard_id a = k
         \<Longrightarrow> tracked_at (ss[k := s]) i (Some (k, r)) (Some \<lparr>pe_spec = r, pe_node_id = as_node_id a\<rparr>)"
    and "view s i = absent \<Longrightarrow> tracked_at (ss[k := s]) i None None"
proof -
  have "view (ss ! j) i = absent" if "j < length ss" "j \<noteq> k" for j
  proof (cases q)
    case (Some x)
    with assms(1,3) that show ?thesis by (cases x) (auto simp: tracked_at_def)
  qed (use assms(1) that in \<open>auto simp: tracked_at_def\<close>)
  with assms(2) show "view s i = ({r}, None) \<Longrightarrow> spec_id r = i \<Longrightarrow> tracked_at (ss[k := s]) i (Some (k, r)) None"
    and "view s i = ({}, Some a) \<Longrightarrow> spec_id r = i \<Longrightarrow> as_shard_id a = k
         \<Longrightarrow> tracked_at (ss[k := s]) i (Some (k, r)) (Some \<lparr>pe_spec = r, pe_node_id = as_node_id a\<rparr>)"
    and "view s i = absent \<Longrightarrow> tracked_at (ss[k := s]) i None None"
    by (auto simp: tracked_at_def nth_list_update)
qed

lemma co_tracked:
  "co_inv c \<Longrightarrow> tracked_at (co_shards c) i (map_of (co_requests c) i) (map_of (cl_environments (co_snapshot c)) i)"
  by (simp add: co_inv_def tracked_def)

lemma co_shard: "co_inv c \<Longrightarrow> k < length (co_shards c) \<Longrightarrow> shard_inv (co_shards c ! k)"
  by (simp add: co_inv_def shards_okD)

lemma co_bookkeeping:
  assumes "co_inv c"
  shows "co_next_shard c < length (co_shards c)" "cluster_inv (co_snapshot c)"
    and "\<And>i. i \<in> set (co_retired c) \<Longrightarrow> map_of (co_requests c) i = None"
    and "\<And>i. i \<in> set (co_recovery_requests c) \<Longrightarrow> map_of (co_requests c) i \<noteq> None"
  using assms by (simp_all add: co_inv_def counters_ok_def)

text \<open>Looking for a candidate touches statistics only.\<close>

definition same_but_stats :: "coordinator \<Rightarrow> coordinator \<Rightarrow> bool" where
  "same_but_stats c c' \<longleftrightarrow>
     (\<exists>ss. c' = c\<lparr>co_shards := ss\<rparr> \<and> length ss = length (co_shards c)
       \<and> (\<forall>k < length ss. same_books (co_shards c ! k) (ss ! k) \<and> (shard_inv (co_shards c ! k) \<longrightarrow> shard_inv (ss ! k))))"

lemma same_but_stats_refl: "same_but_stats c c"
  unfolding same_but_stats_def by (intro exI [of _ "co_shards c"]) simp

lemma same_but_stats_trans:
  assumes "same_but_stats c c'" "same_but_stats c' c''"
  shows "same_but_stats c c''"
proof -
  obtain ss where ss: "c' = c\<lparr>co_shards := ss\<rparr>" "length ss = length (co_shards c)"
    "\<forall>k < length ss. same_books (co_shards c ! k) (ss ! k) \<and> (shard_inv (co_shards c ! k) \<longrightarrow> shard_inv (ss ! k))"
    using assms(1) unfolding same_but_stats_def by blast
  obtain ts where ts: "c'' = c'\<lparr>co_shards := ts\<rparr>" "length ts = length ss"
    "\<forall>k < length ts. same_books (ss ! k) (ts ! k) \<and> (shard_inv (ss ! k) \<longrightarrow> shard_inv (ts ! k))"
    using assms(2) ss unfolding same_but_stats_def by auto
  show ?thesis unfolding same_but_stats_def
    by (intro exI [of _ ts]) (use ss ts in \<open>auto intro: same_books_trans\<close>)
qed

lemma same_books_view:
  assumes "same_books s s'"
  shows "view s' = view s" "nodes_of s' = nodes_of s"
proof -
  have "waiting s' = waiting s" using same_books_waiting [OF assms] by simp
  moreover have "sh_assigned s' = sh_assigned s" using assms by (simp add: same_books_def)
  ultimately show "view s' = view s" by (rule view_cong)
  show "nodes_of s' = nodes_of s" by (rule nodes_of_cong) (use assms in \<open>simp add: same_books_def\<close>)
qed

lemma same_but_stats_inv:
  assumes "co_inv c" "same_but_stats c c'"
  shows "co_inv c'"
proof -
  obtain ss where ss: "c' = c\<lparr>co_shards := ss\<rparr>" "length ss = length (co_shards c)"
    "\<And>k. k < length ss \<Longrightarrow> same_books (co_shards c ! k) (ss ! k)"
    "\<And>k. k < length ss \<Longrightarrow> shard_inv (co_shards c ! k) \<Longrightarrow> shard_inv (ss ! k)"
    using assms(2) unfolding same_but_stats_def by blast
  have "shards_ok c'"
    using ss co_shard [OF assms(1)] by (auto simp: shards_ok_def in_set_conv_nth)
  moreover have "tracked c'"
    by (rule tracked_same [of c]) (use assms(1) ss same_books_view in \<open>auto simp: co_inv_def\<close>)
  moreover have "homed c'"
    by (rule homed_same [of c]) (use assms(1) ss same_books_view in \<open>auto simp: co_inv_def\<close>)
  moreover have "counters_ok c'" using assms(1) ss by (simp add: co_inv_def counters_ok_def)
  ultimately show ?thesis by (simp add: co_inv_def)
qed

lemma candidate_shard_loop_ok:
  assumes "candidate_shard_loop now r excluded skip ks best c = (res, c')" "set ks \<subseteq> {..<length (co_shards c)}"
  shows "same_but_stats c c'"
    and "res = Inr (Some k) \<Longrightarrow> k \<in> set ks \<and> skip \<noteq> Some k \<or> (\<exists>v i. best = Some (v, i, k))"
proof -
  have "same_but_stats c c' \<and>
      (res = Inr (Some k) \<longrightarrow> k \<in> set ks \<and> skip \<noteq> Some k \<or> (\<exists>v i. best = Some (v, i, k)))"
    using assms
  proof (induction ks arbitrary: best c)
    case Nil
    then show ?case by (auto simp: same_but_stats_refl)
  next
    case (Cons h ks)
    show ?case
    proof (cases "skip = Some h")
      case True
      with Cons show ?thesis by fastforce
    next
      case False
      have h: "h < length (co_shards c)" using Cons.prems(2) by simp
      let ?m = "Shard_best_candidate now r (co_snapshot c) excluded (map_of (co_volume_placement c) (spec_id r))"
      obtain found s where s: "?m (co_shards c ! h) = (found, s)" by fastforce
      let ?c = "c\<lparr>co_shards := (co_shards c)[h := s]\<rparr>"
      have on: "on_shard out_of_bounds h ?m c = (found, ?c)" by (rule on_shard_run [where m = ?m, OF h s])
      have "shard_inv s" if "shard_inv (co_shards c ! h)"
        using same_books_inv [OF best_candidate_frame(1) [OF s] that] best_candidate_frame(2,3) [OF s] that
        by (simp add: shard_inv_def)
      then have here: "same_but_stats c ?c"
        unfolding same_but_stats_def using best_candidate_frame(1) [OF s] h
        by (intro exI [of _ "(co_shards c)[h := s]"]) (auto simp: nth_list_update)
      show ?thesis
      proof (cases found)
        case (Inl e)
        with Cons.prems(1) False on here show ?thesis by (auto simp: bindS_def)
      next
        case (Inr f)
        from Cons.prems(1) False on Inr obtain best' where
          rest: "candidate_shard_loop now r excluded skip ks best' ?c = (res, c')"
            and best': "best' = best \<or> (\<exists>v i. best' = Some (v, i, h))"
          by (auto simp: bindS_def split: option.splits prod.splits if_splits)
        have "set ks \<subseteq> {..<length (co_shards ?c)}" using Cons.prems(2) by simp
        from Cons.IH [OF rest this] same_but_stats_trans [OF here] best' False show ?thesis by auto
      qed
    qed
  qed
  then show "same_but_stats c c'"
    "res = Inr (Some k) \<Longrightarrow> k \<in> set ks \<and> skip \<noteq> Some k \<or> (\<exists>v i. best = Some (v, i, k))" by blast+
qed

lemma candidate_shard_ok:
  assumes "candidate_shard now r excluded skip c = (res, c')"
  shows "same_but_stats c c'" "res = Inr (Some k) \<Longrightarrow> k < length (co_shards c) \<and> skip \<noteq> Some k"
proof -
  have "set [0..<length (co_shards c)] \<subseteq> {..<length (co_shards c)}" by auto
  note ok = candidate_shard_loop_ok [OF assms [unfolded candidate_shard_def] this]
  show "same_but_stats c c'" by (fact ok(1))
  show "res = Inr (Some k) \<Longrightarrow> k < length (co_shards c) \<and> skip \<noteq> Some k" using ok(2) [of k] by auto
qed

lemma same_but_statsD:
  assumes "same_but_stats c c'"
  shows "length (co_shards c') = length (co_shards c)" "co_requests c' = co_requests c" "co_retired c' = co_retired c"
    "co_recovery_requests c' = co_recovery_requests c" "co_snapshot c' = co_snapshot c"
    "co_volume_placement c' = co_volume_placement c" "co_journal c' = co_journal c" "co_config c' = co_config c"
    "co_generation c' = co_generation c"
    "k < length (co_shards c) \<Longrightarrow> same_books (co_shards c ! k) (co_shards c' ! k)"
  using assms by (auto simp: same_but_stats_def)

text \<open>A new request goes to the back of the queue of one shard.\<close>

lemma enqueue_new_ok:
  assumes "co_inv c" "k < length (co_shards c)" "map_of (co_requests c) (spec_id r) = None"
    and "spec_id r \<notin> set (co_retired c)"
    and "on_shard out_of_bounds k (Shard_enqueue millis r)
           (c\<lparr>co_requests := om_put (spec_id r) (k, r) (co_requests c)\<rparr>) = (res, c')" "\<not> panicked res"
  shows "co_inv c'" "res = Inr ()" "co_requests c' = om_put (spec_id r) (k, r) (co_requests c)"
    "length (co_shards c') = length (co_shards c)"
proof -
  let ?i = "spec_id r"
  obtain s where s: "Shard_enqueue millis r (co_shards c ! k) = (res, s)"
    and c': "c' = c\<lparr>co_requests := om_put ?i (k, r) (co_requests c), co_shards := (co_shards c)[k := s]\<rparr>"
    using assms(2,5) by (auto simp: on_shard_def zoom_def split: prod.splits)
  let ?e = "Entry_new millis 0 r"
  have e: "en_spec ?e = r" by (simp add: Entry_new_def)
  have run: "Shard_enqueue_entry ?e (co_shards c ! k) = (Inr (), s)" and res: "res = Inr ()"
    using s enqueue_panics [of ?e "co_shards c ! k" res s] assms(6) by (simp_all add: Shard_enqueue_def)
  note tr = co_tracked [OF assms(1), of ?i]
  have absent: "view (co_shards c ! k) (spec_id (en_spec ?e)) = absent"
    using tr assms(2,3) e by (simp add: tracked_at_def)
  note sh = co_shard [OF assms(1,2)]
  have un: "unknown (spec_id (en_spec ?e)) (co_shards c ! k)" using absent by (simp add: unknown_view)
  have v: "view s = (view (co_shards c ! k))(?i := ({r}, None))"
    using enqueue_entry_view [OF sh absent run] by (simp add: e)
  show "co_inv c'"
  proof (rule co_inv_shard [OF assms(1,2) enqueue_entry_inv(1) [OF sh un run] _ v])
    show "nodes_of s = nodes_of (co_shards c ! k)" by (rule nodes_of_cong) (rule enqueue_nodes [OF run])
    show "tracked_at ((co_shards c)[k := s]) ?i (map_of (co_requests c') ?i)
        (map_of (cl_environments (co_snapshot c')) ?i)"
      using tracked_set(1) [OF tr assms(2), of s r] v assms(3) tr by (simp add: c' tracked_at_def)
    show "\<forall>j \<in> set (co_retired c'). map_of (co_requests c') j = None"
      using co_bookkeeping(3) [OF assms(1)] assms(4) by (auto simp: c')
  qed (use co_bookkeeping [OF assms(1)] in \<open>simp_all add: c'\<close>)
  show "res = Inr ()" by (fact res)
  show "co_requests c' = om_put (spec_id r) (k, r) (co_requests c)" "length (co_shards c') = length (co_shards c)"
    by (simp_all add: c')
qed

lemma rotate_shard_ok:
  assumes "co_inv c" "rotate_shard preferred c = (res, c')" "\<And>k. preferred = Some k \<Longrightarrow> k < length (co_shards c)"
  obtains k where "res = Inr k" "k < length (co_shards c')" "co_inv c'" "co_requests c' = co_requests c"
    "co_retired c' = co_retired c"
proof (cases preferred)
  case None
  let ?n = "length (co_shards c)"
  have n: "co_next_shard c < ?n" by (rule co_bookkeeping [OF assms(1)])
  then have "(co_next_shard c + 1) mod ?n < ?n" by (intro mod_less_divisor) linarith
  then have "co_inv (c\<lparr>co_next_shard := (co_next_shard c + 1) mod ?n\<rparr>)"
    using assms(1) by (simp add: co_inv_def shards_ok_def tracked_def homed_def counters_ok_def)
  with None n assms(2) show thesis by (intro that [of "co_next_shard c"]) (auto simp: rotate_shard_def)
next
  case (Some k)
  with assms show thesis by (intro that [of k]) (auto simp: rotate_shard_def)
qed

lemma submit_ok:
  assumes "co_inv c" "submit now millis r c = (res, c')" "\<not> panicked res"
  shows "co_inv c'" "res = Inr k \<Longrightarrow> map_of (co_requests c') (spec_id r) = Some (k, r)"
proof -
  have "co_inv c' \<and> (\<forall>k. res = Inr k \<longrightarrow> map_of (co_requests c') (spec_id r) = Some (k, r))"
  proof (cases "EnvironmentSpec_validate now r = Inr () \<and> spec_id r \<notin> set (co_retired c)
      \<and> map_of (co_requests c) (spec_id r) = None")
    case False
    with assms show ?thesis by (auto simp: submit_def split: sum.splits if_splits option.splits)
  next
    case True
    with assms(2) have run: "bindS (if spec_snapshot_id r \<noteq> None then candidate_shard now r [] None else returnS None)
        (\<lambda>preferred. bindS (rotate_shard preferred) (\<lambda>k c2.
          bindS (on_shard out_of_bounds k (Shard_enqueue millis r)) (\<lambda>_ c3. (Inr k, wake k c3))
            (c2\<lparr>co_requests := om_put (spec_id r) (k, r) (co_requests c2)\<rparr>))) c = (res, c')"
      by (simp add: submit_def)
    obtain pref c1 where c1: "(if spec_snapshot_id r \<noteq> None then candidate_shard now r [] None else returnS None) c
        = (pref, c1)" by fastforce
    have same: "same_but_stats c c1" and less: "pref = Inr (Some k) \<Longrightarrow> k < length (co_shards c)" for k
      using c1 candidate_shard_ok [of now r "[]" None c pref c1] by (auto simp: same_but_stats_refl split: if_splits)
    have inv1: "co_inv c1" by (rule same_but_stats_inv [OF assms(1) same])
    note same' = same_but_statsD [OF same]
    show ?thesis
    proof (cases pref)
      case (Inl e)
      with run c1 inv1 show ?thesis by (auto simp: bindS_def)
    next
      case (Inr p)
      obtain r2 c2 where c2: "rotate_shard p c1 = (r2, c2)" by fastforce
      have "\<And>k. p = Some k \<Longrightarrow> k < length (co_shards c1)" using less Inr same'(1) by auto
      from rotate_shard_ok [OF inv1 c2 this] obtain k where k: "r2 = Inr k" "k < length (co_shards c2)" "co_inv c2"
        "co_requests c2 = co_requests c1" "co_retired c2 = co_retired c1" .
      let ?c2 = "c2\<lparr>co_requests := om_put (spec_id r) (k, r) (co_requests c2)\<rparr>"
      obtain r3 c3 where c3: "on_shard out_of_bounds k (Shard_enqueue millis r) ?c2 = (r3, c3)" by fastforce
      have out: "(case r3 of Inl e \<Rightarrow> (Inl e, c3) | Inr _ \<Rightarrow> (Inr k, wake k c3)) = (res, c')"
        using run c1 Inr c2 k(1) c3 by (cases r3) (simp_all add: bindS_def)
      have np: "\<not> panicked r3" using out assms(3) by (cases r3) auto
      have new: "map_of (co_requests c2) (spec_id r) = None" "spec_id r \<notin> set (co_retired c2)"
        using True k(4,5) same'(2,3) by simp_all
      note enq = enqueue_new_ok [OF k(3,2) new c3 np]
      have "co_inv (wake k c3)" by (rule wake_inv) (use enq k(2) in simp_all)
      moreover have "co_requests (wake k c3) = co_requests c3" by (simp add: wake_def)
      ultimately show ?thesis using out enq(2,3) by auto
    qed
  qed
  then show "co_inv c'" "res = Inr k \<Longrightarrow> map_of (co_requests c') (spec_id r) = Some (k, r)" by blast+
qed

lemma co_inv_retired:
  assumes "co_inv c" "\<forall>i \<in> set x. map_of (co_requests c) i = None"
  shows "co_inv (c\<lparr>co_retired := x\<rparr>)"
  using assms by (simp add: co_inv_def shards_ok_def tracked_def homed_def counters_ok_def)

lemma co_inv_recovery:
  assumes "co_inv c" "\<forall>i \<in> set x. map_of (co_requests c) i \<noteq> None"
  shows "co_inv (c\<lparr>co_recovery_requests := x\<rparr>)"
  using assms by (simp add: co_inv_def shards_ok_def tracked_def homed_def counters_ok_def)

lemma co_inv_frame [simp]:
  "co_inv (c\<lparr>co_volume_placement := x\<rparr>) \<longleftrightarrow> co_inv c" "co_inv (c\<lparr>co_generation := g\<rparr>) \<longleftrightarrow> co_inv c"
  "co_inv (raise_generation g c) \<longleftrightarrow> co_inv c"
  by (simp_all add: co_inv_def shards_ok_def tracked_def homed_def counters_ok_def raise_generation_def)

lemma submit_recovery_ok:
  assumes "co_inv c" "submit_recovery now millis r c = (res, c')" "\<not> panicked res"
  shows "co_inv c'"
proof -
  let ?c1 = "c\<lparr>co_retired := os_remove (spec_id r) (co_retired c)\<rparr>"
  let ?n = "length (co_shards c)"
  have inv1: "co_inv ?c1" by (rule co_inv_retired [OF assms(1)]) (use co_bookkeeping(3) [OF assms(1)] in auto)
  obtain c2 where inv2: "co_inv c2"
    and run: "bindS (submit now millis r) (\<lambda>k c3.
        (Inr k, c3\<lparr>co_recovery_requests := os_insert (spec_id r) (co_recovery_requests c3)\<rparr>)) c2 = (res, c')"
  proof
    let ?c2 = "if om_has (spec_id r) (co_requests ?c1) then ?c1
      else case find (live_shard ?c1) (rotation (co_next_shard ?c1) (length (co_shards ?c1))) of
        None \<Rightarrow> ?c1 | Some k \<Rightarrow> ?c1\<lparr>co_next_shard := k\<rparr>"
    have "k < ?n" if "find (live_shard ?c1) (rotation (co_next_shard ?c1) ?n) = Some k" for k
      using that rotation_less [of k] by (auto simp: find_Some_iff) (metis nth_mem)
    then have "co_inv (?c1\<lparr>co_next_shard := k\<rparr>)" if "find (live_shard ?c1) (rotation (co_next_shard ?c1) ?n) = Some k" for k
      using inv1 that by (simp add: co_inv_def shards_ok_def tracked_def homed_def counters_ok_def)
    then show "co_inv ?c2" using inv1 by (auto split: option.split)
    show "bindS (submit now millis r) (\<lambda>k c3.
        (Inr k, c3\<lparr>co_recovery_requests := os_insert (spec_id r) (co_recovery_requests c3)\<rparr>)) ?c2 = (res, c')"
      using assms(2) unfolding submit_recovery_def Let_def .
  qed
  from run show ?thesis
  proof (cases rule: bindS_cases)
    case (err e)
    with submit_ok(1) [OF inv2] assms(3) show ?thesis by simp
  next
    case (ok k c3)
    have np: "\<not> panicked (Inr k)" by simp
    note sub = submit_ok [OF inv2 ok(1) np]
    have "co_inv (c3\<lparr>co_recovery_requests := os_insert (spec_id r) (co_recovery_requests c3)\<rparr>)"
      by (rule co_inv_recovery [OF sub(1)]) (use sub(2) co_bookkeeping(4) [OF sub(1)] in auto)
    with ok(2) show ?thesis by auto
  qed
qed

lemma set_volume_placement_ok:
  assumes "co_inv c"
  shows "co_inv (set_volume_placement i p c)"
proof (cases "map_of (co_requests c) i")
  case None
  with assms show ?thesis by (simp add: set_volume_placement_def Let_def)
next
  case (Some x)
  obtain k r where x: "x = (k, r)" by (cases x)
  have "k < length (co_shards c)" using co_tracked [OF assms, of i] Some x by (simp add: tracked_at_def)
  with Some x assms show ?thesis by (auto simp: set_volume_placement_def Let_def intro!: wake_inv)
qed

text \<open>Forgetting a request that is waiting removes it from every queue.\<close>

lemma each_forget_ok:
  assumes "set ks \<subseteq> {..<length (co_shards c)}" "shards_ok c"
  shows "\<exists>ss. each_shard (Shard_forget_queued i) ks c = (Inr (), c\<lparr>co_shards := ss\<rparr>)
    \<and> length ss = length (co_shards c) \<and> (\<forall>s \<in> set ss. shard_inv s)
    \<and> (\<forall>k < length ss. nodes_of (ss ! k) = nodes_of (co_shards c ! k)
         \<and> view (ss ! k) = (if k \<in> set ks then (view (co_shards c ! k))(i := ({}, snd (view (co_shards c ! k) i)))
                            else view (co_shards c ! k)))"
  using assms
proof (induction ks arbitrary: c)
  case Nil
  then show ?case by (intro exI [of _ "co_shards c"]) (auto simp: shards_ok_def)
next
  case (Cons h ks)
  have h: "h < length (co_shards c)" using Cons.prems(1) by simp
  obtain s where s: "Shard_forget_queued i (co_shards c ! h) = (Inr (), s)" "shard_inv s"
    "sh_nodes s = sh_nodes (co_shards c ! h)"
    "view s = (view (co_shards c ! h))(i := ({}, snd (view (co_shards c ! h) i)))"
    by (rule forget_queued_view [OF shards_okD [OF Cons.prems(2) h], of i])
  let ?c = "c\<lparr>co_shards := (co_shards c)[h := s]\<rparr>"
  have on: "on_shard out_of_bounds h (Shard_forget_queued i) c = (Inr (), ?c)"
    by (rule on_shard_run [where m = "Shard_forget_queued i", OF h s(1)])
  have "shards_ok ?c" by (rule shards_ok_update [OF Cons.prems(2) s(2)]) simp
  with Cons.IH [of ?c] Cons.prems(1) obtain ss where
    ss: "each_shard (Shard_forget_queued i) ks ?c = (Inr (), c\<lparr>co_shards := ss\<rparr>)"
      "length ss = length (co_shards c)" "\<forall>s \<in> set ss. shard_inv s"
    and at: "\<And>k. k < length ss \<Longrightarrow> nodes_of (ss ! k) = nodes_of ((co_shards c)[h := s] ! k)
         \<and> view (ss ! k) = (if k \<in> set ks
              then (view ((co_shards c)[h := s] ! k))(i := ({}, snd (view ((co_shards c)[h := s] ! k) i)))
              else view ((co_shards c)[h := s] ! k))"
    by auto
  have "nodes_of (ss ! k) = nodes_of (co_shards c ! k)
      \<and> view (ss ! k) = (if k \<in> set (h # ks) then (view (co_shards c ! k))(i := ({}, snd (view (co_shards c ! k) i)))
                          else view (co_shards c ! k))" if "k < length ss" for k
    using at [OF that] s(4) nodes_of_cong [OF s(3)] h by (cases "k = h") auto
  with ss on show ?case by (intro exI [of _ ss]) (simp add: bindS_def)
qed

text \<open>Dropping a request that no shard has assigned.\<close>

lemma drop_request_ok:
  assumes "co_inv c" "\<And>k. k < length (co_shards c) \<Longrightarrow> snd (view (co_shards c ! k) i) = None"
  obtains c' where "drop_request i c = (Inr (), c')" "co_inv c'" "co_requests c' = om_del i (co_requests c)"
    and "length (co_shards c') = length (co_shards c)" "co_node_shards c' = co_node_shards c"
    and "co_snapshot c' = co_snapshot c" "co_volume_placement c' = co_volume_placement c"
    and "\<And>k. k < length (co_shards c) \<Longrightarrow> view (co_shards c' ! k) i = absent"
proof -
  have "set [0..<length (co_shards c)] \<subseteq> {..<length (co_shards c)}" by auto
  from each_forget_ok [OF this, of i] assms(1) obtain ss where
    ss: "forget_everywhere i c = (Inr (), c\<lparr>co_shards := ss\<rparr>)" "length ss = length (co_shards c)"
      "\<forall>s \<in> set ss. shard_inv s"
    and nodes: "\<And>k. k < length ss \<Longrightarrow> nodes_of (ss ! k) = nodes_of (co_shards c ! k)"
    and views: "\<And>k. k < length ss \<Longrightarrow> view (ss ! k) = (view (co_shards c ! k))(i := absent)"
    using assms(2) by (auto simp: co_inv_def forget_everywhere_def)
  let ?c = "c\<lparr>co_shards := ss, co_requests := om_del i (co_requests c),
    co_recovery_requests := os_remove i (co_recovery_requests c)\<rparr>"
  have env: "map_of (cl_environments (co_snapshot c)) i = None"
  proof (cases "map_of (co_requests c) i")
    case None
    with co_tracked [OF assms(1), of i] show ?thesis by (simp add: tracked_at_def)
  next
    case (Some x)
    with co_tracked [OF assms(1), of i] assms(2) [of "fst x"] show ?thesis by (cases x) (auto simp: tracked_at_def)
  qed
  have "tracked ?c"
    unfolding tracked_def
  proof
    fix j
    show "tracked_at (co_shards ?c) j (map_of (co_requests ?c) j) (map_of (cl_environments (co_snapshot ?c)) j)"
    proof (cases "j = i")
      case True
      with views env show ?thesis by (simp add: tracked_at_def)
    next
      case False
      have "tracked_at ss j q p = tracked_at (co_shards c) j q p" for q p
        by (rule tracked_at_cong) (use ss views False in simp_all)
      with co_tracked [OF assms(1), of j] False show ?thesis by simp
    qed
  qed
  moreover have "homed ?c" by (rule homed_same [of c]) (use assms(1) ss nodes in \<open>simp_all add: co_inv_def\<close>)
  moreover have "shards_ok ?c" using ss(3) by (simp add: shards_ok_def)
  moreover have "counters_ok ?c" using assms(1) ss(2) by (auto simp: co_inv_def counters_ok_def)
  ultimately have "co_inv ?c" by (simp add: co_inv_def)
  with ss views show thesis by (intro that [of ?c]) (simp_all add: drop_request_def bindS_def)
qed

lemma cancel_pending_ok:
  assumes "co_inv c" "cancel_pending i c = (res, c')" "\<not> panicked res"
  shows "co_inv c'"
    and "res = Inr True \<Longrightarrow> map_of (cl_environments (co_snapshot c)) i = None \<and> map_of (co_requests c) i \<noteq> None
           \<and> map_of (co_requests c') i = None
           \<and> (\<forall>k < length (co_shards c'). view (co_shards c' ! k) i = absent)"
    and "res = Inr False \<Longrightarrow> c' = c
           \<and> (map_of (co_requests c) i = None \<or> map_of (cl_environments (co_snapshot c)) i \<noteq> None)"
proof -
  have "co_inv c' \<and> (res = Inr True \<longrightarrow> map_of (cl_environments (co_snapshot c)) i = None
           \<and> map_of (co_requests c) i \<noteq> None \<and> map_of (co_requests c') i = None
           \<and> (\<forall>k < length (co_shards c'). view (co_shards c' ! k) i = absent))
      \<and> (res = Inr False \<longrightarrow> c' = c
           \<and> (map_of (co_requests c) i = None \<or> map_of (cl_environments (co_snapshot c)) i \<noteq> None))"
  proof (cases "map_of (co_requests c) i")
    case None
    with assms(1,2) show ?thesis by (auto simp: cancel_pending_def)
  next
    case (Some x)
    obtain k r where x: "x = (k, r)" by (cases x)
    note tr = co_tracked [OF assms(1), of i, unfolded Some x tracked_at_def option.case prod.case]
    have k: "k < length (co_shards c)" using tr by simp
    show ?thesis
    proof (cases "map_of (sh_assigned (co_shards c ! k)) i")
      case None
      then have "snd (view (co_shards c ! k) i) = None" by (simp add: view_def)
      with tr have none: "snd (view (co_shards c ! j) i) = None" if "j < length (co_shards c)" for j
        using that by (cases "j = k") auto
      obtain c1 where c1: "drop_request i c = (Inr (), c1)" "co_inv c1" "co_requests c1 = om_del i (co_requests c)"
        "length (co_shards c1) = length (co_shards c)"
        "\<And>k. k < length (co_shards c) \<Longrightarrow> view (co_shards c1 ! k) i = absent"
        by (rule drop_request_ok [OF assms(1) none]) blast+
      have "c' = c1\<lparr>co_volume_placement := om_del i (co_volume_placement c1)\<rparr>" "res = Inr True"
        using assms(2) Some x k None c1(1)
        by (auto simp: cancel_pending_def shard_assignment_def Shard_assignment_def drop_request_def bindS_def
            split: prod.splits sum.splits)
      moreover have "map_of (cl_environments (co_snapshot c)) i = None"
        using tr \<open>snd (view (co_shards c ! k) i) = None\<close> by auto
      ultimately show ?thesis using c1(2-5) Some by simp
    next
      case (Some a)
      then have "snd (view (co_shards c ! k) i) \<noteq> None" by (simp add: view_def)
      with tr have "map_of (cl_environments (co_snapshot c)) i \<noteq> None" by auto
      with assms(1,2) \<open>map_of (co_requests c) i = Some x\<close> x k Some show ?thesis
        by (auto simp: cancel_pending_def shard_assignment_def Shard_assignment_def)
    qed
  qed
  then show "co_inv c'"
    "res = Inr True \<Longrightarrow> map_of (cl_environments (co_snapshot c)) i = None \<and> map_of (co_requests c) i \<noteq> None
           \<and> map_of (co_requests c') i = None
           \<and> (\<forall>k < length (co_shards c'). view (co_shards c' ! k) i = absent)"
    "res = Inr False \<Longrightarrow> c' = c
           \<and> (map_of (co_requests c) i = None \<or> map_of (cl_environments (co_snapshot c)) i \<noteq> None)"
    by blast+
qed

section \<open>Assignments\<close>

lemma release_ok:
  assumes "co_inv c" "Coordinator_release a c = (res, c')" "\<not> panicked res"
  shows "co_inv c'"
    and "is_ok res \<Longrightarrow> map_of (co_requests c') = (map_of (co_requests c))(as_environment_id a := None)
           \<and> length (co_shards c') = length (co_shards c) \<and> co_node_shards c' = co_node_shards c
           \<and> (\<forall>k < length (co_shards c'). view (co_shards c' ! k) (as_environment_id a) = absent)"
proof -
  let ?i = "as_environment_id a" and ?k = "as_shard_id a"
  have "co_inv c' \<and> (is_ok res \<longrightarrow> map_of (co_requests c') = (map_of (co_requests c))(?i := None)
      \<and> length (co_shards c') = length (co_shards c) \<and> co_node_shards c' = co_node_shards c
      \<and> (\<forall>k < length (co_shards c'). view (co_shards c' ! k) ?i = absent))"
  proof (cases "?k < length (co_shards c)")
    case False
    with assms(1,2) show ?thesis by (auto simp: Coordinator_release_def bindS_def on_shard_def)
  next
    case True
    obtain r s where s: "Shard_release a (co_shards c ! ?k) = (r, s)" by fastforce
    let ?c1 = "c\<lparr>co_shards := (co_shards c)[?k := s]\<rparr>"
    have on: "on_shard NotFound ?k (Shard_release a) c = (r, ?c1)"
      by (rule on_shard_run [where m = "Shard_release a", OF True s])
    note sh = co_shard [OF assms(1) True]
    show ?thesis
    proof (cases r)
      case (Inl e)
      have "accounts (sh_nodes (co_shards c ! ?k)) (sh_assigned (co_shards c ! ?k))"
        using sh by (simp add: shard_inv_def)
      from accounts_release(3) [OF this s] Inl have "s = co_shards c ! ?k" by simp
      then have "?c1 = c" by simp
      with assms(1,2) on Inl show ?thesis by (auto simp: Coordinator_release_def bindS_def)
    next
      case (Inr u)
      note v = release_view [OF sh s [unfolded Inr]]
      let ?c2 = "?c1\<lparr>co_requests := om_del ?i (co_requests ?c1),
        co_recovery_requests := os_remove ?i (co_recovery_requests ?c1), co_snapshot := remove ?i (co_snapshot ?c1)\<rparr>"
      note tr = co_tracked [OF assms(1), of ?i]
      have owner: "h = ?k" if "map_of (co_requests c) ?i = Some (h, x)" for h x
        using tr that v(1) True by (auto simp: tracked_at_def)
      have absent: "tracked_at ((co_shards c)[?k := s]) ?i None None"
        by (rule tracked_set(3) [OF tr True]) (use owner v(2) in auto)
      have inv2: "co_inv ?c2"
      proof (rule co_inv_shard [OF assms(1) True release_inv(1) [OF sh s] release_nodes [OF s] v(2)])
        show "tracked_at ((co_shards c)[?k := s]) ?i (map_of (co_requests ?c2) ?i)
            (map_of (cl_environments (co_snapshot ?c2)) ?i)" using absent by simp
      qed (use co_bookkeeping [OF assms(1)] in auto)
      have run: "record_and_wake (as_node_id a) None ?c2 = (res, c')"
        using assms(2) on Inr by (simp add: Coordinator_release_def bindS_def)
      from run show ?thesis
      proof (cases rule: record_and_wake_cases)
        case (panic e)
        with assms(3) show ?thesis by simp
      next
        case (ok j)
        obtain rd where rd: "wake_pending None (?c2\<lparr>co_journal := j\<rparr>) = ?c2\<lparr>co_journal := j, co_ready := rd\<rparr>"
          by (rule wake_pending_eq [of None "?c2\<lparr>co_journal := j\<rparr>"])
        have "co_inv c'" by (rule record_and_wake_inv(1) [OF inv2 run assms(3)])
        with absent rd ok(3) show ?thesis by (auto simp: tracked_at_def)
      qed
    qed
  qed
  then show "co_inv c'" "is_ok res \<Longrightarrow> map_of (co_requests c') = (map_of (co_requests c))(?i := None)
      \<and> length (co_shards c') = length (co_shards c) \<and> co_node_shards c' = co_node_shards c
      \<and> (\<forall>k < length (co_shards c'). view (co_shards c' ! k) ?i = absent)" by blast+
qed

end
