(* ===== verification/Coordinator_Steps.thy ===== *)
theory Coordinator_Steps
  imports Coordinator_Invariant
begin

text \<open>
  The remaining operations of the coordinator (restored and accepted assignments, retries, rounds),
  its reachable states and the properties that hold in all of them.
\<close>

section \<open>Restored, retried and claimed assignments\<close>

lemma restore_assignment_ok:
  assumes "co_inv c" "as_environment_id a = spec_id r" "restore_assignment r a c = (res, c')" "\<not> panicked res"
  shows "co_inv c'"
proof (cases "om_has (spec_id r) (co_requests c) \<or> map_of (co_node_shards c) (as_node_id a) \<noteq> Some (as_shard_id a)")
  case True
  with assms show ?thesis by (auto simp: restore_assignment_def)
next
  case False
  let ?i = "spec_id r" and ?k = "as_shard_id a"
  have none: "map_of (co_requests c) ?i = None" using False by (simp add: map_of_eq_None_iff)
  have k: "?k < length (co_shards c)"
    using assms(1) False unfolding co_inv_def homed_def homed_at_def by blast
  obtain x s where s: "Shard_restore r a (co_shards c ! ?k) = (x, s)" by fastforce
  let ?c1 = "c\<lparr>co_shards := (co_shards c)[?k := s]\<rparr>"
  have on: "on_shard NotFound ?k (Shard_restore r a) c = (x, ?c1)"
    by (rule on_shard_run [where m = "Shard_restore r a", OF k s])
  note sh = co_shard [OF assms(1) k] and tr = co_tracked [OF assms(1), of ?i]
  have absent: "view (co_shards c ! ?k) ?i = absent" using tr none k by (simp add: tracked_at_def)
  show ?thesis
  proof (cases x)
    case (Inl e)
    then have "s = co_shards c ! ?k"
      using s by (auto simp: Shard_restore_def split: if_splits option.splits sum.splits prod.splits)
    then have "?c1 = c" by simp
    with assms on Inl False show ?thesis by (auto simp: restore_assignment_def bindS_def)
  next
    case (Inr u)
    note v = restore_view [OF sh absent assms(2) s [unfolded Inr]]
    let ?c2 = "?c1\<lparr>co_requests := om_put ?i (?k, r) (co_requests ?c1),
      co_snapshot := place \<lparr>pe_spec = r, pe_node_id = as_node_id a\<rparr> (co_snapshot ?c1),
      co_retired := os_remove ?i (co_retired ?c1)\<rparr>"
    have "co_inv ?c2"
    proof (rule co_inv_shard [OF assms(1) k v(1) restore_nodes [OF s] v(2)])
      show "tracked_at ((co_shards c)[?k := s]) ?i (map_of (co_requests ?c2) ?i)
          (map_of (cl_environments (co_snapshot ?c2)) ?i)"
        using tracked_set(2) [OF tr k, of s a r] v(2) none by simp
    qed (use co_bookkeeping [OF assms(1)] in auto)
    moreover have "record_and_wake (as_node_id a) None ?c2 = (res, c')"
      using assms(3) on Inr False by (simp add: restore_assignment_def bindS_def)
    ultimately show ?thesis using record_and_wake_inv(1) assms(4) by blast
  qed
qed

lemma Coordinator_retry_ok:
  assumes "co_inv c" "Coordinator_retry millis a c = (res, c')" "\<not> panicked res"
  shows "co_inv c'"
proof (cases "map_of (co_requests c) (as_environment_id a)")
  case None
  with assms show ?thesis by (auto simp: Coordinator_retry_def)
next
  case (Some x)
  obtain h r where x: "x = (h, r)" by (cases x)
  let ?i = "as_environment_id a" and ?k = "as_shard_id a"
  note tr = co_tracked [OF assms(1), of ?i]
  have r: "spec_id r = ?i" using tr Some x by (simp add: tracked_at_def)
  have run: "bindS (on_shard NotFound ?k (Shard_retry millis a r)) (\<lambda>_ c1.
      record_and_wake (as_node_id a) None (c1\<lparr>co_snapshot := remove ?i (co_snapshot c1)\<rparr>)) c = (res, c')"
    using assms(2) Some x by (simp add: Coordinator_retry_def)
  show ?thesis
  proof (cases "?k < length (co_shards c)")
    case False
    with run assms(1) show ?thesis by (auto simp: bindS_def on_shard_def)
  next
    case True
    obtain y s where s: "Shard_retry millis a r (co_shards c ! ?k) = (y, s)" by fastforce
    let ?c1 = "c\<lparr>co_shards := (co_shards c)[?k := s]\<rparr>"
    have on: "on_shard NotFound ?k (Shard_retry millis a r) c = (y, ?c1)"
      by (rule on_shard_run [where m = "Shard_retry millis a r", OF True s])
    note sh = co_shard [OF assms(1) True]
    show ?thesis
    proof (cases y)
      case (Inl e)
      have np: "\<not> panicked y" using run on Inl assms(3) by (auto simp: bindS_def)
      from retry_inv(2) [OF sh r [symmetric] s np] Inl have "s = co_shards c ! ?k" by simp
      then have "?c1 = c" by simp
      with run on Inl assms(1) show ?thesis by (simp add: bindS_def)
    next
      case (Inr u)
      note v = retry_view [OF sh r [symmetric] s [unfolded Inr]]
      have owner: "h = ?k" using tr Some x v(2) True r by (auto simp: tracked_at_def)
      let ?c2 = "?c1\<lparr>co_snapshot := remove ?i (co_snapshot ?c1)\<rparr>"
      have "co_inv ?c2"
      proof (rule co_inv_shard [OF assms(1) True v(1) retry_nodes [OF s] v(3)])
        show "tracked_at ((co_shards c)[?k := s]) (spec_id r) (map_of (co_requests ?c2) (spec_id r))
            (map_of (cl_environments (co_snapshot ?c2)) (spec_id r))"
          using tracked_set(1) [OF tr True, of s r] v(3) Some x owner r by simp
      qed (use co_bookkeeping [OF assms(1)] r in auto)
      moreover have "record_and_wake (as_node_id a) None ?c2 = (res, c')"
        using run on Inr by (simp add: bindS_def)
      ultimately show ?thesis using record_and_wake_inv(1) assms(3) by blast
    qed
  qed
qed

lemma take_over_ok:
  assumes "co_inv c" "as_environment_id a = spec_id r" "take_over r a c = (res, c')" "\<not> panicked res"
    and "\<And>k. k < length (co_shards c) \<Longrightarrow> snd (view (co_shards c ! k) (spec_id r)) = None"
  shows "co_inv c'"
proof -
  obtain c1 where c1: "drop_request (spec_id r) c = (Inr (), c1)" "co_inv c1"
    by (rule drop_request_ok [OF assms(1,5)]) blast+
  have run: "bindS (restore_assignment r a) (\<lambda>_ c. (Inr (), raise_generation (as_generation a) c)) c1 = (res, c')"
    using assms(3) c1(1) by (simp add: take_over_def bindS_def)
  from run show ?thesis
  proof (cases rule: bindS_cases)
    case (err e)
    with restore_assignment_ok [OF c1(2) assms(2)] assms(4) show ?thesis by simp
  next
    case (ok x c2)
    with restore_assignment_ok [OF c1(2) assms(2) ok(1)] show ?thesis by auto
  qed
qed

lemma unassigned_views:
  assumes "co_inv c" "\<And>k r. map_of (co_requests c) i = Some (k, r) \<Longrightarrow> snd (view (co_shards c ! k) i) = None"
  shows "k < length (co_shards c) \<Longrightarrow> snd (view (co_shards c ! k) i) = None"
  using co_tracked [OF assms(1), of i] assms(2)
  by (cases "map_of (co_requests c) i"; cases "k = fst (the (map_of (co_requests c) i))") (auto simp: tracked_at_def)

lemma shard_assignment_eq:
  "k < length (co_shards c) \<Longrightarrow> shard_assignment c k i = Inr (snd (view (co_shards c ! k) i))"
  by (simp add: shard_assignment_def Shard_assignment_def view_def)

lemma co_request_shard: "co_inv c \<Longrightarrow> map_of (co_requests c) i = Some (k, r) \<Longrightarrow> k < length (co_shards c) \<and> spec_id r = i"
  using co_tracked [of c i] by (simp add: tracked_at_def)

lemma co_assigned:
  assumes "co_inv c" "map_of (co_requests c) i = Some (k, r)" "snd (view (co_shards c ! k) i) = Some a"
  shows "as_environment_id a = i" "as_shard_id a = k"
proof -
  have k: "k < length (co_shards c)" using co_request_shard [OF assms(1,2)] by simp
  have "map_of (sh_assigned (co_shards c ! k)) i = Some a" using assms(3) by (simp add: view_def)
  moreover have "keyed as_environment_id (sh_assigned (co_shards c ! k))"
    using co_shard [OF assms(1) k] by (simp add: shard_inv_def accounts_def)
  ultimately show "as_environment_id a = i" by (blast dest: keyedD)
  show "as_shard_id a = k"
    using co_tracked [OF assms(1), of i] assms(2,3) by (auto simp: tracked_at_def)
qed

lemma accept_claim_ok:
  assumes "co_inv c" "accept_claim now r a c = (res, c')" "\<not> panicked res"
  shows "co_inv c'"
proof (cases "EnvironmentSpec_validate now r = Inr () \<and> as_environment_id a = spec_id r \<and> as_generation a \<noteq> 0
    \<and> map_of (co_node_shards c) (as_node_id a) = Some (as_shard_id a)")
  case False
  with assms show ?thesis by (auto simp: accept_claim_def split: sum.splits)
next
  case True
  note env = True [THEN conjunct2, THEN conjunct1]
  show ?thesis
  proof (cases "map_of (co_requests c) (spec_id r)")
    case None
    have "take_over r a c = (res, c')" using assms(2) True None by (simp add: accept_claim_def)
    then show ?thesis
      by (rule take_over_ok [OF assms(1) env _ assms(3)]) (rule unassigned_views [OF assms(1)], use None in simp_all)
  next
    case (Some x)
    obtain k e where x: "x = (k, e)" by (cases x)
    have k: "k < length (co_shards c)" using co_request_shard assms(1) Some x by blast
    show ?thesis
    proof (cases "e = r \<and> snd (view (co_shards c ! k) (spec_id r)) \<noteq> Some a")
      case False
      with assms True Some x k show ?thesis
        by (auto simp: accept_claim_def shard_assignment_eq split: if_splits)
    next
      case live: True
      show ?thesis
      proof (cases "snd (view (co_shards c ! k) (spec_id r))")
        case None
        have "take_over r a c = (res, c')"
          using assms(2) True Some x k live None by (simp add: accept_claim_def shard_assignment_eq)
        then show ?thesis
          by (rule take_over_ok [OF assms(1) env _ assms(3)])
             (rule unassigned_views [OF assms(1)], use Some x None in simp_all)
      next
        case (Some old)
        have old: "as_environment_id old = spec_id r"
          using co_assigned(1) [OF assms(1) _ Some] \<open>map_of (co_requests c) (spec_id r) = Some x\<close> x by simp
        have "bindS (Coordinator_release old) (\<lambda>_. take_over r a) c = (res, c')"
          using assms(2) True \<open>map_of (co_requests c) (spec_id r) = Some x\<close> x k live Some
          by (simp add: accept_claim_def shard_assignment_eq)
        then show ?thesis
        proof (cases rule: bindS_cases)
          case (err e)
          with release_ok(1) [OF assms(1)] assms(3) show ?thesis by simp
        next
          case (ok u c1)
          have np: "\<not> panicked (Inr u)" by simp
          note rel = release_ok [OF assms(1) ok(1) np]
          show ?thesis by (rule take_over_ok [OF rel(1) env ok(2) assms(3)]) (use rel(2) old in simp)
        qed
      qed
    qed
  qed
qed

lemma retire_claim_ok:
  assumes "co_inv c" "retire_claim i c = (res, c')" "\<not> panicked res"
  shows "co_inv c'"
proof -
  obtain old where old: "bindS (case old of None \<Rightarrow> returnS () | Some a \<Rightarrow> Coordinator_release a) (\<lambda>_.
      bindS (drop_request i) (\<lambda>_ c1. (Inr (), c1\<lparr>co_retired := os_insert i (co_retired c1)\<rparr>))) c = (res, c')"
    and view: "old = (case map_of (co_requests c) i of None \<Rightarrow> None | Some (k, _) \<Rightarrow> snd (view (co_shards c ! k) i))"
    using assms(2) co_request_shard [OF assms(1)]
    by (auto simp: retire_claim_def Let_def shard_assignment_eq split: option.splits)
  from old show ?thesis
  proof (cases rule: bindS_cases)
    case (err e)
    with assms(1,3) release_ok(1) [OF assms(1)] show ?thesis by (cases old) auto
  next
    case (ok u c1)
    have "co_inv c1 \<and> (\<forall>k < length (co_shards c1). snd (view (co_shards c1 ! k) i) = None)"
    proof (cases old)
      case None
      have "snd (view (co_shards c ! k) i) = None" if "k < length (co_shards c)" for k
        by (rule unassigned_views [OF assms(1) _ that]) (use view None in auto)
      with ok(1) None assms(1) show ?thesis by auto
    next
      case (Some a)
      obtain k r where "map_of (co_requests c) i = Some (k, r)" "snd (view (co_shards c ! k) i) = Some a"
        using view Some by (auto split: option.splits)
      note a = co_assigned(1) [OF assms(1) this]
      have rel: "Coordinator_release a c = (Inr u, c1)" using ok(1) Some by simp
      have np: "\<not> panicked (Inr u)" by simp
      from release_ok [OF assms(1) rel np] a show ?thesis by simp
    qed
    then obtain c2 where c2: "drop_request i c1 = (Inr (), c2)" "co_inv c2" "co_requests c2 = om_del i (co_requests c1)"
      using drop_request_ok [of c1 i] by blast
    have "co_inv (c2\<lparr>co_retired := os_insert i (co_retired c2)\<rparr>)"
      by (rule co_inv_retired [OF c2(2)]) (use co_bookkeeping(3) [OF c2(2)] c2(3) in auto)
    with ok(2) c2(1) show ?thesis by (auto simp: bindS_def)
  qed
qed

lemma forget_deleted_ok:
  assumes "co_inv c" "forget_deleted i c = (res, c')" "\<not> panicked res"
  shows "co_inv c'"
proof -
  have "bindS (if i \<in> set (co_recovery_requests c) then retire_claim i else returnS ()) (\<lambda>_ c1.
      if om_has i (co_requests c1) \<or> om_has i (cl_environments (co_snapshot c1)) then (Inl Conflict, c1)
      else (Inr (), c1\<lparr>co_retired := os_remove i (co_retired c1)\<rparr>)) c = (res, c')"
    using assms(2) by (simp add: forget_deleted_def)
  then show ?thesis
  proof (cases rule: bindS_cases)
    case (err e)
    with assms(1,3) retire_claim_ok [OF assms(1)] show ?thesis by (auto split: if_splits)
  next
    case (ok u c1)
    have inv1: "co_inv c1" using ok(1) assms(1) retire_claim_ok [OF assms(1)] by (auto split: if_splits)
    have "co_inv (c1\<lparr>co_retired := os_remove i (co_retired c1)\<rparr>)"
      by (rule co_inv_retired [OF inv1]) (use co_bookkeeping(3) [OF inv1] in auto)
    with ok(2) inv1 show ?thesis by (auto split: if_splits)
  qed
qed

lemma finish_recovery_ok:
  assumes "co_inv c" "finish_recovery_placement now r a c = (res, c')" "\<not> panicked res"
  shows "co_inv c'"
proof (cases "\<exists>queued. map_of (co_requests c) (spec_id r) = Some (as_shard_id a, queued)
    \<and> snd (view (co_shards c ! as_shard_id a) (spec_id r)) = Some a
    \<and> queued\<lparr>spec_scheduling := (spec_scheduling queued)\<lparr>sp_required_node := sp_required_node (spec_scheduling r)\<rparr>\<rparr> = r
    \<and> EnvironmentSpec_validate now r = Inr ()")
  case False
  with assms show ?thesis
    by (auto simp: finish_recovery_placement_def Let_def shard_assignment_def Shard_assignment_def view_def
        split: sum.splits option.splits prod.splits if_splits)
next
  case True
  let ?i = "spec_id r" and ?k = "as_shard_id a"
  from True obtain queued where q: "map_of (co_requests c) ?i = Some (?k, queued)"
    "snd (view (co_shards c ! ?k) ?i) = Some a"
    "queued\<lparr>spec_scheduling := (spec_scheduling queued)\<lparr>sp_required_node := sp_required_node (spec_scheduling r)\<rparr>\<rparr> = r"
    "EnvironmentSpec_validate now r = Inr ()" by blast
  have k: "?k < length (co_shards c)" using co_request_shard [OF assms(1) q(1)] by simp
  note tr = co_tracked [OF assms(1), of ?i]
  have v: "view (co_shards c ! ?k) ?i = ({}, Some a)"
    using tr q(1,2) by (auto simp: tracked_at_def)
  let ?c = "c\<lparr>co_requests := om_put ?i (?k, r) (co_requests c),
    co_snapshot := place \<lparr>pe_spec = r, pe_node_id = as_node_id a\<rparr> (co_snapshot c)\<rparr>"
  have "co_inv ?c"
  proof (rule co_inv_shard [OF assms(1) k co_shard [OF assms(1) k] refl, where i = ?i and v = "({}, Some a)"])
    show "tracked_at ((co_shards c)[?k := co_shards c ! ?k]) ?i (map_of (co_requests ?c) ?i)
        (map_of (cl_environments (co_snapshot ?c)) ?i)"
      using tracked_set(2) [OF tr k _ v refl refl] q(1) by simp
  qed (use co_bookkeeping [OF assms(1)] v q(1) in auto)
  moreover have "record_and_wake (as_node_id a) None ?c = (res, c')"
    using assms(2) q k by (simp add: finish_recovery_placement_def Let_def shard_assignment_eq)
  ultimately show ?thesis using record_and_wake_inv(1) assms(3) by blast
qed

section \<open>Rounds\<close>

text \<open>While a round holds a request in its hand, no shard knows it.\<close>

definition hand :: "string \<Rightarrow> environment_spec \<Rightarrow> coordinator \<Rightarrow> bool" where
  "hand i r c \<longleftrightarrow>
     shards_ok c \<and> homed c \<and> counters_ok c \<and> spec_id r = i
     \<and> (\<exists>h. map_of (co_requests c) i = Some (h, r)) \<and> map_of (cl_environments (co_snapshot c)) i = None
     \<and> (\<forall>k < length (co_shards c). view (co_shards c ! k) i = absent)
     \<and> (\<forall>j. j \<noteq> i \<longrightarrow> tracked_at (co_shards c) j (map_of (co_requests c) j) (map_of (cl_environments (co_snapshot c)) j))"

lemma hand_put:
  assumes "hand i r c" "k < length (co_shards c)" "shard_inv s" "nodes_of s = nodes_of (co_shards c ! k)"
    and "view s = (view (co_shards c ! k))(i := ({r}, None))"
    and "map_of (co_requests c) i = Some (k, r)"
  shows "co_inv (c\<lparr>co_shards := (co_shards c)[k := s]\<rparr>)"
proof -
  let ?c = "c\<lparr>co_shards := (co_shards c)[k := s]\<rparr>"
  have h: "shards_ok c" "homed c" "counters_ok c" "spec_id r = i" "map_of (cl_environments (co_snapshot c)) i = None"
    "\<And>l. l < length (co_shards c) \<Longrightarrow> view (co_shards c ! l) i = absent"
    "\<And>j. j \<noteq> i \<Longrightarrow> tracked_at (co_shards c) j (map_of (co_requests c) j) (map_of (cl_environments (co_snapshot c)) j)"
    using assms(1) by (auto simp: hand_def)
  have "tracked ?c"
    unfolding tracked_def
  proof
    fix j
    show "tracked_at (co_shards ?c) j (map_of (co_requests ?c) j) (map_of (cl_environments (co_snapshot ?c)) j)"
    proof (cases "j = i")
      case True
      with h(4,5,6) assms(2,5,6) show ?thesis by (auto simp: tracked_at_def nth_list_update)
    next
      case False
      have "tracked_at ((co_shards c)[k := s]) j q p = tracked_at (co_shards c) j q p" for q p
        by (rule tracked_at_cong) (use assms(2,5) False in \<open>auto simp: nth_list_update\<close>)
      with False h(7) show ?thesis by simp
    qed
  qed
  moreover have "homed ?c" by (rule homed_update [OF h(2) _ assms(4)]) simp_all
  moreover have "shards_ok ?c" by (rule shards_ok_update [OF h(1) assms(3)]) simp
  moreover have "counters_ok ?c" using h(3) by (simp add: counters_ok_def)
  ultimately show ?thesis by (simp add: co_inv_def)
qed

text \<open>A shard whose view does not change keeps the request in hand.\<close>

lemma hand_shard:
  assumes "hand i r c" "k < length (co_shards c)" "shard_inv s" "nodes_of s = nodes_of (co_shards c ! k)"
    and "view s = view (co_shards c ! k)"
  shows "hand i r (c\<lparr>co_shards := (co_shards c)[k := s]\<rparr>)"
proof -
  let ?c = "c\<lparr>co_shards := (co_shards c)[k := s]\<rparr>"
  have "homed ?c" by (rule homed_update [OF _ _ assms(4)]) (use assms(1) in \<open>simp_all add: hand_def\<close>)
  moreover have "shards_ok ?c" by (rule shards_ok_update [OF _ assms(3)]) (use assms(1) in \<open>simp_all add: hand_def\<close>)
  moreover have "counters_ok ?c" using assms(1) by (simp add: hand_def counters_ok_def)
  moreover have "tracked_at ((co_shards c)[k := s]) j q p = tracked_at (co_shards c) j q p" for j q p
    by (rule tracked_at_cong) (use assms(2,5) in \<open>auto simp: nth_list_update\<close>)
  ultimately show ?thesis using assms(1,2,5) by (auto simp: hand_def nth_list_update)
qed

lemma hand_stats:
  assumes "hand i r c" "same_but_stats c c'"
  shows "hand i r c'"
proof -
  obtain ss where ss: "c' = c\<lparr>co_shards := ss\<rparr>" "length ss = length (co_shards c)"
    "\<And>k. k < length ss \<Longrightarrow> same_books (co_shards c ! k) (ss ! k)"
    "\<And>k. k < length ss \<Longrightarrow> shard_inv (co_shards c ! k) \<Longrightarrow> shard_inv (ss ! k)"
    using assms(2) unfolding same_but_stats_def by blast
  have v: "view (ss ! k) = view (co_shards c ! k)" "nodes_of (ss ! k) = nodes_of (co_shards c ! k)"
    if "k < length (co_shards c)" for k using ss(2,3) that same_books_view by auto
  have "shard_inv (co_shards c ! k)" if "k < length (co_shards c)" for k
    using assms(1) that by (simp add: hand_def shards_okD)
  then have "shards_ok c'" using ss by (auto simp: shards_ok_def in_set_conv_nth)
  moreover have "homed c'" by (rule homed_same [of c]) (use assms(1) ss v in \<open>simp_all add: hand_def\<close>)
  moreover have "counters_ok c'" using assms(1) ss by (simp add: hand_def counters_ok_def)
  moreover have "tracked_at ss j q p = tracked_at (co_shards c) j q p" for j q p
    by (rule tracked_at_cong) (use ss v in auto)
  ultimately show ?thesis using assms(1) ss(1,2) v by (auto simp: hand_def)
qed

text \<open>What a round never changes: the accepted requests, the nodes and the limits.\<close>

definition keeps :: "coordinator \<Rightarrow> coordinator \<Rightarrow> bool" where
  "keeps c c' \<longleftrightarrow>
     length (co_shards c') = length (co_shards c) \<and> co_config c' = co_config c
     \<and> co_node_shards c' = co_node_shards c \<and> co_volume_placement c' = co_volume_placement c
     \<and> co_retired c' = co_retired c \<and> co_recovery_requests c' = co_recovery_requests c
     \<and> (\<forall>i. map_option snd (map_of (co_requests c') i) = map_option snd (map_of (co_requests c) i))"

lemma keeps_refl [simp]: "keeps c c"
  by (simp add: keeps_def)

lemma keeps_trans: "keeps c c' \<Longrightarrow> keeps c' c'' \<Longrightarrow> keeps c c''"
  by (auto simp: keeps_def)

lemma keeps_shards: "length ss = length (co_shards c) \<Longrightarrow> keeps c (c\<lparr>co_shards := ss\<rparr>)"
  by (simp add: keeps_def)

lemma keeps_ready [simp]: "keeps c (wake k c)" "keeps c (c\<lparr>co_ready := x\<rparr>)"
  by (simp_all add: keeps_def wake_def)

lemma keeps_stats: "same_but_stats c c' \<Longrightarrow> keeps c c'"
  by (auto simp: same_but_stats_def keeps_def)

lemma keeps_record:
  assumes "record_and_wake i exclude c = (Inr u, c')"
  shows "keeps c c' \<and> co_generation c' = co_generation c \<and> co_shards c' = co_shards c"
  using assms
proof (cases rule: record_and_wake_cases)
  case (ok j)
  obtain rd where "wake_pending exclude (c\<lparr>co_journal := j\<rparr>) = c\<lparr>co_journal := j, co_ready := rd\<rparr>"
    by (rule wake_pending_eq [of exclude "c\<lparr>co_journal := j\<rparr>"])
  with ok show ?thesis by (simp add: keeps_def)
qed simp_all

text \<open>Deferring the request in hand puts it back into its shard.\<close>

lemma defer_ok:
  assumes "hand (spec_id (en_spec e)) (en_spec e) c" "k < length (co_shards c)" "ticket_free e (co_shards c ! k)"
    and "map_of (co_requests c) (spec_id (en_spec e)) = Some (k, en_spec e)"
  obtains s where "on_shard out_of_bounds k (Shard_defer e) c = (Inr (), c\<lparr>co_shards := (co_shards c)[k := s]\<rparr>)"
    and "co_inv (c\<lparr>co_shards := (co_shards c)[k := s]\<rparr>)"
proof -
  have sh: "shard_inv (co_shards c ! k)" using assms(1,2) by (simp add: hand_def shards_okD)
  obtain s where s: "Shard_defer e (co_shards c ! k) = (Inr (), s)" "shard_inv s" "sh_nodes s = sh_nodes (co_shards c ! k)"
    "view s = (view (co_shards c ! k))(spec_id (en_spec e) := ({en_spec e}, None))"
    by (rule defer_view [OF sh assms(3)])
  show thesis
    by (rule that [of s]) (use on_shard_run [where m = "Shard_defer e", OF assms(2) s(1)] in
      \<open>simp_all add: hand_put [OF assms(1,2) s(2) nodes_of_cong [OF s(3)] s(4) assms(4)]\<close>)
qed

lemma transfer_ok:
  assumes "hand i (en_spec e) c" "i = spec_id (en_spec e)" "k < length (co_shards c)" "target < length (co_shards c)"
    and "map_of (co_requests c) i = Some (target, en_spec e)"
    and "bindS (on_shard out_of_bounds k (Shard_forget_queued i)) (\<lambda>_.
           bindS (on_shard out_of_bounds target (Shard_accept_transfer e excluded)) (\<lambda>_ c2.
           (Inr (), wake target c2))) c = (res, c')" "\<not> panicked res"
  shows "co_inv c'" "res = Inr ()" "keeps c c'"
proof -
  have sh: "shard_inv (co_shards c ! l)" if "l < length (co_shards c)" for l
    using assms(1) that by (simp add: hand_def shards_okD)
  obtain s where s: "Shard_forget_queued i (co_shards c ! k) = (Inr (), s)" "shard_inv s"
    "sh_nodes s = sh_nodes (co_shards c ! k)"
    "view s = (view (co_shards c ! k))(i := ({}, snd (view (co_shards c ! k) i)))"
    by (rule forget_queued_view [OF sh [OF assms(3)], of i])
  let ?c1 = "c\<lparr>co_shards := (co_shards c)[k := s]\<rparr>"
  have "view (co_shards c ! k) i = absent" using assms(1,3) by (simp add: hand_def)
  then have "view s = view (co_shards c ! k)" using s(4) by (auto simp: fun_eq_iff)
  then have h1: "hand i (en_spec e) ?c1"
    using hand_shard [OF assms(1,3) s(2) nodes_of_cong [OF s(3)]] by blast
  have on1: "on_shard out_of_bounds k (Shard_forget_queued i) c = (Inr (), ?c1)"
    by (rule on_shard_run [where m = "Shard_forget_queued i", OF assms(3) s(1)])
  have t: "target < length (co_shards ?c1)" using assms(4) by simp
  obtain x u where u: "Shard_accept_transfer e excluded (co_shards ?c1 ! target) = (x, u)" by fastforce
  let ?c2 = "?c1\<lparr>co_shards := (co_shards ?c1)[target := u]\<rparr>"
  have on2: "on_shard out_of_bounds target (Shard_accept_transfer e excluded) ?c1 = (x, ?c2)"
    by (rule on_shard_run [where m = "Shard_accept_transfer e excluded", OF t u])
  have np: "\<not> panicked x" using assms(6,7) on1 on2 by (cases x) (simp_all add: bindS_def)
  have x: "x = Inr ()"
    using u np enqueue_panics by (simp only: Shard_accept_transfer_def) blast
  have sh1: "shard_inv (co_shards ?c1 ! target)" and ab: "view (co_shards ?c1 ! target) (spec_id (en_spec e)) = absent"
    using h1 t assms(2) shards_okD [of ?c1 target] by (simp_all add: hand_def)
  note run = u [unfolded x]
  have un: "unknown (spec_id (en_spec e)) (co_shards ?c1 ! target)" using ab by (simp add: unknown_view)
  note tr = accept_transfer_inv [OF sh1 un run] accept_transfer_view [OF sh1 ab run]
  have "co_inv ?c2"
    by (rule hand_put [OF h1 t tr(1) nodes_of_cong [OF tr(4)]]) (use tr(5) assms(2,5) in simp_all)
  then have "co_inv (wake target ?c2)" by (rule wake_inv) (use assms(4) in simp)
  moreover have out: "res = Inr ()" "c' = wake target ?c2"
    using assms(6) on1 on2 x by (auto simp: bindS_def)
  moreover have "keeps c ?c2" by (simp add: keeps_def)
  ultimately show "co_inv c'" "res = Inr ()" "keeps c c'" using keeps_trans keeps_ready(1) by blast+
qed

lemma defer_or_transfer_ok:
  assumes "hand i (en_spec e) c" "i = spec_id (en_spec e)" "k < length (co_shards c)" "ticket_free e (co_shards c ! k)"
    and "map_of (co_requests c) i = Some (k, en_spec e)"
    and "defer_or_transfer now k e c = (res, c')" "\<not> panicked res"
  shows "co_inv c' \<and> keeps c c'"
proof -
  note h = assms(1) [unfolded assms(2)]
  have put: "co_inv c'' \<and> keeps d c''"
    if st: "same_but_stats c d" and on: "on_shard out_of_bounds k (Shard_defer e) d = (x, c'')" for d x c''
  proof -
    note same = same_but_statsD [OF st]
    have free: "ticket_free e (co_shards d ! k)"
      using assms(3,4) same(10) [OF assms(3)] by (simp add: same_books_def ticket_free_def Shard_pending_requests_def)
    have k: "k < length (co_shards d)" and req: "map_of (co_requests d) (spec_id (en_spec e)) = Some (k, en_spec e)"
      using assms(2,3,5) same(1,2) by simp_all
    obtain s where "on_shard out_of_bounds k (Shard_defer e) d = (Inr (), d\<lparr>co_shards := (co_shards d)[k := s]\<rparr>)"
      "co_inv (d\<lparr>co_shards := (co_shards d)[k := s]\<rparr>)"
      by (rule defer_ok [OF hand_stats [OF h st] k free req])
    with on show ?thesis by (auto intro: keeps_shards)
  qed
  have defer_raise: "co_inv c' \<and> keeps d c'"
    if "same_but_stats c d" "bindS (on_shard out_of_bounds k (Shard_defer e)) (\<lambda>_. raiseS err) d = (res, c')" for d err
    using that(2) by (cases rule: bindS_cases) (use put [OF that(1)] in auto)
  show ?thesis
  proof (cases "spec_snapshot_id (en_spec e) = None \<and> \<not> om_has i (co_volume_placement c)")
    case True
    with assms(2,6) put [OF same_but_stats_refl] show ?thesis by (simp add: defer_or_transfer_def Let_def)
  next
    case False
    let ?excluded = "Shard_exclusions i (co_shards c ! k)"
    obtain x d where d: "candidate_shard now (en_spec e) ?excluded (Some k) c = (x, d)" by fastforce
    note cand = candidate_shard_ok [OF d]
    note same = same_but_statsD [OF cand(1)] and kd = keeps_stats [OF cand(1)]
    have run: "(case x of
        Inl err \<Rightarrow> if is_panic err then (Inl err, d)
                    else bindS (on_shard out_of_bounds k (Shard_defer e)) (\<lambda>_. raiseS err) d
      | Inr None \<Rightarrow> on_shard out_of_bounds k (Shard_defer e) d
      | Inr (Some target) \<Rightarrow>
          bindS (on_shard out_of_bounds k (Shard_forget_queued i)) (\<lambda>_.
          bindS (on_shard out_of_bounds target (Shard_accept_transfer e ?excluded)) (\<lambda>_ c2.
          (Inr (), wake target c2)))
            (d\<lparr>co_requests := om_put i (target, en_spec e) (co_requests d)\<rparr>)) = (res, c')"
    proof -
      have "\<not> length (co_shards c) \<le> k" using assms(3) by simp
      note run = assms(6) [unfolded defer_or_transfer_def Let_def assms(2) [symmetric] if_not_P [OF False] if_not_P [OF this]]
      show ?thesis
      proof (cases x)
        case (Inr t)
        with run d same(2) assms(5) show ?thesis by (cases t) simp_all
      qed (use run d in simp)
    qed
    show ?thesis
    proof (cases x)
      case (Inl err)
      with run assms(7) defer_raise [OF cand(1)] kd keeps_trans show ?thesis by (auto split: if_splits)
    next
      case (Inr t)
      show ?thesis
      proof (cases t)
        case None
        with Inr run put [OF cand(1)] kd keeps_trans show ?thesis by auto
      next
        case (Some target)
        let ?d = "d\<lparr>co_requests := om_put i (target, en_spec e) (co_requests d)\<rparr>"
        have hd: "hand i (en_spec e) d" by (rule hand_stats [OF assms(1) cand(1)])
        then have hd': "hand i (en_spec e) ?d"
          by (auto simp: hand_def shards_ok_def homed_def counters_ok_def)
        have t: "target < length (co_shards ?d)" using cand(2) [of target] Inr Some same(1) by simp
        have k: "k < length (co_shards ?d)" using assms(3) same(1) by simp
        have at: "map_of (co_requests ?d) i = Some (target, en_spec e)" by simp
        have "keeps d ?d"
          using assms(5) same(2) by (auto simp: keeps_def)
        with transfer_ok [OF hd' assms(2) k t at _ assms(7), of ?excluded c'] run Inr Some kd
        show ?thesis by (auto intro: keeps_trans)
      qed
    qed
  qed
qed

text \<open>An attempt that hands its request back, or assigns it.\<close>

lemma attempt_hand:
  assumes "co_inv c" "k < length (co_shards c)"
    and "Shard_attempt now k g cl j cfg placements (co_shards c ! k) = (Inr (Deferred e), s)"
  defines "c1 \<equiv> c\<lparr>co_shards := (co_shards c)[k := s]\<rparr>"
  shows "hand (spec_id (en_spec e)) (en_spec e) c1" "ticket_free e (co_shards c1 ! k)"
    "map_of (co_requests c1) (spec_id (en_spec e)) = Some (k, en_spec e)"
proof -
  let ?i = "spec_id (en_spec e)"
  note sh = co_shard [OF assms(1,2)]
  note v = attempt_view(2) [OF sh assms(3) refl]
  have tr: "tracked_at (co_shards c) ?i (map_of (co_requests c) ?i) (map_of (cl_environments (co_snapshot c)) ?i)"
    by (rule co_tracked [OF assms(1)])
  show req: "map_of (co_requests c1) ?i = Some (k, en_spec e)"
    using tr v assms(2) unfolding c1_def
    by (cases "map_of (co_requests c) ?i") (auto simp: tracked_at_def)
  show "ticket_free e (co_shards c1 ! k)" using v assms(2) by (simp add: c1_def)
  have "map_of (cl_environments (co_snapshot c)) ?i = None" using tr req v by (auto simp: tracked_at_def c1_def)
  moreover have "view ((co_shards c)[k := s] ! l) ?i = absent" if "l < length (co_shards c)" for l
    using tr req v that by (cases "l = k") (auto simp: tracked_at_def c1_def)
  moreover have "tracked_at ((co_shards c)[k := s]) i q p = tracked_at (co_shards c) i q p" if "i \<noteq> ?i" for i q p
    by (rule tracked_at_cong) (use assms(2) v that in \<open>auto simp: nth_list_update\<close>)
  moreover have "homed c1"
    by (rule homed_update [of c _ k s]) (use assms(1) attempt_nodes [OF sh assms(3)] in \<open>simp_all add: co_inv_def c1_def\<close>)
  moreover have "shards_ok c1"
    by (rule shards_ok_update [of c s _ k]) (use assms(1) attempt_ok(1) [OF sh assms(3)] in \<open>simp_all add: co_inv_def c1_def\<close>)
  moreover have "counters_ok c1" using assms(1) by (simp add: co_inv_def counters_ok_def c1_def)
  ultimately show "hand ?i (en_spec e) c1"
    using req co_tracked [OF assms(1)] by (simp add: hand_def c1_def)
qed

lemma attempt_same:
  assumes "co_inv c" "k < length (co_shards c)"
    and "Shard_attempt now k g cl j cfg placements (co_shards c ! k) = (res, s)"
    and "res = Inr Empty \<or> (\<exists>err. res = Inl err \<and> \<not> is_panic err)"
  shows "co_inv (c\<lparr>co_shards := (co_shards c)[k := s]\<rparr>)"
proof -
  note sh = co_shard [OF assms(1,2)]
  let ?c = "c\<lparr>co_shards := (co_shards c)[k := s]\<rparr>"
  have v: "view s = view (co_shards c ! k)" using assms(4) attempt_view(3,4) [OF sh assms(3)] by auto
  have "tracked ?c" by (rule tracked_same [of c]) (use assms(1,2) v in \<open>auto simp: co_inv_def nth_list_update\<close>)
  moreover have "homed ?c"
    by (rule homed_update [of c _ k s]) (use assms(1) attempt_nodes [OF sh assms(3)] in \<open>simp_all add: co_inv_def\<close>)
  moreover have "shards_ok ?c"
    by (rule shards_ok_update [of c s _ k]) (use assms(1) attempt_ok(1) [OF sh assms(3)] in \<open>simp_all add: co_inv_def\<close>)
  moreover have "counters_ok ?c" using assms(1) by (simp add: co_inv_def counters_ok_def)
  ultimately show ?thesis by (simp add: co_inv_def)
qed

definition assigned_in :: "nat \<Rightarrow> u64 \<Rightarrow> assignment \<Rightarrow> coordinator \<Rightarrow> coordinator \<Rightarrow> bool" where
  "assigned_in k g a c c' \<longleftrightarrow>
     as_generation a = g \<and> as_shard_id a = k
     \<and> map_of (cl_environments (co_snapshot c)) (as_environment_id a) = None
     \<and> (\<exists>r. map_of (co_requests c) (as_environment_id a) = Some (k, r)
          \<and> cl_environments (co_snapshot c') = cl_environments (place \<lparr>pe_spec = r, pe_node_id = as_node_id a\<rparr> (co_snapshot c)))"

lemma attempt_publish:
  assumes "co_inv c" "k < length (co_shards c)"
    and "Shard_attempt now k g cl j cfg placements (co_shards c ! k) = (Inr (Assigned a r), s)"
    and "publish k g a r (c\<lparr>co_shards := (co_shards c)[k := s]\<rparr>) = (res, c')" "\<not> panicked res"
  shows "co_inv c'" "res = Inr ()" "keeps c c'" "co_generation c' = g" "assigned_in k g a c c'"
proof -
  note sh = co_shard [OF assms(1,2)]
  note v = attempt_view(1) [OF sh assms(3) refl]
  let ?i = "spec_id r"
  note tr = co_tracked [OF assms(1), of ?i]
  have req: "map_of (co_requests c) ?i = Some (k, r)" and env: "map_of (cl_environments (co_snapshot c)) ?i = None"
    using tr v assms(2) by (cases "map_of (co_requests c) ?i"; auto simp: tracked_at_def)+
  let ?c = "c\<lparr>co_shards := (co_shards c)[k := s], co_generation := g,
    co_snapshot := place \<lparr>pe_spec = r, pe_node_id = as_node_id a\<rparr> (co_snapshot c)\<rparr>"
  have inv: "co_inv ?c"
  proof (rule co_inv_shard [OF assms(1,2) attempt_ok(1) [OF sh assms(3)] attempt_nodes [OF sh assms(3)], where i = ?i])
    show "view s = (view (co_shards c ! k))(?i := ({}, Some a))" using v by simp
    show "tracked_at ((co_shards c)[k := s]) ?i (map_of (co_requests ?c) ?i) (map_of (cl_environments (co_snapshot ?c)) ?i)"
      using tracked_set(2) [OF tr assms(2), of s a r] req v by simp
  qed (use co_bookkeeping [OF assms(1)] in auto)
  have run: "record_and_wake (as_node_id a) (Some k) ?c = (res, c')" using assms(4) by (simp add: publish_def)
  show "co_inv c'" and res: "res = Inr ()" using record_and_wake_inv [OF inv run assms(5)] by simp_all
  note rec = keeps_record [OF run [unfolded res]]
  have "keeps c ?c" by (simp add: keeps_def)
  with rec show "keeps c c'" "co_generation c' = g" by (auto intro: keeps_trans)
  have "co_snapshot c' = co_snapshot ?c"
    using run
  proof (cases rule: record_and_wake_cases)
    case (ok j)
    obtain rd where "wake_pending (Some k) (?c\<lparr>co_journal := j\<rparr>) = ?c\<lparr>co_journal := j, co_ready := rd\<rparr>"
      by (rule wake_pending_eq [of "Some k" "?c\<lparr>co_journal := j\<rparr>"])
    with ok show ?thesis by simp
  qed (use res in simp)
  with v req env show "assigned_in k g a c c'" by (simp add: assigned_in_def)
qed

text \<open>Deferring or moving a request does not touch the published state.\<close>

definition unpublished :: "coordinator \<Rightarrow> coordinator \<Rightarrow> bool" where
  "unpublished c c' \<longleftrightarrow>
     co_generation c' = co_generation c \<and> co_snapshot c' = co_snapshot c \<and> co_journal c' = co_journal c"

lemma unpublished_shard: "on_shard missing k m c = (res, c') \<Longrightarrow> unpublished c c'"
  by (erule on_shard_cases) (simp_all add: unpublished_def)

lemma unpublished_bind:
  assumes "bindS m f c = (res, c')" "\<And>x d. m c = (x, d) \<Longrightarrow> unpublished c d"
    and "\<And>x d. m c = (Inr x, d) \<Longrightarrow> f x d = (res, c') \<Longrightarrow> unpublished d c'"
  shows "unpublished c c'"
  using assms(1)
proof (cases rule: bindS_cases)
  case (err e)
  with assms(2) show ?thesis by blast
next
  case (ok x d)
  have "unpublished c d" "unpublished d c'" using ok assms(2,3) by blast+
  then show ?thesis by (simp add: unpublished_def)
qed

lemma unpublished_raise:
  "bindS (on_shard missing k m) (\<lambda>_. raiseS err) c = (res, c') \<Longrightarrow> unpublished c c'"
  by (erule unpublished_bind, erule unpublished_shard) (simp add: unpublished_def)

lemma defer_or_transfer_unpublished:
  assumes "defer_or_transfer now k e c = (res, c')"
  shows "unpublished c c'"
proof -
  let ?i = "spec_id (en_spec e)"
  have move: "unpublished d c'"
    if "bindS (on_shard out_of_bounds k (Shard_forget_queued ?i)) (\<lambda>_.
          bindS (on_shard out_of_bounds target (Shard_accept_transfer e excluded)) (\<lambda>_ c2.
          (Inr (), wake target c2))) d = (res, c')" for d target excluded
    using that
  proof (rule unpublished_bind)
    fix x d1 assume "bindS (on_shard out_of_bounds target (Shard_accept_transfer e excluded)) (\<lambda>_ c2.
        (Inr (), wake target c2)) d1 = (res, c')"
    then show "unpublished d1 c'"
      by - (erule unpublished_bind, erule unpublished_shard, auto simp: unpublished_def wake_def)
  qed (rule unpublished_shard)
  obtain x d where d: "candidate_shard now (en_spec e) (Shard_exclusions ?i (co_shards c ! k)) (Some k) c = (x, d)"
    by fastforce
  have same: "unpublished c d" using same_but_statsD [OF candidate_shard_ok(1) [OF d]] by (simp add: unpublished_def)
  have trans: "unpublished d c' \<Longrightarrow> unpublished c c'" using same by (simp add: unpublished_def)
  show ?thesis
  proof (cases "spec_snapshot_id (en_spec e) = None \<and> \<not> om_has ?i (co_volume_placement c)")
    case True
    with assms show ?thesis by (auto simp: defer_or_transfer_def Let_def intro: unpublished_shard)
  next
    case False
    note run = assms [unfolded defer_or_transfer_def Let_def if_not_P [OF False] d prod.case]
    show ?thesis
    proof (cases "k \<ge> length (co_shards c)")
      case True
      with run show ?thesis by (simp add: unpublished_def)
    next
      case False
      note run = run [unfolded if_not_P [OF False]]
      show ?thesis
      proof (cases x)
        case (Inl err)
        with run trans same show ?thesis by (auto intro: unpublished_raise split: if_splits)
      next
        case (Inr t)
        show ?thesis
        proof (cases t)
          case None
          with Inr run trans show ?thesis by (auto intro: unpublished_shard)
        next
          case (Some target)
          show ?thesis
          proof (cases "map_of (co_requests d) ?i")
            case None
            with Some Inr run trans show ?thesis by (auto intro: unpublished_raise)
          next
            case (Some q)
            obtain h r where q: "q = (h, r)" by (cases q)
            let ?d = "d\<lparr>co_requests := om_put ?i (target, r) (co_requests d)\<rparr>"
            have "unpublished ?d c'" by (rule move) (use run Inr Some \<open>t = Some target\<close> q in simp)
            then have "unpublished d c'" by (simp add: unpublished_def)
            then show ?thesis by (rule trans)
          qed
        qed
      qed
    qed
  qed
qed

lemma round_step_ok:
  assumes "co_inv c" "k < length (co_shards c)" "round_step now k g out c = (res, c')" "\<not> panicked res"
  obtains goes_on out1 where "res = Inr (goes_on, out1)" "co_inv c'" "keeps c c'"
    and "ro_yielded out1 = ro_yielded out" "goes_on \<Longrightarrow> ro_error out1 = ro_error out" "\<not> goes_on \<Longrightarrow> ro_error out1 \<noteq> None"
    and "ro_assignments out1 = ro_assignments out \<and> unpublished c c'
         \<or> (\<exists>a. ro_assignments out1 = ro_assignments out @ [a] \<and> co_generation c' = g \<and> assigned_in k g a c c')"
proof -
  note final = that
  obtain x s where s: "Shard_attempt now k g (co_snapshot c) (co_journal c) (co_config c) (co_volume_placement c)
      (co_shards c ! k) = (x, s)" by fastforce
  let ?c1 = "c\<lparr>co_shards := (co_shards c)[k := s]\<rparr>"
  let ?out = "out\<lparr>ro_attempted := ro_attempted out + 1\<rparr>"
  have on: "on_shard out_of_bounds k (Shard_attempt now k g (co_snapshot c) (co_journal c) (co_config c)
      (co_volume_placement c)) c = (x, ?c1)" by (rule on_shard_run) (use assms(2) s in simp_all)
  have k1: "keeps c ?c1" by (rule keeps_shards) simp
  have u1: "unpublished c ?c1" by (simp add: unpublished_def)
  have same: thesis if "res = Inr (b, out1)" "co_inv c'" "keeps c c'" "unpublished c c'"
    "b \<and> out1 = ?out \<or> \<not> b \<and> (\<exists>err. out1 = ?out\<lparr>ro_error := Some err\<rparr>)" for b out1
    by (rule final [OF that(1-3)]) (use that(4,5) in auto)
  show thesis
  proof (cases x)
    case (Inl err)
    with assms(3,4) on have "\<not> is_panic err" "res = Inr (False, ?out\<lparr>ro_error := Some err\<rparr>)" "c' = ?c1"
      by (auto simp: round_step_def Let_def split: if_splits)
    with attempt_same [OF assms(1,2) s] Inl k1 u1 show thesis by (intro same) auto
  next
    case (Inr att)
    show thesis
    proof (cases att)
      case Empty
      with Inr assms(3) on have "res = Inr (True, ?out)" "c' = ?c1" by (auto simp: round_step_def Let_def)
      with attempt_same [OF assms(1,2) s] Inr Empty k1 u1 show thesis by (intro same) auto
    next
      case (Deferred e)
      obtain y d where d: "defer_or_transfer now k e ?c1 = (y, d)" by fastforce
      have out: "c' = d" "(case y of Inl err \<Rightarrow> if is_panic err then Inl err else Inr (False, ?out\<lparr>ro_error := Some err\<rparr>)
          | Inr _ \<Rightarrow> Inr (True, ?out)) = res"
        using assms(3) on Inr Deferred d by (auto simp: round_step_def Let_def split: sum.splits if_splits)
      have np: "\<not> panicked y" using out(2) assms(4) by (cases y) (auto split: if_splits)
      note h = attempt_hand [OF assms(1,2) s [unfolded Inr Deferred]]
      have "co_inv d \<and> keeps ?c1 d"
        by (rule defer_or_transfer_ok [OF h(1) refl _ h(2,3) d np]) (use assms(2) in simp)
      moreover have "unpublished ?c1 d" by (rule defer_or_transfer_unpublished [OF d])
      ultimately have d_ok: "co_inv c'" "keeps c c'" "unpublished c c'"
        using out(1) k1 keeps_trans by (auto simp: unpublished_def)
      show thesis
      proof (cases y)
        case (Inl err)
        with out(2) np have "res = Inr (False, ?out\<lparr>ro_error := Some err\<rparr>)" by simp
        then show thesis by (rule same [OF _ d_ok]) blast
      next
        case (Inr u)
        with out(2) have "res = Inr (True, ?out)" by simp
        then show thesis by (rule same [OF _ d_ok]) blast
      qed
    next
      case (Assigned a r)
      obtain y d where d: "publish k g a r ?c1 = (y, d)" by fastforce
      have run: "res = (case y of Inl err \<Rightarrow> Inl err | Inr _ \<Rightarrow> Inr (True, ?out\<lparr>ro_assignments := ro_assignments out @ [a]\<rparr>))"
        "c' = d" using assms(3) on Inr Assigned d by (auto simp: round_step_def Let_def bindS_def split: sum.splits)
      have np: "\<not> panicked y" using run(1) assms(4) by (cases y) auto
      note pub = attempt_publish [OF assms(1,2) s [unfolded Inr Assigned] d np]
      show thesis
        by (rule final [of True "?out\<lparr>ro_assignments := ro_assignments out @ [a]\<rparr>"]) (use pub run in auto)
    qed
  qed
qed

text \<open>The assignments a round made, with their generations and their place in the snapshot.\<close>

definition round_result ::
  "(nat \<Rightarrow> u64 result) option \<Rightarrow> nat \<Rightarrow> assignment list \<Rightarrow> coordinator \<Rightarrow> coordinator \<Rightarrow> bool" where
  "round_result source k new c c' \<longleftrightarrow>
     map_of (cl_environments (co_snapshot c)) \<subseteq>\<^sub>m map_of (cl_environments (co_snapshot c'))
     \<and> (\<forall>a \<in> set new. as_shard_id a = k \<and> map_of (cl_environments (co_snapshot c)) (as_environment_id a) = None
          \<and> (\<exists>r. map_of (cl_environments (co_snapshot c')) (as_environment_id a)
                = Some \<lparr>pe_spec = r, pe_node_id = as_node_id a\<rparr>))
     \<and> (source = None \<longrightarrow> sorted_wrt (<) (map as_generation new) \<and> co_generation c \<le> co_generation c'
          \<and> (\<forall>a \<in> set new. co_generation c < as_generation a \<and> as_generation a \<le> co_generation c'))"

lemma round_result_unpublished: "unpublished c c' \<Longrightarrow> round_result source k [] c c'"
  by (simp add: round_result_def unpublished_def)

lemma round_result_Cons:
  assumes "co_inv c" "assigned_in k g a c c1" "co_generation c1 = g" "source = None \<Longrightarrow> co_generation c < g"
    and "round_result source k new c1 c'"
  shows "round_result source k (a # new) c c'"
proof -
  obtain r where r: "as_generation a = g" "as_shard_id a = k"
    "map_of (cl_environments (co_snapshot c)) (as_environment_id a) = None"
    "map_of (co_requests c) (as_environment_id a) = Some (k, r)"
    "map_of (cl_environments (co_snapshot c1))
       = (map_of (cl_environments (co_snapshot c)))(spec_id r \<mapsto> \<lparr>pe_spec = r, pe_node_id = as_node_id a\<rparr>)"
    using assms(2) by (auto simp: assigned_in_def)
  have i: "spec_id r = as_environment_id a" using co_request_shard [OF assms(1) r(4)] by simp
  have later: "map_of (cl_environments (co_snapshot c1)) \<subseteq>\<^sub>m map_of (cl_environments (co_snapshot c'))"
    using assms(5) by (simp add: round_result_def)
  have grow: "map_of (cl_environments (co_snapshot c)) \<subseteq>\<^sub>m map_of (cl_environments (co_snapshot c1))"
    using r(3) i by (auto simp: map_le_def r(5))
  have here: "map_of (cl_environments (co_snapshot c')) (as_environment_id a)
      = Some \<lparr>pe_spec = r, pe_node_id = as_node_id a\<rparr>"
    using later i by (auto simp: map_le_def r(5))
  have absent: "map_of (cl_environments (co_snapshot c)) (as_environment_id b) = None" if "b \<in> set new" for b
  proof -
    have "map_of (cl_environments (co_snapshot c1)) (as_environment_id b) = None"
      using assms(5) that by (simp add: round_result_def)
    then show ?thesis by (auto simp: r(5) split: if_splits)
  qed
  have "map_of (cl_environments (co_snapshot c)) \<subseteq>\<^sub>m map_of (cl_environments (co_snapshot c'))"
    using grow later by (rule map_le_trans)
  then show ?thesis
    using assms(3,4,5) r(1-3) here absent unfolding round_result_def by fastforce
qed

lemma next_generation_grows: "next_generation None n c = Inr g \<Longrightarrow> co_generation c < g"
  using rust_add_ok(2) [of "co_generation c" 1]
  by (auto simp: next_generation_def ok_or_def checked_add_nat word_less_nat_alt split: option.splits if_splits)

lemma round_loop_ok:
  assumes "co_inv c" "round_loop now limit timed_out source cfg k out c = (res, c')" "\<not> panicked res"
  shows "\<exists>out' new. res = Inr out' \<and> co_inv c' \<and> keeps c c'
    \<and> ro_assignments out' = ro_assignments out @ new \<and> round_result source k new c c'
    \<and> ro_attempted out' \<le> max (max_attempts cfg) (ro_attempted out)
    \<and> (ro_error out' = None \<and> \<not> ro_yielded out' \<longrightarrow> \<not> Shard_remaining_sweep (co_shards c' ! k))
    \<and> k < length (co_shards c')"
  using assms
proof (induction now limit timed_out source cfg k out c rule: round_loop.induct)
  case (1 now limit timed_out source cfg k out c)
  note run = "1.prems"(2) [unfolded round_loop.simps [of now limit timed_out source cfg k out c]]
  have k: "k < length (co_shards c)" using run "1.prems"(3) by (auto split: if_splits)
  note stop = round_result_unpublished [of c c source k]
  show ?case
  proof (cases "Shard_remaining_sweep (co_shards c ! k) \<and> ro_attempted out < max_attempts cfg
      \<and> length (ro_assignments out) < limit \<and> \<not> timed_out (ro_attempted out)")
    case False
    with run k "1.prems"(1) stop show ?thesis by (auto simp: unpublished_def split: if_splits)
  next
    case True
    show ?thesis
    proof (cases "next_generation source (ro_attempted out) c")
      case (Inl err)
      with run k True "1.prems"(1,3) stop show ?thesis by (auto simp: unpublished_def split: if_splits)
    next
      case (Inr g)
      obtain x c1 where step: "round_step now k g out c = (x, c1)" by fastforce
      have np: "\<not> panicked x" using run k True Inr step "1.prems"(3) by (cases x) auto
      obtain goes_on out1 where one: "x = Inr (goes_on, out1)" "co_inv c1" "keeps c c1"
        "ro_yielded out1 = ro_yielded out" "goes_on \<Longrightarrow> ro_error out1 = ro_error out"
        "\<not> goes_on \<Longrightarrow> ro_error out1 \<noteq> None"
        and made: "ro_assignments out1 = ro_assignments out \<and> unpublished c c1
           \<or> (\<exists>a. ro_assignments out1 = ro_assignments out @ [a] \<and> co_generation c1 = g \<and> assigned_in k g a c c1)"
        using round_step_ok [OF "1.prems"(1) k step np] by blast
      have att: "ro_attempted out1 = ro_attempted out + 1" using round_step_attempted step one(1) by blast
      have "co_generation c < g" if "source = None" using next_generation_grows Inr that by blast
      note cons = round_result_Cons [OF "1.prems"(1) _ _ this]
      have k1: "k < length (co_shards c1)" using one(3) k by (simp add: keeps_def)
      show ?thesis
      proof (cases goes_on)
        case False
        have out: "res = Inr out1" "c' = c1" using run k True Inr step one(1) False by auto
        have "\<exists>new. ro_assignments out1 = ro_assignments out @ new \<and> round_result source k new c c1"
          using made cons round_result_unpublished [of c1 c1] round_result_unpublished [of c c1]
          by (auto simp: unpublished_def)
        with out one k1 att True False show ?thesis by auto
      next
        case go: True
        have rest: "round_loop now limit timed_out source cfg k out1 c1 = (res, c')"
          using run k True Inr step one(1) go by auto
        have pre: "\<not> length (co_shards c) \<le> k" "\<not> \<not> Shard_remaining_sweep (co_shards c ! k)"
          "\<not> (max_attempts cfg \<le> ro_attempted out \<or> limit \<le> length (ro_assignments out) \<or> timed_out (ro_attempted out))"
          using True k by auto
        from "1.IH" [OF pre Inr step [symmetric] one(1) refl go one(2) rest "1.prems"(3)]
        obtain out' new where ih: "res = Inr out'" "co_inv c'" "keeps c1 c'"
          "ro_assignments out' = ro_assignments out1 @ new" "round_result source k new c1 c'"
          "ro_attempted out' \<le> max (max_attempts cfg) (ro_attempted out1)"
          "ro_error out' = None \<and> \<not> ro_yielded out' \<longrightarrow> \<not> Shard_remaining_sweep (co_shards c' ! k)"
          "k < length (co_shards c')" by auto
        have "\<exists>new. ro_assignments out' = ro_assignments out @ new \<and> round_result source k new c c'"
        proof (cases "ro_assignments out1 = ro_assignments out \<and> unpublished c c1")
          case True
          with ih(4,5) show ?thesis by (auto simp: unpublished_def round_result_def)
        next
          case False
          with made cons ih(4,5) show ?thesis by auto
        qed
        moreover have "ro_attempted out' \<le> max (max_attempts cfg) (ro_attempted out)" using ih(6) att True by auto
        ultimately show ?thesis using ih(1,2,7,8) keeps_trans [OF one(3) ih(3)] by blast
      qed
    qed
  qed
qed

lemma pending_size: "shard_inv s \<Longrightarrow> Shard_pending s = size (waiting s)"
  by (simp add: Shard_pending_def shard_inv_def tickets_ok_def queue_inv_def Shard_pending_requests_def)

lemma begin_round_co_inv:
  assumes "co_inv c" "k < length (co_shards c)"
  shows "co_inv (c\<lparr>co_ready := filter (\<lambda>i. i \<noteq> k) (co_ready c),
    co_shards := (co_shards c)[k := Shard_begin_round (co_shards c ! k)]\<rparr>)"
proof -
  let ?s = "Shard_begin_round (co_shards c ! k)"
  let ?c = "c\<lparr>co_ready := filter (\<lambda>i. i \<noteq> k) (co_ready c), co_shards := (co_shards c)[k := ?s]\<rparr>"
  have "shards_ok ?c"
    by (rule shards_ok_update [of c ?s _ k]) (use assms(1) begin_round_inv co_shard [OF assms] in \<open>simp_all add: co_inv_def\<close>)
  moreover have "tracked ?c"
    by (rule tracked_same [of c]) (use assms begin_round_view in \<open>auto simp: co_inv_def nth_list_update\<close>)
  moreover have "homed ?c"
    by (rule homed_update [of c _ k ?s])
       (use assms(1) nodes_of_cong [OF begin_round_books(1)] in \<open>simp_all add: co_inv_def\<close>)
  moreover have "counters_ok ?c" using assms(1) by (auto simp: co_inv_def counters_ok_def)
  ultimately show ?thesis by (simp add: co_inv_def)
qed

text \<open>
  What a finished round leaves: within its limits, every accepted request still accepted, its
  assignments published, and its shard awake unless nothing is left to try.
\<close>

definition round_done ::
  "(nat \<Rightarrow> u64 result) option \<Rightarrow> nat \<Rightarrow> round_outcome \<Rightarrow> coordinator \<Rightarrow> coordinator \<Rightarrow> bool" where
  "round_done source k out c c' \<longleftrightarrow>
     keeps c c' \<and> round_result source k (ro_assignments out) c c' \<and> ro_attempted out \<le> max_attempts (co_config c)
     \<and> (ro_error out = None \<longrightarrow> k \<in> set (co_ready c')
          \<or> \<not> Shard_remaining_sweep (co_shards c' ! k) \<and> \<not> Shard_has_deferred_arrivals (co_shards c' ! k)
            \<and> (ro_assignments out = [] \<or> Shard_pending (co_shards c' ! k) = 0))"

lemma run_round_ok:
  assumes "co_inv c" "run_round now timed_out source k limit c = (res, c')" "\<not> panicked res"
  shows "co_inv c'"
    and "res = Inr out \<Longrightarrow> round_done source k out c c'"
proof -
  have "co_inv c' \<and> (\<forall>out. res = Inr out \<longrightarrow> round_done source k out c c')"
  proof (cases "k < length (co_shards c)")
    case False
    with assms show ?thesis by (auto simp: run_round_def)
  next
    case True
    let ?c1 = "c\<lparr>co_ready := filter (\<lambda>i. i \<noteq> k) (co_ready c),
      co_shards := (co_shards c)[k := Shard_begin_round (co_shards c ! k)]\<rparr>"
    let ?out = "RoundOutcome_default\<lparr>ro_snapshot_revision := cl_revision (co_snapshot c)\<rparr>"
    obtain x c2 where loop: "round_loop now limit timed_out source (co_config c) k ?out ?c1 = (x, c2)" by fastforce
    have run: "bindS (round_loop now limit timed_out source (co_config c) k ?out) (\<lambda>out c2.
        (Inr out, if ro_error out = None \<and> (ro_yielded out \<or> Shard_has_deferred_arrivals (co_shards c2 ! k)
                    \<or> ro_assignments out \<noteq> [] \<and> Shard_pending (co_shards c2 ! k) > 0)
                  then wake k c2 else c2)) ?c1 = (res, c')"
      using assms(2) True by (simp add: run_round_def Let_def)
    have np: "\<not> panicked x" using run loop assms(3) by (cases x) (auto simp: bindS_def)
    from round_loop_ok [OF begin_round_co_inv [OF assms(1) True] loop np] obtain out where
      out: "x = Inr out" "co_inv c2" "keeps ?c1 c2" "round_result source k (ro_assignments out) ?c1 c2"
        "ro_attempted out \<le> max_attempts (co_config c)"
        "ro_error out = None \<and> \<not> ro_yielded out \<longrightarrow> \<not> Shard_remaining_sweep (co_shards c2 ! k)"
        "k < length (co_shards c2)"
      by (auto simp: RoundOutcome_default_def)
    let ?woken = "ro_error out = None \<and> (ro_yielded out \<or> Shard_has_deferred_arrivals (co_shards c2 ! k)
                    \<or> ro_assignments out \<noteq> [] \<and> Shard_pending (co_shards c2 ! k) > 0)"
    have c': "res = Inr out" "c' = (if ?woken then wake k c2 else c2)"
      using run loop out(1) by (auto simp: bindS_def)
    have "co_inv c'" using c'(2) out(2,7) wake_inv by simp
    moreover have "keeps c c'" using out(3) c'(2) by (auto simp: keeps_def wake_def)
    moreover have "round_result source k (ro_assignments out) c c'"
      using out(4) c'(2) by (auto simp: round_result_def wake_def)
    moreover have "ro_error out = None \<longrightarrow> k \<in> set (co_ready c')
        \<or> \<not> Shard_remaining_sweep (co_shards c' ! k) \<and> \<not> Shard_has_deferred_arrivals (co_shards c' ! k)
          \<and> (ro_assignments out = [] \<or> Shard_pending (co_shards c' ! k) = 0)"
    proof (cases ?woken)
      case True
      then have "c' = wake k c2" using c'(2) by (simp only: if_True simp_thms)
      then have "k \<in> set (co_ready c')" by simp
      then show ?thesis by blast
    next
      case False
      then have "c' = c2" using c'(2) by (simp only: if_False)
      with False out(6) show ?thesis by auto
    qed
    ultimately show ?thesis using out(5) c'(1) by (simp add: round_done_def)
  qed
  then show "co_inv c'"
    "res = Inr out \<Longrightarrow> round_done source k out c c'" by blast+
qed

section \<open>Reachable coordinators\<close>

lemma with_framework_config_inv:
  assumes "with_framework_config n fw cfg = Inr c"
  shows "co_inv c"
proof -
  have c: "co_shards c = replicate n (Shard_new fw)" "co_requests c = []" "co_node_shards c = []" "co_retired c = []"
    "co_recovery_requests c = []" "co_next_shard c = 0" "co_next_node_shard c = 0" "co_ready c = []"
    "co_snapshot c = cluster_default" "0 < n"
    using assms by (auto simp: with_framework_config_def split: if_splits)
  have v: "view (Shard_new fw) i = absent" "nodes_of (Shard_new fw) i = None" for i
    by (simp_all add: view_def nodes_of_def Shard_new_def Shard_pending_requests_def Queue_entries_def
        TenantQueue_default_def)
  have "shards_ok c" using c shard_inv_new by (simp add: shards_ok_def)
  moreover have "tracked c" using c v by (simp add: tracked_def tracked_at_def cluster_default_def)
  moreover have "homed c" using c v by (simp add: homed_def homed_at_def cluster_default_def)
  moreover have "counters_ok c" using c by (auto simp: counters_ok_def)
  ultimately show ?thesis by (simp add: co_inv_def)
qed

text \<open>
  A step is one call that does not unwind, with any arguments; an assignment that is restored
  belongs to the request it is restored for.
\<close>

inductive co_step :: "coordinator \<Rightarrow> coordinator \<Rightarrow> bool" where
  co_register: "Coordinator_register n c = (x, c') \<Longrightarrow> \<not> panicked x \<Longrightarrow> co_step c c'"
| co_register_at: "register_at n k c = (x, c') \<Longrightarrow> \<not> panicked x \<Longrightarrow> co_step c c'"
| co_forget_node: "Coordinator_forget_node i c = (x, c') \<Longrightarrow> \<not> panicked x \<Longrightarrow> co_step c c'"
| co_reconsider: "co_step c (Coordinator_reconsider_node i c)"
| co_submit: "submit now millis r c = (y, c') \<Longrightarrow> \<not> panicked y \<Longrightarrow> co_step c c'"
| co_submit_recovery: "submit_recovery now millis r c = (y, c') \<Longrightarrow> \<not> panicked y \<Longrightarrow> co_step c c'"
| co_finish: "finish_recovery_placement now r a c = (z, c') \<Longrightarrow> \<not> panicked z \<Longrightarrow> co_step c c'"
| co_volume: "co_step c (set_volume_placement i p c)"
| co_cancel: "cancel_pending i c = (b, c') \<Longrightarrow> \<not> panicked b \<Longrightarrow> co_step c c'"
| co_accept: "accept_claim now r a c = (z, c') \<Longrightarrow> \<not> panicked z \<Longrightarrow> co_step c c'"
| co_retire: "retire_claim i c = (z, c') \<Longrightarrow> \<not> panicked z \<Longrightarrow> co_step c c'"
| co_forget_deleted: "forget_deleted i c = (z, c') \<Longrightarrow> \<not> panicked z \<Longrightarrow> co_step c c'"
| co_release: "Coordinator_release a c = (z, c') \<Longrightarrow> \<not> panicked z \<Longrightarrow> co_step c c'"
| co_restore:
    "as_environment_id a = spec_id r \<Longrightarrow> restore_assignment r a c = (z, c') \<Longrightarrow> \<not> panicked z \<Longrightarrow> co_step c c'"
| co_retry: "Coordinator_retry millis a c = (z, c') \<Longrightarrow> \<not> panicked z \<Longrightarrow> co_step c c'"
| co_round: "run_round now timed_out source k limit c = (out, c') \<Longrightarrow> \<not> panicked out \<Longrightarrow> co_step c c'"
| co_take_ready: "co_step c (snd (take_ready_shard c))"

inductive co_reach :: "nat \<Rightarrow> framework \<Rightarrow> scheduler_config \<Rightarrow> coordinator \<Rightarrow> bool" for n fw cfg where
  co_init: "with_framework_config n fw cfg = Inr c \<Longrightarrow> co_reach n fw cfg c"
| co_next: "co_reach n fw cfg c \<Longrightarrow> co_step c c' \<Longrightarrow> co_reach n fw cfg c'"

lemma co_step_inv: "co_step c c' \<Longrightarrow> co_inv c \<Longrightarrow> co_inv c'"
proof (induction rule: co_step.induct)
  case (co_take_ready c)
  then show ?case
    using co_inv_ready [of c "tl (co_ready c)"] co_inv_readyD [of c]
    by (cases "co_ready c") (auto simp: take_ready_shard_def)
qed (blast intro: register_ok register_at_ok forget_node_ok reconsider_ok submit_ok(1) submit_recovery_ok
    finish_recovery_ok set_volume_placement_ok cancel_pending_ok(1) accept_claim_ok retire_claim_ok forget_deleted_ok
    release_ok(1) restore_assignment_ok Coordinator_retry_ok run_round_ok(1))+

lemma co_reach_inv: "co_reach n fw cfg c \<Longrightarrow> co_inv c"
  by (induction rule: co_reach.induct) (auto intro: with_framework_config_inv co_step_inv)

end
