(* ===== verification/Coordinator_Rounds.thy ===== *)
theory Coordinator_Rounds
  imports Coordinator_Steps
begin

text \<open>
  What bounds a scheduling round, where its generations come from and whom it wakes: the loop
  invariants of \<open>round_loop\<close>, each proved from one attempt by the rule \<open>round_loop_invariant\<close>,
  and the generation counter of the storage session that the service installs as the source of a
  coordinator.
\<close>

section \<open>The generation source of a session\<close>

text \<open>
  The counter of a session starts at its epoch shifted by 32 bits; a call draws the next number
  while it stays in the epoch. The state is the value of the shared counter.
\<close>

definition Session_next_generation :: "u64 \<Rightarrow> (u64, u64) op" where
  "Session_next_generation epoch counter =
     (let exhausted = (Inl (Unavailable ''execution identity space exhausted''), counter) in
      case checked_mul epoch 0x100000000 of
        None \<Rightarrow> (Inl Conflict, counter)
      | Some base \<Rightarrow>
          (case checked_add counter 1 of
             None \<Rightarrow> exhausted
           | Some drawn \<Rightarrow>
               (case rust_sub drawn base of
                  Inl err \<Rightarrow> (Inl err, counter)
                | Inr offset \<Rightarrow> if offset < 0x100000000 then (Inr drawn, drawn) else exhausted)))"

text \<open>
  The session as the source of a round: \<open>v j\<close> is the counter before the call of attempt \<open>j\<close>. Other
  users of the session may draw numbers between two attempts, so the counter is only known not to
  fall.
\<close>

definition session_source :: "u64 \<Rightarrow> (nat \<Rightarrow> u64) \<Rightarrow> nat \<Rightarrow> u64 result" where
  "session_source epoch v j = fst (Session_next_generation epoch (v j))"

definition session_run :: "u64 \<Rightarrow> (nat \<Rightarrow> u64) \<Rightarrow> nat \<Rightarrow> bool" where
  "session_run epoch v n \<longleftrightarrow> (\<forall>j < n. snd (Session_next_generation epoch (v j)) \<le> v (Suc j))"

lemma session_draws:
  assumes "Session_next_generation epoch counter = (Inr g, counter')"
  shows "counter < g" "counter' = g" "drop_bit 32 g = epoch"
proof -
  have mul: "unat epoch * 2 ^ 32 < 2 ^ 64" and add: "unat counter + 1 < 2 ^ 64"
    and g: "g = counter + 1" "counter' = g" and sub: "epoch * 2 ^ 32 \<le> g" "g - epoch * 2 ^ 32 < 2 ^ 32"
    using assms
    by (auto simp: Session_next_generation_def Let_def checked_mul_nat checked_add_nat rust_sub_def checked_sub_def
        ok_or_def split: if_splits option.splits sum.splits)
  show "counter < g" using add g(1) rust_add_ok(2) [of counter 1] by (simp add: word_less_nat_alt)
  show "counter' = g" by (fact g(2))
  have base: "unat (epoch * 2 ^ 32) = unat epoch * 2 ^ 32" using mul rust_mul_ok(2) [of epoch "2 ^ 32"] by simp
  have "unat g - unat epoch * 2 ^ 32 < 2 ^ 32" "unat epoch * 2 ^ 32 \<le> unat g"
    using sub base by (simp_all add: word_less_nat_alt word_le_nat_alt unat_sub)
  then have "unat g div 2 ^ 32 = unat epoch" by (intro div_nat_eqI) simp_all
  then have "unat (drop_bit 32 g) = unat epoch"
    by (simp only: unat_drop_bit_eq drop_bit_eq_div [where 'a = nat])
  then show "drop_bit 32 g = epoch" by (simp only: word_unat_eq_iff)
qed

lemma session_counter_grows: "counter \<le> snd (Session_next_generation epoch counter)"
proof (cases "Session_next_generation epoch counter")
  case (Pair x counter')
  show ?thesis
  proof (cases x)
    case (Inl err)
    with Pair have "counter' = counter"
      by (auto simp: Session_next_generation_def Let_def split: option.splits sum.splits if_splits)
    with Pair show ?thesis by simp
  next
    case (Inr g)
    with Pair session_draws [of epoch counter g counter'] show ?thesis by simp
  qed
qed

lemma session_run_mono:
  assumes "session_run epoch v n" "i \<le> j" "j \<le> n"
  shows "v i \<le> v j"
  using assms(2,3)
proof (induction rule: dec_induct)
  case (step j)
  then have "v i \<le> v j" "snd (Session_next_generation epoch (v j)) \<le> v (Suc j)"
    using assms(1) by (simp_all add: session_run_def)
  with session_counter_grows [of "v j" epoch] show ?case by order
qed simp

lemma session_source_increases:
  assumes "session_run epoch v n" "i < j" "j < n" "session_source epoch v i = Inr g" "session_source epoch v j = Inr h"
  shows "g < h"
proof -
  have g: "Session_next_generation epoch (v i) = (Inr g, g)" and h: "Session_next_generation epoch (v j) = (Inr h, h)"
    using assms(4,5) session_draws(2) by (metis session_source_def prod.collapse)+
  have "g \<le> v (Suc i)" using assms(1-3) g by (auto simp: session_run_def dest!: spec [of _ i])
  also have "v (Suc i) \<le> v j" by (rule session_run_mono [OF assms(1)]) (use assms(2,3) in simp_all)
  also have "v j < h" by (rule session_draws(1) [OF h])
  finally show ?thesis .
qed

section \<open>An invariant of the attempts of a round\<close>

lemma round_loop_cases:
  assumes "round_loop now limit timed_out source cfg k out c = (Inr out', c')"
  obtains (swept) "out' = out" "c' = c"
  | (limit) "out' = out\<lparr>ro_yielded := True\<rparr>" "c' = c"
      "max_attempts cfg \<le> ro_attempted out \<or> limit \<le> length (ro_assignments out) \<or> timed_out (ro_attempted out)"
  | (source) err where "out' = out\<lparr>ro_error := Some err\<rparr>" "c' = c" "length (ro_assignments out) < limit"
  | (attempt) g goes_on out1 c1 where "k < length (co_shards c)" "ro_attempted out < max_attempts cfg"
      "length (ro_assignments out) < limit" "\<not> timed_out (ro_attempted out)"
      "next_generation source (ro_attempted out) c = Inr g" "round_step now k g out c = (Inr (goes_on, out1), c1)"
      "if goes_on then round_loop now limit timed_out source cfg k out1 c1 = (Inr out', c') else out' = out1 \<and> c' = c1"
  using assms unfolding round_loop.simps [of now limit timed_out source cfg k out c]
  by (auto split: if_splits sum.splits prod.splits)

text \<open>The loop ends, so induction on the attempts that are left proves what every attempt keeps.\<close>

lemma round_loop_invariant:
  assumes "co_inv c" "round_loop now limit timed_out source cfg k out c = (Inr out', c')"
    and "P (ro_attempted out) (ro_assignments out) c"
    and "\<And>out c g goes_on out1 c1. co_inv c \<Longrightarrow> k < length (co_shards c) \<Longrightarrow> P (ro_attempted out) (ro_assignments out) c
      \<Longrightarrow> ro_attempted out < max_attempts cfg \<Longrightarrow> length (ro_assignments out) < limit \<Longrightarrow> \<not> timed_out (ro_attempted out)
      \<Longrightarrow> next_generation source (ro_attempted out) c = Inr g \<Longrightarrow> round_step now k g out c = (Inr (goes_on, out1), c1)
      \<Longrightarrow> P (ro_attempted out1) (ro_assignments out1) c1"
  shows "P (ro_attempted out') (ro_assignments out') c'"
  using assms(1-3)
proof (induction "max_attempts cfg - ro_attempted out" arbitrary: out c rule: less_induct)
  case less
  from less.prems(2) show ?case
  proof (cases rule: round_loop_cases)
    case (attempt g goes_on out1 c1)
    note one = assms(4) [OF less.prems(1) attempt(1) less.prems(3) attempt(2-6)]
    have "co_inv c1" by (rule round_step_ok [OF less.prems(1) attempt(1,6)]) simp_all
    moreover have "max_attempts cfg - ro_attempted out1 < max_attempts cfg - ro_attempted out"
      using round_step_attempted [OF attempt(6)] attempt(2) by simp
    ultimately show ?thesis using less.hyps one attempt(7) by (cases goes_on) auto
  qed (use less.prems(3) in simp_all)
qed

text \<open>Why a round stops: it yields at one of its three limits, and an error comes before the limit of assignments.\<close>

lemma round_step_stops:
  "round_step now k g out c = (Inr (goes_on, out1), c1)
   \<Longrightarrow> ro_yielded out1 = ro_yielded out
     \<and> (if goes_on then ro_error out1 = ro_error out else ro_assignments out1 = ro_assignments out)"
  by (auto simp: round_step_def Let_def bindS_def split: prod.splits sum.splits attempt.splits if_splits)

lemma round_loop_stops:
  assumes "round_loop now limit timed_out source cfg k out c = (Inr out', c')" "ro_error out = None" "\<not> ro_yielded out"
  shows "(ro_error out' \<noteq> None \<longrightarrow> length (ro_assignments out') < limit)
    \<and> (ro_yielded out' \<longrightarrow> max_attempts cfg \<le> ro_attempted out' \<or> limit \<le> length (ro_assignments out')
         \<or> timed_out (ro_attempted out'))"
  using assms
proof (induction "max_attempts cfg - ro_attempted out" arbitrary: out c rule: less_induct)
  case less
  from less.prems(1) show ?case
  proof (cases rule: round_loop_cases)
    case (attempt g goes_on out1 c1)
    have "max_attempts cfg - ro_attempted out1 < max_attempts cfg - ro_attempted out"
      using round_step_attempted [OF attempt(6)] attempt(2) by simp
    with less.hyps less.prems(2,3) attempt(3,7) round_step_stops [OF attempt(6)] show ?thesis
      by (cases goes_on) auto
  qed (use less.prems(2,3) in simp_all)
qed

section \<open>The limits of a round\<close>

lemma round_step_adds:
  assumes "co_inv c" "k < length (co_shards c)" "round_step now k g out c = (Inr (goes_on, out1), c1)"
  obtains (none) "ro_assignments out1 = ro_assignments out" "unpublished c c1"
  | (one) a where "ro_assignments out1 = ro_assignments out @ [a]" "as_generation a = g" "co_generation c1 = g"
proof (rule round_step_ok [OF assms])
  fix b out2
  assume "Inr (goes_on, out1) = (Inr (b, out2) :: (bool \<times> round_outcome) result)"
    "ro_assignments out2 = ro_assignments out \<and> unpublished c c1
     \<or> (\<exists>a. ro_assignments out2 = ro_assignments out @ [a] \<and> co_generation c1 = g \<and> assigned_in k g a c c1)"
  then show thesis using none one by (auto simp: assigned_in_def)
qed simp

lemma round_loop_limits:
  assumes "co_inv c" "round_loop now limit timed_out source cfg k out c = (Inr out', c')"
    and "ro_attempted out = 0" "ro_assignments out = []"
  shows "ro_attempted out' \<le> max_attempts cfg \<and> length (ro_assignments out') \<le> limit
    \<and> (\<forall>j < ro_attempted out'. \<not> timed_out j)"
proof (rule round_loop_invariant [OF assms(1,2), where P =
    "\<lambda>n as _. n \<le> max_attempts cfg \<and> length as \<le> limit \<and> (\<forall>j < n. \<not> timed_out j)"])
  fix out c g goes_on out1 c1
  assume step: "co_inv c" "k < length (co_shards c)" "round_step now k g out c = (Inr (goes_on, out1), c1)"
    and old: "ro_attempted out \<le> max_attempts cfg \<and> length (ro_assignments out) \<le> limit
      \<and> (\<forall>j < ro_attempted out. \<not> timed_out j)"
    and guards: "ro_attempted out < max_attempts cfg" "length (ro_assignments out) < limit"
      "\<not> timed_out (ro_attempted out)"
  have "length (ro_assignments out1) \<le> limit" by (rule round_step_adds [OF step]) (use guards in simp_all)
  with old guards round_step_attempted [OF step(3)]
  show "ro_attempted out1 \<le> max_attempts cfg \<and> length (ro_assignments out1) \<le> limit
      \<and> (\<forall>j < ro_attempted out1. \<not> timed_out j)" by (auto simp: less_Suc_eq)
qed (use assms(3,4) in simp_all)

section \<open>The generations of a round\<close>

text \<open>
  The generations of the assignments are, in this order, numbers that the installed source returned
  to attempts of the round.
\<close>

definition drawn_from :: "(nat \<Rightarrow> u64 result) \<Rightarrow> nat \<Rightarrow> assignment list \<Rightarrow> bool" where
  "drawn_from call n as \<longleftrightarrow>
     (\<exists>js. sorted_wrt (<) js \<and> set js \<subseteq> {..<n} \<and> map call js = map (\<lambda>a. Inr (as_generation a)) as)"

lemma drawn_mono: "drawn_from call n as \<Longrightarrow> n \<le> m \<Longrightarrow> drawn_from call m as"
  by (fastforce simp: drawn_from_def)

lemma drawn_snoc:
  assumes "drawn_from call n as" "call n = Inr (as_generation a)"
  shows "drawn_from call (Suc n) (as @ [a])"
proof -
  obtain js where "sorted_wrt (<) js" "set js \<subseteq> {..<n}" "map call js = map (\<lambda>a. Inr (as_generation a)) as"
    using assms(1) by (auto simp: drawn_from_def)
  with assms(2) show ?thesis
    unfolding drawn_from_def by (intro exI [of _ "js @ [n]"]) (auto simp: sorted_wrt_append)
qed

lemma round_loop_generations:
  assumes "co_inv c" "round_loop now limit timed_out source cfg k out c = (Inr out', c')"
    and "ro_attempted out = 0" "ro_assignments out = []"
  shows "co_generation c' = last (co_generation c # map as_generation (ro_assignments out'))
    \<and> (\<forall>call. source = Some call \<longrightarrow> drawn_from call (ro_attempted out') (ro_assignments out'))"
proof (rule round_loop_invariant [OF assms(1,2), where P = "\<lambda>n as d.
    co_generation d = last (co_generation c # map as_generation as)
    \<and> (\<forall>call. source = Some call \<longrightarrow> drawn_from call n as)"])
  fix out d g goes_on out1 d1
  assume step: "co_inv d" "k < length (co_shards d)" "round_step now k g out d = (Inr (goes_on, out1), d1)"
    and old: "co_generation d = last (co_generation c # map as_generation (ro_assignments out))
      \<and> (\<forall>call. source = Some call \<longrightarrow> drawn_from call (ro_attempted out) (ro_assignments out))"
    and g: "next_generation source (ro_attempted out) d = Inr g"
  note n = round_step_attempted [OF step(3)]
  from step show "co_generation d1 = last (co_generation c # map as_generation (ro_assignments out1))
      \<and> (\<forall>call. source = Some call \<longrightarrow> drawn_from call (ro_attempted out1) (ro_assignments out1))"
  proof (cases rule: round_step_adds)
    case none
    with old n show ?thesis by (auto simp: unpublished_def intro: drawn_mono)
  next
    case (one a)
    with old n g show ?thesis by (auto simp: next_generation_def intro: drawn_snoc)
  qed
qed (use assms(3,4) in \<open>auto simp: drawn_from_def\<close>)

lemma session_generations:
  assumes "drawn_from (session_source epoch v) n as" "session_run epoch v n"
  shows "sorted_wrt (<) (map as_generation as) \<and> (\<forall>a \<in> set as. drop_bit 32 (as_generation a) = epoch)"
proof -
  obtain js where js: "sorted_wrt (<) js" "set js \<subseteq> {..<n}"
    "map (session_source epoch v) js = map (\<lambda>a. Inr (as_generation a)) as"
    using assms(1) by (auto simp: drawn_from_def)
  have len: "length js = length as" using arg_cong [OF js(3), of length] by simp
  have call: "session_source epoch v (js ! i) = Inr (as_generation (as ! i))" if "i < length as" for i
    using arg_cong [OF js(3), of "\<lambda>xs. xs ! i"] that len by simp
  have below: "js ! i < n" if "i < length as" for i using subsetD [OF js(2) nth_mem] that len by simp
  have "as_generation (as ! i) < as_generation (as ! j)" if "i < j" "j < length as" for i j
    by (rule session_source_increases [OF assms(2) _ _ call call])
       (use that len js(1) below in \<open>auto simp: sorted_wrt_iff_nth_less\<close>)
  moreover have "drop_bit 32 (as_generation (as ! i)) = epoch" if "i < length as" for i
    using session_draws(3) call [OF that] by (metis session_source_def prod.collapse)
  ultimately show ?thesis by (auto simp: sorted_wrt_iff_nth_less in_set_conv_nth)
qed

section \<open>Whom a round wakes\<close>

definition others_ready :: "nat \<Rightarrow> coordinator \<Rightarrow> bool" where
  "others_ready k c \<longleftrightarrow>
     (\<forall>j < length (co_shards c). j \<noteq> k \<and> 0 < Shard_pending (co_shards c ! j) \<longrightarrow> j \<in> set (co_ready c))"

lemma others_ready_shard: "on_shard missing k m c = (res, c') \<Longrightarrow> others_ready k c \<Longrightarrow> others_ready k c'"
  by (erule on_shard_cases) (auto simp: others_ready_def nth_list_update)

lemma others_ready_stats:
  assumes "same_but_stats c c'" "others_ready k c"
  shows "others_ready k c'"
proof -
  obtain ss where ss: "c' = c\<lparr>co_shards := ss\<rparr>" "length ss = length (co_shards c)"
    "\<And>j. j < length ss \<Longrightarrow> same_books (co_shards c ! j) (ss ! j)"
    using assms(1) unfolding same_but_stats_def by blast
  have "Shard_pending (ss ! j) = Shard_pending (co_shards c ! j)" if "j < length (co_shards c)" for j
    using ss(2,3) that by (simp add: same_books_def Shard_pending_def)
  with assms(2) ss show ?thesis by (simp add: others_ready_def)
qed

lemma others_ready_defer:
  "bindS (on_shard missing k m) (\<lambda>_. raiseS err) c = (res, c') \<Longrightarrow> others_ready k c \<Longrightarrow> others_ready k c'"
  by (erule bindS_cases) (auto intro: others_ready_shard)

lemma accept_transfer_panics: "Shard_accept_transfer e excluded s = (Inl err, s') \<Longrightarrow> is_panic err"
  by (auto simp: Shard_accept_transfer_def Shard_enqueue_entry_def Let_def bindS_def zoom_def Queue_restore_def
      next_ticket_def rust_add_def ok_or_def split: if_splits prod.splits sum.splits option.splits)

lemma others_ready_move:
  assumes "bindS (on_shard out_of_bounds k (Shard_forget_queued i)) (\<lambda>_.
      bindS (on_shard out_of_bounds target (Shard_accept_transfer e excluded)) (\<lambda>_ c2.
      (Inr (), wake target c2))) c = (res, c')"
    and "\<not> panicked res" "others_ready k c"
  shows "others_ready k c'"
  using assms(1)
proof (cases rule: bindS_cases)
  case (err e)
  with assms(3) show ?thesis by (blast intro: others_ready_shard)
next
  case (ok u d)
  have d: "others_ready k d" using ok(1) assms(3) by (rule others_ready_shard)
  from ok(2) show ?thesis
  proof (cases rule: bindS_cases)
    case (err e)
    from err(1) show ?thesis by (rule on_shard_cases) (use err assms(2) accept_transfer_panics in auto)
  next
    case inner: (ok v d2)
    from inner(1) show ?thesis
      by (rule on_shard_cases) (use inner(2) d in \<open>auto simp: others_ready_def wake_def nth_list_update split: if_splits\<close>)
  qed
qed

lemma others_ready_defer_or_transfer:
  assumes "defer_or_transfer now k e c = (res, c')" "\<not> panicked res" "others_ready k c"
  shows "others_ready k c'"
proof -
  let ?i = "spec_id (en_spec e)"
  obtain x d where d: "candidate_shard now (en_spec e) (Shard_exclusions ?i (co_shards c ! k)) (Some k) c = (x, d)"
    by fastforce
  have ready: "others_ready k d" by (rule others_ready_stats [OF candidate_shard_ok(1) [OF d] assms(3)])
  show ?thesis
  proof (cases "spec_snapshot_id (en_spec e) = None \<and> \<not> om_has ?i (co_volume_placement c)")
    case True
    with assms show ?thesis by (auto simp: defer_or_transfer_def Let_def intro: others_ready_shard)
  next
    case False
    note run = assms(1) [unfolded defer_or_transfer_def Let_def if_not_P [OF False] d prod.case]
    show ?thesis
    proof (cases "\<exists>target h r. x = Inr (Some target) \<and> map_of (co_requests d) ?i = Some (h, r)")
      case True
      then obtain target h r where found: "x = Inr (Some target)" "map_of (co_requests d) ?i = Some (h, r)" by blast
      have k: "\<not> length (co_shards c) \<le> k" using run assms(2) by (auto split: if_splits)
      note move = run [unfolded found if_not_P [OF k] sum.case option.case prod.case]
      show ?thesis by (rule others_ready_move [OF move assms(2)]) (use ready in \<open>simp add: others_ready_def\<close>)
    next
      case False
      with run ready assms(3) show ?thesis
        by (auto intro: others_ready_shard others_ready_defer split: sum.splits option.splits if_splits)
    qed
  qed
qed

lemma record_all_snoc:
  "record_all ns j = (Inr (), j1) \<Longrightarrow> Journal_record n j1 = (Inr (), j2) \<Longrightarrow> record_all (ns @ [n]) j = (Inr (), j2)"
  by (induction ns j rule: record_all.induct) (auto split: prod.splits sum.splits)

lemma record_and_wake_others:
  assumes "record_and_wake i (Some k) c = (Inr u, c')"
  shows "Journal_record i (co_journal c) = (Inr (), co_journal c')" "others_ready k c'"
proof -
  have "Journal_record i (co_journal c) = (Inr (), co_journal c') \<and> others_ready k c'"
    using assms
  proof (cases rule: record_and_wake_cases)
    case (ok j)
    obtain r where "wake_pending (Some k) (c\<lparr>co_journal := j\<rparr>) = c\<lparr>co_journal := j, co_ready := r\<rparr>"
      "set r = set (co_ready c)
        \<union> {l. l < length (co_shards c) \<and> Some l \<noteq> Some k \<and> Shard_pending (co_shards c ! l) > 0}"
      by (rule wake_pending_eq [of "Some k" "c\<lparr>co_journal := j\<rparr>"]) simp
    with ok show ?thesis by (auto simp: others_ready_def)
  qed simp
  then show "Journal_record i (co_journal c) = (Inr (), co_journal c')" "others_ready k c'" by simp_all
qed

lemma round_step_wakes:
  assumes "round_step now k g out c = (Inr (goes_on, out1), c1)"
  obtains (none) "ro_assignments out1 = ro_assignments out" "co_journal c1 = co_journal c"
      "others_ready k c \<Longrightarrow> others_ready k c1"
  | (one) a where "ro_assignments out1 = ro_assignments out @ [a]"
      "Journal_record (as_node_id a) (co_journal c) = (Inr (), co_journal c1)" "others_ready k c1"
proof -
  obtain x d where d: "on_shard out_of_bounds k (Shard_attempt now k g (co_snapshot c) (co_journal c) (co_config c)
      (co_volume_placement c)) c = (x, d)" by fastforce
  have same: "co_journal d = co_journal c" and ready: "others_ready k c \<Longrightarrow> others_ready k d"
    using unpublished_shard [OF d] others_ready_shard [OF d] by (simp_all add: unpublished_def)
  note step = assms [unfolded round_step_def Let_def d prod.case]
  consider (still) "ro_assignments out1 = ro_assignments out" "c1 = d"
    | (moved) e y where "defer_or_transfer now k e d = (y, c1)" "\<not> panicked y" "ro_assignments out1 = ro_assignments out"
    | (assigned) a r where "publish k g a r d = (Inr (), c1)" "ro_assignments out1 = ro_assignments out @ [a]"
  proof (cases x)
    case (Inl err)
    with step that(1) show thesis by (auto split: if_splits)
  next
    case (Inr att)
    show thesis
    proof (cases att)
      case (Deferred e)
      obtain y d1 where y: "defer_or_transfer now k e d = (y, d1)" by fastforce
      with step Inr Deferred that(2) [of e y] show thesis by (cases y) (auto split: if_splits)
    qed (use step Inr that(1,3) in \<open>auto elim!: bindS_cases\<close>)
  qed
  then show thesis
  proof cases
    case still
    with none same ready show thesis by simp
  next
    case (moved e y)
    show thesis
      by (rule none) (use moved same ready defer_or_transfer_unpublished [OF moved(1)]
        others_ready_defer_or_transfer [OF moved(1,2)] in \<open>simp_all add: unpublished_def\<close>)
  next
    case (assigned a r)
    note rec = record_and_wake_others [OF assigned(1) [unfolded publish_def]]
    show thesis by (rule one [OF assigned(2)]) (use rec same in simp_all)
  qed
qed

lemma round_loop_wakes:
  assumes "co_inv c" "round_loop now limit timed_out source cfg k out c = (Inr out', c')" "ro_assignments out = []"
  shows "record_all (map as_node_id (ro_assignments out')) (co_journal c) = (Inr (), co_journal c')
    \<and> (ro_assignments out' \<noteq> [] \<longrightarrow> others_ready k c')"
proof (rule round_loop_invariant [OF assms(1,2), where P = "\<lambda>_ as d.
    record_all (map as_node_id as) (co_journal c) = (Inr (), co_journal d) \<and> (as \<noteq> [] \<longrightarrow> others_ready k d)"])
  fix out d g goes_on out1 d1
  assume old: "record_all (map as_node_id (ro_assignments out)) (co_journal c) = (Inr (), co_journal d)
      \<and> (ro_assignments out \<noteq> [] \<longrightarrow> others_ready k d)"
    and "round_step now k g out d = (Inr (goes_on, out1), d1)"
  from this(2) show "record_all (map as_node_id (ro_assignments out1)) (co_journal c) = (Inr (), co_journal d1)
      \<and> (ro_assignments out1 \<noteq> [] \<longrightarrow> others_ready k d1)"
    by (cases rule: round_step_wakes) (use old in \<open>auto intro: record_all_snoc\<close>)
qed (use assms(3) in simp_all)

section \<open>A whole round\<close>

abbreviation begun :: "nat \<Rightarrow> coordinator \<Rightarrow> coordinator" where
  "begun k c \<equiv> c\<lparr>co_ready := filter (\<lambda>i. i \<noteq> k) (co_ready c),
     co_shards := (co_shards c)[k := Shard_begin_round (co_shards c ! k)]\<rparr>"

abbreviation finished :: "nat \<Rightarrow> round_outcome \<Rightarrow> coordinator \<Rightarrow> coordinator" where
  "finished k out c \<equiv>
     if ro_error out = None \<and> (ro_yielded out \<or> Shard_has_deferred_arrivals (co_shards c ! k)
          \<or> ro_assignments out \<noteq> [] \<and> Shard_pending (co_shards c ! k) > 0)
     then wake k c else c"

lemma run_round_loop:
  assumes "run_round now timed_out source k limit c = (Inr out, c')"
  obtains start c2 where "k < length (co_shards c)" "ro_attempted start = 0" "ro_assignments start = []"
    and "ro_error start = None" "\<not> ro_yielded start"
    and "round_loop now limit timed_out source (co_config c) k start (begun k c) = (Inr out, c2)"
    and "c' = finished k out c2"
proof -
  let ?start = "RoundOutcome_default\<lparr>ro_snapshot_revision := cl_revision (co_snapshot c)\<rparr>"
  have k: "k < length (co_shards c)" using assms by (simp add: run_round_def split: if_splits)
  with assms have "bindS (round_loop now limit timed_out source (co_config c) k ?start) (\<lambda>out c2.
      (Inr out, finished k out c2)) (begun k c) = (Inr out, c')"
    by (simp only: run_round_def Let_def if_not_P not_le)
  then show thesis
    by (cases rule: bindS_cases) (use k that [of ?start] in \<open>simp_all add: RoundOutcome_default_def\<close>)
qed

lemma run_round_bounded:
  assumes "co_inv c" "run_round now timed_out source k limit c = (Inr out, c')"
  shows "ro_attempted out \<le> max_attempts (co_config c)" "length (ro_assignments out) \<le> limit"
    and "\<forall>j < ro_attempted out. \<not> timed_out j" "ro_error out \<noteq> None \<longrightarrow> length (ro_assignments out) < limit"
    and "ro_yielded out \<longrightarrow> ro_attempted out = max_attempts (co_config c) \<or> length (ro_assignments out) = limit
      \<or> timed_out (ro_attempted out)"
    and "co_generation c' = last (co_generation c # map as_generation (ro_assignments out))"
    and "source = Some call \<Longrightarrow> drawn_from call (ro_attempted out) (ro_assignments out)"
proof -
  obtain start c2 where start: "ro_attempted start = 0" "ro_assignments start = []" "ro_error start = None"
      "\<not> ro_yielded start" and k: "k < length (co_shards c)"
    and loop: "round_loop now limit timed_out source (co_config c) k start (begun k c) = (Inr out, c2)"
    and c': "c' = finished k out c2"
    by (rule run_round_loop [OF assms(2)])
  note inv = begin_round_co_inv [OF assms(1) k]
  note limits = round_loop_limits [OF inv loop start(1,2)] and stops = round_loop_stops [OF loop start(3,4)]
    and gens = round_loop_generations [OF inv loop start(1,2)]
  show "ro_attempted out \<le> max_attempts (co_config c)" "length (ro_assignments out) \<le> limit"
    "\<forall>j < ro_attempted out. \<not> timed_out j" "ro_error out \<noteq> None \<longrightarrow> length (ro_assignments out) < limit"
    "ro_yielded out \<longrightarrow> ro_attempted out = max_attempts (co_config c) \<or> length (ro_assignments out) = limit
      \<or> timed_out (ro_attempted out)"
    using limits stops by auto
  have "co_generation c' = co_generation c2" by (simp add: c' wake_def)
  with gens show "co_generation c' = last (co_generation c # map as_generation (ro_assignments out))" by simp
  show "source = Some call \<Longrightarrow> drawn_from call (ro_attempted out) (ro_assignments out)" using gens by simp
qed

lemma run_round_wakes:
  assumes "co_inv c" "run_round now timed_out source k limit c = (Inr out, c')"
  shows "record_all (map as_node_id (ro_assignments out)) (co_journal c) = (Inr (), co_journal c')"
    and "ro_assignments out \<noteq> [] \<Longrightarrow> others_ready k c'"
    and "ro_assignments out \<noteq> [] \<Longrightarrow> ro_error out = None \<Longrightarrow> 0 < Shard_pending (co_shards c' ! k)
      \<Longrightarrow> k \<in> set (co_ready c')"
proof -
  obtain start c2 where k: "k < length (co_shards c)" and start: "ro_assignments start = []"
    and loop: "round_loop now limit timed_out source (co_config c) k start (begun k c) = (Inr out, c2)"
    and c': "c' = finished k out c2"
    by (rule run_round_loop [OF assms(2)])
  have same: "co_journal c' = co_journal c2" "co_shards c' = co_shards c2" "set (co_ready c2) \<subseteq> set (co_ready c')"
    by (auto simp: c' wake_def)
  note wakes = round_loop_wakes [OF begin_round_co_inv [OF assms(1) k] loop start]
  show "record_all (map as_node_id (ro_assignments out)) (co_journal c) = (Inr (), co_journal c')"
    using wakes same(1) by simp
  show "ro_assignments out \<noteq> [] \<Longrightarrow> others_ready k c'" using wakes same(2,3) by (auto simp: others_ready_def)
  show "k \<in> set (co_ready c')"
    if "ro_assignments out \<noteq> []" "ro_error out = None" "0 < Shard_pending (co_shards c' ! k)"
    using that same(2) by (simp add: c')
qed

end
