(* ===== verification/Coordinator_Properties.thy ===== *)
theory Coordinator_Properties
  imports Coordinator_Rounds
begin

text \<open>
  The properties of the coordinator, each instantiated at a run of two shards, one node and one
  request.
\<close>

section \<open>Every request is in one place\<close>

text \<open>All places where an identity is queued or assigned, shard by shard.\<close>

definition shard_places :: "string \<Rightarrow> shard \<Rightarrow> assignment option list" where
  "shard_places i s =
     map (\<lambda>_. None) (filter (\<lambda>e. spec_id (en_spec e) = i) (Shard_pending_requests s))
     @ (case Shard_assignment i s of None \<Rightarrow> [] | Some a \<Rightarrow> [Some a])"

definition places :: "string \<Rightarrow> coordinator \<Rightarrow> (nat \<times> assignment option) list" where
  "places i c = concat (map (\<lambda>k. map (Pair k) (shard_places i (co_shards c ! k))) [0..<length (co_shards c)])"

lemma shard_places_absent: "view s i = absent \<Longrightarrow> shard_places i s = []"
  by (auto simp: view_def shard_places_def Shard_assignment_def filter_empty_conv)

lemma shard_places_assigned: "view s i = ({}, Some a) \<Longrightarrow> shard_places i s = [Some a]"
  by (auto simp: view_def shard_places_def Shard_assignment_def filter_empty_conv)

lemma shard_places_waiting:
  assumes "shard_inv s" "view s i = ({r}, None)"
  shows "shard_places i s = [None]"
proof -
  let ?P = "\<lambda>e. spec_id (en_spec e) = i" and ?es = "Shard_pending_requests s"
  have "{en_spec e | e. e \<in> set ?es \<and> ?P e} = {r}" using assms(2) by (simp add: view_def)
  then obtain e where e: "e \<in> set ?es" "?P e" by blast
  then obtain xs ys where split: "?es = xs @ e # ys" by (meson split_list)
  have "distinct (map (\<lambda>e. spec_id (en_spec e)) ?es)" using assms(1) by (simp add: shard_inv_def tickets_ok_def)
  then have "i \<notin> (\<lambda>e. spec_id (en_spec e)) ` (set xs \<union> set ys)" using e(2) by (auto simp: split simp del: imageE)
  then have "\<forall>x \<in> set xs \<union> set ys. \<not> ?P x" by blast
  then have "filter ?P ?es = [e]" using e(2) by (auto simp: split filter_empty_conv)
  with assms(2) show ?thesis by (simp add: shard_places_def view_def Shard_assignment_def)
qed

lemma places_at:
  assumes "k < length (co_shards c)" "\<And>j. j < length (co_shards c) \<Longrightarrow> j \<noteq> k \<Longrightarrow> shard_places i (co_shards c ! j) = []"
  shows "places i c = map (Pair k) (shard_places i (co_shards c ! k))"
proof -
  have split: "[0..<length (co_shards c)] = [0..<k] @ k # [Suc k..<length (co_shards c)]"
    using assms(1) upt_add_eq_append [of 0 k "length (co_shards c) - k"] by (simp add: upt_conv_Cons)
  have none: "concat (map (\<lambda>j. map (Pair j) (shard_places i (co_shards c ! j))) ks) = []"
    if "\<forall>j \<in> set ks. j < length (co_shards c) \<and> j \<noteq> k" for ks
    using that assms(2) by simp
  have "concat (map (\<lambda>j. map (Pair j) (shard_places i (co_shards c ! j))) [0..<k]) = []"
    "concat (map (\<lambda>j. map (Pair j) (shard_places i (co_shards c ! j))) [Suc k..<length (co_shards c)]) = []"
    by (rule none, use assms(1) in fastforce)+
  then show ?thesis unfolding places_def split by (simp only: map_append list.map concat_append concat.simps append_Nil append_Nil2)
qed

text \<open>
  C25. In every reachable coordinator an accepted request is in exactly one place: waiting once in
  the shard it is routed to, or assigned there and shown in the cluster snapshot on the node of
  its assignment; an identity that was not accepted is in no queue, no ledger and not in the
  snapshot.
\<close>

theorem every_request_has_one_place:
  assumes "co_reach n fw cfg c"
  shows "case map_of (co_requests c) i of
      None \<Rightarrow> places i c = [] \<and> map_of (cl_environments (co_snapshot c)) i = None
    | Some (k, r) \<Rightarrow>
        (\<exists>owned. places i c = [(k, owned)] \<and> spec_id r = i
           \<and> map_of (cl_environments (co_snapshot c)) i
               = map_option (\<lambda>a. \<lparr>pe_spec = r, pe_node_id = as_node_id a\<rparr>) owned)"
proof -
  note inv = co_reach_inv [OF assms]
  note tr = co_tracked [OF inv, of i]
  show ?thesis
  proof (cases "map_of (co_requests c) i")
    case None
    with tr show ?thesis by (auto simp: tracked_at_def places_def shard_places_absent)
  next
    case (Some q)
    obtain k r where q: "q = (k, r)" by fastforce
    have k: "k < length (co_shards c)" "spec_id r = i"
      and others: "\<And>j. j < length (co_shards c) \<Longrightarrow> j \<noteq> k \<Longrightarrow> shard_places i (co_shards c ! j) = []"
      using tr by (simp_all add: Some q tracked_at_def shard_places_absent)
    note at = places_at [OF k(1) others]
    have "view (co_shards c ! k) i = ({r}, None) \<and> map_of (cl_environments (co_snapshot c)) i = None
      \<or> (\<exists>a. view (co_shards c ! k) i = ({}, Some a)
           \<and> map_of (cl_environments (co_snapshot c)) i = Some \<lparr>pe_spec = r, pe_node_id = as_node_id a\<rparr>)"
      using tr by (auto simp: Some q tracked_at_def)
    then have "\<exists>owned. shard_places i (co_shards c ! k) = [owned] \<and> map_of (cl_environments (co_snapshot c)) i
        = map_option (\<lambda>a. \<lparr>pe_spec = r, pe_node_id = as_node_id a\<rparr>) owned"
      using shard_places_waiting [OF co_shard [OF inv k(1)]] shard_places_assigned by fastforce
    with at k(2) show ?thesis by (auto simp: Some q)
  qed
qed

section \<open>Rounds\<close>

text \<open>
  C26. A scheduling round of a reachable coordinator keeps its three limits: it makes at most the
  configured number of attempts and at most \<open>limit\<close> assignments, and starts no attempt once its time
  is over; it yields only at one of these limits, and a round that stops on an error has made fewer
  than \<open>limit\<close> assignments (so the error of \<open>schedule\<close>, whose limit is 1, drops none). It keeps every
  accepted request, every node and every earlier placement, and publishes each of its assignments,
  of requests that were not placed before, in the snapshot. The coordinator remembers the generation
  of the last assignment. Without a source the generations strictly increase from the coordinator's
  own; with a source they are numbers it returned, in the order of the attempts; with the counter of
  a session they strictly increase and carry the epoch of the session. A round without an error
  leaves its shard in the ready queue unless nothing is left to try; of the shard of a round that
  stops on an error this is not claimed.
\<close>

theorem round_publishes_what_it_assigns:
  assumes "co_reach n fw cfg c" "run_round now timed_out source k limit c = (Inr out, c')"
  shows "keeps c c' \<and> ro_attempted out \<le> max_attempts (co_config c)
    \<and> length (ro_assignments out) \<le> limit \<and> (\<forall>j < ro_attempted out. \<not> timed_out j)
    \<and> (ro_yielded out \<longrightarrow> ro_attempted out = max_attempts (co_config c) \<or> length (ro_assignments out) = limit
         \<or> timed_out (ro_attempted out))
    \<and> (ro_error out \<noteq> None \<longrightarrow> length (ro_assignments out) < limit)
    \<and> round_result source k (ro_assignments out) c c'
    \<and> co_generation c' = last (co_generation c # map as_generation (ro_assignments out))
    \<and> (\<forall>call. source = Some call \<longrightarrow> drawn_from call (ro_attempted out) (ro_assignments out))
    \<and> (\<forall>epoch v. source = Some (session_source epoch v) \<and> session_run epoch v (ro_attempted out)
         \<longrightarrow> sorted_wrt (<) (map as_generation (ro_assignments out))
           \<and> (\<forall>a \<in> set (ro_assignments out). drop_bit 32 (as_generation a) = epoch))
    \<and> (ro_error out = None \<longrightarrow> k \<in> set (co_ready c')
         \<or> \<not> Shard_remaining_sweep (co_shards c' ! k) \<and> \<not> Shard_has_deferred_arrivals (co_shards c' ! k)
           \<and> (ro_assignments out = [] \<or> Shard_pending (co_shards c' ! k) = 0))"
proof -
  note inv = co_reach_inv [OF assms(1)]
  have "round_done source k out c c'" by (rule run_round_ok(2) [OF inv assms(2)]) simp_all
  then have kept: "keeps c c'" "round_result source k (ro_assignments out) c c'"
    and ready: "ro_error out = None \<longrightarrow> k \<in> set (co_ready c')
      \<or> \<not> Shard_remaining_sweep (co_shards c' ! k) \<and> \<not> Shard_has_deferred_arrivals (co_shards c' ! k)
        \<and> (ro_assignments out = [] \<or> Shard_pending (co_shards c' ! k) = 0)"
    by (simp_all add: round_done_def)
  note bounded = run_round_bounded [OF inv assms(2)]
  have session: "\<forall>epoch v. source = Some (session_source epoch v) \<and> session_run epoch v (ro_attempted out)
      \<longrightarrow> sorted_wrt (<) (map as_generation (ro_assignments out))
        \<and> (\<forall>a \<in> set (ro_assignments out). drop_bit 32 (as_generation a) = epoch)"
    using session_generations bounded(7) by blast
  have drawn: "\<forall>call. source = Some call \<longrightarrow> drawn_from call (ro_attempted out) (ro_assignments out)"
    using bounded(7) by simp
  show ?thesis by (intro conjI kept bounded(1-6) drawn session ready)
qed

section \<open>Changes of nodes are announced\<close>

definition all_ready :: "coordinator \<Rightarrow> bool" where
  "all_ready c \<longleftrightarrow> (\<forall>k < length (co_shards c). 0 < Shard_pending (co_shards c ! k) \<longrightarrow> k \<in> set (co_ready c))"

text \<open>The journal records the nodes, in this order, and every shard with waiting requests is ready.\<close>

definition announced_all :: "string list \<Rightarrow> coordinator \<Rightarrow> coordinator \<Rightarrow> bool" where
  "announced_all nodes c c' \<longleftrightarrow>
     record_all nodes (co_journal c) = (Inr (), co_journal c') \<and> all_ready c'"

abbreviation announced :: "string \<Rightarrow> coordinator \<Rightarrow> coordinator \<Rightarrow> bool" where
  "announced i \<equiv> announced_all [i]"

text \<open>The assignment a shard holds for a request.\<close>

definition held_assignment :: "string \<Rightarrow> coordinator \<Rightarrow> assignment option" where
  "held_assignment i c =
     (case map_of (co_requests c) i of None \<Rightarrow> None | Some (k, _) \<Rightarrow> Shard_assignment i (co_shards c ! k))"

lemma record_announces:
  assumes "record_and_wake i None d = (Inr u, c')" "co_journal d = co_journal c"
  shows "announced i c c'"
  using assms(1)
proof (cases rule: record_and_wake_cases)
  case (ok j)
  obtain r where "wake_pending None (d\<lparr>co_journal := j\<rparr>) = d\<lparr>co_journal := j, co_ready := r\<rparr>"
    "set r = set (co_ready d) \<union> {k. k < length (co_shards d) \<and> Some k \<noteq> None \<and> Shard_pending (co_shards d ! k) > 0}"
    by (rule wake_pending_eq [of None "d\<lparr>co_journal := j\<rparr>"]) simp
  with ok assms(2) show ?thesis by (auto simp: announced_all_def all_ready_def)
qed simp_all

lemma on_shard_journal: "on_shard missing k m c = (res, c') \<Longrightarrow> co_journal c' = co_journal c"
  by (erule on_shard_cases) simp_all

lemma choose_journal: "choose_node_shard i c = (res, c') \<Longrightarrow> co_journal c' = co_journal c"
  by (auto simp: choose_node_shard_def split: option.splits)

lemma on_shard_announces:
  assumes "bindS (on_shard missing k m) (\<lambda>x d. record_and_wake i None (f d)) c = (Inr u, c')"
    and "\<And>d. co_journal (f d) = co_journal d"
  shows "announced i c c'"
  using assms(1)
proof (cases rule: bindS_cases)
  case (ok x d)
  from record_announces [OF ok(2), of c] on_shard_journal [OF ok(1)] assms(2) show ?thesis by simp
qed simp

lemma register_announces:
  assumes "Coordinator_register nd c = (Inr k, c')"
  shows "announced (node_id nd) c c'"
proof -
  from assms have "bindS (choose_node_shard (node_id nd)) (\<lambda>k.
          bindS (on_shard out_of_bounds k (Shard_register nd)) (\<lambda>_ c2.
          bindS (record_and_wake (node_id nd) None) (\<lambda>_. returnS k)
            (c2\<lparr>co_snapshot := update_node nd (co_snapshot c2)\<rparr>))) c = (Inr k, c')"
    by (auto simp: Coordinator_register_def split: if_splits sum.splits)
  then show ?thesis
  proof (cases rule: bindS_cases)
    case (ok h d)
    from ok(2) show ?thesis
    proof (cases rule: bindS_cases)
      case inner: (ok u c2)
      from inner(2) show ?thesis
      proof (cases rule: bindS_cases)
        case rec: (ok v c3)
        have "co_journal c2 = co_journal c" using choose_journal [OF ok(1)] on_shard_journal [OF inner(1)] by simp
        with rec record_announces [OF rec(1), of c] show ?thesis by simp
      qed simp
    qed simp
  qed simp
qed

lemma reconsider_ready:
  "co_journal (Coordinator_reconsider_node i c) = co_journal c \<and> all_ready (Coordinator_reconsider_node i c)"
proof -
  let ?c = "c\<lparr>co_shards := map (Shard_reconsider_node i) (co_shards c)\<rparr>"
  obtain r where "wake_pending None ?c = ?c\<lparr>co_ready := r\<rparr>"
    "set r = set (co_ready ?c)
      \<union> {k. k < length (co_shards ?c) \<and> Some k \<noteq> None \<and> Shard_pending (co_shards ?c ! k) > 0}"
    by (rule wake_pending_eq [of None ?c])
  then show ?thesis by (auto simp: Coordinator_reconsider_node_def all_ready_def)
qed

lemma release_announces:
  assumes "Coordinator_release a c = (Inr u, c')"
  shows "announced (as_node_id a) c c'"
  using assms unfolding Coordinator_release_def by (rule on_shard_announces) simp

lemma restore_announces: "restore_assignment r a c = (Inr u, c') \<Longrightarrow> announced (as_node_id a) c c'"
  by (auto simp: restore_assignment_def elim!: on_shard_announces split: if_splits)

text \<open>Dropping a request neither touches the journal nor gives a shard waiting requests.\<close>

lemma each_shard_journal: "each_shard m ks c = (res, c') \<Longrightarrow> co_journal c' = co_journal c"
proof (induction ks arbitrary: c)
  case (Cons k ks)
  from Cons.prems have "bindS (on_shard out_of_bounds k m) (\<lambda>_. each_shard m ks) c = (res, c')" by simp
  then show ?case by (cases rule: bindS_cases) (use on_shard_journal Cons.IH in fastforce)+
qed simp

lemma drop_request_journal: "drop_request i c = (res, c') \<Longrightarrow> co_journal c' = co_journal c"
  by (auto simp: drop_request_def forget_everywhere_def elim!: bindS_cases dest: each_shard_journal)

lemma each_forget_ready:
  assumes "each_shard (Shard_forget_queued i) ks c = (res, c')" "shards_ok c" "all_ready c"
  shows "all_ready c'"
  using assms
proof (induction ks arbitrary: c)
  case (Cons k ks)
  from Cons.prems(1) have "bindS (on_shard out_of_bounds k (Shard_forget_queued i)) (\<lambda>_.
      each_shard (Shard_forget_queued i) ks) c = (res, c')" by simp
  moreover have "shards_ok d \<and> all_ready d" if "on_shard out_of_bounds k (Shard_forget_queued i) c = (x, d)" for x d
    using that
  proof (cases rule: on_shard_cases)
    case (run s)
    note inv = shards_okD [OF Cons.prems(2) run(1)]
    obtain s' where "Shard_forget_queued i (co_shards c ! k) = (Inr (), s')" "shard_inv s'"
      "waiting s' = filter_mset (other i) (waiting (co_shards c ! k))" by (rule forget_queued_ok [OF inv])
    with run(2) have s: "shard_inv s" "waiting s = filter_mset (other i) (waiting (co_shards c ! k))" by simp_all
    have "Shard_pending s \<le> Shard_pending (co_shards c ! k)"
      unfolding pending_size [OF s(1)] pending_size [OF inv] s(2) by (rule size_filter_mset_lesseq)
    with Cons.prems(3) run(1) have "all_ready d"
      by (auto simp: run(3) all_ready_def nth_list_update split: if_splits)
    moreover have "shards_ok d" by (rule shards_ok_update [OF Cons.prems(2) s(1)]) (simp add: run(3))
    ultimately show ?thesis by simp
  qed (use Cons.prems in simp)
  ultimately show ?case by (cases rule: bindS_cases) (use Cons.IH in blast)+
qed simp

lemma drop_request_ready: "drop_request i c = (res, c') \<Longrightarrow> shards_ok c \<Longrightarrow> all_ready c \<Longrightarrow> all_ready c'"
  by (auto simp: drop_request_def forget_everywhere_def all_ready_def [of "_\<lparr>co_requests := _, co_recovery_requests := _\<rparr>"]
      all_ready_def [symmetric] elim!: bindS_cases dest: each_forget_ready)

lemma take_over_announces:
  assumes "take_over r a c = (Inr u, c')"
  shows "announced (as_node_id a) c c'"
  using assms unfolding take_over_def
proof (cases rule: bindS_cases)
  case (ok x d)
  from ok(2) show ?thesis
  proof (cases rule: bindS_cases)
    case inner: (ok y d1)
    with restore_announces [OF inner(1)] drop_request_journal [OF ok(1)] show ?thesis
      by (auto simp: announced_all_def all_ready_def raise_generation_def)
  qed simp
qed simp

lemma accept_announces:
  assumes "accept_claim now r a c = (Inr u, c')"
  shows "case held_assignment (spec_id r) c of
      None \<Rightarrow> announced (as_node_id a) c c'
    | Some old \<Rightarrow> if old = a then c' = raise_generation (as_generation a) c
                 else announced_all [as_node_id old, as_node_id a] c c'"
proof -
  have replace: "announced_all [as_node_id old, as_node_id a] c c'"
    if "bindS (Coordinator_release old) (\<lambda>_. take_over r a) c = (Inr u, c')" for old
    using that
  proof (cases rule: bindS_cases)
    case (ok x d)
    with release_announces [OF ok(1)] take_over_announces [OF ok(2)] show ?thesis
      by (auto simp: announced_all_def split: prod.splits sum.splits)
  qed simp
  show ?thesis
    using assms replace take_over_announces [of r a c u c']
    by (auto simp: accept_claim_def held_assignment_def shard_assignment_def split: sum.splits if_splits option.splits)
qed

lemma retire_announces:
  assumes "co_inv c" "retire_claim i c = (Inr u, c')" "held_assignment i c = Some a"
  shows "announced (as_node_id a) c c'"
proof -
  have "bindS (Coordinator_release a) (\<lambda>_. bindS (drop_request i) (\<lambda>_ c1.
      (Inr (), c1\<lparr>co_retired := os_insert i (co_retired c1)\<rparr>))) c = (Inr u, c')"
    using assms(2,3) by (auto simp: retire_claim_def held_assignment_def shard_assignment_def Let_def split: option.splits if_splits)
  then show ?thesis
  proof (cases rule: bindS_cases)
    case (ok x d)
    have inv: "shards_ok d" using release_ok(1) [OF assms(1) ok(1)] by (simp add: co_inv_def)
    note rel = release_announces [OF ok(1)]
    from ok(2) show ?thesis
    proof (cases rule: bindS_cases)
      case inner: (ok y d1)
      with rel drop_request_journal [OF inner(1)] drop_request_ready [OF inner(1) inv] show ?thesis
        by (auto simp: announced_all_def all_ready_def)
    qed simp
  qed simp
qed

lemma forget_deleted_announces:
  assumes "co_inv c" "forget_deleted i c = (Inr u, c')" "i \<in> set (co_recovery_requests c)" "held_assignment i c = Some a"
  shows "announced (as_node_id a) c c'"
  using assms(2,3) unfolding forget_deleted_def
proof (cases rule: bindS_cases)
  case (ok x d)
  with retire_announces [OF assms(1) _ assms(4), of x d] assms(3) show ?thesis
    by (auto simp: announced_all_def all_ready_def split: if_splits)
qed simp

text \<open>
  C27. How the changes of nodes reach the waiting requests. A registration (with or without a
  fixed shard), the removal of a registered node, a release, a retry, a restored assignment, a
  finished recovery placement, an accepted claim that is not already held, and, in a reachable
  coordinator, the retirement of a request or the deletion of a recovery request that holds an
  assignment, when they succeed,
  record that node in the journal (an accepted claim that replaces an assignment: first the node of
  the replaced one), and afterwards every shard with waiting requests is in the ready queue;
  reconsidering a node records nothing and leaves every such shard ready as well. A round of a
  reachable coordinator records the nodes of its assignments in their order; if it made one, every
  other shard with waiting requests is in the ready queue afterwards, and so is its own shard unless
  the round stopped on an error.
\<close>

theorem node_changes_wake_waiting_shards:
  "(Coordinator_register nd c = (Inr k, c1) \<longrightarrow> announced (node_id nd) c c1)
   \<and> (register_at nd h c = (Inr k, c1) \<longrightarrow> announced (node_id nd) c c1)
   \<and> (map_of (co_node_shards c) i \<noteq> None \<and> Coordinator_forget_node i c = (Inr (), c2) \<longrightarrow> announced i c c2)
   \<and> (Coordinator_release a c = (Inr (), c3) \<longrightarrow> announced (as_node_id a) c c3)
   \<and> (Coordinator_retry millis a c = (Inr (), c4) \<longrightarrow> announced (as_node_id a) c c4)
   \<and> (restore_assignment r a c = (Inr (), c5) \<longrightarrow> announced (as_node_id a) c c5)
   \<and> (finish_recovery_placement now r a c = (Inr (), c6) \<longrightarrow> announced (as_node_id a) c c6)
   \<and> (accept_claim now r a c = (Inr (), c7) \<longrightarrow>
        (case held_assignment (spec_id r) c of
           None \<Rightarrow> announced (as_node_id a) c c7
         | Some old \<Rightarrow> if old = a then c7 = raise_generation (as_generation a) c
                      else announced_all [as_node_id old, as_node_id a] c c7))
   \<and> (co_reach n fw cfg c \<and> held_assignment i c = Some old \<and> retire_claim i c = (Inr (), c8)
        \<longrightarrow> announced (as_node_id old) c c8)
   \<and> (co_reach n fw cfg c \<and> held_assignment i c = Some old \<and> i \<in> set (co_recovery_requests c)
        \<and> forget_deleted i c = (Inr (), c9) \<longrightarrow> announced (as_node_id old) c c9)
   \<and> co_journal (Coordinator_reconsider_node i c) = co_journal c \<and> all_ready (Coordinator_reconsider_node i c)
   \<and> (co_reach n fw cfg c \<and> run_round now timed_out source k limit c = (Inr out, c10) \<longrightarrow>
        record_all (map as_node_id (ro_assignments out)) (co_journal c) = (Inr (), co_journal c10)
        \<and> (ro_assignments out \<noteq> [] \<longrightarrow> others_ready k c10 \<and> (ro_error out = None \<longrightarrow> all_ready c10)))"
proof (intro conjI impI)
  show "Coordinator_register nd c = (Inr k, c1) \<Longrightarrow> announced (node_id nd) c c1" by (rule register_announces)
  show "announced (node_id nd) c c1" if "register_at nd h c = (Inr k, c1)"
    using that register_announces [of nd "c\<lparr>co_node_shards := om_put (node_id nd) h (co_node_shards c)\<rparr>" k c1]
    by (auto simp: register_at_def announced_all_def split: if_splits)
  show "announced i c c2" if "map_of (co_node_shards c) i \<noteq> None \<and> Coordinator_forget_node i c = (Inr (), c2)"
    using that by (auto simp: Coordinator_forget_node_def elim!: on_shard_announces)
  show "Coordinator_release a c = (Inr (), c3) \<Longrightarrow> announced (as_node_id a) c c3" by (rule release_announces)
  show "announced (as_node_id a) c c4" if "Coordinator_retry millis a c = (Inr (), c4)"
    using that by (auto simp: Coordinator_retry_def elim!: on_shard_announces split: option.splits)
  show "restore_assignment r a c = (Inr (), c5) \<Longrightarrow> announced (as_node_id a) c c5" by (rule restore_announces)
  show "announced (as_node_id a) c c6" if "finish_recovery_placement now r a c = (Inr (), c6)"
    using that by (auto simp: finish_recovery_placement_def Let_def elim!: record_announces
        split: sum.splits option.splits if_splits)
  show "accept_claim now r a c = (Inr (), c7) \<Longrightarrow>
      (case held_assignment (spec_id r) c of
         None \<Rightarrow> announced (as_node_id a) c c7
       | Some old \<Rightarrow> if old = a then c7 = raise_generation (as_generation a) c
                    else announced_all [as_node_id old, as_node_id a] c c7)" by (rule accept_announces)
  show "announced (as_node_id old) c c8" if "co_reach n fw cfg c \<and> held_assignment i c = Some old \<and> retire_claim i c = (Inr (), c8)"
    using that retire_announces co_reach_inv by blast
  show "announced (as_node_id old) c c9" if "co_reach n fw cfg c \<and> held_assignment i c = Some old
      \<and> i \<in> set (co_recovery_requests c) \<and> forget_deleted i c = (Inr (), c9)"
    using that forget_deleted_announces co_reach_inv by blast
  show "co_journal (Coordinator_reconsider_node i c) = co_journal c" "all_ready (Coordinator_reconsider_node i c)"
    using reconsider_ready by simp_all
  assume "co_reach n fw cfg c \<and> run_round now timed_out source k limit c = (Inr out, c10)"
  then have inv: "co_inv c" and run: "run_round now timed_out source k limit c = (Inr out, c10)"
    using co_reach_inv by blast+
  note wakes = run_round_wakes [OF inv run]
  show "record_all (map as_node_id (ro_assignments out)) (co_journal c) = (Inr (), co_journal c10)" by (rule wakes(1))
  show "ro_assignments out \<noteq> [] \<Longrightarrow> others_ready k c10" by (rule wakes(2))
  show "ro_assignments out \<noteq> [] \<Longrightarrow> ro_error out = None \<Longrightarrow> all_ready c10"
    using wakes(2,3) by (auto simp: all_ready_def others_ready_def)
qed

section \<open>A run\<close>

text \<open>Two shards, one node, one request: it is routed to the first shard and placed by a round.\<close>

definition new_coordinator :: coordinator where
  "new_coordinator = projr (with_framework_config 2 plain_framework SchedulerConfig_default)"

definition registered_coordinator :: coordinator where
  "registered_coordinator = snd (Coordinator_register (zone_node ''n1'' ''a'') new_coordinator)"

definition queued_coordinator :: coordinator where
  "queued_coordinator = snd (submit 0 7 plain_spec registered_coordinator)"

definition placed_coordinator :: coordinator where
  "placed_coordinator = snd (run_round 0 (\<lambda>_. False) None 0 5 queued_coordinator)"

abbreviation first_assignment :: assignment where
  "first_assignment \<equiv>
     \<lparr>as_environment_id = ''e'', as_node_id = ''n1'', as_shard_id = 0, as_generation = 1, as_devices = []\<rparr>"

definition first_outcome :: round_outcome where
  "first_outcome =
     \<lparr>ro_assignments = [first_assignment], ro_attempted = 1, ro_yielded = False, ro_snapshot_revision = 1,
      ro_error = None\<rparr>"

text \<open>The same round with the counter of a session of epoch 1 as its source, and a second claim of the request.\<close>

abbreviation first_session :: "nat \<Rightarrow> u64 result" where
  "first_session \<equiv> session_source 1 (\<lambda>j. 4294967296 + of_nat j)"

definition session_outcome :: round_outcome where
  "session_outcome = first_outcome\<lparr>ro_assignments := [first_assignment\<lparr>as_generation := 4294967297\<rparr>]\<rparr>"

definition session_coordinator :: coordinator where
  "session_coordinator = snd (run_round 0 (\<lambda>_. False) (Some first_session) 0 1 queued_coordinator)"

abbreviation second_assignment :: assignment where
  "second_assignment \<equiv> first_assignment\<lparr>as_generation := 2\<rparr>"

lemma coordinator_script:
  "(case Coordinator_register (zone_node ''n1'' ''a'') new_coordinator of (x, c1) \<Rightarrow>
    case submit 0 7 plain_spec c1 of (y, c2) \<Rightarrow>
    case run_round 0 (\<lambda>_. False) None 0 5 c2 of (z, c3) \<Rightarrow>
    (x, y, z, map_of (co_requests c3) ''e'', fst (Coordinator_retry 9 first_assignment c3),
     fst (run_round 0 (\<lambda>_. False) (Some first_session) 0 1 c2), held_assignment ''e'' c3, fst (retire_claim ''e'' c3),
     fst (accept_claim 0 plain_spec second_assignment c3)))
   = (Inr 0, Inr 0, Inr first_outcome, Some (0, plain_spec), Inr (),
      Inr session_outcome, Some first_assignment, Inr (), Inr ())"
  by code_simp

lemma coordinator_run:
  "Coordinator_register (zone_node ''n1'' ''a'') new_coordinator = (Inr 0, registered_coordinator)"
  "submit 0 7 plain_spec registered_coordinator = (Inr 0, queued_coordinator)"
  "run_round 0 (\<lambda>_. False) None 0 5 queued_coordinator = (Inr first_outcome, placed_coordinator)"
  "map_of (co_requests placed_coordinator) ''e'' = Some (0, plain_spec)"
  "fst (Coordinator_retry 9 first_assignment placed_coordinator) = Inr ()"
  "run_round 0 (\<lambda>_. False) (Some first_session) 0 1 queued_coordinator = (Inr session_outcome, session_coordinator)"
  "held_assignment ''e'' placed_coordinator = Some first_assignment"
  "fst (retire_claim ''e'' placed_coordinator) = Inr ()"
  "fst (accept_claim 0 plain_spec second_assignment placed_coordinator) = Inr ()"
  using coordinator_script
  by (simp_all add: registered_coordinator_def queued_coordinator_def placed_coordinator_def session_coordinator_def
      prod_eq_iff split: prod.splits)

lemma plain_spec_id: "spec_id plain_spec = ''e''"
  by (simp add: plain_spec_def)

lemma first_session_run: "session_run 1 (\<lambda>j. 4294967296 + of_nat j) 1"
proof -
  have "snd (Session_next_generation 1 4294967296) \<le> 4294967296 + 1" by code_simp
  then show ?thesis by (simp add: session_run_def)
qed

lemma coordinator_reach:
  "co_reach 2 plain_framework SchedulerConfig_default queued_coordinator"
  "co_reach 2 plain_framework SchedulerConfig_default placed_coordinator"
proof -
  have "with_framework_config 2 plain_framework SchedulerConfig_default = Inr new_coordinator"
    by (simp add: new_coordinator_def with_framework_config_def SchedulerConfig_default_def)
  from co_next [OF co_next [OF co_init [OF this] co_register [OF coordinator_run(1)]] co_submit [OF coordinator_run(2)]]
  show queued: "co_reach 2 plain_framework SchedulerConfig_default queued_coordinator" by simp
  from co_next [OF queued co_round [OF coordinator_run(3)]]
  show "co_reach 2 plain_framework SchedulerConfig_default placed_coordinator" by simp
qed

theorem every_request_has_one_place_witness:
  "\<exists>owned. map_of (co_requests placed_coordinator) ''e'' = Some (0, plain_spec)
     \<and> places ''e'' placed_coordinator = [(0, owned)]
     \<and> map_of (cl_environments (co_snapshot placed_coordinator)) ''e''
         = map_option (\<lambda>a. \<lparr>pe_spec = plain_spec, pe_node_id = as_node_id a\<rparr>) owned"
  using every_request_has_one_place [OF coordinator_reach(2), of "''e''"] coordinator_run(4) by auto

theorem round_publishes_what_it_assigns_witness:
  "run_round 0 (\<lambda>_. False) None 0 5 queued_coordinator = (Inr first_outcome, placed_coordinator)
   \<and> length [first_assignment] \<le> 5
   \<and> round_result None 0 [first_assignment] queued_coordinator placed_coordinator
   \<and> run_round 0 (\<lambda>_. False) (Some first_session) 0 1 queued_coordinator = (Inr session_outcome, session_coordinator)
   \<and> length (ro_assignments session_outcome) \<le> 1
   \<and> drawn_from first_session 1 (ro_assignments session_outcome)
   \<and> sorted_wrt (<) (map as_generation (ro_assignments session_outcome))
   \<and> co_generation session_coordinator = 4294967297"
  using round_publishes_what_it_assigns [OF coordinator_reach(1) coordinator_run(3)]
    round_publishes_what_it_assigns [OF coordinator_reach(1) coordinator_run(6)]
    coordinator_run(3,6) first_session_run
  by (simp add: first_outcome_def session_outcome_def)

theorem node_changes_wake_waiting_shards_witness:
  "announced ''n1'' new_coordinator registered_coordinator
   \<and> announced ''n1'' placed_coordinator (snd (Coordinator_retry 9 first_assignment placed_coordinator))
   \<and> announced ''n1'' placed_coordinator (snd (retire_claim ''e'' placed_coordinator))
   \<and> announced_all [''n1'', ''n1''] placed_coordinator (snd (accept_claim 0 plain_spec second_assignment placed_coordinator))
   \<and> announced ''n1'' queued_coordinator placed_coordinator"
proof (intro conjI)
  show "announced ''n1'' new_coordinator registered_coordinator"
    using node_changes_wake_waiting_shards
        [where c = new_coordinator and nd = "zone_node ''n1'' ''a''" and k = 0 and ?c1.0 = registered_coordinator]
      coordinator_run(1) by (simp add: zone_node_def)
  show "announced ''n1'' placed_coordinator (snd (Coordinator_retry 9 first_assignment placed_coordinator))"
    using node_changes_wake_waiting_shards
        [where c = placed_coordinator and millis = 9 and a = first_assignment
          and ?c4.0 = "snd (Coordinator_retry 9 first_assignment placed_coordinator)"]
      coordinator_run(5) by (simp add: prod_eq_iff)
  show "announced ''n1'' placed_coordinator (snd (retire_claim ''e'' placed_coordinator))"
    using node_changes_wake_waiting_shards
        [where c = placed_coordinator and i = "''e''" and old = first_assignment
          and ?c8.0 = "snd (retire_claim ''e'' placed_coordinator)"]
      coordinator_run(7,8) coordinator_reach(2) by (simp add: prod_eq_iff)
  show "announced_all [''n1'', ''n1''] placed_coordinator
      (snd (accept_claim 0 plain_spec second_assignment placed_coordinator))"
    using node_changes_wake_waiting_shards
        [where c = placed_coordinator and now = 0 and r = plain_spec and a = second_assignment
          and ?c7.0 = "snd (accept_claim 0 plain_spec second_assignment placed_coordinator)"]
      coordinator_run(7,9) by (simp add: prod_eq_iff plain_spec_id)
  show "announced ''n1'' queued_coordinator placed_coordinator"
    using node_changes_wake_waiting_shards
        [where c = queued_coordinator and now = 0 and timed_out = "\<lambda>_. False" and source = None and k = 0
          and limit = 5 and out = first_outcome and ?c10.0 = placed_coordinator]
      coordinator_run(3) coordinator_reach(1) by (simp add: announced_all_def first_outcome_def)
qed

end
