(* ===== verification/Candidate_Cache.thy ===== *)
theory Candidate_Cache
  imports Coordinator_Steps
begin

text \<open>
  The candidate cache of a shard gives the same choice as evaluating every node anew. A cached
  score is a function of the request's signature and of the node alone, the journal names every
  node that changed since the cache was filled, and the first admissible entry of the ranking is
  the best candidate.
\<close>

section \<open>Verdicts that depend on the signature only\<close>

definition balance :: "placement \<Rightarrow> resources \<Rightarrow> resources \<Rightarrow> resources \<Rightarrow> u32" where
  "balance p need avail cap =
     (let rest = Resources_saturating_sub avail need;
          free = fraction (cpu_millis rest) (cpu_millis cap) + fraction (memory_bytes rest) (memory_bytes cap)
                 + fraction (disk_bytes rest) (disk_bytes cap)
      in case p of Pack \<Rightarrow> MAX_SCORE - free | Spread \<Rightarrow> free)"

lemma balance_score:
  "ResourceBalance_score p r c = Inr (balance p (spec_resources r) (cand_available c) (node_capacity (cand_node c)))"
proof -
  let ?av = "Resources_saturating_sub (cand_available c) (spec_resources r)" and ?cap = "node_capacity (cand_node c)"
  let ?a = "fraction (cpu_millis ?av) (cpu_millis ?cap)" and ?b = "fraction (memory_bytes ?av) (memory_bytes ?cap)"
  let ?d = "fraction (disk_bytes ?av) (disk_bytes ?cap)"
  have le: "unat ?a \<le> 1000000" "unat ?b \<le> 1000000" "unat ?d \<le> 1000000" by (rule fraction_le)+
  then have "unat ?a + unat ?b < 2 ^ LENGTH(32)" by simp
  note two = rust_add_ok [OF this]
  have "unat (?a + ?b) + unat ?d < 2 ^ LENGTH(32)" using le by (simp add: two)
  note three = rust_add_ok [OF this]
  have "?a + ?b + ?d \<le> MAX_SCORE" using le by (simp add: word_le_nat_alt two three)
  note sub = rust_sub_ok [OF this]
  show ?thesis
    unfolding ResourceBalance_score_def balance_def Let_def two(1) three(1) bindE_simps
    by (cases p) (simp_all add: sub)
qed

lemma balance_le: "balance p need avail cap \<le> MAX_SCORE"
proof -
  obtain r :: environment_spec and c :: candidate where "spec_resources r = need" "cand_available c = avail"
    "node_capacity (cand_node c) = cap"
    by (metis candidate.select_convs(1,2) environment_spec.select_convs(12) node.select_convs(2))
  with ResourceBalance_score_ok [of p r c] show ?thesis by (simp add: balance_score score_ok_def)
qed

definition aggregated :: "placement \<Rightarrow> signature \<Rightarrow> node_state \<Rightarrow> u64 option" where
  "aggregated p key st =
     (case key of (_, runtime, cpu, mem) \<Rightarrow>
      let need = \<lparr>cpu_millis = cpu, memory_bytes = mem, disk_bytes = 0\<rparr>; avail = available (ns_scalar st) in
      if node_available (ns_node st) \<and> fits need avail \<and> runtime \<in> set (node_runtime_classes (ns_node st))
      then Some (ucast (balance p need avail (node_capacity (ns_node st)))) else None)"

lemma signature_resources:
  "disk_bytes (spec_resources r) = 0 \<Longrightarrow> spec_resources r =
     \<lparr>cpu_millis = cpu_millis (spec_resources r), memory_bytes = memory_bytes (spec_resources r), disk_bytes = 0\<rparr>"
  by simp

lemma score_one:
  assumes "scp_score (wsc_plugin s) r c = Inr v" "v \<le> MAX_SCORE" "wsc_weight s = 1" "unat acc + 3000000 < 2 ^ 64"
  shows "score_loop r c acc (s # ss) = score_loop r c (acc + ucast v) ss"
proof -
  have v: "unat (ucast v :: u64) = unat v" by (simp add: unat_ucast_up)
  have "unat v \<le> 3000000" using assms(2) by (simp add: word_le_nat_alt)
  with assms(4) have "unat (ucast v :: u64) * unat (1 :: u64) < 2 ^ LENGTH(64)"
    "unat acc + unat (ucast v :: u64) < 2 ^ LENGTH(64)" by (simp_all add: v)
  note ok = rust_mul_ok(1) [OF this(1)] rust_add_ok(1) [OF this(2)]
  show ?thesis using leD [OF assms(2)] ok by (simp add: assms(1,3))
qed

lemma default_scores:
  assumes "spec_scheduling r = SchedulingPolicy_default" "cand_prepared c = Some Prepared_default"
  shows "Preference_score r c = Inr 0" "NodePreference_score r c = Inr 0"
    "EnvironmentPreference_score r c = Inr 0" "TopologyPreference_score r c = Inr 0"
  using assms
  by (simp_all add: Preference_score_def NodePreference_score_def EnvironmentPreference_score_def
      TopologyPreference_score_def candidate_prepared_def SchedulingPolicy_default_def normalized_def)

lemma aggregated_score:
  assumes "spec_scheduling r = SchedulingPolicy_default" "cand_prepared c = Some Prepared_default"
  shows "score_loop r c 0 (fw_scores (builtin_framework p))
    = Inr (ucast (balance p (spec_resources r) (cand_available c) (node_capacity (cand_node c))))"
proof -
  let ?b = "balance p (spec_resources r) (cand_available c) (node_capacity (cand_node c))"
  have b: "?b \<le> MAX_SCORE" "unat (ucast ?b :: u64) \<le> 3000000"
    using balance_le [of p] by (simp_all add: word_le_nat_alt unat_ucast_up)
  then show ?thesis
    by (simp add: builtin_framework_def builtin_scores_def score_one default_scores [OF assms] balance_score
        del: score_loop.simps(2))
qed

lemma evaluate_aggregated:
  assumes "EnvironmentSpec_validate now r = Inr ()" "supports_aggregation (builtin_framework p) r cl"
    and "validate_inventory (ns_free st) = Inr ()"
  shows "Framework_evaluate now (builtin_framework p) r (state_candidate st cl Prepared_default)
    = Inr (aggregated p (signature_of r) st)"
proof -
  let ?c = "state_candidate st cl Prepared_default"
  have r: "spec_scheduling r = SchedulingPolicy_default" "disk_bytes (spec_resources r) = 0"
    using assms(2) by (simp_all add: supports_aggregation_def)
  have q: "cand_prepared ?c = Some Prepared_default" by (simp add: state_candidate_def)
  have "select_devices [] (ns_free st) = Inr []" using assms(3) by (simp add: select_devices_def validate_requests_def)
  then have "allows_loop r ?c mandatory_filters = Inr (node_available (ns_node st)
      \<and> fits (spec_resources r) (available (ns_scalar st)) \<and> spec_runtime_class r \<in> set (node_runtime_classes (ns_node st)))"
    using r(1) q
    by (simp add: mandatory_filters_def NodeAvailable_filter_def ResourceFit_filter_def RuntimeFit_filter_def
        DeviceFit_filter_def NodeAffinity_filter_def Required_filter_def EnvironmentAffinity_filter_def
        Topology_filter_def candidate_prepared_def matches_node_def SchedulingPolicy_default_def
        Prepared_default_def state_candidate_def)
  moreover have "fw_filters (builtin_framework p) = mandatory_filters" by (simp add: builtin_framework_def)
  ultimately show ?thesis
    using assms(1) aggregated_score [OF r(1) q] signature_resources [OF r(2)]
    by (auto simp: Framework_evaluate_def Framework_allows_def aggregated_def signature_of_def state_candidate_def Let_def)
qed

lemma evaluate_refused:
  "EnvironmentSpec_validate now r = Inl e \<Longrightarrow> Framework_evaluate now fw r c = Inl e"
  by (simp add: Framework_evaluate_def Framework_allows_def)

lemma Prepared_new_default:
  assumes "supports_aggregation fw r cl"
  shows "Prepared_new r cl = Inr Prepared_default"
  using assms
  by (simp add: supports_aggregation_def has_reverse_anti_affinity_def Prepared_new_def Prepared_default_def
      SchedulingPolicy_default_def)

section \<open>Both searches find the least rank\<close>

definition least :: "'a::linorder set \<Rightarrow> 'a option \<Rightarrow> bool" where
  "least R best \<longleftrightarrow>
     (case best of None \<Rightarrow> R = {} | Some x \<Rightarrow> x \<in> R \<and> (\<forall>y \<in> R. x \<le> y))"

lemma least_unique: "least R x \<Longrightarrow> least R y \<Longrightarrow> x = y"
  by (cases x; cases y) (auto simp: least_def intro: antisym)

lemma least_insert:
  "least R best \<Longrightarrow> least (insert x R) (if is_none_or (\<lambda>y. x < y) best then Some x else best)"
  by (cases best) (auto simp: least_def)

lemma better_rank: "better_score v i best \<longleftrightarrow> is_none_or (\<lambda>y. rank i v < y) (map_option (\<lambda>(v, i). rank i v) best)"
proof (cases best)
  case (Some b)
  obtain w j where "b = (w, j)" by fastforce
  with Some show ?thesis
    by (auto simp: better_score_def rank_def less_prod_def' word_less_def word_uint_eq_iff)
qed (simp add: better_score_def)

definition ranks :: "(node_state \<Rightarrow> u64 option) \<Rightarrow> (string \<Rightarrow> bool) \<Rightarrow> node_state set \<Rightarrow> (int \<times> string) set" where
  "ranks f skip sts =
     {rank (node_id (ns_node st)) v | st v. st \<in> sts \<and> \<not> skip (node_id (ns_node st)) \<and> f st = Some v}"

lemma ranks_insert:
  "ranks f skip (insert st sts) =
     (if skip (node_id (ns_node st)) then ranks f skip sts
      else case f st of None \<Rightarrow> ranks f skip sts | Some v \<Rightarrow> insert (rank (node_id (ns_node st)) v) (ranks f skip sts))"
  by (auto simp: ranks_def split: option.split)

lemma candidate_loop_least:
  assumes "\<And>st. st \<in> set sts \<Longrightarrow> ev st = Inr (f st)" "least R (map_option (\<lambda>(v, i). rank i v) best)"
  shows "\<exists>best' stats'. candidate_loop ev skip sts best stats = (Inr best', stats')
    \<and> least (R \<union> ranks f skip (set sts)) (map_option (\<lambda>(v, i). rank i v) best')"
  using assms
proof (induction sts arbitrary: best stats R)
  case Nil
  then show ?case by (simp add: ranks_def)
next
  case (Cons st sts)
  let ?i = "node_id (ns_node st)"
  have ev: "ev st = Inr (f st)" "\<And>st. st \<in> set sts \<Longrightarrow> ev st = Inr (f st)" using Cons.prems(1) by simp_all
  note ih = Cons.IH [OF ev(2)]
  show ?case
  proof (cases "skip ?i \<or> f st = None")
    case True
    then have "ranks f skip (set (st # sts)) = ranks f skip (set sts)" by (auto simp: ranks_insert)
    with True ev(1) ih [OF _ Cons.prems(2)] show ?thesis by (auto simp: Let_def)
  next
    case False
    then obtain v where v: "f st = Some v" by blast
    have all: "R \<union> ranks f skip (set (st # sts)) = insert (rank ?i v) R \<union> ranks f skip (set sts)"
      using False v by (auto simp: ranks_insert)
    have "least (insert (rank ?i v) R)
        (map_option (\<lambda>(v, i). rank i v) (if better_score v ?i best then Some (v, ?i) else best))"
      using least_insert [OF Cons.prems(2), of "rank ?i v"] unfolding better_rank by (simp split: if_splits)
    from ih [OF _ this] show ?thesis unfolding all using False v ev(1) by (simp add: Let_def)
  qed
qed

lemma find_least:
  assumes "sorted_wrt (<) xs"
  shows "least {x \<in> set xs. P x} (find P xs)"
  using assms by (induction xs) (auto simp: least_def split: option.splits)

section \<open>Fresh caches\<close>

text \<open>
  Against the history of changed nodes: a cached score may be stale only for nodes that changed
  after the cursor of its cache line.
\<close>

definition line_fresh :: "placement \<Rightarrow> string list \<Rightarrow> (string, node_state) omap \<Rightarrow> signature \<Rightarrow> candidates \<Rightarrow> bool" where
  "line_fresh p h nodes key c \<longleftrightarrow>
     unat (ca_cursor c) \<le> length h
     \<and> (\<forall>n st. map_of nodes n = Some st \<and> n \<notin> set (drop (unat (ca_cursor c)) h)
          \<longrightarrow> map_of (ca_scores c) n = aggregated p key st)"

definition fresh :: "placement \<Rightarrow> string list \<Rightarrow> shard \<Rightarrow> bool" where
  "fresh p h s \<longleftrightarrow>
     sh_framework s = builtin_framework p \<and> fst ` set (sh_nodes s) \<subseteq> set h
     \<and> (\<forall>key c. map_of (sh_cache s) key = Some c \<longrightarrow> line_fresh p h (sh_nodes s) key c)"

lemma freshD:
  assumes "fresh p h s"
  shows "sh_framework s = builtin_framework p" "fst ` set (sh_nodes s) \<subseteq> set h"
    and "map_of (sh_cache s) key = Some c \<Longrightarrow> line_fresh p h (sh_nodes s) key c"
  using assms unfolding fresh_def by blast+

lemma freshI:
  assumes "sh_framework s = builtin_framework p" "fst ` set (sh_nodes s) \<subseteq> set h"
    and "\<And>key c. map_of (sh_cache s) key = Some c \<Longrightarrow> line_fresh p h (sh_nodes s) key c"
  shows "fresh p h s"
  using assms unfolding fresh_def by blast

lemma free_valid: "node_ok st \<Longrightarrow> validate_inventory (ns_free st) = Inr ()"
  by (auto simp: node_ok_def device_ledger_inv_def DeviceLedger_available_def validate_inventory_ok distinct_map_filter)

lemma line_fresh_default: "fst ` set nodes \<subseteq> set h \<Longrightarrow> line_fresh p h nodes key Candidates_default"
  by (force simp: line_fresh_def Candidates_default_def dest: map_of_SomeD)

lemma reconcile_scores:
  assumes "reconcile_loop ev nodes ids (stats, c) = (res, (stats', c'))"
    and "\<forall>n st. map_of nodes n = Some st \<longrightarrow> ev st = Inr (f st) \<or> (\<exists>e. ev st = Inl e)"
  shows "ca_cursor c' = ca_cursor c"
    and "map_of nodes n = Some st \<Longrightarrow> map_of (ca_scores c) n = f st \<or> n \<in> set ids \<and> is_ok res
           \<Longrightarrow> map_of (ca_scores c') n = f st"
    and "(\<And>n st. map_of nodes n = Some st \<Longrightarrow> ev st = Inr (f st)) \<Longrightarrow> res = Inr ()"
proof -
  have "ca_cursor c' = ca_cursor c
    \<and> (map_of nodes n = Some st \<longrightarrow> map_of (ca_scores c) n = f st \<or> n \<in> set ids \<and> is_ok res
        \<longrightarrow> map_of (ca_scores c') n = f st)
    \<and> ((\<forall>n st. map_of nodes n = Some st \<longrightarrow> ev st = Inr (f st)) \<longrightarrow> res = Inr ())"
    using assms(1)
  proof (induction ids arbitrary: stats c)
    case (Cons i ids)
    show ?case
    proof (cases "map_of nodes i")
      case None
      with Cons show ?thesis by auto
    next
      case (Some st')
      show ?thesis
      proof (cases "ev st'")
        case (Inl e)
        with Cons.prems Some show ?thesis by (auto simp: Let_def is_ok_def)
      next
        case (Inr v)
        have "ev st' = Inr (f st') \<or> (\<exists>e. ev st' = Inl e)" using assms(2) Some by blast
        then have v: "v = f st'" using Inr by simp
        have "reconcile_loop ev nodes ids (stats\<lparr>candidate_evaluations := candidate_evaluations stats + 1,
            reconciled_nodes := reconciled_nodes stats + 1\<rparr>, Candidates_update i v c) = (res, (stats', c'))"
          using Cons.prems Some Inr by (simp add: Let_def)
        from Cons.IH [OF this] Some v show ?thesis by (auto split: if_splits)
      qed
    qed
  qed simp
  then show "ca_cursor c' = ca_cursor c"
    "map_of nodes n = Some st \<Longrightarrow> map_of (ca_scores c) n = f st \<or> n \<in> set ids \<and> is_ok res
       \<Longrightarrow> map_of (ca_scores c') n = f st"
    "(\<And>n st. map_of nodes n = Some st \<Longrightarrow> ev st = Inr (f st)) \<Longrightarrow> res = Inr ()" by blast+
qed

text \<open>The nodes to look at again: all of them, or those the journal names.\<close>

lemma cache_updates_journal:
  assumes "cache_updates (journal_of cap h) key s = (res, s')" "length h < 2 ^ 64"
  obtains "res = Inr None"
  | c ids where "res = Inr (Some ids)" "map_of (sh_cache s) key = Some c" "set ids = set (drop (unat (ca_cursor c)) h)"
  using assms by (auto simp: cache_updates_def Let_def since_journal_of split: option.splits if_splits)

lemma cache_slot_fresh:
  assumes "fresh p h s" "cache_slot n key s = (res, s')" "cache_ok (sh_nodes s) (sh_cache s) (sh_cache_order s)" "0 < n"
  shows "fresh p h s'"
proof -
  note frame = cache_slot_frame [OF assms(2-4)]
  have same: "sh_nodes s' = sh_nodes s" "sh_framework s' = sh_framework s"
    using frame(2) by (simp_all add: same_books_def)
  show ?thesis
  proof (rule freshI)
    fix k c
    assume "map_of (sh_cache s') k = Some c"
    from frame(7) [OF this] have "line_fresh p h (sh_nodes s) k c"
      using freshD(3) [OF assms(1)] line_fresh_default [OF freshD(2) [OF assms(1)]] by blast
    then show "line_fresh p h (sh_nodes s') k c" by (simp add: same)
  qed (use freshD(1,2) [OF assms(1)] same in simp_all)
qed

lemma verdicts_aggregated:
  assumes "fresh p h s" "shard_inv s" "supports_aggregation (sh_framework s) r cl" "map_of (sh_nodes s) n = Some st"
  shows "(if is_ok (EnvironmentSpec_validate now r)
      then Framework_evaluate now (sh_framework s) r (state_candidate st cl Prepared_default)
        = Inr (aggregated p (signature_of r) st)
      else \<exists>e. Framework_evaluate now (sh_framework s) r (state_candidate st cl Prepared_default) = Inl e)"
proof (cases "EnvironmentSpec_validate now r")
  case (Inl e)
  then show ?thesis by (simp add: evaluate_refused is_ok_def)
next
  case (Inr u)
  have "accounts (sh_nodes s) (sh_assigned s)" using assms(2) by (simp add: shard_inv_def)
  note free = free_valid [OF accountsD(1) [OF this assms(4)]]
  with Inr evaluate_aggregated [of now r p cl st] assms(1,3) show ?thesis by (simp add: fresh_def is_ok_def)
qed

text \<open>Reconciling keeps the cache fresh, and on success the line of the request is exact.\<close>

lemma cache_reconcile_fresh:
  assumes "fresh p h s" "shard_inv s" "supports_aggregation (sh_framework s) r cl" "length h < 2 ^ 64"
    and "cache_reconcile now r cl (journal_of cap h) updates s = (res, s')"
    and "updates = None \<or> (\<exists>c ids. updates = Some ids \<and> map_of (sh_cache s) (signature_of r) = Some c
           \<and> set ids = set (drop (unat (ca_cursor c)) h))"
  shows "fresh p h s'"
    and "EnvironmentSpec_validate now r = Inr () \<Longrightarrow> res = Inr ()"
    and "EnvironmentSpec_validate now r = Inr () \<Longrightarrow> map_of (sh_nodes s) n = Some st
      \<Longrightarrow> map_of (ca_scores (cached_for (signature_of r) s')) n = aggregated p (signature_of r) st"
proof -
  let ?key = "signature_of r"
  let ?ev = "\<lambda>st. Framework_evaluate now (sh_framework s) r (state_candidate st cl Prepared_default)"
  let ?f = "aggregated p ?key"
  obtain ids stats c where loop: "(case updates of
        Some ids \<Rightarrow> reconcile_loop ?ev (sh_nodes s) ids (sh_stats s, cached_for ?key s)
      | None \<Rightarrow> reconcile_loop ?ev (sh_nodes s) (map fst (sh_nodes s))
                  ((sh_stats s)\<lparr>cache_builds := cache_builds (sh_stats s) + 1\<rparr>, Candidates_default))
      = reconcile_loop ?ev (sh_nodes s) ids (stats, c)" and line: "line_fresh p h (sh_nodes s) ?key c"
    and seen: "\<And>n st. map_of (sh_nodes s) n = Some st \<Longrightarrow> map_of (ca_scores c) n = ?f st \<or> n \<in> set ids"
  proof (cases updates)
    case None
    have "n \<in> set (map fst (sh_nodes s))" if "map_of (sh_nodes s) n = Some st" for n st
      using map_of_SomeD [OF that] by force
    with None line_fresh_default [OF freshD(2) [OF assms(1)], of p ?key] show ?thesis
      by (intro that [of "map fst (sh_nodes s)"]) simp_all
  next
    case (Some ids)
    then obtain c where c: "map_of (sh_cache s) ?key = Some c" "set ids = set (drop (unat (ca_cursor c)) h)"
      using assms(6) by auto
    have line: "line_fresh p h (sh_nodes s) ?key c" using freshD(3) [OF assms(1) c(1)] .
    show ?thesis
      using line by (intro that [of ids "sh_stats s" c]) (auto simp: Some c cached_for_def line_fresh_def)
  qed
  obtain out stats' c' where out: "reconcile_loop ?ev (sh_nodes s) ids (stats, c) = (out, (stats', c'))"
    by (metis prod.exhaust)
  have ev: "\<forall>n st. map_of (sh_nodes s) n = Some st \<longrightarrow> ?ev st = Inr (?f st) \<or> (\<exists>e. ?ev st = Inl e)"
    using verdicts_aggregated [OF assms(1-3), where now = now] by meson
  note scores = reconcile_scores [OF out ev]
  have kept: "line_fresh p h (sh_nodes s) ?key c'"
    using line scores(1,2) by (auto simp: line_fresh_def)
  have exact: "map_of (ca_scores c') n = ?f st" if "is_ok out" "map_of (sh_nodes s) n = Some st" for n st
    using scores(2) [OF that(2)] seen [OF that(2)] that(1) by blast
  let ?c = "if is_ok out then c'\<lparr>ca_cursor := mj_sequence (journal_of cap h)\<rparr> else c'"
  have s': "s' = s\<lparr>sh_stats := stats', sh_cache := om_put ?key ?c (sh_cache s)\<rparr>" "res = out"
    using assms(5) unfolding cache_reconcile_def Let_def loop out by (auto simp: is_ok_def split: sum.splits)
  have "line_fresh p h (sh_nodes s) ?key ?c"
    using kept exact unat_u64 [OF assms(4)] by (auto simp: line_fresh_def journal_of_def)
  then show "fresh p h s'"
    by (intro freshI) (use freshD [OF assms(1)] in \<open>simp_all add: s' split: if_splits\<close>)
  assume "EnvironmentSpec_validate now r = Inr ()"
  then have "?ev st = Inr (?f st)" if "map_of (sh_nodes s) n = Some st" for n st
    using verdicts_aggregated [OF assms(1-3) that, of now] by (simp add: is_ok_def)
  then have "out = Inr ()" by (rule scores(3))
  then show "res = Inr ()" and "map_of (sh_nodes s) n = Some st
      \<Longrightarrow> map_of (ca_scores (cached_for (signature_of r) s')) n = aggregated p (signature_of r) st"
    using exact [of n st] by (simp_all add: s' cached_for_def is_ok_def)
qed

section \<open>The cached choice\<close>

lemma cached_choice_least:
  assumes "shard_inv s" "\<And>n st. map_of (sh_nodes s) n = Some st
      \<Longrightarrow> map_of (ca_scores (cached_for (signature_of r) s)) n = f st"
  obtains best where "cached_choice r placement s = map_option snd best"
    and "least (ranks f (skipped (Shard_exclusions (spec_id r) s) placement) (snd ` set (sh_nodes s))) best"
proof -
  let ?c = "cached_for (signature_of r) s"
  let ?skip = "skipped (Shard_exclusions (spec_id r) s) placement"
  let ?P = "\<lambda>(_, i). is_none_or (\<lambda>p. VolumePlacement_allows p i) placement
                    \<and> \<not> is_some_and (\<lambda>ids. i \<in> set ids) (map_of (sh_excluded s) (spec_id r))"
  have P: "?P (v, i) \<longleftrightarrow> \<not> ?skip i" for v i
    by (cases placement; cases "map_of (sh_excluded s) (spec_id r)") (auto simp: skipped_def Shard_exclusions_def)
  have cache: "cache_ok (sh_nodes s) (sh_cache s) (sh_cache_order s)" and books: "accounts (sh_nodes s) (sh_assigned s)"
    using assms(1) by (simp_all add: shard_inv_def)
  have ok: "ranking_ok (sh_nodes s) ?c" by (rule ranking_cached_for [OF cache])
  have wf: "om_wf (sh_nodes s)" using books by (simp add: accounts_def)
  have "{x \<in> set (ca_ranked ?c). ?P x} = {rank n v | n v. map_of (ca_scores ?c) n = Some v \<and> \<not> ?skip n}"
    using ok P by (auto simp: ranking_ok_def rank_def)
  also have "\<dots> = {rank n v | n v st. map_of (sh_nodes s) n = Some st \<and> f st = Some v \<and> \<not> ?skip n}"
  proof -
    have "\<exists>st. map_of (sh_nodes s) n = Some st \<and> f st = Some v" if "map_of (ca_scores ?c) n = Some v" for n v
    proof -
      have "n \<in> fst ` set (ca_scores ?c)" using map_of_SomeD [OF that] by force
      then have "n \<in> fst ` set (sh_nodes s)" using ok by (auto simp: ranking_ok_def)
      then obtain st where st: "map_of (sh_nodes s) n = Some st" by (metis map_of_eq_None_iff not_None_eq)
      with assms(2) [OF st] that show ?thesis by simp
    qed
    with assms(2) show ?thesis by fastforce
  qed
  also have "\<dots> = ranks f ?skip (snd ` set (sh_nodes s))"
  proof -
    have "(n, st) \<in> set (sh_nodes s) \<longleftrightarrow> map_of (sh_nodes s) n = Some st" for n st using wf by (simp add: om_wf_map_of)
    moreover have "node_id (ns_node st) = n" if "map_of (sh_nodes s) n = Some st" for n st
      by (rule accountsD(3) [OF books that])
    ultimately show ?thesis unfolding ranks_def by force
  qed
  finally have "least (ranks f ?skip (snd ` set (sh_nodes s))) (find ?P (ca_ranked ?c))"
    using find_least [of "ca_ranked ?c" ?P] ok by (simp add: ranking_ok_def)
  then show ?thesis by (intro that [of "find ?P (ca_ranked ?c)"]) (simp_all add: cached_choice_def)
qed

lemma select_cached:
  assumes "fresh p h s" "shard_inv s" "length h < 2 ^ 64"
    and "\<not> waiting_for_volume placement" "candidate_cache_entries cfg \<noteq> 0" "supports_aggregation (sh_framework s) r cl"
    and "Shard_select now r cl (journal_of cap h) cfg placement s = (res, s')"
  shows "fresh p h s'"
    and "EnvironmentSpec_validate now r = Inr () \<Longrightarrow> \<exists>best. res = Inr (map_option snd best)
      \<and> least (ranks (aggregated p (signature_of r)) (skipped (Shard_exclusions (spec_id r) s) placement)
            (snd ` set (sh_nodes s))) best"
proof -
  let ?j = "journal_of cap h" and ?key = "signature_of r" and ?n = "candidate_cache_entries cfg"
  obtain up t where up: "cache_updates ?j ?key s = (up, t)" by fastforce
  note one = cache_updates_frame [OF up]
  have t: "sh_nodes t = sh_nodes s" "sh_framework t = sh_framework s" "sh_excluded t = sh_excluded s"
    using one(1) by (simp_all add: same_books_def)
  have tf: "fresh p h t" by (rule freshI) (use freshD [OF assms(1)] t one(2) in simp_all)
  have tinv: "shard_inv t" using same_books_inv [OF one(1) assms(2)] assms(2) one t by (simp add: shard_inv_def)
  obtain slot u where u: "cache_slot ?n ?key t = (slot, u)" by fastforce
  have tcache: "cache_ok (sh_nodes t) (sh_cache t) (sh_cache_order t)" using tinv by (simp add: shard_inv_def)
  have pos: "0 < ?n" using assms(5) by simp
  note two = cache_slot_frame [OF u tcache pos]
  have uf: "fresh p h u" by (rule cache_slot_fresh [OF tf u tcache pos])
  have u': "sh_nodes u = sh_nodes s" "sh_framework u = sh_framework s" "sh_excluded u = sh_excluded s"
    using two(2) t by (simp_all add: same_books_def)
  have uinv: "shard_inv u" using same_books_inv [OF two(2) tinv] two(3) u' t by simp
  obtain updates where upd: "up = Inr updates" "updates = None \<or> (\<exists>c ids. updates = Some ids
      \<and> map_of (sh_cache u) ?key = Some c \<and> set ids = set (drop (unat (ca_cursor c)) h))"
  proof (rule cache_updates_journal [OF up assms(3)])
    fix c ids
    assume c: "up = Inr (Some ids)" "map_of (sh_cache s) ?key = Some c" "set ids = set (drop (unat (ca_cursor c)) h)"
    have "?key \<in> fst ` set (sh_cache t)" using map_of_SomeD [OF c(2)] one(2) by force
    then have "u = t" by (rule two(5))
    with c one(2) show ?thesis by (intro that [of "Some ids"]) simp_all
  qed (auto intro: that)
  have agg: "supports_aggregation (sh_framework u) r cl" using assms(6) u' by simp
  obtain rec w where w: "cache_reconcile now r cl ?j updates u = (rec, w)" by fastforce
  note three = cache_reconcile_fresh [OF uf uinv agg assms(3) w upd(2)]
  have run: "s' = w" "res = (case rec of Inl e \<Rightarrow> Inl e | Inr _ \<Rightarrow> Inr (cached_choice r placement w))"
    using assms(4-7) up upd(1) u two(1) w by (auto simp: Shard_select_def bindS_def split: sum.splits)
  show "fresh p h s'" using three(1) run(1) by simp
  assume valid: "EnvironmentSpec_validate now r = Inr ()"
  note frame = cache_reconcile_frame [OF w two(4)]
  have wb: "same_books u w" "cache_ok (sh_nodes u) (sh_cache w) (sh_cache_order w)"
    using frame uinv by (simp_all add: shard_inv_def)
  then have w': "sh_nodes w = sh_nodes s" "sh_excluded w = sh_excluded s" using u' by (simp_all add: same_books_def)
  have winv: "shard_inv w" using same_books_inv [OF wb(1) uinv] wb w' u' by simp
  have exact: "map_of (ca_scores (cached_for ?key w)) n = aggregated p ?key st" if "map_of (sh_nodes w) n = Some st" for n st
    using three(3) [OF valid] that w' u' by simp
  obtain best where "cached_choice r placement w = map_option snd best"
    "least (ranks (aggregated p ?key) (skipped (Shard_exclusions (spec_id r) w) placement) (snd ` set (sh_nodes w))) best"
    by (rule cached_choice_least [OF winv, of r "aggregated p ?key" placement, OF exact])
  with three(2) [OF valid] run(2) w' show "\<exists>best. res = Inr (map_option snd best)
      \<and> least (ranks (aggregated p (signature_of r)) (skipped (Shard_exclusions (spec_id r) s) placement)
            (snd ` set (sh_nodes s))) best" by (auto simp: Shard_exclusions_def)
qed

lemma select_uncached:
  assumes "fresh p h s" "shard_inv s" "EnvironmentSpec_validate now r = Inr ()"
    and "\<not> waiting_for_volume placement" "candidate_cache_entries cfg = 0" "supports_aggregation (sh_framework s) r cl"
  shows "\<exists>best. fst (Shard_select now r cl j cfg placement s) = Inr (map_option snd best)
    \<and> least (ranks (aggregated p (signature_of r)) (skipped (Shard_exclusions (spec_id r) s) placement)
          (snd ` set (sh_nodes s))) best"
proof -
  let ?ev = "\<lambda>st. Framework_evaluate now (sh_framework s) r (state_candidate st cl Prepared_default)"
  let ?f = "aggregated p (signature_of r)" and ?skip = "skipped (Shard_exclusions (spec_id r) s) placement"
  have wf: "om_wf (sh_nodes s)" using assms(2) by (simp add: shard_inv_def accounts_def)
  have ev: "?ev st = Inr (?f st)" if "st \<in> set (map snd (sh_nodes s))" for st
  proof -
    from that obtain n where "map_of (sh_nodes s) n = Some st" using wf by (auto simp: om_wf_map_of)
    from verdicts_aggregated [OF assms(1,2,6) this, of now] assms(3) show ?thesis by simp
  qed
  define stats where "stats = (sh_stats s)\<lparr>query_preparations := query_preparations (sh_stats s) + 1\<rparr>"
  have "least {} (map_option (\<lambda>(v, i). rank i v) None)" by (simp add: least_def)
  from candidate_loop_least [where ev = ?ev and f = ?f and sts = "map snd (sh_nodes s)" and skip = ?skip, OF ev this, of stats]
  obtain best stats' where run: "candidate_loop ?ev ?skip (map snd (sh_nodes s)) None stats = (Inr best, stats')"
    and best: "least (ranks ?f ?skip (snd ` set (sh_nodes s))) (map_option (\<lambda>(v, i). rank i v) best)" by auto
  have "fst (Shard_select now r cl j cfg placement s) = Inr (map_option snd best)"
    using assms(4-6) run
    by (simp add: Shard_select_def Shard_best_candidate_def Prepared_new_default bindS_def zoom_def stats_def)
  moreover have "map_option snd best = map_option snd (map_option (\<lambda>(v, i). rank i v) best)"
    by (cases best) (auto simp: rank_def)
  ultimately show ?thesis using best by metis
qed

text \<open>Whatever the configured size of the cache, the choice is the one made without a cache.\<close>

lemma select_cache_transparent:
  assumes "fresh p h s" "shard_inv s" "length h < 2 ^ 64" "EnvironmentSpec_validate now r = Inr ()"
  shows "fst (Shard_select now r cl (journal_of cap h) cfg placement s)
    = fst (Shard_select now r cl (journal_of cap h) (cfg\<lparr>candidate_cache_entries := 0\<rparr>) placement s)"
proof (cases "waiting_for_volume placement \<or> candidate_cache_entries cfg = 0 \<or> \<not> supports_aggregation (sh_framework s) r cl")
  case True
  then show ?thesis by (auto simp: Shard_select_def)
next
  case False
  obtain res s' where run: "Shard_select now r cl (journal_of cap h) cfg placement s = (res, s')" by fastforce
  have "\<not> waiting_for_volume placement" "candidate_cache_entries cfg \<noteq> 0" "supports_aggregation (sh_framework s) r cl"
    using False by simp_all
  note cached = select_cached(2) [OF assms(1-3) this run assms(4)]
    and plain = select_uncached [OF assms(1,2,4) this(1) _ this(3), of "cfg\<lparr>candidate_cache_entries := 0\<rparr>"]
  let ?R = "ranks (aggregated p (signature_of r)) (skipped (Shard_exclusions (spec_id r) s) placement)
    (snd ` set (sh_nodes s))"
  obtain x where x: "res = Inr (map_option snd x)" "least ?R x" using cached by blast
  obtain y where y: "fst (Shard_select now r cl (journal_of cap h) (cfg\<lparr>candidate_cache_entries := 0\<rparr>) placement s)
      = Inr (map_option snd y)" "least ?R y" using plain [of "journal_of cap h"] by auto
  have "x = y" by (rule least_unique [OF x(2) y(2)])
  with x(1) y(1) run show ?thesis by simp
qed

end
