(* ===== verification/Cache_Steps.thy ===== *)
theory Cache_Steps
  imports Candidate_Cache
begin

text \<open>
  Every call of the coordinator keeps the candidate caches of its shards fresh: what a node offers
  changes only together with a journal entry for that node, or with the whole cache dropped.
\<close>

section \<open>What a node offers\<close>

definition offer :: "shard \<Rightarrow> string \<Rightarrow> (node \<times> resources) option" where
  "offer s n = map_option (\<lambda>st. (ns_node st, available (ns_scalar st))) (map_of (sh_nodes s) n)"

definition quiet :: "string option \<Rightarrow> shard \<Rightarrow> shard \<Rightarrow> bool" where
  "quiet i s s' \<longleftrightarrow>
     sh_framework s' = sh_framework s \<and> (sh_cache s' = sh_cache s \<or> sh_cache s' = [])
     \<and> (\<forall>n. Some n \<noteq> i \<longrightarrow> offer s' n = offer s n)"

lemma quiet_refl [simp]: "quiet i s s"
  by (simp add: quiet_def)

lemma quiet_trans: "quiet i s t \<Longrightarrow> quiet i t u \<Longrightarrow> quiet i s u"
  by (auto simp: quiet_def)

lemma quiet_None: "quiet None s s' \<Longrightarrow> quiet i s s'"
  by (auto simp: quiet_def)

lemma quiet_same:
  "sh_nodes s' = sh_nodes s \<Longrightarrow> sh_framework s' = sh_framework s \<Longrightarrow> sh_cache s' = sh_cache s \<Longrightarrow> quiet i s s'"
  by (simp add: quiet_def offer_def)

lemma aggregated_offer:
  "ns_node st' = ns_node st \<Longrightarrow> available (ns_scalar st') = available (ns_scalar st)
   \<Longrightarrow> aggregated p key st' = aggregated p key st"
  by (cases key) (simp add: aggregated_def Let_def)

lemma fresh_quiet:
  assumes "fresh p h s" "quiet i s s'" "i = None \<and> h' = h \<or> (\<exists>n. (i = None \<or> i = Some n) \<and> h' = h @ [n])"
  shows "fresh p h' s'"
proof (rule freshI)
  show "sh_framework s' = builtin_framework p" using assms(2) freshD(1) [OF assms(1)] by (simp add: quiet_def)
  have old: "\<exists>st0. map_of (sh_nodes s) n = Some st0 \<and> ns_node st = ns_node st0
      \<and> available (ns_scalar st) = available (ns_scalar st0)"
    if "map_of (sh_nodes s') n = Some st" "Some n \<noteq> i" for n st
  proof -
    have "offer s' n = offer s n" using that(2) assms(2) by (simp add: quiet_def)
    moreover have "offer s' n = Some (ns_node st, available (ns_scalar st))" using that(1) by (simp add: offer_def)
    ultimately have "offer s n = Some (ns_node st, available (ns_scalar st))" by simp
    then show ?thesis by (auto simp: offer_def)
  qed
  show "fst ` set (sh_nodes s') \<subseteq> set h'"
  proof
    fix n assume "n \<in> fst ` set (sh_nodes s')"
    then obtain st where st: "map_of (sh_nodes s') n = Some st" by (metis map_of_eq_None_iff not_None_eq)
    show "n \<in> set h'"
    proof (cases "Some n = i")
      case False
      from old [OF st False] obtain st0 where "map_of (sh_nodes s) n = Some st0" by blast
      then have "n \<in> fst ` set (sh_nodes s)" by (force dest: map_of_SomeD)
      with freshD(2) [OF assms(1)] assms(3) show ?thesis by auto
    qed (use assms(3) in auto)
  qed
  fix key c assume "map_of (sh_cache s') key = Some c"
  then have "map_of (sh_cache s) key = Some c" using assms(2) unfolding quiet_def by auto
  note line = freshD(3) [OF assms(1) this]
  have "map_of (ca_scores c) n = aggregated p key st"
    if "map_of (sh_nodes s') n = Some st" "n \<notin> set (drop (unat (ca_cursor c)) h')" for n st
  proof -
    have keep: "n \<notin> set (drop (unat (ca_cursor c)) h)" "Some n \<noteq> i"
      using that(2) assms(3) line by (auto simp: line_fresh_def)
    from old [OF that(1) keep(2)] obtain st0 where st0: "map_of (sh_nodes s) n = Some st0" "ns_node st = ns_node st0"
      "available (ns_scalar st) = available (ns_scalar st0)" by blast
    with line keep(1) aggregated_offer [OF st0(2,3)] show ?thesis by (simp add: line_fresh_def)
  qed
  moreover have "unat (ca_cursor c) \<le> length h'" using line assms(3) by (auto simp: line_fresh_def)
  ultimately show "line_fresh p h' (sh_nodes s') key c" by (simp add: line_fresh_def)
qed

section \<open>Operations of a shard\<close>

lemma register_quiet: "Shard_register nd s = (res, s') \<Longrightarrow> quiet (if is_ok res then Some (node_id nd) else None) s s'"
  by (auto simp: Shard_register_def quiet_def offer_def split: option.splits prod.splits sum.splits)

lemma forget_node_quiet: "Shard_forget_node n s = (res, s') \<Longrightarrow> quiet (if is_ok res then Some n else None) s s'"
  by (auto simp: Shard_forget_node_def quiet_def offer_def split: if_splits)

lemma begin_round_quiet: "quiet i s (Shard_begin_round s)"
  by (rule quiet_same) (simp_all add: Shard_begin_round_def)

lemma reconsider_quiet: "quiet i s (Shard_reconsider_node n s)"
  by (rule quiet_same) (simp_all add: Shard_reconsider_node_def)

lemma next_ticket_quiet: "next_ticket s = (res, s') \<Longrightarrow> quiet i s s'"
  by (rule quiet_same) (auto simp: next_ticket_def split: option.splits)

lemma queue_quiet:
  "on_queue m s = (res, s') \<Longrightarrow> quiet i s s'"
  "on_deferred m s = (res, s') \<Longrightarrow> quiet i s s'"
  by (auto simp: zoom_def intro!: quiet_same split: prod.splits)

lemma bind_quiet:
  assumes "bindS m f s = (res, s')" "\<And>x t. m s = (x, t) \<Longrightarrow> quiet i s t"
    and "\<And>x t. f x t = (res, s') \<Longrightarrow> quiet i t s'"
  shows "quiet i s s'"
  using assms(1)
proof (cases rule: bindS_cases)
  case (ok x t)
  from assms(2) [OF ok(1)] assms(3) [OF ok(2)] show ?thesis by (rule quiet_trans)
qed (use assms(2) in auto)

lemma enqueue_quiet: "Shard_enqueue_entry e s = (res, s') \<Longrightarrow> quiet i s s'"
proof -
  assume run: "Shard_enqueue_entry e s = (res, s')"
  let ?s = "Shard_begin_round s"
  have "quiet i ?s s'"
  proof (cases "Queue_is_empty (sh_deferred ?s)")
    case True
    with run show ?thesis
      by (auto simp: Shard_enqueue_entry_def Let_def intro: queue_quiet(1) next_ticket_quiet elim!: bind_quiet)
  next
    case False
    let ?t = "?s\<lparr>sh_deferred_arrivals := True\<rparr>"
    have "quiet i ?t s'" using run False
      by (auto simp: Shard_enqueue_entry_def Let_def intro: queue_quiet(2) next_ticket_quiet elim!: bind_quiet)
    moreover have "quiet i ?s ?t" by (rule quiet_same) simp_all
    ultimately show ?thesis by (metis quiet_trans)
  qed
  then show ?thesis by (rule quiet_trans [OF begin_round_quiet])
qed

lemma transfer_quiet:
  assumes "Shard_accept_transfer e x s = (res, s')"
  shows "quiet i s s'"
proof -
  let ?s = "if x \<noteq> [] then s\<lparr>sh_excluded := om_put (spec_id (en_spec e)) x (sh_excluded s)\<rparr> else s"
  have "quiet i s ?s" by (rule quiet_same) simp_all
  then show ?thesis by (rule quiet_trans [OF _ enqueue_quiet]) (use assms in \<open>simp only: Shard_accept_transfer_def\<close>)
qed

lemma forget_queued_quiet: "Shard_forget_queued n s = (res, s') \<Longrightarrow> quiet i s s'"
  unfolding Shard_forget_queued_def
  by (erule bind_quiet, erule queue_quiet, erule bind_quiet, erule queue_quiet) (auto intro: quiet_same)

lemma best_candidate_quiet: "Shard_best_candidate now r cl x placement s = (res, s') \<Longrightarrow> quiet i s s'"
  using best_candidate_frame [of now r cl x placement s res s'] by (auto simp: same_books_def intro!: quiet_same)

lemma checked_add_sub:
  "checked_add a b = Some c \<Longrightarrow> saturating_sub c b = a" for a b c :: u64
  using rust_add_ok(2) [of a b]
  by (auto simp: checked_add_nat saturating_sub_def word_le_nat_alt split: if_splits)

lemma reserve_release_available:
  assumes "map_of (reservations l) i = None" "ResourceLedger_reserve i r l = (Inr u, l1)" "ResourceLedger_release i l1 = (res, l2)"
  shows "available l2 = available l"
  using assms
  by (auto simp: ResourceLedger_reserve_def ResourceLedger_release_def Resources_checked_add_def Resources_saturating_sub_def
      available_def result_simps checked_add_sub split: sum.splits if_splits option.splits)

lemma reserve_node_refused:
  assumes "scalar_held st (spec_id r) = None" "reserve_node r st = (Inl e, st')"
  shows "ns_node st' = ns_node st" "available (ns_scalar st') = available (ns_scalar st)"
proof -
  show "ns_node st' = ns_node st" using reserve_node_node [OF assms(2)] .
  show "available (ns_scalar st') = available (ns_scalar st)"
    using assms reserve_release_available [OF assms(1)]
    by (auto simp: reserve_node_def dest: scalar.reserve_err split: sum.splits prod.splits)
qed

lemma offer_put:
  "sh_nodes s' = om_put n st' (sh_nodes s) \<Longrightarrow> sh_framework s' = sh_framework s \<Longrightarrow> sh_cache s' = sh_cache s
   \<Longrightarrow> quiet (Some n) s s'"
  by (simp add: quiet_def offer_def)

lemma offer_put_same:
  "sh_nodes s' = om_put n st' (sh_nodes s) \<Longrightarrow> sh_framework s' = sh_framework s \<Longrightarrow> sh_cache s' = sh_cache s
   \<Longrightarrow> map_of (sh_nodes s) n = Some st \<Longrightarrow> ns_node st' = ns_node st
   \<Longrightarrow> available (ns_scalar st') = available (ns_scalar st) \<Longrightarrow> quiet i s s'"
  by (simp add: quiet_def offer_def)

lemma release_quiet:
  assumes "shard_inv s" "Shard_release a s = (res, s')"
  shows "quiet (if is_ok res then Some (as_node_id a) else None) s s'"
proof (cases "is_ok res")
  case True
  with assms(2) show ?thesis
    by (auto simp: Shard_release_def Let_def intro!: offer_put split: if_splits option.splits sum.splits prod.splits)
next
  case False
  with accounts_release(3) [OF _ assms(2)] assms(1) show ?thesis by (simp add: shard_inv_def)
qed

lemma restore_quiet:
  "Shard_restore r a s = (res, s') \<Longrightarrow> quiet (if is_ok res then Some (as_node_id a) else None) s s'"
  by (auto simp: Shard_restore_def intro!: offer_put split: if_splits option.splits sum.splits prod.splits)

lemma retry_quiet:
  assumes "shard_inv s" "Shard_retry millis a r s = (res, s')" "\<not> panicked res"
  shows "quiet (if is_ok res then Some (as_node_id a) else None) s s'"
proof -
  obtain rel s1 where rel: "Shard_release a s = (rel, s1)" by fastforce
  note q = release_quiet [OF assms(1) rel]
  show ?thesis
  proof (cases rel)
    case (Inl e)
    with assms(2) rel q show ?thesis by (auto simp: Shard_retry_def Let_def bindS_def)
  next
    case (Inr u)
    let ?s1 = "s1\<lparr>sh_excluded := om_put (as_environment_id a)
      (os_insert (as_node_id a) (Shard_exclusions (as_environment_id a) s)) (sh_excluded s1)\<rparr>"
    have run: "Shard_enqueue_entry (Entry_new millis 0 r) ?s1 = (res, s')"
      using assms(2) rel Inr by (simp add: Shard_retry_def Let_def bindS_def Shard_enqueue_def)
    then have "res = Inr ()" using assms(3) enqueue_panics by blast
    moreover have "quiet (Some (as_node_id a)) s1 ?s1" by (rule quiet_same) simp_all
    ultimately show ?thesis using q Inr enqueue_quiet [OF run] by (auto intro: quiet_trans)
  qed
qed

lemma assign_quiet:
  assumes "shard_inv s" "ticket_free e s" "assign_entry k g e n s = (res, s')"
  shows "case res of Inl err \<Rightarrow> is_panic err \<or> quiet None s s'
    | Inr (Assigned a r) \<Rightarrow> quiet (Some (as_node_id a)) s s' | _ \<Rightarrow> False"
proof (cases "map_of (sh_nodes s) n")
  case None
  with assms(3) show ?thesis by (auto simp: assign_entry_def)
next
  case (Some st)
  have free: "scalar_held st (spec_id (en_spec e)) = None"
  proof -
    have "accounts (sh_nodes s) (sh_assigned s)" using assms(1) by (simp add: shard_inv_def)
    from accountsD(2) [OF this Some] assms(2) show ?thesis
      by (auto simp: charged_def ticket_free_def assigned_on_def)
  qed
  obtain out st' where r: "reserve_node (en_spec e) st = (out, st')" by fastforce
  show ?thesis
  proof (cases out)
    case (Inr devices)
    with assms(3) Some r show ?thesis by (auto simp: assign_entry_def Let_def intro!: offer_put)
  next
    case (Inl err)
    let ?s = "s\<lparr>sh_nodes := om_put n st' (sh_nodes s)\<rparr>"
    note same = reserve_node_refused [OF free r [unfolded Inl]]
    have "quiet None s ?s" by (rule offer_put_same [OF _ _ _ Some same]) simp_all
    moreover have "quiet None ?s s'" if "\<not> is_panic err"
      using assms(3) Some r Inl that
      by (auto simp: assign_entry_def Let_def elim!: bind_quiet intro: queue_quiet)
    moreover have "\<exists>err. res = Inl err \<and> (is_panic err \<or> \<not> is_panic err)" if "\<not> is_panic err"
      using assms(3) Some r Inl that by (auto simp: assign_entry_def Let_def bindS_def split: prod.splits sum.splits)
    ultimately show ?thesis using assms(3) Some r Inl
      by (cases "is_panic err") (auto simp: assign_entry_def Let_def intro: quiet_trans split: sum.splits)
  qed
qed

text \<open>An attempt fills the cache, then charges the node it chose.\<close>

lemma attempt_fresh:
  assumes "shard_inv s" "fresh p h s" "length h < 2 ^ 64"
    and "Shard_attempt now k g cl (journal_of cap h) cfg placements s = (res, s')"
  shows "case res of Inl err \<Rightarrow> is_panic err \<or> fresh p h s'
    | Inr (Assigned a r) \<Rightarrow> \<exists>t. fresh p h t \<and> quiet (Some (as_node_id a)) t s' | _ \<Rightarrow> fresh p h s'"
proof -
  obtain popped s1 where pop: "on_queue Queue_pop_entry s = (popped, s1)" by fastforce
  have f1: "fresh p h s1" by (rule fresh_quiet [OF assms(2) queue_quiet(1) [OF pop, of None]]) simp
  from pop_head [OF assms(1) pop] show ?thesis
  proof (elim disjE exE conjE)
    assume "popped = Inr None"
    with pop assms(4) f1 show ?thesis by (auto simp: Shard_attempt_def bindS_def)
  next
    fix e assume e: "popped = Inr (Some e)" "shard_inv s1" "ticket_free e s1"
    let ?s = "s1\<lparr>sh_stats := (sh_stats s1)\<lparr>attempts := attempts (sh_stats s1) + 1\<rparr>\<rparr>"
    let ?r = "en_spec e" and ?pl = "map_of placements (spec_id (en_spec e))"
    have inv: "shard_inv ?s" using e(2) by (simp add: shard_inv_def tickets_ok_def Shard_pending_requests_def)
    have f2: "fresh p h ?s" by (rule fresh_quiet [OF f1 quiet_same [where i = None]]) simp_all
    obtain x s2 where sel: "Shard_select now ?r cl (journal_of cap h) cfg ?pl ?s = (x, s2)" by fastforce
    have books: "same_books ?s s2" and inv2: "shard_inv s2" using select_ok [OF inv sel] by simp_all
    have f3: "fresh p h s2"
    proof (cases "waiting_for_volume ?pl \<or> candidate_cache_entries cfg = 0 \<or> \<not> supports_aggregation (sh_framework ?s) ?r cl")
      case True
      have "quiet None ?s s2"
        using sel True
        by (auto simp: Shard_select_def intro: best_candidate_quiet elim!: bind_quiet split: if_splits)
      from fresh_quiet [OF f2 this] show ?thesis by simp
    next
      case False
      then show ?thesis using select_cached(1) [OF f2 inv assms(3) _ _ _ sel] by simp
    qed
    have ticket: "ticket_free e s2" using e(3) books
      by (simp add: ticket_free_def same_books_def Shard_pending_requests_def)
    show ?thesis
    proof (cases x)
      case (Inl err)
      have "is_panic err \<or> quiet None s2 s'"
        using assms(4) pop e(1) sel Inl
        by (auto simp: Shard_attempt_def bindS_def intro: queue_quiet split: if_splits prod.splits sum.splits)
      moreover have "\<exists>err'. res = Inl err' \<and> (is_panic err \<longrightarrow> err' = err)"
        using assms(4) pop e(1) sel Inl by (auto simp: Shard_attempt_def bindS_def split: if_splits prod.splits sum.splits)
      ultimately show ?thesis using fresh_quiet [OF f3, of None s' h] by auto
    next
      case (Inr y)
      show ?thesis
      proof (cases y)
        case None
        with assms(4) pop e(1) sel Inr f3 show ?thesis by (auto simp: Shard_attempt_def bindS_def)
      next
        case (Some n)
        have run: "assign_entry k g e n s2 = (res, s')"
          using assms(4) pop e(1) sel Inr Some by (simp add: Shard_attempt_def bindS_def)
        from assign_quiet [OF inv2 ticket run] f3 show ?thesis
          using fresh_quiet [OF f3, of None s' h] by (auto split: sum.splits attempt.splits)
      qed
    qed
  qed
qed

section \<open>Operations of the coordinator\<close>

definition moved :: "string option \<Rightarrow> coordinator \<Rightarrow> coordinator \<Rightarrow> bool" where
  "moved i c c' \<longleftrightarrow>
     co_journal c' = co_journal c \<and> length (co_shards c') = length (co_shards c)
     \<and> (\<forall>k < length (co_shards c). quiet i (co_shards c ! k) (co_shards c' ! k))"

lemma moved_same: "co_journal c' = co_journal c \<Longrightarrow> co_shards c' = co_shards c \<Longrightarrow> moved i c c'"
  by (simp add: moved_def)

lemma moved_trans: "moved i c d \<Longrightarrow> moved i d e \<Longrightarrow> moved i c e"
  by (auto simp: moved_def intro: quiet_trans)

lemma moved_None: "moved None c c' \<Longrightarrow> moved i c c'"
  by (auto simp: moved_def intro: quiet_None)

lemma moved_wake [simp]: "moved i c (wake k c)"
  by (rule moved_same) (simp_all add: wake_def)

lemma moved_wake_pending [simp]: "moved i c (wake_pending x c)"
proof -
  obtain r where "wake_pending x c = c\<lparr>co_ready := r\<rparr>" by (rule wake_pending_eq)
  then show ?thesis by (simp add: moved_same)
qed

lemma on_shard_moved:
  assumes "on_shard missing k m c = (res, c')" "\<And>s'. m (co_shards c ! k) = (res, s') \<Longrightarrow> quiet i (co_shards c ! k) s'"
  shows "moved i c c'"
  using assms(1)
proof (cases rule: on_shard_cases)
  case (run s)
  with assms(2) show ?thesis by (simp add: moved_def nth_list_update)
qed (simp add: moved_same)

lemma bind_moved:
  assumes "bindS m f c = (res, c')" "\<And>x d. m c = (x, d) \<Longrightarrow> moved i c d"
    and "\<And>x d. f x d = (res, c') \<Longrightarrow> moved i d c'"
  shows "moved i c c'"
  using assms(1)
proof (cases rule: bindS_cases)
  case (ok x d)
  from assms(2) [OF ok(1)] assms(3) [OF ok(2)] show ?thesis by (rule moved_trans)
qed (use assms(2) in auto)

lemma each_shard_moved:
  assumes "each_shard m ks c = (res, c')" "\<And>s x s'. m s = (x, s') \<Longrightarrow> quiet i s s'"
  shows "moved i c c'"
  using assms(1)
proof (induction ks arbitrary: c)
  case (Cons k ks)
  then have "bindS (on_shard out_of_bounds k m) (\<lambda>_. each_shard m ks) c = (res, c')" by simp
  then show ?case
  proof (rule bind_moved)
    show "moved i c d" if "on_shard out_of_bounds k m c = (x, d)" for x d
      by (rule on_shard_moved [OF that]) (rule assms(2))
  qed (rule Cons.IH)
qed (simp add: moved_same)

lemma forget_everywhere_moved: "forget_everywhere i c = (res, c') \<Longrightarrow> moved j c c'"
  unfolding forget_everywhere_def by (erule each_shard_moved) (rule forget_queued_quiet)

lemma candidate_shard_moved: "candidate_shard now r x skip c = (res, c') \<Longrightarrow> moved i c c'"
proof -
  have "candidate_shard_loop now r x skip ks best c = (res, c') \<Longrightarrow> moved i c c'" for ks best
  proof (induction ks arbitrary: best c)
    case (Cons k ks)
    show ?case
    proof (cases "skip = Some k")
      case False
      with Cons.prems show ?thesis
        by (auto elim!: bind_moved intro: Cons.IH on_shard_moved best_candidate_quiet)
    qed (use Cons in simp)
  qed (simp add: moved_same)
  then show "candidate_shard now r x skip c = (res, c') \<Longrightarrow> moved i c c'" by (simp add: candidate_shard_def)
qed

lemma submit_moved:
  assumes "submit now millis r c = (res, c')"
  shows "moved i c c'"
proof (cases "\<exists>e. c' = c \<and> res = e")
  case False
  have enqueue: "moved i d c'"
    if "bindS (on_shard out_of_bounds k (Shard_enqueue millis r)) (\<lambda>_ c3. (Inr k, wake k c3)) d = (res, c')" for k d
    using that
    by (auto simp: Shard_enqueue_def elim!: bind_moved intro: on_shard_moved enqueue_quiet)
  have rotate: "moved i d c'"
    if "bindS (rotate_shard preferred) (\<lambda>k c2.
          bindS (on_shard out_of_bounds k (Shard_enqueue millis r)) (\<lambda>_ c3. (Inr k, wake k c3))
            (c2\<lparr>co_requests := om_put (spec_id r) (k, r) (co_requests c2)\<rparr>)) d = (res, c')" for preferred d
    using that
  proof (rule bind_moved)
    show "moved i d e" if "rotate_shard preferred d = (x, e)" for x e
      using that by (auto simp: rotate_shard_def intro!: moved_same split: option.splits)
    show "moved i e c'" if "bindS (on_shard out_of_bounds k (Shard_enqueue millis r)) (\<lambda>_ c3. (Inr k, wake k c3))
            (e\<lparr>co_requests := om_put (spec_id r) (k, r) (co_requests e)\<rparr>) = (res, c')" for k e
      by (rule moved_trans [OF moved_same enqueue [OF that]]) simp_all
  qed
  from False assms have "bindS (if spec_snapshot_id r \<noteq> None then candidate_shard now r [] None else returnS None) (\<lambda>preferred.
        bindS (rotate_shard preferred) (\<lambda>k c2.
        bindS (on_shard out_of_bounds k (Shard_enqueue millis r)) (\<lambda>_ c3. (Inr k, wake k c3))
          (c2\<lparr>co_requests := om_put (spec_id r) (k, r) (co_requests c2)\<rparr>))) c = (res, c')"
    by (auto simp: submit_def split: sum.splits option.splits if_splits)
  then show ?thesis
    by (rule bind_moved) (auto intro: candidate_shard_moved rotate moved_same simp: returnS_def split: if_splits)
qed (simp add: moved_same)

lemma submit_recovery_moved:
  assumes "submit_recovery now millis r c = (res, c')"
  shows "moved i c c'"
proof -
  define d where "d = (let c1 = c\<lparr>co_retired := os_remove (spec_id r) (co_retired c)\<rparr> in
    if om_has (spec_id r) (co_requests c1) then c1
    else case find (live_shard c1) (rotation (co_next_shard c1) (length (co_shards c1))) of
      None \<Rightarrow> c1 | Some k \<Rightarrow> c1\<lparr>co_next_shard := k\<rparr>)"
  have d: "co_journal d = co_journal c" "co_shards d = co_shards c"
    by (simp_all add: d_def Let_def split: option.split)
  have "bindS (submit now millis r) (\<lambda>k c3.
       (Inr k, c3\<lparr>co_recovery_requests := os_insert (spec_id r) (co_recovery_requests c3)\<rparr>)) d = (res, c')"
    using assms by (simp only: submit_recovery_def Let_def d_def)
  then have "moved i d c'" by (rule bind_moved) (auto intro: submit_moved moved_same)
  then show ?thesis using moved_trans [OF moved_same [OF d]] by blast
qed

lemma cancel_moved: "cancel_pending n c = (res, c') \<Longrightarrow> moved i c c'"
  by (auto simp: cancel_pending_def moved_same elim!: bind_moved elim: forget_everywhere_moved
      split: option.splits sum.splits)

lemma drop_moved: "drop_request n c = (res, c') \<Longrightarrow> moved i c c'"
  unfolding drop_request_def by (erule bind_moved) (auto elim: forget_everywhere_moved simp: moved_same)

lemma defer_or_transfer_moved:
  assumes "defer_or_transfer now k e c = (res, c')"
  shows "moved i c c'"
proof -
  have put: "moved i d d'" if "on_shard out_of_bounds k (Shard_defer e) d = (x, d')" for x d d'
    using that by (rule on_shard_moved) (auto simp: Shard_defer_def intro: queue_quiet)
  have raise: "moved i d d'" if "bindS (on_shard out_of_bounds k (Shard_defer e)) (\<lambda>_. raiseS err) d = (x, d')" for x d d' err
    using that by (rule bind_moved) (auto intro: put moved_same simp: raiseS_def)
  have transfer: "moved i d d'"
    if "bindS (on_shard out_of_bounds k (Shard_forget_queued n)) (\<lambda>_.
        bindS (on_shard out_of_bounds target (Shard_accept_transfer e x)) (\<lambda>_ c2. (Inr (), wake target c2)))
        (d\<lparr>co_requests := q\<rparr>) = (y, d')" for n target x d q y d'
  proof -
    have "moved i (d\<lparr>co_requests := q\<rparr>) d'"
      using that by (rule bind_moved) (auto elim!: bind_moved intro: on_shard_moved forget_queued_quiet transfer_quiet)
    with moved_same [of "d\<lparr>co_requests := q\<rparr>" d i] show ?thesis by (auto intro: moved_trans)
  qed
  let ?i = "spec_id (en_spec e)"
  show ?thesis
  proof (cases "spec_snapshot_id (en_spec e) = None \<and> \<not> om_has ?i (co_volume_placement c) \<or> k \<ge> length (co_shards c)")
    case True
    with assms put show ?thesis by (auto simp: defer_or_transfer_def Let_def moved_same split: if_splits)
  next
    case False
    obtain found d where found: "candidate_shard now (en_spec e) (Shard_exclusions ?i (co_shards c ! k)) (Some k) c = (found, d)"
      by fastforce
    note run = assms [unfolded defer_or_transfer_def Let_def found]
    have "moved i d c'"
    proof (cases found)
      case (Inl err)
      with run False raise show ?thesis by (simp add: moved_same split: if_splits)
    next
      case (Inr y)
      then show ?thesis
      proof (cases "y = None \<or> map_of (co_requests d) ?i = None")
        case True
        with run False Inr put raise show ?thesis by (auto split: option.splits if_splits)
      next
        case some: False
        with run False Inr show ?thesis by (auto intro: transfer split: if_splits)
      qed
    qed
    with candidate_shard_moved [OF found] show ?thesis by (rule moved_trans)
  qed
qed

section \<open>The caches of a coordinator\<close>

definition caches_fresh :: "placement \<Rightarrow> nat \<Rightarrow> coordinator \<Rightarrow> bool" where
  "caches_fresh p cap c \<longleftrightarrow>
     (\<exists>h. co_journal c = journal_of cap h \<and> length h < 2 ^ 64 \<and> (\<forall>s \<in> set (co_shards c). fresh p h s))"

lemma caches_moved:
  assumes "caches_fresh p cap c" "moved None c c'"
  shows "caches_fresh p cap c'"
proof -
  obtain h where h: "co_journal c = journal_of cap h" "length h < 2 ^ 64" "\<forall>s \<in> set (co_shards c). fresh p h s"
    using assms(1) by (auto simp: caches_fresh_def)
  have "fresh p h (co_shards c' ! k)" if "k < length (co_shards c')" for k
    by (rule fresh_quiet [of p h "co_shards c ! k" None]) (use h(3) assms(2) that in \<open>auto simp: moved_def\<close>)
  then have "\<forall>s \<in> set (co_shards c'). fresh p h s" by (auto simp: in_set_conv_nth)
  with h assms(2) show ?thesis by (auto simp: caches_fresh_def moved_def)
qed

lemma caches_recorded:
  assumes "caches_fresh p cap c" "moved (Some i) c d" "record_and_wake i x d = (res, c')" "\<not> panicked res"
  shows "caches_fresh p cap c'"
  using assms(3)
proof (cases rule: record_and_wake_cases)
  case (ok j)
  obtain h where h: "co_journal c = journal_of cap h" "length h < 2 ^ 64" "\<forall>s \<in> set (co_shards c). fresh p h s"
    using assms(1) by (auto simp: caches_fresh_def)
  have jd: "co_journal d = journal_of cap h" using h(1) assms(2) by (simp add: moved_def)
  have room: "length h + 1 < 2 ^ 64"
  proof -
    have "unat (of_nat (length h) :: u64) + 1 < 2 ^ 64"
      using ok(2) jd by (auto simp: Journal_record_def journal_of_def rust_add_def ok_or_def checked_add_nat
          split: if_splits sum.splits)
    then show ?thesis by (simp add: unat_u64 [OF h(2)])
  qed
  have j: "j = journal_of cap (h @ [i])" using ok(2) record_step [OF room, of i cap] jd by simp
  have "fresh p (h @ [i]) (co_shards d ! k)" if "k < length (co_shards d)" for k
    by (rule fresh_quiet [of p h "co_shards c ! k" "Some i"]) (use h(3) assms(2) that in \<open>auto simp: moved_def\<close>)
  then have "\<forall>s \<in> set (co_shards d). fresh p (h @ [i]) s" by (auto simp: in_set_conv_nth)
  then have "caches_fresh p cap (d\<lparr>co_journal := j\<rparr>)"
    using room j by (auto simp: caches_fresh_def intro!: exI [of _ "h @ [i]"])
  from caches_moved [OF this moved_wake_pending] ok(3) show ?thesis by simp
qed (use assms(4) in simp)

end
