(* ===== verification/Cache_Properties.thy ===== *)
theory Cache_Properties
  imports Cache_Steps
begin

text \<open>
  Freshness of the caches is an invariant of the coordinator, so its choices are those of a
  coordinator without a cache.
\<close>

section \<open>Calls that record a node\<close>

text \<open>An operation on one shard followed by the record of the node it changed.\<close>

lemma on_shard_recorded:
  assumes "caches_fresh p cap c" "bindS (on_shard missing k m) (\<lambda>_ d. record_and_wake i x (f d)) c = (res, c')" "\<not> panicked res"
    and "\<And>y s'. k < length (co_shards c) \<Longrightarrow> m (co_shards c ! k) = (y, s') \<Longrightarrow> \<not> panicked y
      \<Longrightarrow> quiet (if is_ok y then Some i else None) (co_shards c ! k) s'"
    and "\<And>d. co_journal (f d) = co_journal d \<and> co_shards (f d) = co_shards d"
  shows "caches_fresh p cap c'"
proof -
  obtain y d where on: "on_shard missing k m c = (y, d)" by fastforce
  have np: "\<not> panicked y" using assms(2,3) on by (cases y) (auto simp: bindS_def)
  have mv: "moved (if is_ok y then Some i else None) c d"
    using on
  proof (cases rule: on_shard_cases)
    case (run s)
    from assms(4) [OF run(1,2) np] run show ?thesis by (auto simp: moved_def nth_list_update split: if_splits)
  qed (simp add: moved_same)
  show ?thesis
  proof (cases y)
    case (Inl e)
    with assms(2) on have "c' = d" by (simp add: bindS_def)
    with caches_moved [OF assms(1)] mv Inl show ?thesis by simp
  next
    case (Inr u)
    have run: "record_and_wake i x (f d) = (res, c')" using assms(2) on Inr by (simp add: bindS_def)
    have "moved (Some i) c d" using mv Inr by simp
    moreover have "moved (Some i) d (f d)" by (rule moved_same) (use assms(5) in simp_all)
    ultimately have "moved (Some i) c (f d)" by (rule moved_trans)
    from caches_recorded [OF assms(1) this run assms(3)] show ?thesis .
  qed
qed

lemma register_caches:
  assumes "caches_fresh p cap c" "Coordinator_register nd c = (res, c')" "\<not> panicked res"
  shows "caches_fresh p cap c'"
proof (cases "c' = c")
  case False
  then have "bindS (choose_node_shard (node_id nd)) (\<lambda>k.
          bindS (on_shard out_of_bounds k (Shard_register nd)) (\<lambda>_ c2.
          bindS (record_and_wake (node_id nd) None) (\<lambda>_. returnS k)
            (c2\<lparr>co_snapshot := update_node nd (co_snapshot c2)\<rparr>))) c = (res, c')"
    using assms(2) by (auto simp: Coordinator_register_def split: if_splits sum.splits)
  then show ?thesis
  proof (cases rule: bindS_cases)
    case (err e)
    with False show ?thesis by (auto simp: choose_node_shard_def split: option.splits)
  next
    case (ok k d)
    have "moved None c d" using ok(1) by (auto simp: choose_node_shard_def moved_same split: option.splits)
    note d = caches_moved [OF assms(1) this]
    let ?rec = "\<lambda>_ c2. record_and_wake (node_id nd) None (c2\<lparr>co_snapshot := update_node nd (co_snapshot c2)\<rparr>)"
    obtain y c1 where rec: "bindS (on_shard out_of_bounds k (Shard_register nd)) ?rec d = (y, c1)" by fastforce
    have "c' = c1 \<and> \<not> panicked y"
      using ok(2) rec assms(3) by (auto simp: bindS_def returnS_def split: prod.splits sum.splits)
    then show ?thesis using on_shard_recorded [OF d rec] register_quiet by simp
  qed
qed (use assms(1) in simp)

lemma register_at_caches:
  assumes "caches_fresh p cap c" "register_at nd k c = (res, c')" "\<not> panicked res"
  shows "caches_fresh p cap c'"
proof (cases "c' = c")
  case False
  let ?c = "c\<lparr>co_node_shards := om_put (node_id nd) k (co_node_shards c)\<rparr>"
  have "Coordinator_register nd ?c = (res, c')" using assms(2) False by (auto simp: register_at_def split: if_splits)
  moreover have "caches_fresh p cap ?c" by (rule caches_moved [OF assms(1) moved_same]) simp_all
  ultimately show ?thesis using register_caches assms(3) by blast
qed (use assms(1) in simp)

lemma forget_node_caches:
  assumes "caches_fresh p cap c" "Coordinator_forget_node i c = (res, c')" "\<not> panicked res"
  shows "caches_fresh p cap c'"
proof (cases "map_of (co_node_shards c) i")
  case (Some k)
  then have "bindS (on_shard out_of_bounds k (Shard_forget_node i)) (\<lambda>_ c1. record_and_wake i None
      (c1\<lparr>co_node_shards := om_del i (co_node_shards c1), co_snapshot := remove_node i (co_snapshot c1)\<rparr>)) c = (res, c')"
    using assms(2) by (simp add: Coordinator_forget_node_def)
  from on_shard_recorded [OF assms(1) this assms(3)] show ?thesis using forget_node_quiet by simp
qed (use assms in \<open>simp add: Coordinator_forget_node_def\<close>)

lemma release_caches:
  assumes "caches_fresh p cap c" "co_inv c" "Coordinator_release a c = (res, c')" "\<not> panicked res"
  shows "caches_fresh p cap c'"
  by (rule on_shard_recorded [OF assms(1) assms(3) [unfolded Coordinator_release_def] assms(4)])
     (use release_quiet [OF co_shard [OF assms(2)]] in auto)

lemma restore_caches:
  assumes "caches_fresh p cap c" "restore_assignment r a c = (res, c')" "\<not> panicked res"
  shows "caches_fresh p cap c'"
proof (cases "c' = c")
  case False
  then have "bindS (on_shard NotFound (as_shard_id a) (Shard_restore r a)) (\<lambda>_ c1. record_and_wake (as_node_id a) None
             (c1\<lparr>co_requests := om_put (spec_id r) (as_shard_id a, r) (co_requests c1),
                 co_snapshot := place \<lparr>pe_spec = r, pe_node_id = as_node_id a\<rparr> (co_snapshot c1),
                 co_retired := os_remove (spec_id r) (co_retired c1)\<rparr>)) c = (res, c')"
    using assms(2) by (auto simp: restore_assignment_def split: if_splits)
  from on_shard_recorded [OF assms(1) this assms(3)] show ?thesis using restore_quiet by simp
qed (use assms(1) in simp)

lemma retry_caches:
  assumes "caches_fresh p cap c" "co_inv c" "Coordinator_retry millis a c = (res, c')" "\<not> panicked res"
  shows "caches_fresh p cap c'"
proof (cases "map_of (co_requests c) (as_environment_id a)")
  case (Some q)
  obtain k r where q: "q = (k, r)" by fastforce
  have "bindS (on_shard NotFound (as_shard_id a) (Shard_retry millis a r)) (\<lambda>_ c1. record_and_wake (as_node_id a) None
          (c1\<lparr>co_snapshot := remove (as_environment_id a) (co_snapshot c1)\<rparr>)) c = (res, c')"
    using assms(3) Some q by (simp add: Coordinator_retry_def)
  from on_shard_recorded [OF assms(1) this assms(4)] show ?thesis
    using retry_quiet [OF co_shard [OF assms(2)]] by simp
qed (use assms in \<open>simp add: Coordinator_retry_def\<close>)

lemma finish_caches:
  assumes "caches_fresh p cap c" "finish_recovery_placement now r a c = (res, c')" "\<not> panicked res"
  shows "caches_fresh p cap c'"
proof (cases "c' = c")
  case False
  then obtain q cl where run: "record_and_wake (as_node_id a) None (c\<lparr>co_requests := q, co_snapshot := cl\<rparr>) = (res, c')"
    using assms(2) by (auto simp: finish_recovery_placement_def Let_def split: sum.splits option.splits if_splits)
  show ?thesis by (rule caches_recorded [OF assms(1) moved_same run assms(3)]) simp_all
qed (use assms(1) in simp)

lemma take_over_caches:
  assumes "caches_fresh p cap c" "take_over r a c = (res, c')" "\<not> panicked res"
  shows "caches_fresh p cap c'"
  using assms(2) [unfolded take_over_def]
proof (cases rule: bindS_cases)
  case (err e)
  with caches_moved [OF assms(1) drop_moved [OF err(1)]] show ?thesis by simp
next
  case (ok u d)
  note d = caches_moved [OF assms(1) drop_moved [OF ok(1)]]
  from ok(2) show ?thesis
  proof (cases rule: bindS_cases)
    case (err e)
    with restore_caches [OF d err(1)] assms(3) show ?thesis by simp
  next
    case inner: (ok v e)
    have "caches_fresh p cap e" by (rule restore_caches [OF d inner(1)]) simp
    moreover have "moved None e c'" using inner(2) by (auto simp: raise_generation_def intro!: moved_same)
    ultimately show ?thesis by (rule caches_moved)
  qed
qed

lemma accept_caches:
  assumes "caches_fresh p cap c" "co_inv c" "accept_claim now r a c = (res, c')" "\<not> panicked res"
  shows "caches_fresh p cap c'"
proof (cases "c' = c \<or> c' = raise_generation (as_generation a) c \<or> take_over r a c = (res, c')")
  case True
  moreover have "moved None c (raise_generation (as_generation a) c)" by (rule moved_same) (simp_all add: raise_generation_def)
  ultimately show ?thesis using assms(1,4) caches_moved take_over_caches by blast
next
  case False
  then obtain old where "bindS (Coordinator_release old) (\<lambda>_. take_over r a) c = (res, c')"
    using assms(3) by (auto simp: accept_claim_def split: sum.splits option.splits if_splits)
  then show ?thesis
  proof (cases rule: bindS_cases)
    case (err e)
    with release_caches [OF assms(1,2) err(1)] assms(4) show ?thesis by simp
  next
    case (ok u d)
    have "caches_fresh p cap d" by (rule release_caches [OF assms(1,2) ok(1)]) simp
    from take_over_caches [OF this ok(2) assms(4)] show ?thesis .
  qed
qed

lemma retire_caches:
  assumes "caches_fresh p cap c" "co_inv c" "retire_claim i c = (res, c')" "\<not> panicked res"
  shows "caches_fresh p cap c'"
proof (cases "c' = c")
  case False
  then obtain old where run: "bindS (case old of None \<Rightarrow> returnS () | Some a \<Rightarrow> Coordinator_release a) (\<lambda>_.
       bindS (drop_request i) (\<lambda>_ c1. (Inr (), c1\<lparr>co_retired := os_insert i (co_retired c1)\<rparr>))) c = (res, c')"
    using assms(3) by (auto simp: retire_claim_def Let_def split: sum.splits option.splits)
  have first: "caches_fresh p cap d"
    if "(case old of None \<Rightarrow> returnS () | Some a \<Rightarrow> Coordinator_release a) c = (x, d)" "\<not> panicked x" for x d
    using that assms(1) release_caches [OF assms(1,2)] by (auto simp: returnS_def split: option.splits)
  from run show ?thesis
  proof (cases rule: bindS_cases)
    case (err e)
    with first [OF err(1)] assms(4) show ?thesis by simp
  next
    case (ok u d)
    have "moved None d c'" using ok(2) by (rule bind_moved) (auto elim: drop_moved simp: moved_same)
    with first [OF ok(1)] show ?thesis using caches_moved by simp
  qed
qed (use assms(1) in simp)

lemma forget_deleted_caches:
  assumes "caches_fresh p cap c" "co_inv c" "forget_deleted i c = (res, c')" "\<not> panicked res"
  shows "caches_fresh p cap c'"
  using assms(3) [unfolded forget_deleted_def]
proof (cases rule: bindS_cases)
  case (err e)
  with retire_caches [OF assms(1,2) _ assms(4)] show ?thesis by (auto simp: returnS_def split: if_splits)
next
  case (ok u d)
  have "caches_fresh p cap d" using ok(1) assms(1) retire_caches [OF assms(1,2)] by (auto simp: returnS_def split: if_splits)
  moreover have "moved None d c'" using ok(2) by (auto simp: moved_same split: if_splits)
  ultimately show ?thesis by (rule caches_moved)
qed

section \<open>Rounds\<close>

lemma round_step_caches:
  assumes "caches_fresh p cap c" "co_inv c" "k < length (co_shards c)" "round_step now k g out c = (res, c')" "\<not> panicked res"
  shows "caches_fresh p cap c'"
proof -
  obtain h where h: "co_journal c = journal_of cap h" "length h < 2 ^ 64" "\<forall>s \<in> set (co_shards c). fresh p h s"
    using assms(1) by (auto simp: caches_fresh_def)
  obtain x s where s: "Shard_attempt now k g (co_snapshot c) (co_journal c) (co_config c) (co_volume_placement c)
      (co_shards c ! k) = (x, s)" by fastforce
  let ?c1 = "c\<lparr>co_shards := (co_shards c)[k := s]\<rparr>"
  have on: "on_shard out_of_bounds k (Shard_attempt now k g (co_snapshot c) (co_journal c) (co_config c)
      (co_volume_placement c)) c = (x, ?c1)" by (rule on_shard_run) (use assms(3) s in simp_all)
  have put: "caches_fresh p cap (c\<lparr>co_shards := (co_shards c)[k := t]\<rparr>)" if "fresh p h t" for t
    using h that by (auto simp: caches_fresh_def dest!: set_update_subset_insert [THEN subsetD])
  note att = attempt_fresh [OF co_shard [OF assms(2,3)] _ h(2) s [unfolded h(1)], of p]
  have fk: "fresh p h (co_shards c ! k)" using h(3) assms(3) by simp
  show ?thesis
  proof (cases x)
    case (Inl err)
    with assms(4,5) on have "\<not> is_panic err" "c' = ?c1" by (auto simp: round_step_def Let_def split: if_splits)
    with att [OF fk] Inl put show ?thesis by simp
  next
    case (Inr y)
    show ?thesis
    proof (cases y)
      case Empty
      with assms(4) on Inr have "c' = ?c1" by (simp add: round_step_def Let_def)
      with att [OF fk] Inr Empty put show ?thesis by simp
    next
      case (Deferred e)
      obtain z d where z: "defer_or_transfer now k e ?c1 = (z, d)" by fastforce
      have "c' = d" using assms(4) on Inr Deferred z by (auto simp: round_step_def Let_def split: sum.splits if_splits)
      with caches_moved [OF put defer_or_transfer_moved [OF z]] att [OF fk] Inr Deferred show ?thesis by simp
    next
      case (Assigned a r)
      obtain t where t: "fresh p h t" "quiet (Some (as_node_id a)) t s" using att [OF fk] Inr Assigned by auto
      let ?c0 = "c\<lparr>co_shards := (co_shards c)[k := t]\<rparr>"
      obtain z d where z: "publish k g a r ?c1 = (z, d)" by fastforce
      have d: "c' = d" "\<not> panicked z"
        using assms(4,5) on Inr Assigned z by (auto simp: round_step_def Let_def bindS_def returnS_def split: sum.splits)
      have "moved (Some (as_node_id a)) ?c0 (?c1\<lparr>co_generation := g,
          co_snapshot := place \<lparr>pe_spec = r, pe_node_id = as_node_id a\<rparr> (co_snapshot c)\<rparr>)"
        using t(2) assms(3) by (simp add: moved_def nth_list_update)
      from caches_recorded [OF put [OF t(1)] this, of "Some k" z d] z d show ?thesis by (simp add: publish_def)
    qed
  qed
qed

lemma round_loop_caches:
  assumes "caches_fresh p cap c" "co_inv c" "round_loop now limit timed_out source cfg k out c = (res, c')" "\<not> panicked res"
  shows "caches_fresh p cap c'"
  using assms
proof (induction now limit timed_out source cfg k out c rule: round_loop.induct)
  case (1 now limit timed_out source cfg k out c)
  note run = "1.prems"(3) [unfolded round_loop.simps [of now limit timed_out source cfg k out c]]
  have k: "k < length (co_shards c)" using run "1.prems"(4) by (auto split: if_splits)
  show ?case
  proof (cases "c' = c")
    case False
    then obtain g where g: "Shard_remaining_sweep (co_shards c ! k)"
      "\<not> (max_attempts cfg \<le> ro_attempted out \<or> limit \<le> length (ro_assignments out) \<or> timed_out (ro_attempted out))"
      "next_generation source (ro_attempted out) c = Inr g"
      using run k by (auto split: if_splits sum.splits)
    obtain x c1 where step: "round_step now k g out c = (x, c1)" by fastforce
    have np: "\<not> panicked x" using run k g step "1.prems"(4) by (cases x) auto
    have one: "caches_fresh p cap c1" by (rule round_step_caches [OF "1.prems"(1,2) k step np])
    obtain goes_on out1 where x: "x = Inr (goes_on, out1)" "co_inv c1"
      by (rule round_step_ok [OF "1.prems"(2) k step np], rule that)
    show ?thesis
    proof (cases goes_on)
      case False
      with run k g step x one show ?thesis by auto
    next
      case True
      have pre: "\<not> length (co_shards c) \<le> k" "\<not> \<not> Shard_remaining_sweep (co_shards c ! k)" using k g by auto
      have rest: "round_loop now limit timed_out source cfg k out1 c1 = (res, c')" using run k g step x True by auto
      from "1.IH" [OF pre g(2,3) step [symmetric] x(1) refl True one x(2) rest "1.prems"(4)] show ?thesis .
    qed
  qed (use "1.prems" in simp)
qed

lemma run_round_caches:
  assumes "caches_fresh p cap c" "co_inv c" "run_round now timed_out source k limit c = (res, c')" "\<not> panicked res"
  shows "caches_fresh p cap c'"
proof (cases "k < length (co_shards c)")
  case True
  let ?c1 = "c\<lparr>co_ready := filter (\<lambda>i. i \<noteq> k) (co_ready c),
    co_shards := (co_shards c)[k := Shard_begin_round (co_shards c ! k)]\<rparr>"
  let ?out = "RoundOutcome_default\<lparr>ro_snapshot_revision := cl_revision (co_snapshot c)\<rparr>"
  obtain x c2 where loop: "round_loop now limit timed_out source (co_config c) k ?out ?c1 = (x, c2)" by fastforce
  have run: "bindS (round_loop now limit timed_out source (co_config c) k ?out) (\<lambda>out c2.
      (Inr out, if ro_error out = None \<and> (ro_yielded out \<or> Shard_has_deferred_arrivals (co_shards c2 ! k)
                  \<or> ro_assignments out \<noteq> [] \<and> Shard_pending (co_shards c2 ! k) > 0)
                then wake k c2 else c2)) ?c1 = (res, c')"
    using assms(3) True by (simp add: run_round_def Let_def)
  have np: "\<not> panicked x" using run loop assms(4) by (cases x) (auto simp: bindS_def)
  have "c' = c2 \<or> c' = wake k c2" using run loop by (cases x) (simp_all add: bindS_def split: if_splits)
  then have mv: "moved None c2 c'" by (auto simp: moved_same)
  have "moved None c ?c1" using begin_round_quiet True by (simp add: moved_def nth_list_update)
  note c1 = caches_moved [OF assms(1) this] and inv = begin_round_co_inv [OF assms(2) True]
  from caches_moved [OF round_loop_caches [OF c1 inv loop np] mv] show ?thesis .
qed (use assms in \<open>auto simp: run_round_def\<close>)

section \<open>Reachable coordinators\<close>

lemma new_caches:
  assumes "with_framework_config n (builtin_framework p) cfg = Inr c"
  shows "caches_fresh p (mutation_history cfg) c"
proof -
  have "fresh p [] (Shard_new (builtin_framework p))" by (rule freshI) (simp_all add: Shard_new_def)
  moreover have "co_shards c = replicate n (Shard_new (builtin_framework p))"
    "co_journal c = journal_of (mutation_history cfg) []"
    using assms by (auto simp: with_framework_config_def journal_of_Nil split: if_splits)
  ultimately show ?thesis by (auto simp: caches_fresh_def intro!: exI [of _ "[]"])
qed

lemma co_step_caches: "co_step c c' \<Longrightarrow> co_inv c \<Longrightarrow> caches_fresh p cap c \<Longrightarrow> caches_fresh p cap c'"
proof (induction rule: co_step.induct)
  case (co_reconsider c i)
  have "moved None c (c\<lparr>co_shards := map (Shard_reconsider_node i) (co_shards c)\<rparr>)"
    using reconsider_quiet by (simp add: moved_def)
  from moved_trans [OF this moved_wake_pending] show ?case
    using caches_moved [OF co_reconsider(2)] by (simp add: Coordinator_reconsider_node_def)
next
  case (co_volume c i pl)
  have "moved None c (set_volume_placement i pl c)"
    by (rule moved_same) (auto simp: set_volume_placement_def Let_def wake_def split: option.split)
  with co_volume show ?case by (blast intro: caches_moved)
next
  case (co_take_ready c)
  have "moved None c (snd (take_ready_shard c))" by (rule moved_same) (auto simp: take_ready_shard_def split: list.split)
  with co_take_ready show ?case by (blast intro: caches_moved)
qed (blast intro: caches_moved submit_moved submit_recovery_moved cancel_moved register_caches register_at_caches
    forget_node_caches finish_caches accept_caches retire_caches forget_deleted_caches release_caches restore_caches
    retry_caches run_round_caches)+

lemma co_reach_caches: "co_reach n (builtin_framework p) cfg c \<Longrightarrow> caches_fresh p (mutation_history cfg) c"
  by (induction rule: co_reach.induct) (auto intro: new_caches co_step_caches co_reach_inv)

text \<open>
  C28. The candidate cache is transparent: in every reachable coordinator with the built-in
  profile, a shard chooses for every valid request the same node, or the same refusal, as it does
  with the cache switched off, whatever nodes and requests came and went and however much of the
  journal was lost.
\<close>

theorem cached_choice_is_exact:
  assumes "Framework_builtin p = Inr fw" "co_reach n fw cfg c" "k < length (co_shards c)"
    and "EnvironmentSpec_validate now r = Inr ()"
  shows "fst (Shard_select now r (co_snapshot c) (co_journal c) (co_config c) placement (co_shards c ! k))
    = fst (Shard_select now r (co_snapshot c) (co_journal c) ((co_config c)\<lparr>candidate_cache_entries := 0\<rparr>) placement
        (co_shards c ! k))"
proof -
  have fw: "fw = builtin_framework p" using assms(1) by (simp add: Framework_builtin_eq)
  obtain h where h: "co_journal c = journal_of (mutation_history cfg) h" "length h < 2 ^ 64"
    "\<forall>s \<in> set (co_shards c). fresh p h s"
    using co_reach_caches assms(2) unfolding fw caches_fresh_def by blast
  have "fresh p h (co_shards c ! k)" using h(3) assms(3) by simp
  from select_cache_transparent [OF this co_shard [OF co_reach_inv [OF assms(2)] assms(3)] h(2) assms(4)]
  show ?thesis unfolding h(1) by blast
qed

definition builtin_coordinator :: coordinator where
  "builtin_coordinator =
     snd (Coordinator_register (zone_node ''n1'' ''a'')
       (projr (with_framework_config 2 (builtin_framework Spread) SchedulerConfig_default)))"

lemma builtin_coordinator_run:
  "fst (Coordinator_register (zone_node ''n1'' ''a'')
       (projr (with_framework_config 2 (builtin_framework Spread) SchedulerConfig_default))) = Inr 0
   \<and> map fst (sh_nodes (co_shards builtin_coordinator ! 0)) = [''n1''] \<and> length (co_shards builtin_coordinator) = 2
   \<and> EnvironmentSpec_validate 0 plain_spec = Inr ()"
  by code_simp

theorem cached_choice_is_exact_witness:
  "map fst (sh_nodes (co_shards builtin_coordinator ! 0)) = [''n1'']
   \<and> fst (Shard_select 0 plain_spec (co_snapshot builtin_coordinator) (co_journal builtin_coordinator)
            (co_config builtin_coordinator) None (co_shards builtin_coordinator ! 0))
     = fst (Shard_select 0 plain_spec (co_snapshot builtin_coordinator) (co_journal builtin_coordinator)
            ((co_config builtin_coordinator)\<lparr>candidate_cache_entries := 0\<rparr>) None (co_shards builtin_coordinator ! 0))"
proof -
  let ?c = "projr (with_framework_config 2 (builtin_framework Spread) SchedulerConfig_default)"
  have "with_framework_config 2 (builtin_framework Spread) SchedulerConfig_default = Inr ?c"
    by (simp add: with_framework_config_def SchedulerConfig_default_def)
  then have "co_reach 2 (builtin_framework Spread) SchedulerConfig_default ?c" by (rule co_init)
  moreover have "co_step ?c builtin_coordinator"
    by (rule co_register [of "zone_node ''n1'' ''a''" _ "Inr 0"])
       (use builtin_coordinator_run in \<open>simp_all add: builtin_coordinator_def prod_eq_iff\<close>)
  ultimately have "co_reach 2 (builtin_framework Spread) SchedulerConfig_default builtin_coordinator" by (rule co_next)
  note exact = cached_choice_is_exact [OF Framework_builtin_eq this]
  show ?thesis using builtin_coordinator_run by (intro conjI exact) simp_all
qed

end
