(* ===== verification/Afs_Error.thy ===== *)
theory Afs_Error
  imports Rust_String
begin

text \<open>
  The error contract of AFS (\<^verbatim>\<open>afs/common/error/src\<close>): stable machine codes with a default
  handling category. A panic of an AFS thread is a further error of the model.
\<close>

datatype error_kind =
    KUnknown
  | KCancelled
  | KOutOfRange
  | KInvalidArgument
  | KNotFound
  | KAlreadyExists
  | KPermissionDenied
  | KResourceExhausted
  | KFailedPrecondition
  | KAborted
  | KUnimplemented
  | KInternal
  | KUnavailable
  | KDataLoss
  | KUnauthenticated
  | KDeadlineExceeded

type_synonym error_code = u32

definition ERROR_CATALOG :: "(string \<times> error_code \<times> error_kind) list" where
  "ERROR_CATALOG =
     [(''CLIENT_ARGUMENT_INVALID'', 0x01010001, KInvalidArgument),
      (''CLIENT_CONNECTION_UNAVAILABLE'', 0x01020001, KUnavailable),
      (''CLIENT_DEADLINE_EXCEEDED'', 0x01020002, KDeadlineExceeded),
      (''CLIENT_PROTOCOL_INVALID_ERROR_DETAIL'', 0x01030001, KInternal),
      (''CLIENT_PROTOCOL_VIOLATION'', 0x01030002, KInternal),
      (''CLIENT_REMOTE_STATUS'', 0x01030003, KUnknown),
      (''CLIENT_PERMISSION_DENIED'', 0x01040001, KPermissionDenied),
      (''CLIENT_SHM_UNAVAILABLE'', 0x01050001, KUnavailable),
      (''CLIENT_WORKER_FAILED'', 0x01050002, KInternal),
      (''CLIENT_CLOSED'', 0x01050003, KFailedPrecondition),
      (''NODE_TRANSFER_UNSUPPORTED'', 0x02040001, KUnimplemented),
      (''NODE_TRANSFER_CORRUPT_DATA'', 0x02040002, KDataLoss),
      (''NODE_TRANSFER_UNAVAILABLE'', 0x02040003, KUnavailable),
      (''NODE_TRANSFER_INVALID'', 0x02040004, KInvalidArgument),
      (''NODE_TRANSFER_INTERNAL'', 0x02040005, KInternal),
      (''NODE_STORAGE_INVALID'', 0x02070001, KInvalidArgument),
      (''NODE_STORAGE_NOT_FOUND'', 0x02070002, KNotFound),
      (''NODE_STORAGE_UNSAFE_TYPE'', 0x02070003, KFailedPrecondition),
      (''NODE_STORAGE_IO'', 0x02070004, KInternal),
      (''NODE_STORAGE_TASK_FAILED'', 0x02070005, KInternal),
      (''NODE_VFS_NOT_FOUND'', 0x02080001, KNotFound),
      (''NODE_VFS_INVALID'', 0x02080002, KInvalidArgument),
      (''NODE_VFS_UNIMPLEMENTED'', 0x02080003, KUnimplemented),
      (''NODE_VFS_UNAVAILABLE'', 0x02080004, KUnavailable),
      (''NODE_MOUNT_CONFLICT'', 0x02080005, KAlreadyExists),
      (''NODE_OWNER_INVALID_GRANT'', 0x020b0001, KFailedPrecondition),
      (''NODE_OWNER_GRANT_UNAVAILABLE'', 0x020b0002, KUnavailable),
      (''NODE_OWNER_RIGHT_DENIED'', 0x020b0003, KPermissionDenied),
      (''NODE_OWNER_STALE_ACCESS'', 0x020b0004, KFailedPrecondition),
      (''NODE_OWNER_STALE_HANDLE'', 0x020b0005, KFailedPrecondition),
      (''NODE_DFS_STALE_HANDLE'', 0x020c0001, KFailedPrecondition),
      (''NODE_RDMA_SESSION_UNKNOWN'', 0x02090001, KFailedPrecondition),
      (''NODE_RDMA_SESSION_POISONED'', 0x02090002, KFailedPrecondition),
      (''NODE_RDMA_NOT_READY'', 0x02090003, KFailedPrecondition),
      (''NODE_RDMA_CAPACITY'', 0x02090004, KResourceExhausted),
      (''NODE_RDMA_HANDSHAKE_VERSION'', 0x02090005, KFailedPrecondition),
      (''NODE_RDMA_CLOSED'', 0x02090006, KFailedPrecondition),
      (''NODE_SHM_INVALID'', 0x020a0001, KInvalidArgument),
      (''NODE_SHM_UNSUPPORTED'', 0x020a0002, KFailedPrecondition),
      (''NODE_SHM_UNAVAILABLE'', 0x020a0003, KUnavailable),
      (''NODE_SHM_INTERNAL'', 0x020a0004, KInternal),
      (''NODE_SHM_ACCESS_DENIED'', 0x020a0005, KPermissionDenied),
      (''META_CATALOG_INVALID_REQUEST'', 0x03010001, KInvalidArgument),
      (''META_REQUEST_EXPIRED'', 0x03010002, KFailedPrecondition),
      (''META_REQUEST_TIME_INVALID'', 0x03010003, KInvalidArgument),
      (''META_DFS_CONFLICT'', 0x03030001, KFailedPrecondition),
      (''META_DFS_GC_CHANGED'', 0x03030005, KAborted),
      (''META_DFS_NAMESPACE_RETRY'', 0x03030004, KAborted),
      (''META_DFS_GC_BUSY'', 0x03030006, KUnavailable),
      (''META_DFS_REFERENCE_ADMISSION_EXPIRED'', 0x03030007, KFailedPrecondition),
      (''META_DFS_LEASE_RETRY'', 0x03030002, KUnavailable),
      (''META_DFS_REPAIR_SUPERSEDED'', 0x03030003, KFailedPrecondition),
      (''META_OWNER_ROOT_EXISTS'', 0x03040001, KAlreadyExists),
      (''META_OWNER_ROOT_BUSY'', 0x03040002, KFailedPrecondition),
      (''META_OWNER_HOME_UNAVAILABLE'', 0x03040003, KUnavailable),
      (''META_STORE_UNIMPLEMENTED'', 0x03020001, KUnimplemented),
      (''CONFIG_INVALID'', 0x04010001, KInvalidArgument),
      (''RUNTIME_INTERNAL'', 0x04020001, KInternal),
      (''DIAGNOSTICS_NOT_CONFIGURED'', 0x04020002, KFailedPrecondition),
      (''METRICS_FAILED'', 0x04020003, KInternal),
      (''IO_NOT_FOUND'', 0x04030001, KNotFound),
      (''IO_PERMISSION_DENIED'', 0x04030002, KPermissionDenied),
      (''IO_ALREADY_EXISTS'', 0x04030003, KAlreadyExists),
      (''IO_INVALID'', 0x04030004, KInvalidArgument),
      (''IO_TIMEOUT'', 0x04030005, KDeadlineExceeded),
      (''IO_UNAVAILABLE'', 0x04030006, KUnavailable),
      (''IO_CAPACITY'', 0x04030007, KResourceExhausted),
      (''IO_OTHER'', 0x04030008, KInternal),
      (''IO_NOT_DIRECTORY'', 0x04030009, KFailedPrecondition),
      (''IO_IS_DIRECTORY'', 0x0403000a, KFailedPrecondition),
      (''IO_OUT_OF_MEMORY'', 0x0403000c, KResourceExhausted),
      (''IO_DIRECTORY_NOT_EMPTY'', 0x0403000b, KFailedPrecondition),
      (''IO_CROSS_DEVICE'', 0x0403000d, KFailedPrecondition),
      (''IO_BAD_FILE_DESCRIPTOR'', 0x0403000e, KFailedPrecondition),
      (''IO_NAME_TOO_LONG'', 0x0403000f, KOutOfRange),
      (''IO_NO_DATA'', 0x04030010, KNotFound),
      (''IO_NOT_SUPPORTED'', 0x04030011, KFailedPrecondition),
      (''IO_OPERATION_NOT_PERMITTED'', 0x04030012, KPermissionDenied),
      (''IO_TOO_MANY_SYMLINKS'', 0x04030013, KFailedPrecondition),
      (''IO_FILE_TOO_LARGE'', 0x04030014, KOutOfRange),
      (''IO_INTERRUPTED'', 0x04030015, KCancelled),
      (''IO_WOULD_BLOCK'', 0x04030016, KUnavailable),
      (''IO_DEADLOCK'', 0x04030017, KFailedPrecondition),
      (''IO_NO_LOCKS'', 0x04030018, KResourceExhausted)]"

definition META_CATALOG_INVALID_REQUEST :: error_code where
  "META_CATALOG_INVALID_REQUEST = 0x03010001"

datatype afs_error = AfsError error_code error_kind string | AfsPanic string

type_synonym 'a afs_result = "afs_error + 'a"

definition coded :: "error_code \<Rightarrow> string \<Rightarrow> afs_error" where
  "coded code message =
     AfsError code
       (case find (\<lambda>(_, c, _). c = code) ERROR_CATALOG of None \<Rightarrow> KUnknown | Some (_, _, kind) \<Rightarrow> kind) message"

definition linux_raw_errno_code :: "int option \<Rightarrow> error_code option" where
  "linux_raw_errno_code raw = Option.bind raw (map_of
     [(1, 0x04030012), (4, 0x04030015), (9, 0x0403000e), (11, 0x04030016), (27, 0x04030014), (35, 0x04030017),
             (36, 0x0403000f), (37, 0x04030018), (40, 0x04030013), (61, 0x04030010), (95, 0x04030011)])"

definition NODE_VFS_INVALID :: error_code where
  "NODE_VFS_INVALID = 0x02080002"

text \<open>Checked addition with the caller's error.\<close>

definition add_or :: "afs_error \<Rightarrow> u64 \<Rightarrow> u64 \<Rightarrow> u64 afs_result" where
  "add_or e a b = ok_or (checked_add a b) e"

lemma add_or_eq: "add_or e a b = Inr c \<longleftrightarrow> unat c = unat a + unat b"
  by (simp add: add_or_def ok_or_eq checked_add_eq_Some)

lemma add_or_ok: "unat a + unat b < 2 ^ 64 \<Longrightarrow> add_or e a b = Inr (a + b)"
  by (simp add: add_or_def checked_add_nat)

lemma add_or_err: "2 ^ 64 \<le> unat a + unat b \<Longrightarrow> add_or e a b = Inl e"
  by (simp add: add_or_def checked_add_nat)

lemma u64_bound: "unat (w :: u64) < 2 ^ 64"
  using unsigned_less [of w, where 'a = nat] by simp

text \<open>Plain subtraction: an underflow unwinds.\<close>

definition afs_sub :: "u64 \<Rightarrow> u64 \<Rightarrow> u64 afs_result" where
  "afs_sub a b = ok_or (checked_sub a b) (AfsPanic ''attempt to subtract with overflow'')"

lemma afs_sub_ok: "b \<le> a \<Longrightarrow> afs_sub a b = Inr (a - b)"
  by (simp add: afs_sub_def checked_sub_def ok_or_def)

end
