(* ===== verification/Afs_Layout.thy ===== *)
theory Afs_Layout
  imports Afs_Error
begin

text \<open>
  Copy-on-write cloning of a file range (\<^verbatim>\<open>afs/src/dfs/cow.rs\<close>, types in \<^verbatim>\<open>afs/src/dfs.rs\<close>): the
  extents of the destination outside the range are kept, those of the source inside the range are
  moved over. The result is compared, byte by byte, with the layouts it was made from.
\<close>

section \<open>Definitions\<close>

record extent =
  ex_file_offset :: u64
  ex_length :: u64
  ex_chunk_id :: string
  ex_chunk_offset :: u64

record layout_root =
  lr_id :: string
  lr_file_length :: u64
  lr_inline_extents :: "extent list"

record clone_file_range =
  cr_version :: string
  cr_source_offset :: u64
  cr_destination_offset :: u64
  cr_length :: u64

definition invalid_clone :: afs_error where
  "invalid_clone = coded META_CATALOG_INVALID_REQUEST ''invalid COW clone range''"

definition invalid_vfs :: "string \<Rightarrow> afs_error" where
  "invalid_vfs message = coded NODE_VFS_INVALID message"

definition push_slice :: "extent list \<Rightarrow> extent \<Rightarrow> u64 \<Rightarrow> u64 \<Rightarrow> u64 \<Rightarrow> extent list afs_result" where
  "push_slice out e start stop destination =
     (if start < stop then
        bindE (afs_sub stop start) (\<lambda>len.
        bindE (afs_sub start (ex_file_offset e)) (\<lambda>skip.
        bindE (add_or invalid_clone (ex_chunk_offset e) skip) (\<lambda>chunk_offset.
        Inr (out @ [\<lparr>ex_file_offset = destination, ex_length = len, ex_chunk_id = ex_chunk_id e,
                     ex_chunk_offset = chunk_offset\<rparr>]))))
      else Inr out)"

fun keep_loop :: "u64 \<Rightarrow> u64 \<Rightarrow> extent list \<Rightarrow> extent list \<Rightarrow> extent list afs_result" where
  "keep_loop lo hi out [] = Inr out"
| "keep_loop lo hi out (e # es) =
     bindE (add_or invalid_clone (ex_file_offset e) (ex_length e)) (\<lambda>stop.
     bindE (if ex_file_offset e < lo
            then push_slice out e (ex_file_offset e) (min stop lo) (ex_file_offset e) else Inr out) (\<lambda>out1.
     bindE (if stop > hi
            then (let start = max (ex_file_offset e) hi in push_slice out1 e start stop start) else Inr out1) (\<lambda>out2.
     keep_loop lo hi out2 es)))"

fun move_loop :: "u64 \<Rightarrow> u64 \<Rightarrow> u64 \<Rightarrow> extent list \<Rightarrow> extent list \<Rightarrow> extent list afs_result" where
  "move_loop lo hi destination out [] = Inr out"
| "move_loop lo hi destination out (e # es) =
     (let start = max (ex_file_offset e) lo in
      bindE (add_or invalid_clone (ex_file_offset e) (ex_length e)) (\<lambda>extent_end.
      let stop = min extent_end hi in
      bindE (if start < stop
             then bindE (afs_sub start lo) (\<lambda>skip.
                  bindE (add_or invalid_clone destination skip) (\<lambda>target. push_slice out e start stop target))
             else Inr out) (\<lambda>out1.
      move_loop lo hi destination out1 es)))"

definition clone_file_layout ::
  "layout_root \<Rightarrow> layout_root \<Rightarrow> clone_file_range \<Rightarrow> string \<Rightarrow> layout_root afs_result" where
  "clone_file_layout base source clone i =
     bindE (add_or invalid_clone (cr_source_offset clone) (cr_length clone)) (\<lambda>source_end.
     bindE (add_or invalid_clone (cr_destination_offset clone) (cr_length clone)) (\<lambda>destination_end.
     if cr_length clone = 0 \<or> source_end > lr_file_length source then Inl invalid_clone
     else
       bindE (keep_loop (cr_destination_offset clone) destination_end [] (lr_inline_extents base)) (\<lambda>kept.
       bindE (move_loop (cr_source_offset clone) source_end (cr_destination_offset clone) kept
                (lr_inline_extents source)) (\<lambda>extents.
       Inr \<lparr>lr_id = i, lr_file_length = max (lr_file_length base) destination_end,
            lr_inline_extents = sort_key ex_file_offset extents\<rparr>))))"

section \<open>What a layout maps\<close>

text \<open>The chunk bytes that stand at a file position; a hole maps to nothing.\<close>

definition maps_at :: "extent \<Rightarrow> nat \<Rightarrow> (string \<times> nat) option" where
  "maps_at e x =
     (if unat (ex_file_offset e) \<le> x \<and> x < unat (ex_file_offset e) + unat (ex_length e)
      then Some (ex_chunk_id e, unat (ex_chunk_offset e) + (x - unat (ex_file_offset e))) else None)"

definition contents :: "extent list \<Rightarrow> nat \<Rightarrow> (string \<times> nat) set" where
  "contents es x = {b. \<exists>e \<in> set es. maps_at e x = Some b}"

lemma contents_simps [simp]:
  "contents [] x = {}"
  "contents (e # es) x = set_option (maps_at e x) \<union> contents es x"
  "contents (es @ fs) x = contents es x \<union> contents fs x"
  by (auto simp: contents_def)

lemma contents_concat: "contents (concat (map f es)) x = (\<Union>e \<in> set es. contents (f e) x)"
  by (induction es) auto

lemma contents_union: "contents es x = (\<Union>e \<in> set es. set_option (maps_at e x))"
  by (auto simp: contents_def)

lemma contents_sort [simp]: "contents (sort_key f es) x = contents es x"
  by (simp add: contents_def)

text \<open>The file range and the chunk range of an extent stay within 64 bits.\<close>

definition extent_ok :: "extent \<Rightarrow> bool" where
  "extent_ok e \<longleftrightarrow> unat (ex_file_offset e) + unat (ex_length e) < 2 ^ 64 \<and>
     unat (ex_chunk_offset e) + unat (ex_length e) < 2 ^ 64"

definition span :: "extent \<Rightarrow> nat set" where
  "span e = {unat (ex_file_offset e) ..< unat (ex_file_offset e) + unat (ex_length e)}"

definition apart :: "extent \<Rightarrow> extent \<Rightarrow> bool" where
  "apart a b \<longleftrightarrow> span a \<inter> span b = {}"

text \<open>A committed layout: non-empty extents, in order, without overlap, inside the file.\<close>

fun ordered_from :: "nat \<Rightarrow> nat \<Rightarrow> extent list \<Rightarrow> bool" where
  "ordered_from p len [] = True"
| "ordered_from p len (e # es) \<longleftrightarrow>
     ex_length e \<noteq> 0 \<and> extent_ok e \<and> p \<le> unat (ex_file_offset e) \<and>
     unat (ex_file_offset e) + unat (ex_length e) \<le> len \<and>
     ordered_from (unat (ex_file_offset e) + unat (ex_length e)) len es"

definition layout_ok :: "layout_root \<Rightarrow> bool" where
  "layout_ok l \<longleftrightarrow> ordered_from 0 (unat (lr_file_length l)) (lr_inline_extents l)"

definition fits_file :: "nat \<Rightarrow> extent \<Rightarrow> bool" where
  "fits_file len e \<longleftrightarrow> ex_length e \<noteq> 0 \<and> extent_ok e \<and> unat (ex_file_offset e) + unat (ex_length e) \<le> len"

lemma apart_sym: "apart a b \<longleftrightarrow> apart b a"
  by (auto simp: apart_def)

lemma unat_pos: "w \<noteq> 0 \<longleftrightarrow> 0 < unat (w :: u64)"
  by (simp add: unat_gt_0)

lemma ordered_from_fits: "ordered_from p len es \<Longrightarrow> \<forall>e \<in> set es. fits_file len e \<and> p \<le> unat (ex_file_offset e)"
  by (induction es arbitrary: p) (fastforce simp: fits_file_def)+

lemma ordered_from_apart: "ordered_from p len es \<Longrightarrow> sorted_wrt apart es"
proof (induction es arbitrary: p)
  case (Cons e es)
  then have "\<forall>f \<in> set es. unat (ex_file_offset e) + unat (ex_length e) \<le> unat (ex_file_offset f)"
    using ordered_from_fits by fastforce
  with Cons show ?case by (auto simp: apart_def span_def)
qed simp

lemma apart_insort: "sorted_wrt apart (insort_key f e es) \<longleftrightarrow> sorted_wrt apart (e # es)"
  by (induction es) (auto simp: set_insort_key apart_sym)

lemma apart_sort: "sorted_wrt apart (sort_key f es) \<longleftrightarrow> sorted_wrt apart es"
  by (induction es) (auto simp: apart_insort)

lemma apart_before:
  assumes "apart a b" "unat (ex_file_offset a) \<le> unat (ex_file_offset b)" "ex_length b \<noteq> 0"
  shows "unat (ex_file_offset a) + unat (ex_length a) \<le> unat (ex_file_offset b)"
proof (rule ccontr)
  assume "\<not> ?thesis"
  with assms(2,3) have "unat (ex_file_offset b) \<in> span a \<inter> span b" by (auto simp: span_def unat_pos)
  with assms(1) show False by (auto simp: apart_def)
qed

lemma ordered_from_sorted:
  assumes "sorted_wrt (\<lambda>a b. ex_file_offset a \<le> ex_file_offset b) es" "sorted_wrt apart es" "\<forall>e \<in> set es. fits_file len e"
    and "\<forall>e \<in> set es. p \<le> unat (ex_file_offset e)"
  shows "ordered_from p len es"
  using assms
proof (induction es arbitrary: p)
  case (Cons e es)
  have "\<forall>f \<in> set es. unat (ex_file_offset e) + unat (ex_length e) \<le> unat (ex_file_offset f)"
    using Cons.prems by (auto simp: fits_file_def word_le_nat_alt intro!: apart_before)
  then show ?case using Cons by (auto simp: fits_file_def)
qed simp

text \<open>Sorting pieces that do not overlap gives a committed layout.\<close>

lemma ordered_from_sort:
  assumes "sorted_wrt apart es" "\<forall>e \<in> set es. fits_file len e"
  shows "ordered_from 0 len (sort_key ex_file_offset es)"
proof (rule ordered_from_sorted)
  show "sorted_wrt (\<lambda>a b. ex_file_offset a \<le> ex_file_offset b) (sort_key ex_file_offset es)"
    using sorted_sort_key [of ex_file_offset es] by (simp add: sorted_wrt_map)
qed (use assms in \<open>auto simp: apart_sort\<close>)

section \<open>Slices of extents\<close>

definition slice :: "extent \<Rightarrow> u64 \<Rightarrow> u64 \<Rightarrow> u64 \<Rightarrow> extent list" where
  "slice e start stop destination =
     (if start < stop
      then [\<lparr>ex_file_offset = destination, ex_length = stop - start, ex_chunk_id = ex_chunk_id e,
             ex_chunk_offset = ex_chunk_offset e + (start - ex_file_offset e)\<rparr>] else [])"

definition ext_end :: "extent \<Rightarrow> u64" where
  "ext_end e = ex_file_offset e + ex_length e"

lemma unat_ext_end: "extent_ok e \<Longrightarrow> unat (ext_end e) = unat (ex_file_offset e) + unat (ex_length e)"
  by (simp add: ext_end_def extent_ok_def unat_word_ariths)

lemma add_or_ext_end: "extent_ok e \<Longrightarrow> add_or err (ex_file_offset e) (ex_length e) = Inr (ext_end e)"
  by (simp add: add_or_ok ext_end_def extent_ok_def)

text \<open>What a non-empty slice looks like.\<close>

lemma slice_piece:
  assumes "extent_ok e" "ex_file_offset e \<le> start" "stop \<le> ext_end e" "s \<in> set (slice e start stop destination)"
  shows "ex_file_offset s = destination" "unat (ex_length s) = unat stop - unat start" "unat start < unat stop"
    "ex_chunk_id s = ex_chunk_id e"
    "unat (ex_chunk_offset s) = unat (ex_chunk_offset e) + (unat start - unat (ex_file_offset e))"
    "unat (ex_chunk_offset s) + unat (ex_length s) \<le> unat (ex_chunk_offset e) + unat (ex_length e)"
proof -
  have s: "s = \<lparr>ex_file_offset = destination, ex_length = stop - start, ex_chunk_id = ex_chunk_id e,
             ex_chunk_offset = ex_chunk_offset e + (start - ex_file_offset e)\<rparr>" and lt: "start < stop"
    using assms(4) by (auto simp: slice_def split: if_splits)
  have bounds: "unat (ex_file_offset e) \<le> unat start" "unat start < unat stop"
    "unat stop \<le> unat (ex_file_offset e) + unat (ex_length e)"
    using assms(2,3) lt unat_ext_end [OF assms(1)] by (auto simp: word_le_nat_alt word_less_nat_alt)
  have skip: "unat (start - ex_file_offset e) = unat start - unat (ex_file_offset e)"
    using assms(2) by (simp add: unat_sub)
  have len: "unat (stop - start) = unat stop - unat start" using lt by (simp add: unat_sub)
  have off: "unat (ex_chunk_offset e + (start - ex_file_offset e)) =
      unat (ex_chunk_offset e) + (unat start - unat (ex_file_offset e))"
  proof -
    have "unat (ex_chunk_offset e) + (unat start - unat (ex_file_offset e)) < 2 ^ 64"
      using assms(1) bounds by (auto simp: extent_ok_def)
    then show ?thesis by (simp add: unat_word_ariths skip)
  qed
  show "ex_file_offset s = destination" "unat (ex_length s) = unat stop - unat start" "unat start < unat stop"
    "ex_chunk_id s = ex_chunk_id e"
    "unat (ex_chunk_offset s) = unat (ex_chunk_offset e) + (unat start - unat (ex_file_offset e))"
    "unat (ex_chunk_offset s) + unat (ex_length s) \<le> unat (ex_chunk_offset e) + unat (ex_length e)"
    using s bounds len off by auto
qed

lemma push_slice_ok:
  assumes "extent_ok e" "ex_file_offset e \<le> start" "stop \<le> ext_end e"
  shows "push_slice out e start stop destination = Inr (out @ slice e start stop destination)"
proof (cases "start < stop")
  case True
  then have "unat (start - ex_file_offset e) < unat (ex_length e)"
    using assms unat_ext_end [OF assms(1)] by (auto simp: unat_sub word_le_nat_alt word_less_nat_alt)
  then have "unat (ex_chunk_offset e) + unat (start - ex_file_offset e) < 2 ^ 64"
    using assms(1) by (simp add: extent_ok_def)
  with True assms(2) show ?thesis by (simp add: push_slice_def slice_def afs_sub_ok add_or_ok)
qed (simp add: push_slice_def slice_def)

text \<open>A slice maps the part of its extent it was cut from, moved to its destination.\<close>

lemma slice_contents:
  assumes "extent_ok e" "ex_file_offset e \<le> start" "stop \<le> ext_end e"
  shows "contents (slice e start stop destination) x =
    (if unat destination \<le> x \<and> x < unat destination + (unat stop - unat start)
     then set_option (maps_at e (x - unat destination + unat start)) else {})"
proof (cases "start < stop")
  case True
  then obtain s where s: "slice e start stop destination = [s]" by (simp add: slice_def)
  have piece: "s \<in> set (slice e start stop destination)" by (simp add: s)
  show ?thesis
    using slice_piece [OF assms piece] assms(2,3) unat_ext_end [OF assms(1)]
    by (auto simp: s maps_at_def word_le_nat_alt)
qed (use assms in \<open>auto simp: slice_def word_less_nat_alt\<close>)

text \<open>
  Cutting every extent of a layout into pieces whose positions lie over those of their extent keeps
  the pieces apart.
\<close>

lemma pieces_apart:
  assumes "sorted_wrt apart es" "\<forall>e \<in> set es. sorted_wrt apart (f e)"
    and over: "\<forall>e \<in> set es. \<forall>s \<in> set (f e). span s \<subseteq> h -` span e"
  shows "sorted_wrt apart (concat (map f es))"
  using assms
proof (induction es)
  case (Cons e es)
  have "apart s t" if "s \<in> set (f e)" "g \<in> set es" "t \<in> set (f g)" for s t g
    using Cons.prems that unfolding apart_def by fastforce
  then show ?case using Cons by (auto simp: sorted_wrt_append)
qed simp

section \<open>Cloning a range\<close>

definition keep_slices :: "u64 \<Rightarrow> u64 \<Rightarrow> extent \<Rightarrow> extent list" where
  "keep_slices lo hi e =
     slice e (ex_file_offset e) (min (ext_end e) lo) (ex_file_offset e) @
     slice e (max (ex_file_offset e) hi) (ext_end e) (max (ex_file_offset e) hi)"

definition move_slices :: "u64 \<Rightarrow> u64 \<Rightarrow> u64 \<Rightarrow> extent \<Rightarrow> extent list" where
  "move_slices lo hi destination e =
     (let start = max (ex_file_offset e) lo
      in slice e start (min (ext_end e) hi) (destination + (start - lo)))"

lemma keep_loop_ok:
  "\<forall>e \<in> set es. extent_ok e \<Longrightarrow> keep_loop lo hi out es = Inr (out @ concat (map (keep_slices lo hi) es))"
proof (induction es arbitrary: out)
  case (Cons e es)
  then have e: "extent_ok e" by simp
  have left: "(if ex_file_offset e < lo
         then push_slice out e (ex_file_offset e) (min (ext_end e) lo) (ex_file_offset e) else Inr out)
      = Inr (out @ slice e (ex_file_offset e) (min (ext_end e) lo) (ex_file_offset e))"
    using e by (auto simp: push_slice_ok slice_def min_def)
  have right: "(if ext_end e > hi
         then push_slice o1 e (max (ex_file_offset e) hi) (ext_end e) (max (ex_file_offset e) hi) else Inr o1)
      = Inr (o1 @ slice e (max (ex_file_offset e) hi) (ext_end e) (max (ex_file_offset e) hi))" for o1
    using e by (auto simp: push_slice_ok slice_def max_def)
  show ?case
    using Cons by (simp only: keep_loop.simps add_or_ext_end [OF e] bindE_simps left right Let_def)
      (simp add: keep_slices_def)
qed simp

lemma move_loop_ok:
  assumes "\<forall>e \<in> set es. extent_ok e" "unat destination + (unat hi - unat lo) < 2 ^ 64"
  shows "move_loop lo hi destination out es = Inr (out @ concat (map (move_slices lo hi destination) es))"
  using assms(1)
proof (induction es arbitrary: out)
  case (Cons e es)
  then have e: "extent_ok e" by simp
  let ?start = "max (ex_file_offset e) lo" and ?stop = "min (ext_end e) hi"
  have moved: "(if ?start < ?stop
         then bindE (afs_sub ?start lo) (\<lambda>skip.
              bindE (add_or invalid_clone destination skip) (\<lambda>target. push_slice out e ?start ?stop target))
         else Inr out) = Inr (out @ move_slices lo hi destination e)"
  proof (cases "?start < ?stop")
    case True
    then have "unat (?start - lo) \<le> unat hi - unat lo"
      by (auto simp: unat_sub unat_max_word word_less_nat_alt unat_min_word word_le_nat_alt max_def)
    with True assms(2) e show ?thesis
      by (simp add: afs_sub_ok add_or_ok push_slice_ok move_slices_def Let_def)
  next
    case False
    then show ?thesis by (simp only: if_False move_slices_def slice_def Let_def append_Nil2)
  qed
  show ?case
    using Cons by (simp only: move_loop.simps add_or_ext_end [OF e] bindE_simps moved Let_def) simp
qed simp

lemma keep_slices_contents:
  assumes "extent_ok e" "lo \<le> hi"
  shows "contents (keep_slices lo hi e) x = (if unat lo \<le> x \<and> x < unat hi then {} else set_option (maps_at e x))"
proof -
  have "contents (keep_slices lo hi e) x =
    (if unat (ex_file_offset e) \<le> x \<and> x < unat (ex_file_offset e) + (unat (min (ext_end e) lo) - unat (ex_file_offset e))
     then set_option (maps_at e (x - unat (ex_file_offset e) + unat (ex_file_offset e))) else {}) \<union>
    (if unat (max (ex_file_offset e) hi) \<le> x \<and>
        x < unat (max (ex_file_offset e) hi) + (unat (ext_end e) - unat (max (ex_file_offset e) hi))
     then set_option (maps_at e (x - unat (max (ex_file_offset e) hi) + unat (max (ex_file_offset e) hi))) else {})"
    using assms by (simp add: keep_slices_def slice_contents)
  then show ?thesis
    using assms unat_ext_end [OF assms(1)]
    by (auto simp: maps_at_def unat_min_word unat_max_word word_le_nat_alt split: if_splits)
qed

lemma unat_move_target:
  assumes "unat destination + (unat hi - unat lo) < 2 ^ 64" "max f lo < min t hi"
  shows "unat (destination + (max f lo - lo)) = unat destination + (unat (max f lo) - unat (lo :: u64))"
proof -
  have "unat (max f lo - lo) = unat (max f lo) - unat lo" by (simp add: unat_sub)
  moreover have "unat (max f lo) - unat lo \<le> unat hi - unat lo"
    using assms(2) by (auto simp: word_less_nat_alt unat_min_word)
  ultimately show ?thesis using assms(1) by (simp add: unat_word_ariths)
qed

lemma shifted_window:
  fixes d lo hi f t x :: nat
  assumes "\<And>y. y < f \<or> t \<le> y \<Longrightarrow> g y = {}" "start = max f lo" "stop = min t hi" "start < stop"
  shows "(if d + (start - lo) \<le> x \<and> x < d + (start - lo) + (stop - start) then g (x - (d + (start - lo)) + start) else {}) =
    (if d \<le> x \<and> x < d + (hi - lo) then g (x - d + lo) else {})"
proof (cases "d + (start - lo) \<le> x \<and> x < d + (start - lo) + (stop - start)")
  case True
  moreover have "d \<le> x \<and> x < d + (hi - lo)" "x - (d + (start - lo)) + start = x - d + lo"
    using True assms(2-4) by linarith+
  ultimately show ?thesis by (simp only: if_True)
next
  case False
  moreover have "x - d + lo < f \<or> t \<le> x - d + lo" if "d \<le> x \<and> x < d + (hi - lo)"
    using False assms(2-4) that by linarith
  ultimately show ?thesis using assms(1) by auto
qed

lemma move_slices_contents:
  assumes "extent_ok e" "lo \<le> hi" "unat destination + (unat hi - unat lo) < 2 ^ 64"
  shows "contents (move_slices lo hi destination e) x =
    (if unat destination \<le> x \<and> x < unat destination + (unat hi - unat lo)
     then set_option (maps_at e (x - unat destination + unat lo)) else {})"
proof (cases "max (ex_file_offset e) lo < min (ext_end e) hi")
  case True
  let ?start = "max (ex_file_offset e) lo" and ?stop = "min (ext_end e) hi"
  have "contents (move_slices lo hi destination e) x =
    (if unat destination + (unat ?start - unat lo) \<le> x \<and>
        x < unat destination + (unat ?start - unat lo) + (unat ?stop - unat ?start)
     then set_option (maps_at e (x - (unat destination + (unat ?start - unat lo)) + unat ?start)) else {})"
    using assms(1) unat_move_target [OF assms(3) True]
    by (simp add: move_slices_def Let_def slice_contents)
  also have "\<dots> = (if unat destination \<le> x \<and> x < unat destination + (unat hi - unat lo)
     then set_option (maps_at e (x - unat destination + unat lo)) else {})"
    using True unat_ext_end [OF assms(1)]
    by (intro shifted_window [where f = "unat (ex_file_offset e)" and t = "unat (ext_end e)"])
      (auto simp: maps_at_def unat_min_word unat_max_word word_less_nat_alt)
  finally show ?thesis .
next
  case False
  then have "move_slices lo hi destination e = []" by (simp only: move_slices_def slice_def Let_def if_False)
  moreover have "unat (ext_end e) \<le> max (unat (ex_file_offset e)) (unat lo) \<or>
      unat hi \<le> max (unat (ex_file_offset e)) (unat lo)"
    using False by (simp only: word_less_nat_alt unat_min_word unat_max_word not_less min_le_iff_disj)
  ultimately show ?thesis
    using assms(2) unat_ext_end [OF assms(1)] by (auto simp: maps_at_def word_le_nat_alt max_def split: if_splits)
qed

lemma span_maps: "x \<in> span e \<longleftrightarrow> maps_at e x \<noteq> None"
  by (simp add: span_def maps_at_def)

lemma span_contents: "s \<in> set es \<Longrightarrow> x \<in> span s \<Longrightarrow> contents es x \<noteq> {}"
  by (auto simp: span_maps contents_def)

lemma keep_span:
  assumes "s \<in> set (keep_slices lo hi e)" "extent_ok e" "lo \<le> hi" "x \<in> span s"
  shows "x \<in> span e \<and> \<not> (unat lo \<le> x \<and> x < unat hi)"
proof -
  have "contents (keep_slices lo hi e) x \<noteq> {}" using span_contents assms(1,4) .
  then show ?thesis by (simp add: keep_slices_contents assms span_maps split: if_splits)
qed

lemma move_span:
  assumes "s \<in> set (move_slices lo hi destination e)" "extent_ok e" "lo \<le> hi"
    and "unat destination + (unat hi - unat lo) < 2 ^ 64" "x \<in> span s"
  shows "x - unat destination + unat lo \<in> span e \<and> unat destination \<le> x \<and> x < unat destination + (unat hi - unat lo)"
proof -
  have "contents (move_slices lo hi destination e) x \<noteq> {}" using span_contents assms(1,5) .
  then show ?thesis
    by (simp only: move_slices_contents [OF assms(2-4)] span_maps) (simp split: if_splits)
qed

lemma slice_fits:
  assumes "extent_ok e" "ex_file_offset e \<le> start" "stop \<le> ext_end e" "s \<in> set (slice e start stop destination)"
    and "unat destination + (unat stop - unat start) \<le> len" "len < 2 ^ 64"
  shows "fits_file len s"
  using slice_piece [OF assms(1-4)] assms(1,5,6) by (auto simp: fits_file_def extent_ok_def unat_pos)

lemma keep_slices_apart: "extent_ok e \<Longrightarrow> lo \<le> hi \<Longrightarrow> sorted_wrt apart (keep_slices lo hi e)"
proof -
  assume e: "extent_ok e" and le: "lo \<le> hi"
  have "apart s t"
    if s: "s \<in> set (slice e (ex_file_offset e) (min (ext_end e) lo) (ex_file_offset e))"
      and t: "t \<in> set (slice e (max (ex_file_offset e) hi) (ext_end e) (max (ex_file_offset e) hi))" for s t
    using slice_piece(1-3) [OF e _ _ s] slice_piece(1-3) [OF e _ _ t] le
    by (auto simp: apart_def span_def unat_min_word unat_max_word word_le_nat_alt)
  then show ?thesis by (auto simp: keep_slices_def sorted_wrt_append slice_def)
qed

lemma keep_slices_fits:
  assumes "fits_file len e" "lo \<le> hi" "len < 2 ^ 64" "s \<in> set (keep_slices lo hi e)"
  shows "fits_file len s"
proof -
  have e: "extent_ok e" "unat (ext_end e) \<le> len" using assms(1) by (auto simp: fits_file_def unat_ext_end)
  from assms(4) consider
      "s \<in> set (slice e (ex_file_offset e) (min (ext_end e) lo) (ex_file_offset e))"
    | "s \<in> set (slice e (max (ex_file_offset e) hi) (ext_end e) (max (ex_file_offset e) hi))"
    by (auto simp: keep_slices_def)
  then show ?thesis
  proof cases
    case 1
    from slice_piece(3) [OF e(1) _ _ 1] have "unat (ex_file_offset e) \<le> unat (min (ext_end e) lo)" by simp
    with e assms(3) show ?thesis by (intro slice_fits [OF e(1) _ _ 1]) (auto simp: unat_min_word)
  next
    case 2
    from slice_piece(3) [OF e(1) _ _ 2] have "unat (max (ex_file_offset e) hi) \<le> unat (ext_end e)" by simp
    with e assms(3) show ?thesis by (intro slice_fits [OF e(1) _ _ 2]) auto
  qed
qed

lemma move_slices_fits:
  assumes "extent_ok e" "lo \<le> hi" "unat destination + (unat hi - unat lo) \<le> len" "len < 2 ^ 64"
    and s: "s \<in> set (move_slices lo hi destination e)"
  shows "fits_file len s"
proof -
  let ?start = "max (ex_file_offset e) lo" and ?stop = "min (ext_end e) hi"
  have lt: "?start < ?stop"
  proof (rule ccontr)
    assume "\<not> ?thesis"
    with s show False by (simp only: move_slices_def slice_def Let_def if_False) simp
  qed
  have "unat (destination + (?start - lo)) = unat destination + (unat ?start - unat lo)"
    using assms(3,4) by (intro unat_move_target [OF _ lt]) simp
  then have "unat (destination + (?start - lo)) + (unat ?stop - unat ?start) \<le> len"
    using assms(2,3) lt by (auto simp: unat_min_word unat_max_word word_le_nat_alt word_less_nat_alt)
  with s show ?thesis
    by (intro slice_fits [OF assms(1) _ _ _ _ assms(4)]) (auto simp: move_slices_def Let_def)
qed

lemma move_slices_apart: "sorted_wrt apart (move_slices lo hi destination e)"
  by (simp add: move_slices_def slice_def Let_def)

definition cloned_extents :: "extent list \<Rightarrow> extent list \<Rightarrow> u64 \<Rightarrow> u64 \<Rightarrow> u64 \<Rightarrow> u64 \<Rightarrow> extent list" where
  "cloned_extents bs ss from to destination destination_end =
     concat (map (keep_slices destination destination_end) bs) @ concat (map (move_slices from to destination) ss)"

lemma cloned_extents_contents:
  assumes "\<forall>e \<in> set bs. extent_ok e" "\<forall>e \<in> set ss. extent_ok e"
    and "unat destination_end = unat destination + (unat hi - unat lo)" "lo \<le> hi"
  shows "contents (cloned_extents bs ss lo hi destination destination_end) x =
    (if unat destination \<le> x \<and> x < unat destination_end then contents ss (x - unat destination + unat lo)
     else contents bs x)"
proof -
  have "destination \<le> destination_end" "unat destination + (unat hi - unat lo) < 2 ^ 64"
    using assms(3) u64_bound [of destination_end] by (auto simp: word_le_nat_alt)
  with assms show ?thesis
    by (simp add: cloned_extents_def contents_concat keep_slices_contents move_slices_contents
        contents_union [of bs] contents_union [of ss])
qed

lemma cloned_extents_apart:
  assumes "\<forall>e \<in> set bs. extent_ok e" "\<forall>e \<in> set ss. extent_ok e"
    and "unat destination_end = unat destination + (unat hi - unat lo)" "lo \<le> hi"
    and "sorted_wrt apart bs" "sorted_wrt apart ss"
  shows "sorted_wrt apart (cloned_extents bs ss lo hi destination destination_end)"
proof -
  have le: "destination \<le> destination_end" and room: "unat destination + (unat hi - unat lo) < 2 ^ 64"
    using assms(3) u64_bound [of destination_end] by (auto simp: word_le_nat_alt)
  have kept: "span s \<subseteq> (\<lambda>x. x) -` span e \<and> span s \<inter> {unat destination ..< unat destination_end} = {}"
    if "e \<in> set bs" "s \<in> set (keep_slices destination destination_end e)" for e s
    using keep_span [OF that(2)] assms(1) that(1) le by auto
  have moved: "span s \<subseteq> (\<lambda>x. x - unat destination + unat lo) -` span e \<and>
      span s \<subseteq> {unat destination ..< unat destination_end}"
    if "e \<in> set ss" "s \<in> set (move_slices lo hi destination e)" for e s
    using move_span [OF that(2)] assms(2-4) that(1) room by auto
  have "sorted_wrt apart (concat (map (keep_slices destination destination_end) bs))"
    using assms(1,5) kept le by (intro pieces_apart [where h = "\<lambda>x. x"]) (auto simp: keep_slices_apart)
  moreover have "sorted_wrt apart (concat (map (move_slices lo hi destination) ss))"
    using assms(6) moved
    by (intro pieces_apart [where h = "\<lambda>x. x - unat destination + unat lo"]) (auto simp: move_slices_apart)
  moreover have "apart s t" if "e \<in> set bs" "s \<in> set (keep_slices destination destination_end e)" "f \<in> set ss"
      "t \<in> set (move_slices lo hi destination f)" for e s f t
    using kept [OF that(1,2)] moved [OF that(3,4)] by (auto simp: apart_def)
  ultimately show ?thesis by (auto simp: cloned_extents_def sorted_wrt_append)
qed

text \<open>When the range may be cloned.\<close>

definition clone_allowed :: "layout_root \<Rightarrow> clone_file_range \<Rightarrow> bool" where
  "clone_allowed source clone \<longleftrightarrow> cr_length clone \<noteq> 0 \<and>
     unat (cr_source_offset clone) + unat (cr_length clone) \<le> unat (lr_file_length source) \<and>
     unat (cr_destination_offset clone) + unat (cr_length clone) < 2 ^ 64"

lemma clone_refused: "\<not> clone_allowed source clone \<Longrightarrow> clone_file_layout base source clone i = Inl invalid_clone"
proof -
  assume not: "\<not> clone_allowed source clone"
  consider "2 ^ 64 \<le> unat (cr_source_offset clone) + unat (cr_length clone)"
    | "2 ^ 64 \<le> unat (cr_destination_offset clone) + unat (cr_length clone)"
    | "unat (cr_source_offset clone) + unat (cr_length clone) < 2 ^ 64"
      "unat (cr_destination_offset clone) + unat (cr_length clone) < 2 ^ 64"
    by linarith
  then show ?thesis
  proof cases
    case 2
    then show ?thesis
      by (cases "unat (cr_source_offset clone) + unat (cr_length clone) < 2 ^ 64")
        (simp_all add: clone_file_layout_def add_or_ok add_or_err)
  next
    case 3
    with not have "cr_length clone = 0 \<or> lr_file_length source < cr_source_offset clone + cr_length clone"
      by (auto simp: clone_allowed_def word_less_nat_alt unat_word_ariths)
    with 3 show ?thesis by (simp add: clone_file_layout_def add_or_ok)
  qed (simp add: clone_file_layout_def add_or_err)
qed

lemma clone_exact:
  assumes "\<forall>e \<in> set (lr_inline_extents base). extent_ok e" "\<forall>e \<in> set (lr_inline_extents source). extent_ok e"
    and allowed: "clone_allowed source clone"
  defines "source_end \<equiv> cr_source_offset clone + cr_length clone"
    and "destination_end \<equiv> cr_destination_offset clone + cr_length clone"
  shows "clone_file_layout base source clone i =
    Inr \<lparr>lr_id = i, lr_file_length = max (lr_file_length base) destination_end,
         lr_inline_extents = sort_key ex_file_offset
           (cloned_extents (lr_inline_extents base) (lr_inline_extents source) (cr_source_offset clone) source_end
              (cr_destination_offset clone) destination_end)\<rparr>"
    and "unat source_end = unat (cr_source_offset clone) + unat (cr_length clone)"
    and "unat destination_end = unat (cr_destination_offset clone) + unat (cr_length clone)"
proof -
  have room: "unat (cr_source_offset clone) + unat (cr_length clone) < 2 ^ 64"
      "unat (cr_destination_offset clone) + unat (cr_length clone) < 2 ^ 64"
    using allowed u64_bound [of "lr_file_length source"] by (auto simp: clone_allowed_def)
  show ends: "unat source_end = unat (cr_source_offset clone) + unat (cr_length clone)"
      "unat destination_end = unat (cr_destination_offset clone) + unat (cr_length clone)"
    using room by (simp_all add: source_end_def destination_end_def unat_word_ariths)
  have "\<not> (cr_length clone = 0 \<or> source_end > lr_file_length source)"
    using allowed ends by (auto simp: clone_allowed_def word_less_nat_alt)
  moreover have "unat (cr_destination_offset clone) + (unat source_end - unat (cr_source_offset clone)) < 2 ^ 64"
    using ends room by simp
  ultimately show "clone_file_layout base source clone i =
    Inr \<lparr>lr_id = i, lr_file_length = max (lr_file_length base) destination_end,
         lr_inline_extents = sort_key ex_file_offset
           (cloned_extents (lr_inline_extents base) (lr_inline_extents source) (cr_source_offset clone) source_end
              (cr_destination_offset clone) destination_end)\<rparr>"
    using assms(1,2) room
    by (simp add: clone_file_layout_def add_or_ok keep_loop_ok move_loop_ok cloned_extents_def
        source_end_def [symmetric] destination_end_def [symmetric])
qed

end
