(* ===== verification/Afs_Commit.thy ===== *)
theory Afs_Commit
  imports Afs_Layout
begin

text \<open>
  Publishing a file version of the distributed file system: the node clips and overwrites the base
  layout with the published extents (\<^verbatim>\<open>afs/src/node/vfs/dfs.rs\<close>), and the metadata service accepts
  the extents of a commit (\<^verbatim>\<open>afs/src/meta/dfs.rs\<close>). The lemmas compare both, byte by byte, with the
  layout the version was based on.
\<close>

section \<open>Definitions\<close>

definition invalid_meta :: "string \<Rightarrow> afs_error" where
  "invalid_meta message = coded META_CATALOG_INVALID_REQUEST message"

definition clip_extent :: "extent \<Rightarrow> u64 \<Rightarrow> extent option" where
  "clip_extent e file_length =
     (if file_length \<le> ex_file_offset e then None
      else let len = min (ex_length e) (file_length - ex_file_offset e) in
        if len > 0
        then Some \<lparr>ex_file_offset = ex_file_offset e, ex_length = len, ex_chunk_id = ex_chunk_id e,
                   ex_chunk_offset = ex_chunk_offset e\<rparr>
        else None)"

text \<open>Every plain subtraction below stands under a guard that keeps it from underflowing.\<close>

fun subtract_loop :: "u64 \<Rightarrow> u64 \<Rightarrow> extent list \<Rightarrow> extent list \<Rightarrow> extent list afs_result" where
  "subtract_loop offset stop out [] = Inr out"
| "subtract_loop offset stop out (e # es) =
     bindE (add_or (invalid_vfs ''base extent range overflow'') (ex_file_offset e) (ex_length e)) (\<lambda>extent_end.
     if stop \<le> ex_file_offset e \<or> offset \<ge> extent_end then subtract_loop offset stop (out @ [e]) es
     else
       let left = (if offset > ex_file_offset e
                   then [\<lparr>ex_file_offset = ex_file_offset e, ex_length = offset - ex_file_offset e,
                          ex_chunk_id = ex_chunk_id e, ex_chunk_offset = ex_chunk_offset e\<rparr>] else []) in
       bindE (if stop < extent_end
              then bindE (add_or (invalid_vfs ''base extent chunk offset overflow'')
                           (ex_chunk_offset e) (stop - ex_file_offset e)) (\<lambda>chunk_offset.
                   Inr [\<lparr>ex_file_offset = stop, ex_length = extent_end - stop, ex_chunk_id = ex_chunk_id e,
                         ex_chunk_offset = chunk_offset\<rparr>])
              else Inr []) (\<lambda>right.
       subtract_loop offset stop (out @ left @ right) es))"

definition subtract_range :: "extent list \<Rightarrow> u64 \<Rightarrow> u64 \<Rightarrow> extent list afs_result" where
  "subtract_range extents offset len =
     (if len = 0 then Inr extents
      else bindE (add_or (invalid_vfs ''subtracted extent range overflow'') offset len) (\<lambda>stop.
           subtract_loop offset stop [] extents))"

fun subtract_each :: "extent list \<Rightarrow> extent list \<Rightarrow> extent list afs_result" where
  "subtract_each extents [] = Inr extents"
| "subtract_each extents (p # ps) =
     bindE (subtract_range extents (ex_file_offset p) (ex_length p)) (\<lambda>rest. subtract_each rest ps)"

definition layout_from_publication ::
  "layout_root \<Rightarrow> u64 \<Rightarrow> string \<Rightarrow> extent list \<Rightarrow> layout_root afs_result" where
  "layout_from_publication base_layout logical_length layout_id publication_extents =
     (let extents = List.map_filter (\<lambda>e. clip_extent e logical_length) (lr_inline_extents base_layout) in
      bindE (subtract_each extents publication_extents) (\<lambda>rest.
      Inr \<lparr>lr_id = layout_id, lr_file_length = logical_length,
           lr_inline_extents = sort_key ex_file_offset (rest @ publication_extents)\<rparr>))"

definition inherits_from :: "extent \<Rightarrow> extent \<Rightarrow> u64 \<Rightarrow> bool" where
  "inherits_from e candidate extent_file_end =
     (case checked_add (ex_file_offset candidate) (ex_length candidate) of
        None \<Rightarrow> False
      | Some candidate_file_end \<Rightarrow>
          if ex_chunk_id candidate \<noteq> ex_chunk_id e \<or> ex_file_offset e < ex_file_offset candidate \<or>
             extent_file_end > candidate_file_end
          then False
          else checked_add (ex_chunk_offset candidate) (ex_file_offset e - ex_file_offset candidate)
                 = Some (ex_chunk_offset e))"

definition extent_is_inherited :: "extent \<Rightarrow> layout_root \<Rightarrow> bool" where
  "extent_is_inherited e base =
     (case checked_add (ex_file_offset e) (ex_length e) of
        None \<Rightarrow> False
      | Some extent_file_end \<Rightarrow>
          list_ex (\<lambda>candidate. inherits_from e candidate extent_file_end) (lr_inline_extents base))"

text \<open>
  The extent loop of a commit. A receipt counts here by the identifier and the length of its chunk;
  the layouts are those of the cloned range and of the expected base version.
\<close>

fun commit_extents ::
  "u64 \<Rightarrow> (string \<times> u64) list \<Rightarrow> layout_root option \<Rightarrow> layout_root option \<Rightarrow> u64 \<Rightarrow> extent list \<Rightarrow> unit afs_result"
where
  "commit_extents file_length receipts clone_layout base_layout previous_end [] = Inr ()"
| "commit_extents file_length receipts clone_layout base_layout previous_end (e # es) =
     bindE (add_or (invalid_meta ''DFS extent file range overflows'') (ex_file_offset e) (ex_length e)) (\<lambda>file_end.
     if ex_length e = 0 \<or> ex_file_offset e < previous_end \<or> file_end > file_length
     then Inl (invalid_meta ''LayoutRoot extents must be non-empty, ordered and non-overlapping'')
     else
       bindE (add_or (invalid_meta ''DFS extent chunk range overflows'') (ex_chunk_offset e) (ex_length e)) (\<lambda>chunk_end.
       bindE (case find (\<lambda>(i, _). i = ex_chunk_id e) receipts of
                Some (_, chunk_length) \<Rightarrow>
                  if chunk_end > chunk_length then Inl (invalid_meta ''DFS extent exceeds its referenced Chunk'')
                  else Inr ()
              | None \<Rightarrow>
                  if \<not> is_some_and (extent_is_inherited e) clone_layout \<and>
                     \<not> is_some_and (extent_is_inherited e) base_layout
                  then Inl (invalid_meta
                    ''LayoutRoot references neither a newly durable Chunk nor a legal expected-base range'')
                  else Inr ()) (\<lambda>_.
       commit_extents file_length receipts clone_layout base_layout file_end es)))"

section \<open>Cuts of an extent\<close>

text \<open>An extent that maps a part of another, at the same file positions.\<close>

definition cut_of :: "extent \<Rightarrow> extent \<Rightarrow> bool" where
  "cut_of s e \<longleftrightarrow> ex_chunk_id s = ex_chunk_id e \<and> unat (ex_file_offset e) \<le> unat (ex_file_offset s) \<and>
     unat (ex_file_offset s) + unat (ex_length s) \<le> unat (ex_file_offset e) + unat (ex_length e) \<and>
     unat (ex_chunk_offset s) = unat (ex_chunk_offset e) + (unat (ex_file_offset s) - unat (ex_file_offset e))"

lemma cut_of_refl [simp]: "cut_of e e"
  by (simp add: cut_of_def)

lemma cut_of_trans: "cut_of r s \<Longrightarrow> cut_of s e \<Longrightarrow> cut_of r e"
  by (auto simp: cut_of_def)

lemma cut_of_span: "cut_of s e \<Longrightarrow> span s \<subseteq> span e"
  by (auto simp: cut_of_def span_def)

lemma cut_of_maps: "cut_of s e \<Longrightarrow> maps_at s x = Some b \<Longrightarrow> maps_at e x = Some b"
  by (auto simp: cut_of_def maps_at_def split: if_splits)

lemma inherits_from_iff:
  assumes "unat t = unat (ex_file_offset s) + unat (ex_length s)"
  shows "inherits_from s e t \<longleftrightarrow> unat (ex_file_offset e) + unat (ex_length e) < 2 ^ 64 \<and> cut_of s e"
proof (cases "unat (ex_file_offset e) + unat (ex_length e) < 2 ^ 64")
  case True
  have "unat (ex_file_offset s - ex_file_offset e) = unat (ex_file_offset s) - unat (ex_file_offset e)"
    if "ex_file_offset e \<le> ex_file_offset s" using that by (simp add: unat_sub)
  with True assms show ?thesis
    by (auto simp: inherits_from_def checked_add_nat [of "ex_file_offset e"] checked_add_eq_Some cut_of_def
        word_less_nat_alt word_le_nat_alt unat_word_ariths)
qed (simp add: inherits_from_def checked_add_nat)

lemma extent_is_inherited_iff:
  "extent_is_inherited s base \<longleftrightarrow> unat (ex_file_offset s) + unat (ex_length s) < 2 ^ 64 \<and>
     (\<exists>e \<in> set (lr_inline_extents base). unat (ex_file_offset e) + unat (ex_length e) < 2 ^ 64 \<and> cut_of s e)"
  by (auto simp: extent_is_inherited_def checked_add_nat inherits_from_iff unat_word_ariths list_ex_iff)

lemma keep_slices_cut:
  assumes "extent_ok e" "s \<in> set (keep_slices lo hi e)"
  shows "cut_of s e"
proof -
  from assms(2) consider
      "s \<in> set (slice e (ex_file_offset e) (min (ext_end e) lo) (ex_file_offset e))"
    | "s \<in> set (slice e (max (ex_file_offset e) hi) (ext_end e) (max (ex_file_offset e) hi))"
    by (auto simp: keep_slices_def)
  then show ?thesis
  proof cases
    case 1
    with slice_piece [OF assms(1) _ _ 1] unat_ext_end [OF assms(1)] show ?thesis
      by (auto simp: cut_of_def unat_min_word)
  next
    case 2
    with slice_piece [OF assms(1) _ _ 2] unat_ext_end [OF assms(1)] show ?thesis
      by (auto simp: cut_of_def unat_max_word)
  qed
qed

section \<open>Overwriting a base layout\<close>

lemma slice_whole: "extent_ok e \<Longrightarrow> ex_length e \<noteq> 0 \<Longrightarrow> slice e (ex_file_offset e) (ext_end e) (ex_file_offset e) = [e]"
  using unat_ext_end [of e] by (simp add: slice_def word_less_nat_alt unat_pos) (simp add: ext_end_def)

lemma slice_empty: "stop \<le> start \<Longrightarrow> slice e start stop destination = []"
  by (simp add: slice_def)

lemma subtract_loop_ok:
  assumes "\<forall>e \<in> set es. extent_ok e \<and> ex_length e \<noteq> 0" "offset \<le> stop"
  shows "subtract_loop offset stop out es = Inr (out @ concat (map (keep_slices offset stop) es))"
  using assms(1)
proof (induction es arbitrary: out)
  case (Cons e es)
  then have e: "extent_ok e" "ex_length e \<noteq> 0" by auto
  show ?case
  proof (cases "stop \<le> ex_file_offset e \<or> offset \<ge> ext_end e")
    case True
    then have "keep_slices offset stop e = [e]"
    proof
      assume "stop \<le> ex_file_offset e"
      with assms(2) e show ?thesis
        by (simp add: keep_slices_def slice_empty min_def max_absorb1 slice_whole)
    next
      assume before: "offset \<ge> ext_end e"
      with assms(2) have "ext_end e \<le> stop" by simp
      with before e show ?thesis
        by (simp add: keep_slices_def slice_empty min_absorb1 le_max_iff_disj slice_whole)
    qed
    with True Cons e show ?thesis by (simp add: add_or_ext_end)
  next
    case False
    then have gt: "ex_file_offset e < stop" "offset < ext_end e" by auto
    have left: "slice e (ex_file_offset e) (min (ext_end e) offset) (ex_file_offset e) =
        (if offset > ex_file_offset e
         then [\<lparr>ex_file_offset = ex_file_offset e, ex_length = offset - ex_file_offset e,
                ex_chunk_id = ex_chunk_id e, ex_chunk_offset = ex_chunk_offset e\<rparr>] else [])"
      using gt by (simp add: slice_def min_absorb2)
    have right: "(if stop < ext_end e
        then bindE (add_or (invalid_vfs ''base extent chunk offset overflow'')
               (ex_chunk_offset e) (stop - ex_file_offset e)) (\<lambda>chunk_offset.
             Inr [\<lparr>ex_file_offset = stop, ex_length = ext_end e - stop, ex_chunk_id = ex_chunk_id e,
                   ex_chunk_offset = chunk_offset\<rparr>])
        else Inr []) = Inr (slice e (max (ex_file_offset e) stop) (ext_end e) (max (ex_file_offset e) stop))"
    proof (cases "stop < ext_end e")
      case True
      have "unat (stop - ex_file_offset e) = unat stop - unat (ex_file_offset e)" using gt by (simp add: unat_sub)
      with True gt have "unat (stop - ex_file_offset e) < unat (ex_length e)"
        using unat_ext_end [OF e(1)] by (simp add: word_less_nat_alt)
      then have "unat (ex_chunk_offset e) + unat (stop - ex_file_offset e) < 2 ^ 64"
        using e(1) by (simp add: extent_ok_def)
      with True gt show ?thesis by (simp add: add_or_ok slice_def max_absorb2)
    qed (use gt in \<open>simp add: slice_empty max_absorb2\<close>)
    show ?thesis
      using Cons False by (simp only: subtract_loop.simps add_or_ext_end [OF e(1)] bindE_simps if_False right left [symmetric] Let_def)
        (simp add: keep_slices_def)
  qed
qed simp

lemma span_ext_end: "extent_ok e \<Longrightarrow> span e = {unat (ex_file_offset e) ..< unat (ext_end e)}"
  by (simp add: span_def unat_ext_end)

lemma subtract_range_ok:
  assumes "\<forall>e \<in> set es. fits_file len e" "len < 2 ^ 64" "sorted_wrt apart es" "extent_ok p"
  obtains rest where "subtract_range es (ex_file_offset p) (ex_length p) = Inr rest"
    "\<forall>e \<in> set rest. fits_file len e \<and> (\<exists>b \<in> set es. cut_of e b)" "sorted_wrt apart rest"
    "\<And>x. contents rest x = (if x \<in> span p then {} else contents es x)"
    "\<forall>e \<in> set rest. span e \<inter> span p = {}"
proof (cases "ex_length p = 0")
  case True
  with assms show ?thesis by (intro that [of es]) (auto simp: subtract_range_def span_def intro: cut_of_refl)
next
  case False
  let ?rest = "concat (map (keep_slices (ex_file_offset p) (ext_end p)) es)"
  have le: "ex_file_offset p \<le> ext_end p" using unat_ext_end [OF assms(4)] by (simp add: word_le_nat_alt)
  have es: "\<forall>e \<in> set es. extent_ok e \<and> ex_length e \<noteq> 0" using assms(1) by (simp add: fits_file_def)
  have piece: "fits_file len s \<and> cut_of s e \<and> span s \<subseteq> (\<lambda>x. x) -` span e \<and> span s \<inter> span p = {}"
    if "e \<in> set es" "s \<in> set (keep_slices (ex_file_offset p) (ext_end p) e)" for e s
    using keep_slices_fits [OF _ le assms(2) that(2)] keep_slices_cut [OF _ that(2)] keep_span [OF that(2) _ le]
      assms(1) es that(1) by (auto simp: span_ext_end [OF assms(4)])
  show ?thesis
  proof (rule that [of ?rest])
    show "subtract_range es (ex_file_offset p) (ex_length p) = Inr ?rest"
      using False es le by (simp add: subtract_range_def add_or_ext_end [OF assms(4)] subtract_loop_ok)
    show "\<forall>e \<in> set ?rest. fits_file len e \<and> (\<exists>b \<in> set es. cut_of e b)" "\<forall>e \<in> set ?rest. span e \<inter> span p = {}"
      using piece by auto
    show "sorted_wrt apart ?rest"
      using assms(3) es le piece by (intro pieces_apart [where h = "\<lambda>x. x"]) (auto simp: keep_slices_apart)
    show "contents ?rest x = (if x \<in> span p then {} else contents es x)" for x
      using es le unat_ext_end [OF assms(4)]
      by (simp add: contents_concat keep_slices_contents contents_union [of es] span_def)
  qed
qed

lemma subtract_each_ok:
  assumes "\<forall>e \<in> set es. fits_file len e" "len < 2 ^ 64" "sorted_wrt apart es" "\<forall>p \<in> set ps. extent_ok p"
  shows "\<exists>rest. subtract_each es ps = Inr rest \<and> (\<forall>e \<in> set rest. fits_file len e \<and> (\<exists>b \<in> set es. cut_of e b)) \<and>
    sorted_wrt apart rest \<and> (\<forall>x. contents rest x = (if \<exists>p \<in> set ps. x \<in> span p then {} else contents es x)) \<and>
    (\<forall>e \<in> set rest. \<forall>p \<in> set ps. span e \<inter> span p = {})"
  using assms(1,3,4)
proof (induction ps arbitrary: es)
  case Nil
  then show ?case by (auto intro: cut_of_refl)
next
  case (Cons p ps)
  obtain mid where mid: "subtract_range es (ex_file_offset p) (ex_length p) = Inr mid"
    "\<forall>e \<in> set mid. fits_file len e \<and> (\<exists>b \<in> set es. cut_of e b)" "sorted_wrt apart mid"
    "\<And>x. contents mid x = (if x \<in> span p then {} else contents es x)" "\<forall>e \<in> set mid. span e \<inter> span p = {}"
    using Cons.prems assms(2) by (auto intro: subtract_range_ok [of es len p])
  obtain rest where rest: "subtract_each mid ps = Inr rest" "\<forall>e \<in> set rest. fits_file len e \<and> (\<exists>b \<in> set mid. cut_of e b)"
    "sorted_wrt apart rest" "\<forall>x. contents rest x = (if \<exists>p \<in> set ps. x \<in> span p then {} else contents mid x)"
    "\<forall>e \<in> set rest. \<forall>p \<in> set ps. span e \<inter> span p = {}"
    using Cons.IH [of mid] mid(2,3) Cons.prems(3) by auto
  have "span e \<inter> span p = {}" "\<exists>b \<in> set es. cut_of e b" if e: "e \<in> set rest" for e
  proof -
    obtain m where m: "m \<in> set mid" "cut_of e m" using rest(2) e by auto
    then show "span e \<inter> span p = {}" using mid(5) cut_of_span by fastforce
    show "\<exists>b \<in> set es. cut_of e b" using m mid(2) cut_of_trans by blast
  qed
  then show ?case using mid(1,4) rest by (intro exI [of _ rest]) auto
qed

lemma clip_extent_Some:
  assumes "fits_file len e" "clip_extent e file_length = Some s"
  shows "fits_file (unat file_length) s \<and> cut_of s e"
proof -
  have lt: "ex_file_offset e < file_length"
    and s: "s = e\<lparr>ex_length := min (ex_length e) (file_length - ex_file_offset e)\<rparr>" "ex_length s \<noteq> 0"
    using assms(2) by (auto simp: clip_extent_def Let_def word_gt_0 simp del: min_less_iff_conj split: if_splits)
  have "unat (file_length - ex_file_offset e) = unat file_length - unat (ex_file_offset e)"
    using lt by (simp add: unat_sub)
  with lt s assms(1) show ?thesis
    by (auto simp: fits_file_def cut_of_def extent_ok_def unat_min_word word_less_nat_alt unat_pos)
qed

lemma clip_extent_maps:
  assumes "fits_file len e"
  shows "contents (case clip_extent e file_length of None \<Rightarrow> [] | Some s \<Rightarrow> [s]) x =
    (if x < unat file_length then set_option (maps_at e x) else {})"
proof (cases "ex_file_offset e < file_length")
  case True
  then have "unat (file_length - ex_file_offset e) = unat file_length - unat (ex_file_offset e)"
    "unat (ex_file_offset e) < unat file_length"
    by (simp_all add: unat_sub flip: word_less_nat_alt)
  with True assms show ?thesis
    by (auto simp: clip_extent_def Let_def maps_at_def unat_min_word word_less_nat_alt word_le_nat_alt fits_file_def unat_pos)
qed (auto simp: clip_extent_def maps_at_def word_less_nat_alt word_le_nat_alt)

lemma map_filter_cuts:
  fixes file_length :: u64
  assumes "\<forall>e \<in> set es. fits_file len e" "sorted_wrt apart es"
  defines "clipped \<equiv> List.map_filter (\<lambda>e. clip_extent e file_length) es"
  shows "\<forall>s \<in> set clipped. fits_file (unat file_length) s \<and> (\<exists>e \<in> set es. cut_of s e)" "sorted_wrt apart clipped"
    "contents clipped x = (if x < unat file_length then contents es x else {})"
proof -
  let ?clip = "\<lambda>e. case clip_extent e file_length of None \<Rightarrow> [] | Some s \<Rightarrow> [s]"
  have clipped: "clipped = concat (map ?clip es)"
    unfolding clipped_def by (induction es) (auto simp: map_filter_simps split: option.split)
  have piece: "fits_file (unat file_length) s \<and> cut_of s e" if "e \<in> set es" "s \<in> set (?clip e)" for e s
    using clip_extent_Some [of len e file_length s] assms(1) that by (auto split: option.splits)
  then show "\<forall>s \<in> set clipped. fits_file (unat file_length) s \<and> (\<exists>e \<in> set es. cut_of s e)"
    by (auto simp: clipped)
  show "sorted_wrt apart clipped" unfolding clipped
    using assms(2) piece cut_of_span
    by (intro pieces_apart [where h = "\<lambda>x. x"]) (fastforce split: option.split)+
  show "contents clipped x = (if x < unat file_length then contents es x else {})"
    using assms(1) by (simp add: clipped contents_concat clip_extent_maps [of len] contents_union [of es])
qed

text \<open>Extents ready to be published: inside the new length and without overlap.\<close>

definition publishable :: "u64 \<Rightarrow> extent list \<Rightarrow> bool" where
  "publishable logical_length ps \<longleftrightarrow> (\<forall>p \<in> set ps. fits_file (unat logical_length) p) \<and> sorted_wrt apart ps"

lemma layout_okD:
  assumes "layout_ok l"
  shows "\<forall>e \<in> set (lr_inline_extents l). fits_file (unat (lr_file_length l)) e" "sorted_wrt apart (lr_inline_extents l)"
  using assms ordered_from_fits ordered_from_apart by (fastforce simp: layout_ok_def)+

lemma publication_exact:
  assumes "layout_ok base" "publishable logical_length ps"
  shows "\<exists>root. layout_from_publication base logical_length i ps = Inr root \<and> layout_ok root \<and>
    lr_file_length root = logical_length \<and>
    (\<forall>x. contents (lr_inline_extents root) x =
       (if contents ps x \<noteq> {} then contents ps x
        else if x < unat logical_length then contents (lr_inline_extents base) x else {})) \<and>
    (\<forall>e \<in> set (lr_inline_extents root). e \<in> set ps \<or> (\<exists>b \<in> set (lr_inline_extents base). cut_of e b))"
proof -
  let ?clipped = "List.map_filter (\<lambda>e. clip_extent e logical_length) (lr_inline_extents base)"
  note clipped = map_filter_cuts [OF layout_okD [OF assms(1)], where file_length = logical_length]
  have ps: "\<forall>p \<in> set ps. fits_file (unat logical_length) p" "sorted_wrt apart ps" "\<forall>p \<in> set ps. extent_ok p"
    using assms(2) by (auto simp: publishable_def fits_file_def)
  have "\<forall>e \<in> set ?clipped. fits_file (unat logical_length) e" using clipped(1) by blast
  then obtain rest where rest: "subtract_each ?clipped ps = Inr rest"
    "\<forall>e \<in> set rest. fits_file (unat logical_length) e \<and> (\<exists>b \<in> set ?clipped. cut_of e b)" "sorted_wrt apart rest"
    "\<forall>x. contents rest x = (if \<exists>p \<in> set ps. x \<in> span p then {} else contents ?clipped x)"
    "\<forall>e \<in> set rest. \<forall>p \<in> set ps. span e \<inter> span p = {}"
    using subtract_each_ok [OF _ u64_bound clipped(2) ps(3)] by blast
  have covered: "(\<exists>p \<in> set ps. x \<in> span p) \<longleftrightarrow> contents ps x \<noteq> {}" for x
    by (auto simp: span_maps contents_def)
  have cuts: "\<exists>b \<in> set (lr_inline_extents base). cut_of e b" if "e \<in> set rest" for e
  proof -
    obtain c where "c \<in> set ?clipped" "cut_of e c" using rest(2) \<open>e \<in> set rest\<close> by blast
    with clipped(1) show ?thesis by (blast intro: cut_of_trans)
  qed
  have "ordered_from 0 (unat logical_length) (sort_key ex_file_offset (rest @ ps))"
    using rest(2,3,5) ps(1,2) by (intro ordered_from_sort) (auto simp: sorted_wrt_append apart_def)
  then show ?thesis
    using rest(1,4) cuts
    by (auto simp: layout_from_publication_def layout_ok_def covered clipped(3))
qed

section \<open>What the metadata service accepts\<close>

definition grounded :: "(string \<times> u64) list \<Rightarrow> layout_root option \<Rightarrow> layout_root option \<Rightarrow> extent \<Rightarrow> bool" where
  "grounded receipts clone_layout base_layout e =
     (case find (\<lambda>(i, _). i = ex_chunk_id e) receipts of
        Some (_, chunk_length) \<Rightarrow> unat (ex_chunk_offset e) + unat (ex_length e) \<le> unat chunk_length
      | None \<Rightarrow> is_some_and (extent_is_inherited e) clone_layout \<or> is_some_and (extent_is_inherited e) base_layout)"

lemma bindE_ok_unit: "bindE r f = Inr () \<longleftrightarrow> (\<exists>x. r = Inr x \<and> f x = Inr ())"
  by (simp add: bindE_eq_Inr)

lemma commit_extents_iff:
  "commit_extents file_length receipts clone_layout base_layout previous_end es = Inr () \<longleftrightarrow>
     ordered_from (unat previous_end) (unat file_length) es \<and>
     (\<forall>e \<in> set es. grounded receipts clone_layout base_layout e)"
proof (induction es arbitrary: previous_end)
  case (Cons e es)
  show ?case
  proof (cases "extent_ok e")
    case True
    then have chunk: "add_or err (ex_chunk_offset e) (ex_length e) = Inr (ex_chunk_offset e + ex_length e)"
      "unat (ex_chunk_offset e + ex_length e) = unat (ex_chunk_offset e) + unat (ex_length e)" for err
      by (simp_all add: extent_ok_def add_or_ok unat_word_ariths)
    have ground: "(case find (\<lambda>(i, _). i = ex_chunk_id e) receipts of
          Some (_, chunk_length) \<Rightarrow>
            if ex_chunk_offset e + ex_length e > chunk_length
            then Inl (invalid_meta ''DFS extent exceeds its referenced Chunk'') else Inr ()
        | None \<Rightarrow>
            if \<not> is_some_and (extent_is_inherited e) clone_layout \<and> \<not> is_some_and (extent_is_inherited e) base_layout
            then Inl (invalid_meta
              ''LayoutRoot references neither a newly durable Chunk nor a legal expected-base range'')
            else Inr ()) = Inr () \<longleftrightarrow> grounded receipts clone_layout base_layout e"
      by (auto simp: grounded_def chunk(2) word_less_nat_alt not_less split: option.split)
    show ?thesis
      by (simp only: commit_extents.simps add_or_ext_end [OF True] bindE_simps chunk(1) bindE_ok_unit ground
          if_splits(1) Cons.IH unat_ext_end [OF True] ordered_from.simps)
        (auto simp: True word_less_nat_alt unat_ext_end [OF True] not_less bindE_ok_unit ground Cons.IH)
  next
    case False
    then have "2 ^ 64 \<le> unat (ex_chunk_offset e) + unat (ex_length e)"
      if "unat (ex_file_offset e) + unat (ex_length e) < 2 ^ 64" using that by (simp add: extent_ok_def)
    then show ?thesis
      using False by (cases "unat (ex_file_offset e) + unat (ex_length e) < 2 ^ 64") (simp_all add: add_or_ok add_or_err)
  qed
qed simp

lemma grounded_bytes:
  assumes "grounded receipts clone_layout base_layout e" "maps_at e x = Some (i, off)"
  shows "(\<exists>n. (i, n) \<in> set receipts \<and> off < unat n) \<or>
    is_some_and (\<lambda>l. (i, off) \<in> contents (lr_inline_extents l) x) clone_layout \<or>
    is_some_and (\<lambda>l. (i, off) \<in> contents (lr_inline_extents l) x) base_layout"
proof (cases "find (\<lambda>(j, _). j = ex_chunk_id e) receipts")
  case None
  have "(i, off) \<in> contents (lr_inline_extents l) x" if "extent_is_inherited e l" for l
    using that cut_of_maps assms(2) by (fastforce simp: extent_is_inherited_iff contents_def)
  with None assms(1) show ?thesis by (auto simp: grounded_def is_some_and_def split: option.splits)
next
  case (Some r)
  obtain j n where r: "r = (j, n)" by (cases r)
  have "j = ex_chunk_id e" "(j, n) \<in> set receipts"
    using Some by (auto simp: find_Some_iff in_set_conv_nth r)
  with Some r assms show ?thesis by (fastforce simp: grounded_def maps_at_def split: if_splits)
qed

lemma clone_layout_ok:
  assumes "layout_ok base" "layout_ok source" "clone_allowed source clone"
  shows "\<exists>root. clone_file_layout base source clone i = Inr root \<and> lr_id root = i \<and>
    unat (lr_file_length root) =
      max (unat (lr_file_length base)) (unat (cr_destination_offset clone) + unat (cr_length clone)) \<and>
    layout_ok root \<and>
    (\<forall>x. contents (lr_inline_extents root) x =
      (if unat (cr_destination_offset clone) \<le> x \<and> x < unat (cr_destination_offset clone) + unat (cr_length clone)
       then contents (lr_inline_extents source) (x - unat (cr_destination_offset clone) + unat (cr_source_offset clone))
       else contents (lr_inline_extents base) x))"
proof -
  let ?lo = "cr_source_offset clone" and ?hi = "cr_source_offset clone + cr_length clone"
    and ?d = "cr_destination_offset clone" and ?t = "cr_destination_offset clone + cr_length clone"
  let ?len = "max (unat (lr_file_length base)) (unat ?t)"
  let ?es = "cloned_extents (lr_inline_extents base) (lr_inline_extents source) ?lo ?hi ?d ?t"
  note bs = layout_okD [OF assms(1)] and ss = layout_okD [OF assms(2)]
  have ok: "\<forall>e \<in> set (lr_inline_extents base). extent_ok e" "\<forall>e \<in> set (lr_inline_extents source). extent_ok e"
    using bs(1) ss(1) by (auto simp: fits_file_def)
  note exact = clone_exact [OF ok assms(3)]
  have ends: "unat ?t = unat ?d + (unat ?hi - unat ?lo)" "?lo \<le> ?hi" "?d \<le> ?t"
    using exact(2,3) by (simp_all add: word_le_nat_alt)
  have len: "?len < 2 ^ 64" using u64_bound [of "lr_file_length base"] u64_bound [of ?t] by simp
  have wide: "fits_file ?len e" if "e \<in> set (lr_inline_extents base)" for e
    using bs(1) that by (auto simp: fits_file_def)
  have "fits_file ?len s" if "e \<in> set (lr_inline_extents base)" "s \<in> set (keep_slices ?d ?t e)" for e s
    using keep_slices_fits [OF wide [OF that(1)] ends(3) len that(2)] .
  moreover have "fits_file ?len s" if "e \<in> set (lr_inline_extents source)" "s \<in> set (move_slices ?lo ?hi ?d e)" for e s
    using ok(2) that(1) by (intro move_slices_fits [OF _ ends(2) _ len that(2)]) (auto simp: ends(1) [symmetric])
  ultimately have "\<forall>e \<in> set ?es. fits_file ?len e" by (auto simp: cloned_extents_def)
  then have "ordered_from 0 ?len (sort_key ex_file_offset ?es)"
    by (intro ordered_from_sort cloned_extents_apart [OF ok ends(1,2) bs(2) ss(2)])
  then show ?thesis
    using exact(1) by (simp add: layout_ok_def unat_max_word exact(3) cloned_extents_contents [OF ok ends(1,2)])
qed

section \<open>Properties\<close>

text \<open>
  C29. Cloning a range between two committed layouts either fails with the range error, exactly when
  the range is empty, overflows or leaves the source file, or gives a committed layout that maps every
  position of the destination range to the byte of the source at the same distance, and every other
  position as the destination did. The cloned file ends at the later of the two ends.
\<close>

theorem clone_moves_the_range:
  assumes "layout_ok base" "layout_ok source"
  shows "case clone_file_layout base source clone i of
      Inl e \<Rightarrow> e = invalid_clone \<and> \<not> clone_allowed source clone
    | Inr root \<Rightarrow> clone_allowed source clone \<and> layout_ok root \<and> lr_id root = i \<and>
        unat (lr_file_length root) =
          max (unat (lr_file_length base)) (unat (cr_destination_offset clone) + unat (cr_length clone)) \<and>
        contents (lr_inline_extents root) x =
          (if unat (cr_destination_offset clone) \<le> x \<and> x < unat (cr_destination_offset clone) + unat (cr_length clone)
           then contents (lr_inline_extents source)
                  (x - unat (cr_destination_offset clone) + unat (cr_source_offset clone))
           else contents (lr_inline_extents base) x)"
proof (cases "clone_allowed source clone")
  case True
  with clone_layout_ok [OF assms True, of i] show ?thesis by auto
next
  case False
  then show ?thesis by (simp add: clone_refused)
qed

definition demo_extent :: "u64 \<Rightarrow> u64 \<Rightarrow> string \<Rightarrow> u64 \<Rightarrow> extent" where
  "demo_extent f l c k = \<lparr>ex_file_offset = f, ex_length = l, ex_chunk_id = c, ex_chunk_offset = k\<rparr>"

definition demo_base :: layout_root where
  "demo_base = \<lparr>lr_id = ''b'', lr_file_length = 100,
     lr_inline_extents = [demo_extent 0 50 ''c'' 0, demo_extent 60 40 ''d'' 8]\<rparr>"

definition demo_source :: layout_root where
  "demo_source = \<lparr>lr_id = ''s'', lr_file_length = 30, lr_inline_extents = [demo_extent 0 30 ''e'' 4]\<rparr>"

definition demo_clone :: clone_file_range where
  "demo_clone = \<lparr>cr_version = ''v'', cr_source_offset = 10, cr_destination_offset = 40, cr_length = 20\<rparr>"

lemma demo_ok: "layout_ok demo_base" "layout_ok demo_source" "clone_allowed demo_source demo_clone"
  by (simp_all add: layout_ok_def demo_base_def demo_source_def demo_extent_def extent_ok_def clone_allowed_def demo_clone_def)

theorem clone_moves_the_range_witness:
  "case clone_file_layout demo_base demo_source demo_clone ''n'' of
     Inl e \<Rightarrow> False
   | Inr root \<Rightarrow> layout_ok root \<and> lr_file_length root = 100 \<and> contents (lr_inline_extents root) 45 = {(''e'', 19)}"
  using clone_moves_the_range [OF demo_ok(1,2), of demo_clone "''n''" 45] demo_ok(3)
  by (auto simp: demo_clone_def demo_source_def demo_base_def demo_extent_def maps_at_def word_unat_eq_iff
      split: sum.splits)

text \<open>
  C30. The layout a clone computes from two committed layouts passes the metadata service's extent
  check of the commit that publishes it, with no chunk receipts: it is in order, inside the file and
  every extent is one of the declared clone.
\<close>

theorem clone_is_committed:
  assumes "layout_ok base" "layout_ok source" "clone_file_layout base source clone i = Inr root"
  shows "commit_extents (lr_file_length root) [] (Some root) b 0 (lr_inline_extents root) = Inr ()"
proof -
  have allowed: "clone_allowed source clone"
    using clone_refused [of source clone base i] assms(3) by fastforce
  have "layout_ok root" using clone_layout_ok [OF assms(1,2) allowed, of i] assms(3) by auto
  then show ?thesis
    using layout_okD(1) [of root]
    by (auto simp: commit_extents_iff layout_ok_def grounded_def extent_is_inherited_iff fits_file_def extent_ok_def
        intro: cut_of_refl)
qed

theorem clone_is_committed_witness:
  "case clone_file_layout demo_base demo_source demo_clone ''n'' of
     Inl e \<Rightarrow> False
   | Inr root \<Rightarrow> commit_extents (lr_file_length root) [] (Some root) (Some demo_base) 0 (lr_inline_extents root) = Inr ()"
  using clone_is_committed [OF demo_ok(1,2), of demo_clone "''n''" _ "Some demo_base"]
    clone_layout_ok [OF demo_ok, of "''n''"] by auto

text \<open>
  C31. A node that publishes extents over a committed base layout produces a layout of the new length
  that maps the published bytes where there are some, the base's bytes elsewhere below the new length
  and nothing beyond it, and the metadata service accepts its extents, given a receipt for the chunk
  of every published extent and receipts at least as long as the base's uses of the same chunks.
\<close>

theorem publication_is_committed:
  assumes "layout_ok base" "publishable logical_length ps"
    and "list_all (\<lambda>e. case find (\<lambda>(i, _). i = ex_chunk_id e) receipts of
           None \<Rightarrow> False | Some (_, n) \<Rightarrow> unat (ex_chunk_offset e) + unat (ex_length e) \<le> unat n) ps"
    and "list_all (\<lambda>e. case find (\<lambda>(i, _). i = ex_chunk_id e) receipts of
           None \<Rightarrow> True | Some (_, n) \<Rightarrow> unat (ex_chunk_offset e) + unat (ex_length e) \<le> unat n) (lr_inline_extents base)"
  shows "case layout_from_publication base logical_length i ps of
      Inl e \<Rightarrow> False
    | Inr root \<Rightarrow> layout_ok root \<and> lr_file_length root = logical_length \<and>
        contents (lr_inline_extents root) x =
          (if contents ps x \<noteq> {} then contents ps x
           else if x < unat logical_length then contents (lr_inline_extents base) x else {}) \<and>
        commit_extents logical_length receipts None (Some base) 0 (lr_inline_extents root) = Inr ()"
proof -
  obtain root where root: "layout_from_publication base logical_length i ps = Inr root" "layout_ok root"
    "lr_file_length root = logical_length"
    "\<forall>x. contents (lr_inline_extents root) x =
       (if contents ps x \<noteq> {} then contents ps x
        else if x < unat logical_length then contents (lr_inline_extents base) x else {})"
    "\<forall>e \<in> set (lr_inline_extents root). e \<in> set ps \<or> (\<exists>b \<in> set (lr_inline_extents base). cut_of e b)"
    using publication_exact [OF assms(1,2), of i] by blast
  have cut: "grounded receipts None (Some base) e"
    if e: "fits_file (unat logical_length) e" and b: "b \<in> set (lr_inline_extents base)" "cut_of e b" for e b
  proof -
    have "fits_file (unat (lr_file_length base)) b" using layout_okD(1) [OF assms(1)] b(1) by blast
    moreover have "case find (\<lambda>(i, _). i = ex_chunk_id b) receipts of
           None \<Rightarrow> True | Some (_, n) \<Rightarrow> unat (ex_chunk_offset b) + unat (ex_length b) \<le> unat n"
      using assms(4) b(1) by (simp add: list_all_iff)
    ultimately show ?thesis
      using e b by (auto simp: grounded_def cut_of_def extent_is_inherited_iff fits_file_def extent_ok_def split: option.splits)
  qed
  have "grounded receipts None (Some base) e" if "e \<in> set ps" for e
    using assms(3) that by (auto simp: grounded_def list_all_iff split: option.splits)
  with cut layout_okD(1) [OF root(2)] root(3,5)
  have "\<forall>e \<in> set (lr_inline_extents root). grounded receipts None (Some base) e" by metis
  with root show ?thesis by (simp add: commit_extents_iff layout_ok_def)
qed

theorem publication_is_committed_witness:
  "case layout_from_publication demo_base 80 ''n'' [demo_extent 40 30 ''f'' 0] of
     Inl e \<Rightarrow> False
   | Inr root \<Rightarrow> contents (lr_inline_extents root) 45 = {(''f'', 5)} \<and>
       commit_extents 80 [(''f'', 30)] None (Some demo_base) 0 (lr_inline_extents root) = Inr ()"
  using publication_is_committed [of demo_base 80 "[demo_extent 40 30 ''f'' 0]" "[(''f'', 30)]" 45 "''n''"] demo_ok(1)
  by (simp add: publishable_def fits_file_def extent_ok_def demo_base_def demo_extent_def maps_at_def split: sum.splits)

text \<open>
  C32. A layout the metadata service accepts is in order and inside the file, and every byte it maps
  lies in a chunk a receipt of the commit vouches for, or is the byte the declared clone or the expected
  base version maps at the same file position.
\<close>

theorem accepted_bytes_are_grounded:
  assumes "commit_extents file_length receipts clone_layout base_layout 0 es = Inr ()" "(i, off) \<in> contents es x"
  shows "ordered_from 0 (unat file_length) es \<and> x < unat file_length \<and>
    ((\<exists>n. (i, n) \<in> set receipts \<and> off < unat n) \<or>
     is_some_and (\<lambda>l. (i, off) \<in> contents (lr_inline_extents l) x) clone_layout \<or>
     is_some_and (\<lambda>l. (i, off) \<in> contents (lr_inline_extents l) x) base_layout)"
proof -
  have ok: "ordered_from 0 (unat file_length) es" "\<forall>e \<in> set es. grounded receipts clone_layout base_layout e"
    using assms(1) by (simp_all add: commit_extents_iff)
  obtain e where e: "e \<in> set es" "maps_at e x = Some (i, off)" using assms(2) by (auto simp: contents_def)
  moreover have "x < unat file_length"
    using ordered_from_fits [OF ok(1)] e by (fastforce simp: fits_file_def maps_at_def split: if_splits)
  ultimately show ?thesis using ok grounded_bytes [of receipts clone_layout base_layout e x i off] by blast
qed

theorem accepted_bytes_are_grounded_witness:
  "commit_extents 80 [(''f'', 30)] None (Some demo_base) 0 [demo_extent 0 40 ''c'' 0, demo_extent 40 30 ''f'' 0] = Inr () \<and>
   (''f'', 5) \<in> contents [demo_extent 0 40 ''c'' 0, demo_extent 40 30 ''f'' 0] 45 \<and>
   ordered_from 0 80 [demo_extent 0 40 ''c'' 0, demo_extent 40 30 ''f'' 0]"
proof -
  let ?es = "[demo_extent 0 40 ''c'' 0, demo_extent 40 30 ''f'' 0]"
  have "commit_extents 80 [(''f'', 30)] None (Some demo_base) 0 ?es = Inr ()" "(''f'', 5) \<in> contents ?es 45"
    by (simp_all add: commit_extents_iff grounded_def extent_is_inherited_iff cut_of_def demo_base_def demo_extent_def
        extent_ok_def maps_at_def del: commit_extents.simps)
  with accepted_bytes_are_grounded [of 80 "[(''f'', 30)]" None "Some demo_base" ?es "''f''" 5 45] show ?thesis
    by (simp del: commit_extents.simps ordered_from.simps)
qed

end
