(* ===== verification/Afs_Read_Index.thy ===== *)
theory Afs_Read_Index
  imports Afs_Layout "HOL-Library.Product_Lexorder" "HOL-Library.Multiset"
begin

text \<open>
  Reading a range of an immutable layout (\<^verbatim>\<open>afs/src/node/vfs/dfs.rs\<close>, \<^verbatim>\<open>LayoutReadIndex\<close>): extents are
  sorted by position under the running maximum of their ends, so that a read finds its extents by two
  searches. The lemmas show that it finds what a scan of the whole layout would, in the same order.
\<close>

section \<open>Definitions\<close>

record chunk_read_op =
  op_chunk_id :: string
  op_chunk_offset :: u64
  op_length :: u64
  op_output_offset :: nat

record indexed_extent =
  ie_original :: nat
  ie_max_end :: u64

record layout_read_index =
  ri_entries :: "indexed_extent list"
  ri_serialization_ordered :: bool

definition extent_read_op :: "extent \<Rightarrow> u64 \<Rightarrow> u64 \<Rightarrow> chunk_read_op option afs_result" where
  "extent_read_op e offset stop =
     bindE (add_or (invalid_vfs ''extent range overflow'') (ex_file_offset e) (ex_length e)) (\<lambda>extent_end.
     let start = max offset (ex_file_offset e); last = min stop extent_end in
     if start \<ge> last then Inr None
     else bindE (add_or (invalid_vfs ''chunk read offset overflow'') (ex_chunk_offset e) (start - ex_file_offset e))
       (\<lambda>chunk_offset. Inr (Some
          \<lparr>op_chunk_id = ex_chunk_id e, op_chunk_offset = chunk_offset, op_length = last - start,
           op_output_offset = unat (start - offset)\<rparr>)))"

fun index_entries :: "nat \<Rightarrow> extent list \<Rightarrow> indexed_extent list afs_result" where
  "index_entries original [] = Inr []"
| "index_entries original (e # es) =
     bindE (add_or (invalid_vfs ''extent range overflow'') (ex_file_offset e) (ex_length e)) (\<lambda>max_end.
     bindE (index_entries (Suc original) es) (\<lambda>rest.
     Inr (\<lparr>ie_original = original, ie_max_end = max_end\<rparr> # rest)))"

fun running_max :: "u64 \<Rightarrow> indexed_extent list \<Rightarrow> indexed_extent list" where
  "running_max max_end [] = []"
| "running_max max_end (entry # entries) =
     (let max_end' = max max_end (ie_max_end entry)
      in entry\<lparr>ie_max_end := max_end'\<rparr> # running_max max_end' entries)"

definition LayoutReadIndex_new :: "extent list \<Rightarrow> layout_read_index afs_result" where
  "LayoutReadIndex_new extents =
     bindE (index_entries 0 extents) (\<lambda>entries.
     let entries = running_max 0
           (sort_key (\<lambda>entry. (ex_file_offset (extents ! ie_original entry), ie_original entry)) entries) in
     Inr \<lparr>ri_entries = entries,
          ri_serialization_ordered =
            list_all (\<lambda>(a, b). ie_original a < ie_original b) (zip entries (tl entries))\<rparr>)"

text \<open>The first position at which a predicate fails that holds on a prefix only.\<close>

definition partition_point :: "('a \<Rightarrow> bool) \<Rightarrow> 'a list \<Rightarrow> nat" where
  "partition_point p xs = length (takeWhile p xs)"

fun read_each :: "extent list \<Rightarrow> u64 \<Rightarrow> u64 \<Rightarrow> nat list \<Rightarrow> chunk_read_op list afs_result" where
  "read_each extents offset stop [] = Inr []"
| "read_each extents offset stop (original # originals) =
     (if original < length extents
      then bindE (extent_read_op (extents ! original) offset stop) (\<lambda>op.
           bindE (read_each extents offset stop originals) (\<lambda>ops.
           Inr (case op of None \<Rightarrow> ops | Some op \<Rightarrow> op # ops)))
      else Inl (AfsPanic ''index out of bounds''))"

text \<open>An index is only asked about the extents it was made from, where every position is in range.\<close>

definition LayoutReadIndex_ops ::
  "layout_read_index \<Rightarrow> extent list \<Rightarrow> u64 \<Rightarrow> u64 \<Rightarrow> chunk_read_op list afs_result" where
  "LayoutReadIndex_ops index extents offset len =
     bindE (add_or (invalid_vfs ''read range overflow'') offset len) (\<lambda>stop.
     let first = partition_point (\<lambda>entry. ie_max_end entry \<le> offset) (ri_entries index);
         last = partition_point (\<lambda>entry. ex_file_offset (extents ! ie_original entry) < stop) (ri_entries index) in
     if first \<ge> last then Inr []
     else let candidates = map ie_original (take (last - first) (drop first (ri_entries index))) in
       if ri_serialization_ordered index then read_each extents offset stop candidates
       else read_each extents offset stop (sort candidates))"

section \<open>The candidates of a read\<close>

lemma read_each_skip:
  assumes "sorted_wrt (<) is" "sorted_wrt (<) js" "\<forall>i \<in> set is \<union> set js. i < length extents"
    and "\<forall>i. (i \<in> set is) \<noteq> (i \<in> set js) \<longrightarrow> extent_read_op (extents ! i) offset stop = Inr None"
  shows "read_each extents offset stop is = read_each extents offset stop js"
proof -
  have drop_none: "read_each extents offset stop ks =
      read_each extents offset stop (filter (\<lambda>i. extent_read_op (extents ! i) offset stop \<noteq> Inr None) ks)"
    if "\<forall>i \<in> set ks. i < length extents" for ks
    using that
  proof (induction ks)
    case (Cons k ks)
    show ?case
    proof (cases "extent_read_op (extents ! k) offset stop = Inr None")
      case True
      have id: "bindE r Inr = r" for r :: "chunk_read_op list afs_result" by (cases r) auto
      show ?thesis using Cons True by (simp add: id)
    qed (use Cons in simp)
  qed simp
  have "filter (\<lambda>i. extent_read_op (extents ! i) offset stop \<noteq> Inr None) is =
      filter (\<lambda>i. extent_read_op (extents ! i) offset stop \<noteq> Inr None) js"
    using assms(1,2,4) by (intro strict_sorted_equal) (auto simp: sorted_wrt_filter)
  with drop_none [of "is"] drop_none [of js] assms(3) show ?thesis by simp
qed

lemma index_entries_ok:
  assumes "index_entries n es = Inr entries"
  shows "map ie_original entries = [n ..< n + length es] \<and>
    (\<forall>x \<in> set entries. unat (ie_max_end x) =
       unat (ex_file_offset (es ! (ie_original x - n))) + unat (ex_length (es ! (ie_original x - n)))) \<and>
    (\<forall>e \<in> set es. unat (ex_file_offset e) + unat (ex_length e) < 2 ^ 64)"
  using assms
proof (induction es arbitrary: n entries)
  case (Cons e es)
  obtain m rest where m: "unat m = unat (ex_file_offset e) + unat (ex_length e)"
    and rest: "index_entries (Suc n) es = Inr rest"
    and entries: "entries = \<lparr>ie_original = n, ie_max_end = m\<rparr> # rest"
    using Cons.prems by (auto simp: result_simps add_or_eq)
  note IH = Cons.IH [OF rest]
  have "\<forall>x \<in> set rest. n < ie_original x"
  proof
    fix x assume "x \<in> set rest"
    then have "ie_original x \<in> set (map ie_original rest)" by simp
    with IH show "n < ie_original x" by (metis Suc_le_eq atLeastLessThan_iff set_upt)
  qed
  moreover have "unat (ex_file_offset e) + unat (ex_length e) < 2 ^ 64" using m u64_bound [of m] by simp
  ultimately show ?case
    using IH m by (auto simp: entries upt_conv_Cons nth_Cons' Suc_le_eq Suc_diff_Suc)
qed simp

lemma running_max_facts:
  "map ie_original (running_max m es) = map ie_original es"
  "sorted_wrt (\<lambda>a b. ie_max_end a \<le> ie_max_end b) (running_max m es) \<and> (\<forall>a \<in> set (running_max m es). m \<le> ie_max_end a)"
  "x \<in> set (running_max m es) \<Longrightarrow> \<exists>y \<in> set es. ie_original y = ie_original x \<and> ie_max_end y \<le> ie_max_end x"
  by (induction es arbitrary: m) (fastforce simp: Let_def)+

lemma dropWhile_refused:
  assumes "sorted_wrt R xs" "\<And>a b. R a b \<Longrightarrow> p b \<Longrightarrow> p a" "x \<in> set (dropWhile p xs)"
  shows "\<not> p x"
  using assms(1,3)
proof (induction xs)
  case (Cons a xs)
  then show ?case using assms(2) by (auto split: if_splits)
qed simp

text \<open>What is outside the two bounds of a search is before the first or after the last.\<close>

lemma between_points:
  assumes "x \<in> set xs" "x \<notin> set (take (partition_point q xs - partition_point p xs) (drop (partition_point p xs) xs))"
  shows "x \<in> set (takeWhile p xs) \<or> x \<in> set (dropWhile q xs)"
proof -
  let ?f = "partition_point p xs" and ?l = "partition_point q xs"
  have ends: "take ?f xs = takeWhile p xs" "drop ?l xs = dropWhile q xs"
    by (simp_all add: partition_point_def takeWhile_eq_take [symmetric] dropWhile_eq_drop [symmetric])
  have "x \<in> set (take ?f xs) \<or> x \<in> set (drop ?f xs)"
    using assms(1) by (metis Un_iff append_take_drop_id set_append)
  moreover have "x \<in> set (drop ?l xs)" if "x \<in> set (drop ?f xs)"
  proof -
    have "x \<in> set (drop (?l - ?f) (drop ?f xs))"
      using that assms(2) by (metis Un_iff append_take_drop_id set_append)
    then have "x \<in> set (drop (?l - ?f + ?f) xs)" by simp
    moreover have "set (drop (?l - ?f + ?f) xs) \<subseteq> set (drop ?l xs)"
      by (rule set_drop_subset_set_drop) simp
    ultimately show ?thesis by blast
  qed
  ultimately show ?thesis by (auto simp: ends)
qed

lemma extent_read_op_none:
  assumes "unat (ex_file_offset e) + unat (ex_length e) < 2 ^ 64"
    and "unat (ex_file_offset e) + unat (ex_length e) \<le> unat offset \<or> stop \<le> ex_file_offset e"
  shows "extent_read_op e offset stop = Inr None"
proof -
  have "unat (ex_file_offset e + ex_length e) = unat (ex_file_offset e) + unat (ex_length e)"
    using assms(1) by (simp add: unat_word_ariths)
  with assms show ?thesis
    by (auto simp: extent_read_op_def add_or_ok Let_def word_le_nat_alt unat_max_word unat_min_word)
qed

lemma windows_sorted:
  "list_all (\<lambda>(a, b). f a < f b) (zip xs (tl xs)) \<longleftrightarrow> sorted_wrt (<) (map f xs :: nat list)"
proof (induction xs)
  case (Cons x xs)
  show ?case
  proof (cases xs)
    case ys: (Cons y ys)
    with Cons.IH show ?thesis by fastforce
  qed simp
qed simp

lemma index_facts:
  assumes "LayoutReadIndex_new es = Inr index"
  shows "distinct (map ie_original (ri_entries index))" "set (map ie_original (ri_entries index)) = {0 ..< length es}"
    "sorted_wrt (\<lambda>a b. ie_max_end a \<le> ie_max_end b) (ri_entries index)"
    "sorted_wrt (\<lambda>a b. ex_file_offset (es ! ie_original a) \<le> ex_file_offset (es ! ie_original b)) (ri_entries index)"
    "\<forall>x \<in> set (ri_entries index). unat (ex_file_offset (es ! ie_original x)) + unat (ex_length (es ! ie_original x))
       \<le> unat (ie_max_end x)"
    "\<forall>e \<in> set es. unat (ex_file_offset e) + unat (ex_length e) < 2 ^ 64"
    "ri_serialization_ordered index \<longleftrightarrow> sorted_wrt (<) (map ie_original (ri_entries index))"
proof -
  let ?key = "\<lambda>entry. (ex_file_offset (es ! ie_original entry), ie_original entry)"
  obtain entries where entries: "index_entries 0 es = Inr entries"
    and index: "ri_entries index = running_max 0 (sort_key ?key entries)"
      "ri_serialization_ordered index \<longleftrightarrow>
        list_all (\<lambda>(a, b). ie_original a < ie_original b) (zip (ri_entries index) (tl (ri_entries index)))"
    using assms by (auto simp: LayoutReadIndex_new_def result_simps Let_def)
  note ok = index_entries_ok [OF entries]
  have originals: "map ie_original (ri_entries index) = map ie_original (sort_key ?key entries)"
    by (simp add: index(1) running_max_facts(1))
  have "mset (map ie_original (ri_entries index)) = mset (map ie_original entries)"
    unfolding originals by simp
  then have perm: "mset (map ie_original (ri_entries index)) = mset [0 ..< length es]" using ok by simp
  show "distinct (map ie_original (ri_entries index))" using mset_eq_imp_distinct_iff [OF perm] by simp
  show "set (map ie_original (ri_entries index)) = {0 ..< length es}" using mset_eq_setD [OF perm] by simp
  show "sorted_wrt (\<lambda>a b. ie_max_end a \<le> ie_max_end b) (ri_entries index)"
    using running_max_facts(2) index(1) by simp
  have "sorted (map ?key (sort_key ?key entries))" by (rule sorted_sort_key)
  then have "sorted_wrt (\<lambda>a b. ex_file_offset (es ! ie_original a) \<le> ex_file_offset (es ! ie_original b))
      (sort_key ?key entries)"
    by (auto simp: sorted_map elim!: sorted_wrt_mono_rel [rotated])
  then have "sorted_wrt (\<lambda>i j. ex_file_offset (es ! i) \<le> ex_file_offset (es ! j)) (map ie_original (sort_key ?key entries))"
    by (simp add: sorted_wrt_map)
  then show "sorted_wrt (\<lambda>a b. ex_file_offset (es ! ie_original a) \<le> ex_file_offset (es ! ie_original b)) (ri_entries index)"
    by (simp add: sorted_wrt_map flip: originals)
  show "\<forall>x \<in> set (ri_entries index). unat (ex_file_offset (es ! ie_original x)) + unat (ex_length (es ! ie_original x))
       \<le> unat (ie_max_end x)"
  proof
    fix x assume "x \<in> set (ri_entries index)"
    then obtain y where "y \<in> set entries" "ie_original y = ie_original x" "ie_max_end y \<le> ie_max_end x"
      using running_max_facts(3) by (fastforce simp: index(1))
    with ok show "unat (ex_file_offset (es ! ie_original x)) + unat (ex_length (es ! ie_original x)) \<le> unat (ie_max_end x)"
      by (auto simp: word_le_nat_alt)
  qed
  show "\<forall>e \<in> set es. unat (ex_file_offset e) + unat (ex_length e) < 2 ^ 64" using ok by blast
  show "ri_serialization_ordered index \<longleftrightarrow> sorted_wrt (<) (map ie_original (ri_entries index))"
    by (simp only: index(2) windows_sorted)
qed

lemma sorted_sublist: "sorted_wrt R xs \<Longrightarrow> sorted_wrt R (take k (drop j xs))"
  by (simp add: sorted_wrt_drop sorted_wrt_take)

text \<open>A search finds what the scan of the whole layout would.\<close>

lemma candidates_suffice:
  fixes offset stop :: u64
  assumes "LayoutReadIndex_new es = Inr index"
  defines "p \<equiv> \<lambda>entry. ie_max_end entry \<le> offset" and "q \<equiv> \<lambda>entry. ex_file_offset (es ! ie_original entry) < stop"
  assumes "i < length es"
    and "i \<notin> set (map ie_original (take (partition_point q (ri_entries index) - partition_point p (ri_entries index))
             (drop (partition_point p (ri_entries index)) (ri_entries index))))"
  shows "extent_read_op (es ! i) offset stop = Inr None"
proof -
  note facts = index_facts [OF assms(1)]
  have range: "unat (ex_file_offset (es ! i)) + unat (ex_length (es ! i)) < 2 ^ 64" using facts(6) assms(4) by simp
  have "i \<in> set (map ie_original (ri_entries index))" using facts(2) assms(4) by simp
  then obtain x where x: "x \<in> set (ri_entries index)" "ie_original x = i" by auto
  then consider "x \<in> set (takeWhile p (ri_entries index))" | "x \<in> set (dropWhile q (ri_entries index))"
    using between_points [of x "ri_entries index" q p] assms(5) by auto
  then show ?thesis
  proof cases
    case 1
    then have "ie_max_end x \<le> offset" using set_takeWhileD by (fastforce simp: p_def)
    with facts(5) x range show ?thesis by (intro extent_read_op_none) (fastforce simp: word_le_nat_alt)+
  next
    case 2
    have "\<not> q x"
      using facts(4) by (rule dropWhile_refused [OF _ _ 2]) (auto simp: q_def)
    with x range show ?thesis by (intro extent_read_op_none) (auto simp: q_def)
  qed
qed

text \<open>The chunk bytes a list of reads brings to a position of the output.\<close>

definition reads :: "chunk_read_op list \<Rightarrow> nat \<Rightarrow> (string \<times> nat) set" where
  "reads ops y = {(op_chunk_id op, unat (op_chunk_offset op) + (y - op_output_offset op)) | op.
     op \<in> set ops \<and> op_output_offset op \<le> y \<and> y < op_output_offset op + unat (op_length op)}"

lemma reads_simps [simp]:
  "reads [] y = {}"
  "reads (op # ops) y =
     (if op_output_offset op \<le> y \<and> y < op_output_offset op + unat (op_length op)
      then {(op_chunk_id op, unat (op_chunk_offset op) + (y - op_output_offset op))} else {}) \<union> reads ops y"
  by (auto simp: reads_def)

lemma extent_read_op_exact:
  assumes "extent_ok e" "unat offset + unat len < 2 ^ 64"
  shows "\<exists>op. extent_read_op e offset (offset + len) = Inr op \<and>
    reads (case op of None \<Rightarrow> [] | Some op \<Rightarrow> [op]) y =
      (if y < unat len then set_option (maps_at e (unat offset + y)) else {})"
proof -
  let ?start = "max offset (ex_file_offset e)" and ?stop = "min (offset + len) (ext_end e)"
  have stop: "unat (offset + len) = unat offset + unat len" using assms(2) by (simp add: unat_word_ariths)
  note stop' = unat_ext_end [OF assms(1)]
  show ?thesis
  proof (cases "?start \<ge> ?stop")
    case True
    then have "extent_read_op e offset (offset + len) = Inr None"
      by (simp only: extent_read_op_def add_or_ext_end [OF assms(1)] bindE_simps Let_def if_True)
    moreover have "min (unat offset + unat len) (unat (ext_end e)) \<le> max (unat offset) (unat (ex_file_offset e))"
      using True by (simp only: word_le_nat_alt unat_max_word unat_min_word stop)
    ultimately show ?thesis using stop' by (auto simp: maps_at_def)
  next
    case False
    then have lt: "max (unat offset) (unat (ex_file_offset e)) < min (unat offset + unat len) (unat (ext_end e))"
      by (simp only: not_le word_less_nat_alt unat_max_word unat_min_word stop)
    have subs: "unat (?start - ex_file_offset e) = unat ?start - unat (ex_file_offset e)"
      "unat (?start - offset) = unat ?start - unat offset" "unat (?stop - ?start) = unat ?stop - unat ?start"
      using False by (simp_all only: unat_sub not_le less_imp_le max.cobounded1 max.cobounded2)
    have "unat (ex_chunk_offset e) + unat (?start - ex_file_offset e) < 2 ^ 64"
      using assms(1) lt stop' unfolding subs(1) unat_max_word extent_ok_def by linarith
    then have "extent_read_op e offset (offset + len) = Inr (Some
        \<lparr>op_chunk_id = ex_chunk_id e, op_chunk_offset = ex_chunk_offset e + (?start - ex_file_offset e),
         op_length = ?stop - ?start, op_output_offset = unat (?start - offset)\<rparr>)"
      and off: "unat (ex_chunk_offset e + (?start - ex_file_offset e)) =
        unat (ex_chunk_offset e) + unat (?start - ex_file_offset e)"
      using False
      by (simp_all only: extent_read_op_def add_or_ext_end [OF assms(1)] bindE_simps Let_def if_False add_or_ok)
        (simp add: unat_word_ariths)
    then show ?thesis
      using lt stop' by (auto simp: off subs unat_max_word unat_min_word stop maps_at_def)
  qed
qed

lemma read_each_exact:
  assumes "\<forall>e \<in> set es. extent_ok e" "unat offset + unat len < 2 ^ 64" "\<forall>i \<in> set is. i < length es"
  shows "\<exists>ops. read_each es offset (offset + len) is = Inr ops \<and>
    (\<forall>y. reads ops y = (if y < unat len then (\<Union>i \<in> set is. set_option (maps_at (es ! i) (unat offset + y))) else {}))"
  using assms(3)
proof (induction "is")
  case (Cons i "is")
  then obtain ops where ops: "read_each es offset (offset + len) is = Inr ops"
    "\<forall>y. reads ops y = (if y < unat len then (\<Union>i \<in> set is. set_option (maps_at (es ! i) (unat offset + y))) else {})"
    by auto
  have i: "i < length es" "extent_ok (es ! i)" using Cons.prems assms(1) by auto
  obtain op where op: "extent_read_op (es ! i) offset (offset + len) = Inr op"
    using extent_read_op_exact [OF i(2) assms(2)] by blast
  have op_reads: "reads (case op of None \<Rightarrow> [] | Some op \<Rightarrow> [op]) y =
      (if y < unat len then set_option (maps_at (es ! i) (unat offset + y)) else {})" for y
    using extent_read_op_exact [OF i(2) assms(2), of y] op by auto
  have "reads (case op of None \<Rightarrow> ops | Some op \<Rightarrow> op # ops) y =
      reads (case op of None \<Rightarrow> [] | Some op \<Rightarrow> [op]) y \<union> reads ops y" for y
    by (cases op) auto
  with ops op op_reads i(1) show ?case by auto
qed simp

lemma SUP_nth: "(\<Union>i \<in> {0 ..< length xs}. f (xs ! i)) = (\<Union>x \<in> set xs. f x)"
  by (fastforce simp: set_conv_nth)

lemma index_new_ok: "\<forall>e \<in> set es. extent_ok e \<Longrightarrow> \<exists>index. LayoutReadIndex_new es = Inr index"
proof -
  assume ok: "\<forall>e \<in> set es. extent_ok e"
  have "\<exists>entries. index_entries n es = Inr entries" for n
    using ok by (induction es arbitrary: n) (auto simp: add_or_ext_end bindE_eq_Inr)
  then show ?thesis by (auto simp: LayoutReadIndex_new_def Let_def bindE_eq_Inr)
qed

text \<open>The reads of an index are those of a scan.\<close>

lemma indexed_read_ops:
  assumes "LayoutReadIndex_new es = Inr index"
  shows "LayoutReadIndex_ops index es offset len =
    bindE (add_or (invalid_vfs ''read range overflow'') offset len) (\<lambda>stop.
      read_each es offset stop [0 ..< length es])"
proof -
  note facts = index_facts [OF assms]
  have scan: "LayoutReadIndex_ops index es offset len = read_each es offset stop [0 ..< length es]"
    if stop: "add_or (invalid_vfs ''read range overflow'') offset len = Inr stop" for stop
  proof -
    let ?first = "partition_point (\<lambda>entry. ie_max_end entry \<le> offset) (ri_entries index)"
    let ?last = "partition_point (\<lambda>entry. ex_file_offset (es ! ie_original entry) < stop) (ri_entries index)"
    let ?cs = "map ie_original (take (?last - ?first) (drop ?first (ri_entries index)))"
    have sub: "set ?cs \<subseteq> {0 ..< length es}"
      unfolding facts(2) [symmetric] set_map by (intro image_mono order_trans [OF set_take_subset set_drop_subset])
    have none: "extent_read_op (es ! i) offset stop = Inr None" if "i < length es" "i \<notin> set ?cs" for i
      by (rule candidates_suffice [OF assms that])
    have skip: "read_each es offset stop is = read_each es offset stop [0 ..< length es]"
      if "sorted_wrt (<) is" "set is = set ?cs" for "is"
      using that sub none by (intro read_each_skip) auto
    have "distinct ?cs" using facts(1) by (simp add: take_map [symmetric] drop_map [symmetric])
    then have "read_each es offset stop (sort ?cs) = read_each es offset stop [0 ..< length es]"
      by (intro skip) (auto simp: strict_sorted_iff)
    moreover have "read_each es offset stop ?cs = read_each es offset stop [0 ..< length es]"
      if "ri_serialization_ordered index"
      using facts(7) that by (intro skip) (auto simp: take_map [symmetric] drop_map [symmetric] sorted_sublist)
    ultimately show ?thesis
      by (auto simp: LayoutReadIndex_ops_def stop Let_def)
  qed
  show ?thesis
  proof (cases "add_or (invalid_vfs ''read range overflow'') offset len")
    case (Inl e)
    then show ?thesis by (simp add: LayoutReadIndex_ops_def)
  next
    case (Inr stop)
    then show ?thesis by (simp add: scan)
  qed
qed

section \<open>Properties\<close>

text \<open>
  C33. Reading through the index of a layout gives, for every range, the reads a scan of all extents
  in serialization order gives, or its first error, whether or not the layout is ordered and whether or
  not its extents overlap.
\<close>

theorem indexed_read_is_a_scan:
  assumes "LayoutReadIndex_new es = Inr index"
  shows "LayoutReadIndex_ops index es offset len =
    bindE (add_or (invalid_vfs ''read range overflow'') offset len) (\<lambda>stop.
      read_each es offset stop [0 ..< length es])"
  using assms by (rule indexed_read_ops)

text \<open>
  C34. For extents whose ranges fit 64 bits the index exists, a read inside 64 bits returns no error, and
  the reads bring to every position of the output exactly the chunk bytes the layout maps there, and
  nothing beyond the requested length.
\<close>

theorem indexed_read_is_exact:
  assumes "list_all extent_ok es" "unat offset + unat len < 2 ^ 64"
  shows "case LayoutReadIndex_new es of
      Inl e \<Rightarrow> False
    | Inr index \<Rightarrow> (case LayoutReadIndex_ops index es offset len of
          Inl e \<Rightarrow> False
        | Inr ops \<Rightarrow> reads ops y = (if y < unat len then contents es (unat offset + y) else {}))"
proof -
  have ok: "\<forall>e \<in> set es. extent_ok e" using assms(1) by (simp add: list_all_iff)
  obtain index where index: "LayoutReadIndex_new es = Inr index" using index_new_ok [OF ok] by blast
  obtain ops where ops: "read_each es offset (offset + len) [0 ..< length es] = Inr ops"
    "\<forall>y. reads ops y = (if y < unat len then (\<Union>i \<in> {0 ..< length es}. set_option (maps_at (es ! i) (unat offset + y))) else {})"
    using read_each_exact [OF ok assms(2), of "[0 ..< length es]"] by auto
  have "(\<Union>i \<in> {0 ..< length es}. set_option (maps_at (es ! i) x)) = contents es x" for x
    unfolding contents_union by (rule SUP_nth)
  with index ops show ?thesis by (simp add: indexed_read_ops [OF index] add_or_ok [OF assms(2)])
qed

definition demo_extents :: "extent list" where
  "demo_extents =
     [\<lparr>ex_file_offset = 40, ex_length = 10, ex_chunk_id = ''a'', ex_chunk_offset = 3\<rparr>,
      \<lparr>ex_file_offset = 0, ex_length = 100, ex_chunk_id = ''b'', ex_chunk_offset = 0\<rparr>]"

theorem indexed_read_is_a_scan_witness:
  "case LayoutReadIndex_new demo_extents of
     Inl e \<Rightarrow> False
   | Inr index \<Rightarrow> LayoutReadIndex_ops index demo_extents 45 10 = read_each demo_extents 45 55 [0, 1]"
proof -
  have "list_all extent_ok demo_extents" by (simp add: demo_extents_def extent_ok_def)
  then obtain index where index: "LayoutReadIndex_new demo_extents = Inr index"
    using index_new_ok [of demo_extents] by (auto simp: list_all_iff)
  have "[0 ..< length demo_extents] = [0, 1]" by (simp add: demo_extents_def)
  then show ?thesis
    using indexed_read_is_a_scan [OF index, of 45 10] by (simp only: index sum.case) (simp add: add_or_ok)
qed

theorem indexed_read_is_exact_witness:
  "case LayoutReadIndex_new demo_extents of
     Inl e \<Rightarrow> False
   | Inr index \<Rightarrow> (case LayoutReadIndex_ops index demo_extents 45 10 of
         Inl e \<Rightarrow> False
       | Inr ops \<Rightarrow> reads ops 2 = {(''a'', 10), (''b'', 47)} \<and> reads ops 7 = {(''b'', 52)})"
proof -
  have ok: "list_all extent_ok demo_extents" and at: "contents demo_extents 47 = {(''a'', 10), (''b'', 47)}"
    "contents demo_extents 52 = {(''b'', 52)}"
    by (auto simp: demo_extents_def extent_ok_def maps_at_def)
  obtain index where index: "LayoutReadIndex_new demo_extents = Inr index"
    using index_new_ok [of demo_extents] ok by (auto simp: list_all_iff)
  show ?thesis
    using indexed_read_is_exact [OF ok, of 45 10 2] indexed_read_is_exact [OF ok, of 45 10 7]
    by (cases "LayoutReadIndex_ops index demo_extents 45 10") (simp_all add: index at)
qed

end
