(* ===== verification/Lock_Table.thy ===== *)
theory Lock_Table
  imports Ordered_Map Rust_String
begin

text \<open>
  The advisory-lock table of an inode (\<^verbatim>\<open>afs/src/node/vfs/locks.rs\<close>, types in
  \<^verbatim>\<open>afs/src/node/vfs/types.rs\<close>). An operation returns its result, the new table and whether it woke the
  waiters. A blocking request is a loop around a condition variable: \<open>setlk_blocking_enter\<close> runs it up to
  the first wait and \<open>setlk_blocking_wake\<close> from one wait to the next.
\<close>

section \<open>Definitions\<close>

datatype file_lock_kind = Posix | Flock

datatype file_lock_type = ReadLock | WriteLock | Unlock

datatype file_lock_owner = FileLockOwner (ingress_session_id: string) (kernel_owner: u64)

datatype lock_waiter_id = LockWaiterId (waiter_session_id: string) (request_id: u64)

instantiation file_lock_kind :: linorder
begin

definition less_eq_file_lock_kind :: "file_lock_kind \<Rightarrow> file_lock_kind \<Rightarrow> bool" where
  "less_eq_file_lock_kind a b \<longleftrightarrow> a = Posix \<or> b = Flock"

definition less_file_lock_kind :: "file_lock_kind \<Rightarrow> file_lock_kind \<Rightarrow> bool" where
  "less_file_lock_kind a b \<longleftrightarrow> a = Posix \<and> b = Flock"

instance
  by standard (auto simp: less_eq_file_lock_kind_def less_file_lock_kind_def intro: file_lock_kind.exhaust)

end

instantiation file_lock_type :: linorder
begin

definition less_eq_file_lock_type :: "file_lock_type \<Rightarrow> file_lock_type \<Rightarrow> bool" where
  "less_eq_file_lock_type a b \<longleftrightarrow> a = ReadLock \<or> b = Unlock \<or> a = b"

definition less_file_lock_type :: "file_lock_type \<Rightarrow> file_lock_type \<Rightarrow> bool" where
  "less_file_lock_type a b \<longleftrightarrow> a \<noteq> b \<and> (a = ReadLock \<or> b = Unlock)"

instance
  by standard (auto simp: less_eq_file_lock_type_def less_file_lock_type_def intro: file_lock_type.exhaust)

end

instantiation file_lock_owner :: linorder
begin

definition less_eq_file_lock_owner :: "file_lock_owner \<Rightarrow> file_lock_owner \<Rightarrow> bool" where
  "less_eq_file_lock_owner a b \<longleftrightarrow> ingress_session_id a < ingress_session_id b \<or>
     ingress_session_id a = ingress_session_id b \<and> kernel_owner a \<le> kernel_owner b"

definition less_file_lock_owner :: "file_lock_owner \<Rightarrow> file_lock_owner \<Rightarrow> bool" where
  "less_file_lock_owner a b \<longleftrightarrow> ingress_session_id a < ingress_session_id b \<or>
     ingress_session_id a = ingress_session_id b \<and> kernel_owner a < kernel_owner b"

instance
  by standard
    (auto simp: less_eq_file_lock_owner_def less_file_lock_owner_def intro: file_lock_owner.expand)

end

instantiation lock_waiter_id :: linorder
begin

definition less_eq_lock_waiter_id :: "lock_waiter_id \<Rightarrow> lock_waiter_id \<Rightarrow> bool" where
  "less_eq_lock_waiter_id a b \<longleftrightarrow> waiter_session_id a < waiter_session_id b \<or>
     waiter_session_id a = waiter_session_id b \<and> request_id a \<le> request_id b"

definition less_lock_waiter_id :: "lock_waiter_id \<Rightarrow> lock_waiter_id \<Rightarrow> bool" where
  "less_lock_waiter_id a b \<longleftrightarrow> waiter_session_id a < waiter_session_id b \<or>
     waiter_session_id a = waiter_session_id b \<and> request_id a < request_id b"

instance
  by standard
    (auto simp: less_eq_lock_waiter_id_def less_lock_waiter_id_def intro: lock_waiter_id.expand)

end

record file_lock_range =
  start :: u64
  stop :: u64

definition is_valid :: "file_lock_range \<Rightarrow> bool" where
  "is_valid r \<longleftrightarrow> start r \<le> stop r"

definition overlaps :: "file_lock_range \<Rightarrow> file_lock_range \<Rightarrow> bool" where
  "overlaps r s \<longleftrightarrow> start r \<le> stop s \<and> start s \<le> stop r"

definition touches_or_overlaps :: "file_lock_range \<Rightarrow> file_lock_range \<Rightarrow> bool" where
  "touches_or_overlaps r s \<longleftrightarrow> overlaps r s \<or>
     is_some_and (\<lambda>next. next = start s) (checked_add (stop r) 1) \<or>
     is_some_and (\<lambda>next. next = start r) (checked_add (stop s) 1)"

datatype lock_waiter_outcome = Unknown | Cancelled | Granted

datatype lock_error = WouldBlock | Deadlock | Interrupted | Capacity | DuplicateWaiter | InvalidRange | Poisoned

definition errno :: "lock_error \<Rightarrow> int" where
  "errno e = (case e of WouldBlock \<Rightarrow> 11 | Deadlock \<Rightarrow> 35 | Interrupted \<Rightarrow> 4 | Capacity \<Rightarrow> 37
     | DuplicateWaiter \<Rightarrow> 22 | InvalidRange \<Rightarrow> 22 | Poisoned \<Rightarrow> 5)"

record lock_table_limits =
  max_locks :: nat
  max_waiters :: nat
  max_cancelled_waiters :: nat

record active_lock =
  al_kind :: file_lock_kind
  al_owner :: file_lock_owner
  al_pid :: u32
  al_range :: file_lock_range
  al_lock_type :: file_lock_type
  al_seq :: u64

record file_lock_conflict =
  fc_kind :: file_lock_kind
  fc_owner :: file_lock_owner
  fc_pid :: u32
  fc_range :: file_lock_range
  fc_lock_type :: file_lock_type

record waiting_lock =
  wl_owner :: file_lock_owner
  wl_kind :: file_lock_kind
  wl_blockers :: "file_lock_owner list"

record stored_waiter_outcome =
  so_outcome :: lock_waiter_outcome
  so_owner :: "file_lock_owner option"
  so_kind :: "file_lock_kind option"

record lock_table_state =
  lt_locks :: "active_lock list"
  lt_next_seq :: u64
  lt_waiters :: "(lock_waiter_id, waiting_lock) omap"
  lt_waiter_outcomes :: "(lock_waiter_id, stored_waiter_outcome) omap"
  lt_retired_waiters :: "lock_waiter_id oset"
  lt_closed_sessions :: "string oset"
  lt_closed_session_admission_closed :: bool
  lt_invalidated :: bool

record lock_request =
  rq_kind :: file_lock_kind
  rq_owner :: file_lock_owner
  rq_pid :: u32
  rq_range :: file_lock_range
  rq_lock_type :: file_lock_type

type_synonym 'a lock_result = "lock_error + 'a"

definition LockTable_new :: lock_table_state where
  "LockTable_new = \<lparr>lt_locks = [], lt_next_seq = 0, lt_waiters = [], lt_waiter_outcomes = [], lt_retired_waiters = [],
     lt_closed_sessions = [], lt_closed_session_admission_closed = False, lt_invalidated = False\<rparr>"

definition conflict :: "active_lock \<Rightarrow> file_lock_conflict" where
  "conflict l = \<lparr>fc_kind = al_kind l, fc_owner = al_owner l, fc_pid = al_pid l, fc_range = al_range l,
     fc_lock_type = al_lock_type l\<rparr>"

definition conflicts :: "active_lock \<Rightarrow> lock_request \<Rightarrow> bool" where
  "conflicts l request \<longleftrightarrow> al_kind l = rq_kind request \<and> al_owner l \<noteq> rq_owner request \<and>
     overlaps (al_range l) (rq_range request) \<and>
     (al_lock_type l = WriteLock \<or> rq_lock_type request = WriteLock)"

definition validate_range :: "file_lock_range \<Rightarrow> unit lock_result" where
  "validate_range r = (if \<not> is_valid r then Inl InvalidRange else Inr ())"

definition first_conflict :: "active_lock list \<Rightarrow> lock_request \<Rightarrow> active_lock option" where
  "first_conflict locks request =
     (if rq_lock_type request = Unlock then None
      else case filter (\<lambda>l. conflicts l request) locks of
          [] \<Rightarrow> None
        | ls \<Rightarrow> Some (arg_min_list (\<lambda>l. (start (al_range l), al_seq l)) ls))"

fun blocking_owners_loop :: "lock_request \<Rightarrow> file_lock_owner list \<Rightarrow> active_lock list \<Rightarrow> file_lock_owner list" where
  "blocking_owners_loop request owners [] = owners"
| "blocking_owners_loop request owners (l # locks) =
     (if conflicts l request \<and> al_owner l \<notin> set owners
      then blocking_owners_loop request (owners @ [al_owner l]) locks
      else blocking_owners_loop request owners locks)"

definition blocking_owners :: "active_lock list \<Rightarrow> lock_request \<Rightarrow> file_lock_owner list" where
  "blocking_owners locks request = blocking_owners_loop request [] locks"

text \<open>
  The search for a cycle. \<open>waits_for_owner\<close> recurses through the recorded blockers with a shared set of
  visited owners; the first argument bounds the depth of the recursion, and \<^const>\<open>None\<close> means that the
  bound was reached.
\<close>

definition recorded_blockers :: "(lock_waiter_id, waiting_lock) omap \<Rightarrow> file_lock_owner \<Rightarrow> file_lock_owner list" where
  "recorded_blockers waiters current =
     concat (map wl_blockers (filter (\<lambda>waiter. wl_owner waiter = current) (map snd waiters)))"

fun waits_for_owner ::
  "nat \<Rightarrow> (lock_waiter_id, waiting_lock) omap \<Rightarrow> file_lock_owner list \<Rightarrow> file_lock_owner \<Rightarrow> file_lock_owner list \<Rightarrow>
   (bool \<times> file_lock_owner list) option" where
  "waits_for_owner depth waiters [] target visited = Some (False, visited)"
| "waits_for_owner 0 waiters (current # rest) target visited = None"
| "waits_for_owner (Suc depth) waiters (current # rest) target visited =
     (if current = target then Some (True, visited)
      else if current \<in> set visited then waits_for_owner (Suc depth) waiters rest target visited
      else case waits_for_owner depth waiters (recorded_blockers waiters current) target (current # visited) of
          None \<Rightarrow> None
        | Some (True, visited') \<Rightarrow> Some (True, visited')
        | Some (False, visited') \<Rightarrow> waits_for_owner (Suc depth) waiters rest target visited')"

definition would_deadlock ::
  "(lock_waiter_id, waiting_lock) omap \<Rightarrow> file_lock_owner \<Rightarrow> file_lock_owner list \<Rightarrow> bool" where
  "would_deadlock waiters owner blockers =
     (case waits_for_owner (Suc (length waiters)) waiters blockers owner [] of
        None \<Rightarrow> False | Some (found, _) \<Rightarrow> found)"

subsection \<open>Changing the locks of an owner\<close>

definition saturating_add :: "u64 \<Rightarrow> u64 \<Rightarrow> u64" where
  "saturating_add a b = (case checked_add a b of Some c \<Rightarrow> c | None \<Rightarrow> - 1)"

definition trim_lock :: "file_lock_kind \<Rightarrow> file_lock_owner \<Rightarrow> file_lock_range \<Rightarrow> active_lock \<Rightarrow> active_lock list" where
  "trim_lock kind owner remove l =
     (if al_kind l \<noteq> kind \<or> al_owner l \<noteq> owner \<or> \<not> overlaps (al_range l) remove then [l]
      else
        (if start (al_range l) < start remove
         then [l\<lparr>al_range := \<lparr>start = start (al_range l), stop = saturating_sub (start remove) 1\<rparr>\<rparr>] else []) @
        (if stop (al_range l) > stop remove
         then [l\<lparr>al_range := \<lparr>start = saturating_add (stop remove) 1, stop = stop (al_range l)\<rparr>\<rparr>] else []))"

definition trim_same_owner_range ::
  "active_lock list \<Rightarrow> file_lock_kind \<Rightarrow> file_lock_owner \<Rightarrow> file_lock_range \<Rightarrow> active_lock list" where
  "trim_same_owner_range locks kind owner remove = concat (map (trim_lock kind owner remove) locks)"

fun merge_locks :: "active_lock list \<Rightarrow> active_lock list \<Rightarrow> active_lock list" where
  "merge_locks merged [] = rev merged"
| "merge_locks [] (l # locks) = merge_locks [l] locks"
| "merge_locks (prev # merged) (l # locks) =
     (if al_kind prev = al_kind l \<and> al_owner prev = al_owner l \<and> al_lock_type prev = al_lock_type l \<and>
         touches_or_overlaps (al_range prev) (al_range l)
      then merge_locks
        (prev\<lparr>al_range := (al_range prev)\<lparr>stop := max (stop (al_range prev)) (stop (al_range l))\<rparr>,
              al_seq := min (al_seq prev) (al_seq l)\<rparr> # merged) locks
      else merge_locks (l # prev # merged) locks)"

definition coalesce :: "active_lock list \<Rightarrow> active_lock list" where
  "coalesce locks =
     merge_locks [] (sort_key (\<lambda>l. (al_kind l, al_owner l, al_lock_type l, start (al_range l), stop (al_range l), al_seq l))
       locks)"

definition apply_lock ::
  "lock_table_state \<Rightarrow> lock_table_limits \<Rightarrow> lock_request \<Rightarrow> unit lock_result \<times> lock_table_state" where
  "apply_lock st limits request =
     (let trimmed = trim_same_owner_range (lt_locks st) (rq_kind request) (rq_owner request) (rq_range request);
          (candidate, next_seq) =
            (if rq_lock_type request \<noteq> Unlock
             then (coalesce (trimmed @
                     [\<lparr>al_kind = rq_kind request, al_owner = rq_owner request, al_pid = rq_pid request,
                       al_range = rq_range request, al_lock_type = rq_lock_type request, al_seq = lt_next_seq st\<rparr>]),
                   lt_next_seq st + 1)
             else (trimmed, lt_next_seq st))
      in if length candidate > max_locks limits then (Inl Capacity, st)
         else (Inr (), st\<lparr>lt_locks := candidate, lt_next_seq := next_seq\<rparr>))"

subsection \<open>Outcomes of waiters\<close>

definition is_waiter_retired :: "lock_table_state \<Rightarrow> lock_waiter_id \<Rightarrow> bool" where
  "is_waiter_retired st w \<longleftrightarrow> w \<in> set (lt_retired_waiters st)"

definition retain_waiter_outcomes ::
  "lock_table_state \<Rightarrow> file_lock_owner \<Rightarrow> file_lock_kind option \<Rightarrow> lock_table_state" where
  "retain_waiter_outcomes st owner kind =
     st\<lparr>lt_waiter_outcomes := map (\<lambda>(w, stored).
         (w, if so_outcome stored = Granted \<and> so_owner stored = Some owner \<and> (kind = None \<or> so_kind stored = kind)
             then stored\<lparr>so_outcome := Cancelled\<rparr> else stored)) (lt_waiter_outcomes st)\<rparr>"

definition ensure_waiter_outcome_capacity ::
  "lock_table_state \<Rightarrow> lock_table_limits \<Rightarrow> lock_waiter_id \<Rightarrow> unit lock_result" where
  "ensure_waiter_outcome_capacity st limits w =
     (if \<not> om_has w (lt_waiter_outcomes st) \<and>
         length (lt_waiter_outcomes st) + length (lt_retired_waiters st) \<ge> max_cancelled_waiters limits
      then Inl Capacity else Inr ())"

definition remember_waiter_outcome ::
  "lock_table_state \<Rightarrow> lock_table_limits \<Rightarrow> lock_waiter_id \<Rightarrow> lock_waiter_outcome \<Rightarrow> file_lock_owner option \<Rightarrow>
   file_lock_kind option \<Rightarrow> unit lock_result \<times> lock_table_state" where
  "remember_waiter_outcome st limits w outcome owner kind =
     (case ensure_waiter_outcome_capacity st limits w of
        Inl e \<Rightarrow> (Inl e, st)
      | Inr _ \<Rightarrow> (Inr (), st\<lparr>lt_waiter_outcomes :=
          om_put w \<lparr>so_outcome = outcome, so_owner = owner, so_kind = kind\<rparr> (lt_waiter_outcomes st)\<rparr>))"

subsection \<open>Operations of the table\<close>

type_synonym 'a lock_op = "lock_table_state \<Rightarrow> 'a lock_result \<times> lock_table_state \<times> bool"

definition getlk :: "lock_request \<Rightarrow> lock_table_state \<Rightarrow> file_lock_conflict option lock_result" where
  "getlk request st =
     bindE (validate_range (rq_range request)) (\<lambda>_.
     if lt_invalidated st then Inl Interrupted
     else Inr (map_option conflict (first_conflict (lt_locks st) request)))"

definition setlk_nonblocking :: "lock_table_limits \<Rightarrow> lock_request \<Rightarrow> unit lock_op" where
  "setlk_nonblocking limits request st =
     (case validate_range (rq_range request) of
        Inl e \<Rightarrow> (Inl e, st, False)
      | Inr _ \<Rightarrow>
        if lt_invalidated st then (Inl Interrupted, st, False)
        else if rq_lock_type request \<noteq> Unlock \<and> ingress_session_id (rq_owner request) \<in> set (lt_closed_sessions st)
        then (Inl Interrupted, st, False)
        else if rq_lock_type request \<noteq> Unlock \<and> lt_closed_session_admission_closed st then (Inl Capacity, st, False)
        else if rq_lock_type request \<noteq> Unlock \<and> first_conflict (lt_locks st) request \<noteq> None
        then (Inl WouldBlock, st, False)
        else case apply_lock st limits request of
            (Inl e, st') \<Rightarrow> (Inl e, st', False)
          | (Inr _, st') \<Rightarrow> (Inr (), st', True))"

datatype blocking = Done "unit lock_result" | Waiting

text \<open>One pass of the loop of a blocking request, up to its next wait.\<close>

definition blocking_pass ::
  "lock_table_limits \<Rightarrow> lock_request \<Rightarrow> lock_waiter_id \<Rightarrow> bool \<Rightarrow> lock_table_state \<Rightarrow>
   blocking \<times> lock_table_state \<times> bool" where
  "blocking_pass limits request w registered st =
     (if \<not> registered \<and> om_has w (lt_waiters st) then (Done (Inl DuplicateWaiter), st, False)
      else if rq_lock_type request = Unlock \<or> first_conflict (lt_locks st) request = None
      then
        let st1 = (if registered then st\<lparr>lt_waiters := om_del w (lt_waiters st)\<rparr> else st) in
        case ensure_waiter_outcome_capacity st1 limits w of
          Inl e \<Rightarrow> (Done (Inl e), st1, False)
        | Inr _ \<Rightarrow>
            (case apply_lock st1 limits request of
               (Inl e, st2) \<Rightarrow> (Done (Inl e), st2, False)
             | (Inr _, st2) \<Rightarrow>
                 (Done (Inr ()),
                  st2\<lparr>lt_waiter_outcomes :=
                    om_put w \<lparr>so_outcome = Granted, so_owner = Some (rq_owner request), so_kind = Some (rq_kind request)\<rparr>
                      (lt_waiter_outcomes st2)\<rparr>, True))
      else
        let blockers = blocking_owners (lt_locks st) request in
        if would_deadlock (lt_waiters st) (rq_owner request) blockers
        then (Done (Inl Deadlock), if registered then st\<lparr>lt_waiters := om_del w (lt_waiters st)\<rparr> else st, False)
        else if \<not> registered then
          if length (lt_waiters st) \<ge> max_waiters limits then (Done (Inl Capacity), st, False)
          else (Waiting,
                st\<lparr>lt_waiters := om_put w \<lparr>wl_owner = rq_owner request, wl_kind = rq_kind request, wl_blockers = blockers\<rparr>
                     (lt_waiters st)\<rparr>, False)
        else
          (Waiting,
           (case map_of (lt_waiters st) w of
              None \<Rightarrow> st
            | Some waiter \<Rightarrow> st\<lparr>lt_waiters := om_put w (waiter\<lparr>wl_blockers := blockers\<rparr>) (lt_waiters st)\<rparr>), False))"

definition setlk_blocking_enter ::
  "lock_table_limits \<Rightarrow> lock_request \<Rightarrow> lock_waiter_id \<Rightarrow> lock_table_state \<Rightarrow> blocking \<times> lock_table_state \<times> bool" where
  "setlk_blocking_enter limits request w st =
     (case validate_range (rq_range request) of
        Inl e \<Rightarrow> (Done (Inl e), st, False)
      | Inr _ \<Rightarrow>
        if lt_invalidated st then (Done (Inl Interrupted), st, False)
        else if rq_lock_type request \<noteq> Unlock \<and>
          (ingress_session_id (rq_owner request) \<in> set (lt_closed_sessions st) \<or>
           waiter_session_id w \<in> set (lt_closed_sessions st))
        then (Done (Inl Interrupted), st, False)
        else if rq_lock_type request \<noteq> Unlock \<and> lt_closed_session_admission_closed st then (Done (Inl Capacity), st, False)
        else case map_option so_outcome (map_of (lt_waiter_outcomes st) w) of
            Some Cancelled \<Rightarrow> (Done (Inl Interrupted), st, False)
          | Some Unknown \<Rightarrow> (Done (Inl Interrupted), st, False)
          | Some Granted \<Rightarrow> (Done (Inl DuplicateWaiter), st, False)
          | None \<Rightarrow> if is_waiter_retired st w then (Done (Inl Interrupted), st, False)
                    else blocking_pass limits request w False st)"

definition setlk_blocking_wake ::
  "lock_table_limits \<Rightarrow> lock_request \<Rightarrow> lock_waiter_id \<Rightarrow> lock_table_state \<Rightarrow> blocking \<times> lock_table_state \<times> bool" where
  "setlk_blocking_wake limits request w st =
     (if lt_invalidated st \<or>
         is_some_and (\<lambda>stored. so_outcome stored = Cancelled) (map_of (lt_waiter_outcomes st) w) \<or>
         ingress_session_id (rq_owner request) \<in> set (lt_closed_sessions st) \<or>
         waiter_session_id w \<in> set (lt_closed_sessions st) \<or> \<not> om_has w (lt_waiters st)
      then (Done (Inl Interrupted), st\<lparr>lt_waiters := om_del w (lt_waiters st)\<rparr>, False)
      else blocking_pass limits request w True st)"

definition cancel_waiter_with_outcome :: "lock_table_limits \<Rightarrow> lock_waiter_id \<Rightarrow> lock_waiter_outcome lock_op" where
  "cancel_waiter_with_outcome limits w st =
     (if lt_invalidated st then (Inr Unknown, st, True)
      else case map_of (lt_waiters st) w of
        Some waiting \<Rightarrow>
          (case ensure_waiter_outcome_capacity st limits w of
             Inl e \<Rightarrow> (Inl e, st, False)
           | Inr _ \<Rightarrow>
               (case remember_waiter_outcome (st\<lparr>lt_waiters := om_del w (lt_waiters st)\<rparr>) limits w Cancelled
                       (Some (wl_owner waiting)) (Some (wl_kind waiting)) of
                  (Inl e, st') \<Rightarrow> (Inl e, st', False)
                | (Inr _, st') \<Rightarrow> (Inr Cancelled, st', True)))
      | None \<Rightarrow>
          (case map_of (lt_waiter_outcomes st) w of
             Some stored \<Rightarrow> (Inr (so_outcome stored), st, False)
           | None \<Rightarrow>
               if is_waiter_retired st w then (Inr Unknown, st, False)
               else if waiter_session_id w \<in> set (lt_closed_sessions st) \<or> lt_closed_session_admission_closed st
               then (Inr Unknown, st, True)
               else case remember_waiter_outcome st limits w Cancelled None None of
                   (Inl e, st') \<Rightarrow> (Inl e, st', False)
                 | (Inr _, st') \<Rightarrow> (Inr Unknown, st', True)))"

definition acknowledge_waiter :: "lock_waiter_id \<Rightarrow> lock_waiter_outcome option lock_op" where
  "acknowledge_waiter w st =
     (case map_of (lt_waiter_outcomes st) w of
        None \<Rightarrow> (Inr None, st, False)
      | Some stored \<Rightarrow>
          (Inr (Some (so_outcome stored)),
           st\<lparr>lt_waiter_outcomes := om_del w (lt_waiter_outcomes st),
              lt_retired_waiters := os_insert w (lt_retired_waiters st)\<rparr>, False))"

definition release_owner :: "file_lock_kind \<Rightarrow> file_lock_owner \<Rightarrow> unit lock_op" where
  "release_owner kind owner st =
     (let locks = filter (\<lambda>l. \<not> (al_kind l = kind \<and> al_owner l = owner)) (lt_locks st) in
      (Inr (), retain_waiter_outcomes (st\<lparr>lt_locks := locks\<rparr>) owner (Some kind), length locks \<noteq> length (lt_locks st)))"

definition release_posix_owner :: "file_lock_owner \<Rightarrow> unit lock_op" where
  "release_posix_owner owner = release_owner Posix owner"

definition release_flock_owner :: "file_lock_owner \<Rightarrow> unit lock_op" where
  "release_flock_owner owner = release_owner Flock owner"

definition is_idle :: "lock_table_state \<Rightarrow> bool" where
  "is_idle st \<longleftrightarrow> lt_locks st = [] \<and> lt_waiters st = [] \<and> lt_waiter_outcomes st = [] \<and> lt_retired_waiters st = [] \<and>
     \<not> lt_closed_session_admission_closed st"

definition has_owner_activity :: "file_lock_owner \<Rightarrow> file_lock_kind option \<Rightarrow> lock_table_state \<Rightarrow> bool" where
  "has_owner_activity owner kind st \<longleftrightarrow>
     list_ex (\<lambda>l. al_owner l = owner \<and> is_none_or (\<lambda>k. al_kind l = k) kind) (lt_locks st) \<or>
     list_ex (\<lambda>waiter. wl_owner waiter = owner \<and> is_none_or (\<lambda>k. wl_kind waiter = k) kind) (map snd (lt_waiters st))"

definition invalidate :: "unit lock_op" where
  "invalidate st =
     (Inr (), st\<lparr>lt_invalidated := True, lt_locks := [], lt_waiters := [], lt_waiter_outcomes := [], lt_retired_waiters := [],
                lt_closed_sessions := [], lt_closed_session_admission_closed := False\<rparr>, True)"

definition release_session :: "lock_table_limits \<Rightarrow> string \<Rightarrow> unit lock_op" where
  "release_session limits session st =
     (if lt_invalidated st then (Inr (), st, False)
      else
        let locks = filter (\<lambda>l. ingress_session_id (al_owner l) \<noteq> session) (lt_locks st);
            waiters = filter (\<lambda>(w, waiter). waiter_session_id w \<noteq> session \<and>
                        ingress_session_id (wl_owner waiter) \<noteq> session) (lt_waiters st);
            st1 = st\<lparr>lt_locks := locks, lt_waiters := waiters,
                     lt_waiter_outcomes := filter (\<lambda>(w, _). waiter_session_id w \<noteq> session) (lt_waiter_outcomes st),
                     lt_retired_waiters := filter (\<lambda>w. waiter_session_id w \<noteq> session) (lt_retired_waiters st)\<rparr>;
            st2 = (if session \<notin> set (lt_closed_sessions st1)
                   then if max_cancelled_waiters limits = 0 \<or>
                           length (lt_closed_sessions st1) \<ge> max_cancelled_waiters limits
                        then st1\<lparr>lt_closed_session_admission_closed := True\<rparr>
                        else st1\<lparr>lt_closed_sessions := os_insert session (lt_closed_sessions st1)\<rparr>
                   else st1)
        in (Inr (), st2, length locks \<noteq> length (lt_locks st) \<or> length waiters \<noteq> length (lt_waiters st)))"

end
