(* ===== verification/Lock_Ranges.thy ===== *)
theory Lock_Ranges
  imports Lock_Table
begin

text \<open>
  The locks of the table as bytes: which lock types an owner holds on a byte. Splitting, merging and
  saturating range ends do not show there; a request changes exactly the bytes of its range, for its
  owner.
\<close>

definition bytes :: "file_lock_range \<Rightarrow> nat set" where
  "bytes r = {unat (start r) .. unat (stop r)}"

definition held :: "active_lock list \<Rightarrow> file_lock_kind \<Rightarrow> file_lock_owner \<Rightarrow> nat \<Rightarrow> file_lock_type set" where
  "held locks k o' x = {al_lock_type l | l. l \<in> set locks \<and> al_kind l = k \<and> al_owner l = o' \<and> x \<in> bytes (al_range l)}"

definition sound :: "active_lock list \<Rightarrow> bool" where
  "sound locks \<longleftrightarrow> (\<forall>l \<in> set locks. is_valid (al_range l) \<and> al_lock_type l \<noteq> Unlock)"

text \<open>No other owner holds a byte that is locked for writing, and no byte is held in two ways.\<close>

definition exclusive :: "active_lock list \<Rightarrow> bool" where
  "exclusive locks \<longleftrightarrow>
     (\<forall>k a b x. a \<noteq> b \<and> WriteLock \<in> held locks k a x \<longrightarrow> held locks k b x = {}) \<and>
     (\<forall>k a x s t. s \<in> held locks k a x \<and> t \<in> held locks k a x \<longrightarrow> s = t)"

lemma held_simps [simp]:
  "held [] k a x = {}"
  "held (l # ls) k a x =
     (if al_kind l = k \<and> al_owner l = a \<and> x \<in> bytes (al_range l) then {al_lock_type l} else {}) \<union> held ls k a x"
  "held (ls @ ms) k a x = held ls k a x \<union> held ms k a x"
  by (auto simp: held_def)

lemma held_cong: "set ls = set ms \<Longrightarrow> held ls k a x = held ms k a x"
  by (simp add: held_def)

lemma held_concat: "held (concat (map f ls)) k a x = (\<Union>l \<in> set ls. held (f l) k a x)"
  by (induction ls) auto

lemma held_filter_subset: "held (filter p ls) k a x \<subseteq> held ls k a x"
  by (auto simp: held_def)

lemma held_union: "held ls k a x = (\<Union>l \<in> set ls. held [l] k a x)"
  by (auto simp: held_def)

lemma exclusive_subset:
  assumes "exclusive ls" "\<And>k a x. held ms k a x \<subseteq> held ls k a x"
  shows "exclusive ms"
proof -
  have "held ms k b x = {}" if "a \<noteq> b" "WriteLock \<in> held ms k a x" for k a b x
    using assms(1) that subsetD [OF assms(2) [of k a x]] assms(2) [of k b x] unfolding exclusive_def
    by (metis subset_empty)
  moreover have "s = t" if "s \<in> held ms k a x" "t \<in> held ms k a x" for k a x s t
    using assms(1) that subsetD [OF assms(2) [of k a x]] unfolding exclusive_def by blast
  ultimately show ?thesis unfolding exclusive_def by blast
qed

lemma overlaps_bytes: "is_valid r \<Longrightarrow> is_valid s \<Longrightarrow> overlaps r s \<longleftrightarrow> bytes r \<inter> bytes s \<noteq> {}"
  by (auto simp: overlaps_def bytes_def is_valid_def word_le_nat_alt)

lemma sound_simps [simp]:
  "sound []" "sound (l # ls) \<longleftrightarrow> is_valid (al_range l) \<and> al_lock_type l \<noteq> Unlock \<and> sound ls"
  "sound (ls @ ms) \<longleftrightarrow> sound ls \<and> sound ms" "sound (concat lss) \<longleftrightarrow> (\<forall>ls \<in> set lss. sound ls)"
  by (auto simp: sound_def)

lemma sound_filter: "sound ls \<Longrightarrow> sound (filter p ls)"
  by (simp add: sound_def)

section \<open>Trimming\<close>

lemma unat_prev: "a < b \<Longrightarrow> unat (saturating_sub b 1 :: u64) = unat b - 1" for a :: u64
  by simp

lemma unat_next: "a < b \<Longrightarrow> unat (saturating_add a 1) = unat a + 1" for a :: u64
proof -
  assume "a < b"
  moreover have "unat b < 2 ^ 64" using unsigned_less [of b, where 'a = nat] by simp
  ultimately have "unat a + 1 < 2 ^ 64" by (simp add: word_less_nat_alt)
  then show ?thesis by (simp add: saturating_add_def checked_add_nat unat_word_ariths)
qed

lemma trim_lock_held:
  assumes "is_valid (al_range l)" "is_valid remove"
  shows "held (trim_lock k a remove l) k' a' x = (if k' = k \<and> a' = a \<and> x \<in> bytes remove then {} else held [l] k' a' x)"
proof (cases "al_kind l = k \<and> al_owner l = a \<and> overlaps (al_range l) remove")
  case True
  note before = unat_prev [of "start (al_range l)" "start remove"] and after = unat_next [of "stop remove" "stop (al_range l)"]
  show ?thesis
    using True assms before after
    by (auto simp: trim_lock_def bytes_def overlaps_def is_valid_def word_le_nat_alt word_less_nat_alt)
next
  case False
  then show ?thesis
    using overlaps_bytes [OF assms] by (auto simp: trim_lock_def)
qed

lemma trim_lock_sound:
  assumes "is_valid (al_range l)" "al_lock_type l \<noteq> Unlock" "is_valid remove"
  shows "sound (trim_lock k a remove l)"
  using assms unat_prev [of "start (al_range l)" "start remove"] unat_next [of "stop remove" "stop (al_range l)"]
  by (auto simp: trim_lock_def is_valid_def word_le_nat_alt word_less_nat_alt)

lemma trim_held:
  assumes "sound ls" "is_valid remove"
  shows "held (trim_same_owner_range ls k a remove) k' a' x =
    (if k' = k \<and> a' = a \<and> x \<in> bytes remove then {} else held ls k' a' x)"
  using assms by (simp add: trim_same_owner_range_def held_concat trim_lock_held sound_def held_union [of ls])

lemma trim_sound: "sound ls \<Longrightarrow> is_valid remove \<Longrightarrow> sound (trim_same_owner_range ls k a remove)"
  by (auto simp: trim_same_owner_range_def sound_def [of ls] trim_lock_sound)

section \<open>Merging\<close>

definition same_key :: "active_lock \<Rightarrow> active_lock \<Rightarrow> bool" where
  "same_key l m \<longleftrightarrow> al_kind l = al_kind m \<and> al_owner l = al_owner m \<and> al_lock_type l = al_lock_type m"

lemma touching_union:
  assumes "is_valid r" "is_valid s" "start r \<le> start s" "touches_or_overlaps r s"
  shows "bytes (r\<lparr>stop := max (stop r) (stop s)\<rparr>) = bytes r \<union> bytes s"
  using assms
  by (auto simp: touches_or_overlaps_def overlaps_def bytes_def is_valid_def is_some_and_def checked_add_eq_Some
      unat_max_word word_le_nat_alt split: option.splits)

lemma merge_held:
  assumes "sound merged" "sound ls" "sorted_wrt (\<lambda>l m. same_key l m \<longrightarrow> start (al_range l) \<le> start (al_range m)) ls"
    and "\<forall>prev m. merged \<noteq> [] \<and> prev = hd merged \<and> m \<in> set ls \<and> same_key prev m \<longrightarrow>
           start (al_range prev) \<le> start (al_range m)"
  shows "sound (merge_locks merged ls) \<and> held (merge_locks merged ls) k a x = held merged k a x \<union> held ls k a x"
  using assms
proof (induction merged ls rule: merge_locks.induct)
  case (1 merged)
  then show ?case by (simp add: sound_def held_def)
next
  case (2 l locks)
  then show ?case by auto
next
  case (3 prev merged l locks)
  show ?case
  proof (cases "same_key prev l \<and> touches_or_overlaps (al_range prev) (al_range l)")
    case True
    let ?wide = "prev\<lparr>al_range := (al_range prev)\<lparr>stop := max (stop (al_range prev)) (stop (al_range l))\<rparr>,
                   al_seq := min (al_seq prev) (al_seq l)\<rparr>"
    have union: "bytes (al_range ?wide) = bytes (al_range prev) \<union> bytes (al_range l)"
      using True 3(3,4,6) by (simp add: touching_union)
    have "is_valid (al_range ?wide)" using 3(3) by (auto simp: is_valid_def le_max_iff_disj)
    then have "sound (merge_locks (?wide # merged) locks) \<and>
        held (merge_locks (?wide # merged) locks) k a x = held (?wide # merged) k a x \<union> held locks k a x"
      using True 3(3-6) by (intro 3(1)) (auto simp: same_key_def)
    with True union show ?thesis by (auto simp: same_key_def)
  next
    case False
    then have "sound (merge_locks (l # prev # merged) locks) \<and>
        held (merge_locks (l # prev # merged) locks) k a x = held (l # prev # merged) k a x \<union> held locks k a x"
      using 3(3-6) by (intro 3(2)) (auto simp: same_key_def)
    with False show ?thesis by (auto simp: same_key_def)
  qed
qed

lemma coalesce_held:
  assumes "sound ls"
  shows "sound (coalesce ls) \<and> held (coalesce ls) k a x = held ls k a x"
proof -
  let ?key = "\<lambda>l. (al_kind l, al_owner l, al_lock_type l, start (al_range l), stop (al_range l), al_seq l)"
  have "sorted (map ?key (sort_key ?key ls))" by (rule sorted_sort_key)
  then have "sorted_wrt (\<lambda>l m. same_key l m \<longrightarrow> start (al_range l) \<le> start (al_range m)) (sort_key ?key ls)"
    unfolding sorted_map by (rule sorted_wrt_mono_rel [rotated]) (auto simp: same_key_def)
  then show ?thesis
    using assms held_cong [of "sort_key ?key ls" ls] merge_held [of "[]" "sort_key ?key ls" k a x]
    by (simp add: coalesce_def sound_def)
qed

section \<open>Applying a request\<close>

definition lock_of :: "lock_request \<Rightarrow> u64 \<Rightarrow> active_lock" where
  "lock_of request seq = \<lparr>al_kind = rq_kind request, al_owner = rq_owner request, al_pid = rq_pid request,
     al_range = rq_range request, al_lock_type = rq_lock_type request, al_seq = seq\<rparr>"

lemma apply_lock_cases:
  obtains "apply_lock st limits request = (Inl Capacity, st)"
  | locks seq where
    "apply_lock st limits request = (Inr (), st\<lparr>lt_locks := locks, lt_next_seq := seq\<rparr>)" "length locks \<le> max_locks limits"
    "locks = (if rq_lock_type request \<noteq> Unlock
       then coalesce (trim_same_owner_range (lt_locks st) (rq_kind request) (rq_owner request) (rq_range request) @
              [lock_of request (lt_next_seq st)])
       else trim_same_owner_range (lt_locks st) (rq_kind request) (rq_owner request) (rq_range request))"
proof -
  let ?locks = "if rq_lock_type request \<noteq> Unlock
       then coalesce (trim_same_owner_range (lt_locks st) (rq_kind request) (rq_owner request) (rq_range request) @
              [lock_of request (lt_next_seq st)])
       else trim_same_owner_range (lt_locks st) (rq_kind request) (rq_owner request) (rq_range request)"
  let ?seq = "if rq_lock_type request \<noteq> Unlock then lt_next_seq st + 1 else lt_next_seq st"
  have eq: "apply_lock st limits request =
      (if length ?locks > max_locks limits then (Inl Capacity, st)
       else (Inr (), st\<lparr>lt_locks := ?locks, lt_next_seq := ?seq\<rparr>))"
    by (simp add: apply_lock_def Let_def lock_of_def)
  show thesis
  proof (cases "length ?locks > max_locks limits")
    case True
    with eq show thesis by (intro that(1)) (simp only: if_True)
  next
    case False
    then have "length ?locks \<le> max_locks limits" by (rule leI)
    moreover have "apply_lock st limits request = (Inr (), st\<lparr>lt_locks := ?locks, lt_next_seq := ?seq\<rparr>)"
      using eq False by (simp only: if_False)
    ultimately show thesis using that(2) by blast
  qed
qed

text \<open>A request changes the bytes of its range for its owner, and nothing else.\<close>

lemma apply_lock_held:
  assumes "sound (lt_locks st)" "is_valid (rq_range request)" "apply_lock st limits request = (Inr (), st')"
  shows "sound (lt_locks st')"
    and "held (lt_locks st') k a x =
      (if k = rq_kind request \<and> a = rq_owner request \<and> x \<in> bytes (rq_range request)
       then if rq_lock_type request = Unlock then {} else {rq_lock_type request}
       else held (lt_locks st) k a x)"
proof -
  let ?trimmed = "trim_same_owner_range (lt_locks st) (rq_kind request) (rq_owner request) (rq_range request)"
  have locks: "lt_locks st' = (if rq_lock_type request \<noteq> Unlock then coalesce (?trimmed @ [lock_of request (lt_next_seq st)])
      else ?trimmed)"
    using assms(3) by (cases rule: apply_lock_cases [of st limits request]) auto
  have sound: "sound ?trimmed" using assms(1,2) by (rule trim_sound)
  then have ok: "sound (?trimmed @ [lock_of request (lt_next_seq st)])" if "rq_lock_type request \<noteq> Unlock"
    using that assms(2) by (simp add: lock_of_def)
  show "sound (lt_locks st')" using sound coalesce_held [OF ok] by (auto simp: locks)
  have "held ?trimmed k a x =
      (if k = rq_kind request \<and> a = rq_owner request \<and> x \<in> bytes (rq_range request) then {}
       else held (lt_locks st) k a x)"
    by (rule trim_held [OF assms(1,2)])
  then show "held (lt_locks st') k a x =
      (if k = rq_kind request \<and> a = rq_owner request \<and> x \<in> bytes (rq_range request)
       then if rq_lock_type request = Unlock then {} else {rq_lock_type request}
       else held (lt_locks st) k a x)"
    using coalesce_held [OF ok, of k a x] by (auto simp: locks lock_of_def)
qed

lemma first_conflict_none:
  "first_conflict locks request = None \<longleftrightarrow> rq_lock_type request = Unlock \<or> (\<forall>l \<in> set locks. \<not> conflicts l request)"
  by (auto simp: first_conflict_def filter_empty_conv split: list.splits) (metis filter_empty_conv list.distinct(1))

text \<open>A request that conflicts with nothing keeps the table exclusive.\<close>

lemma apply_lock_exclusive:
  assumes "sound (lt_locks st)" "exclusive (lt_locks st)" "is_valid (rq_range request)"
    and free: "rq_lock_type request = Unlock \<or> first_conflict (lt_locks st) request = None"
    and "apply_lock st limits request = (Inr (), st')"
  shows "exclusive (lt_locks st')"
proof -
  note eq = apply_lock_held(2) [OF assms(1,3,5)]
  have others: "rq_lock_type request \<noteq> WriteLock \<and> WriteLock \<notin> held (lt_locks st) (rq_kind request) b x"
    if "rq_lock_type request \<noteq> Unlock" "b \<noteq> rq_owner request" "x \<in> bytes (rq_range request)"
      "held (lt_locks st) (rq_kind request) b x \<noteq> {}" for b x
  proof -
    have "\<forall>l \<in> set (lt_locks st). \<not> conflicts l request" using free that(1) by (simp add: first_conflict_none)
    then have "\<not> (rq_lock_type request = WriteLock \<or> al_lock_type l = WriteLock)"
      if "l \<in> set (lt_locks st)" "al_kind l = rq_kind request" "al_owner l = b" "x \<in> bytes (al_range l)" for l
      using that \<open>b \<noteq> rq_owner request\<close> \<open>x \<in> bytes (rq_range request)\<close> assms(1,3)
      by (auto simp: conflicts_def overlaps_bytes sound_def)
    then show ?thesis using that(4) by (fastforce simp: held_def)
  qed
  have "held (lt_locks st') k b x = {}" if "a \<noteq> b" "WriteLock \<in> held (lt_locks st') k a x" for k a b x
  proof (cases "k = rq_kind request \<and> x \<in> bytes (rq_range request)")
    case False
    then show ?thesis using that assms(2) by (auto simp: eq exclusive_def)
  next
    case True
    then consider "a = rq_owner request" | "b = rq_owner request" | "a \<noteq> rq_owner request" "b \<noteq> rq_owner request" by blast
    then show ?thesis
    proof cases
      case 1
      then show ?thesis using True that others [of b x] by (auto simp: eq split: if_splits)
    next
      case 2
      then have "WriteLock \<in> held (lt_locks st) k a x" using True that by (auto simp: eq split: if_splits)
      then show ?thesis using True 2 that(1) others [of a x] by (auto simp: eq)
    next
      case 3
      then show ?thesis using True that assms(2) by (auto simp: eq exclusive_def)
    qed
  qed
  moreover have "s = t" if "s \<in> held (lt_locks st') k a x" "t \<in> held (lt_locks st') k a x" for k a x s t
    using that assms(2) by (auto simp: eq exclusive_def split: if_splits)
  ultimately show ?thesis unfolding exclusive_def by blast
qed

end
