(* ===== verification/Lock_Deadlock.thy ===== *)
theory Lock_Deadlock
  imports Lock_Table
begin

text \<open>
  The search for a wait cycle is exact: it ends for every recorded graph, cyclic or not, with a
  recursion no deeper than the number of waiters, and finds a path exactly when there is one.
\<close>

definition waits :: "(lock_waiter_id, waiting_lock) omap \<Rightarrow> (file_lock_owner \<times> file_lock_owner) set" where
  "waits waiters = {(a, b). b \<in> set (recorded_blockers waiters a)}"

definition waiting_owners :: "(lock_waiter_id, waiting_lock) omap \<Rightarrow> file_lock_owner set" where
  "waiting_owners waiters = wl_owner ` snd ` set waiters"

lemma waits_iff: "(a, b) \<in> waits waiters \<longleftrightarrow> (\<exists>waiter \<in> snd ` set waiters. wl_owner waiter = a \<and> b \<in> set (wl_blockers waiter))"
  by (auto simp: waits_def recorded_blockers_def)

lemma finite_waiting_owners [simp]: "finite (waiting_owners waiters)"
  by (simp add: waiting_owners_def)

lemma not_waiting: "a \<notin> waiting_owners waiters \<Longrightarrow> recorded_blockers waiters a = []"
  by (auto simp: waiting_owners_def recorded_blockers_def filter_empty_conv)

lemma card_waiting_owners: "card (waiting_owners waiters) \<le> length waiters"
  unfolding waiting_owners_def image_image by (metis card_image_le card_length finite_set le_trans)

definition searched :: "(lock_waiter_id, waiting_lock) omap \<Rightarrow> file_lock_owner list \<Rightarrow> file_lock_owner \<Rightarrow>
  file_lock_owner list \<Rightarrow> bool \<Rightarrow> file_lock_owner list \<Rightarrow> bool" where
  "searched waiters owners target visited found visited' \<longleftrightarrow> set visited \<subseteq> set visited' \<and>
     (if found then \<exists>a \<in> set owners. (a, target) \<in> (waits waiters)\<^sup>*
      else target \<notin> set owners \<and> set owners \<subseteq> set visited' \<and>
        (\<forall>a \<in> set visited' - set visited. a \<noteq> target \<and> set (recorded_blockers waiters a) \<subseteq> set visited'))"

lemma searched_step:
  assumes "searched waiters (recorded_blockers waiters current) target (current # visited) False visited1"
    and "searched waiters rest target visited1 found visited2" "current \<noteq> target"
  shows "searched waiters (current # rest) target visited found visited2"
proof (cases found)
  case True
  with assms show ?thesis by (auto simp: searched_def)
next
  case False
  have one: "set (recorded_blockers waiters current) \<subseteq> set visited1" "set (current # visited) \<subseteq> set visited1"
    "\<forall>a \<in> set visited1 - set (current # visited). a \<noteq> target \<and> set (recorded_blockers waiters a) \<subseteq> set visited1"
    using assms(1) by (simp_all add: searched_def)
  have two: "set visited1 \<subseteq> set visited2" "set rest \<subseteq> set visited2" "target \<notin> set rest"
    "\<forall>a \<in> set visited2 - set visited1. a \<noteq> target \<and> set (recorded_blockers waiters a) \<subseteq> set visited2"
    using assms(2) False by (simp_all add: searched_def)
  have closed: "a \<noteq> target \<and> set (recorded_blockers waiters a) \<subseteq> set visited2"
    if "a \<in> set visited2 - set visited" for a
  proof (cases "a \<in> set visited1")
    case True
    then have "a \<noteq> target \<and> set (recorded_blockers waiters a) \<subseteq> set visited1"
      using that one(1,3) assms(3) by (cases "a = current") simp_all
    with two(1) show ?thesis by blast
  next
    case new: False
    with that two(4) show ?thesis by blast
  qed
  have "set visited \<subseteq> set visited2" "current \<in> set visited2" using one(2) two(1) by auto
  with closed two(2,3) False assms(3) show ?thesis by (simp add: searched_def)
qed

lemma search_ends:
  assumes "card (waiting_owners waiters - set visited) < depth"
  shows "\<exists>found visited'. waits_for_owner depth waiters owners target visited = Some (found, visited') \<and>
    searched waiters owners target visited found visited'"
  using assms
proof (induction depth waiters owners target visited rule: waits_for_owner.induct)
  case (1 depth waiters target visited)
  then show ?case by (intro exI [of _ False]) (simp add: searched_def)
next
  case (2 waiters current rest target visited)
  then show ?case by simp
next
  case (3 depth waiters current rest target visited)
  consider "current = target" | "current \<noteq> target" "current \<in> set visited" | "current \<noteq> target" "current \<notin> set visited"
    by blast
  then show ?case
  proof cases
    case 1
    then show ?thesis by (intro exI [of _ True]) (simp add: searched_def)
  next
    case 2
    then obtain found visited' where "waits_for_owner (Suc depth) waiters rest target visited = Some (found, visited')"
      "searched waiters rest target visited found visited'"
      using 3 by blast
    with 2 show ?thesis by (auto simp: searched_def)
  next
    case fresh: 3
    have "\<exists>found visited'. waits_for_owner depth waiters (recorded_blockers waiters current) target (current # visited)
        = Some (found, visited') \<and>
        searched waiters (recorded_blockers waiters current) target (current # visited) found visited'"
    proof (cases "current \<in> waiting_owners waiters")
      case True
      have "waiting_owners waiters - set (current # visited) \<subset> waiting_owners waiters - set visited"
        using True fresh(2) by auto
      then have "card (waiting_owners waiters - set (current # visited)) < card (waiting_owners waiters - set visited)"
        by (intro psubset_card_mono) auto
      with 3(2,4) fresh show ?thesis by simp
    next
      case False
      then show ?thesis by (intro exI [of _ False]) (auto simp: not_waiting searched_def)
    qed
    then obtain found1 visited1 where sub:
      "waits_for_owner depth waiters (recorded_blockers waiters current) target (current # visited) = Some (found1, visited1)"
      "searched waiters (recorded_blockers waiters current) target (current # visited) found1 visited1" by blast
    show ?thesis
    proof (cases found1)
      case True
      have "(current, target) \<in> (waits waiters)\<^sup>*" if "(a, target) \<in> (waits waiters)\<^sup>*" "a \<in> set (recorded_blockers waiters current)" for a
        using that by (auto simp: waits_def intro: converse_rtrancl_into_rtrancl)
      then show ?thesis using sub True fresh by (auto simp: searched_def)
    next
      case False
      have "set visited \<subseteq> set visited1" using sub(2) by (auto simp: searched_def)
      then have "card (waiting_owners waiters - set visited1) \<le> card (waiting_owners waiters - set visited)"
        by (intro card_mono) auto
      then obtain found visited' where rest: "waits_for_owner (Suc depth) waiters rest target visited1 = Some (found, visited')"
        "searched waiters rest target visited1 found visited'"
        using 3(3) [OF fresh(1,2) sub(1) refl] 3(4) False by auto
      then show ?thesis
        using sub False fresh searched_step [of waiters current target visited visited1 rest found visited'] by simp
    qed
  qed
qed

lemma search_exact:
  assumes "searched waiters owners target [] found visited'"
  shows "found \<longleftrightarrow> (\<exists>a \<in> set owners. (a, target) \<in> (waits waiters)\<^sup>*)"
proof (cases found)
  case False
  with assms have "set owners \<subseteq> set visited'" and closed: "\<forall>a \<in> set visited'. a \<noteq> target \<and> set (recorded_blockers waiters a) \<subseteq> set visited'"
    by (auto simp: searched_def)
  have "b \<in> set visited'" if "(a, b) \<in> (waits waiters)\<^sup>*" "a \<in> set visited'" for a b
    using that by (induction rule: rtrancl_induct) (use closed in \<open>auto simp: waits_def\<close>)
  with \<open>set owners \<subseteq> set visited'\<close> closed False show ?thesis by blast
qed (use assms in \<open>simp add: searched_def\<close>)

lemma would_deadlock_iff:
  "would_deadlock waiters owner blockers \<longleftrightarrow> (\<exists>a \<in> set blockers. (a, owner) \<in> (waits waiters)\<^sup>*)"
proof -
  have "card (waiting_owners waiters - set []) < Suc (length waiters)"
    using card_waiting_owners [of waiters] by simp
  from search_ends [OF this, of blockers owner] obtain found visited' where
    "waits_for_owner (Suc (length waiters)) waiters blockers owner [] = Some (found, visited')"
    "searched waiters blockers owner [] found visited'" by blast
  with search_exact [of waiters blockers owner found visited'] show ?thesis by (simp add: would_deadlock_def)
qed

section \<open>Properties\<close>

text \<open>
  C40. The deadlock search ends for every recorded wait-for graph, cyclic graphs included: a recursion
  depth of the number of waiters plus one suffices, whatever the starting owners, and the answer is whether
  some of them leads to the target.
\<close>

theorem deadlock_search_terminates:
  "\<exists>visited. waits_for_owner (Suc (length waiters)) waiters blockers owner [] =
     Some (\<exists>a \<in> set blockers. (a, owner) \<in> (waits waiters)\<^sup>*, visited)"
proof -
  have "card (waiting_owners waiters - set []) < Suc (length waiters)"
    using card_waiting_owners [of waiters] by simp
  from search_ends [OF this, of blockers owner] obtain found visited' where
    "waits_for_owner (Suc (length waiters)) waiters blockers owner [] = Some (found, visited')"
    "searched waiters blockers owner [] found visited'" by blast
  with search_exact [of waiters blockers owner found visited'] show ?thesis by simp
qed

definition demo_owner :: "u64 \<Rightarrow> file_lock_owner" where
  "demo_owner n = FileLockOwner ''s'' n"

definition demo_cycle :: "(lock_waiter_id, waiting_lock) omap" where
  "demo_cycle =
     [(LockWaiterId ''s'' 1, \<lparr>wl_owner = demo_owner 1, wl_kind = Posix, wl_blockers = [demo_owner 2]\<rparr>),
      (LockWaiterId ''s'' 2, \<lparr>wl_owner = demo_owner 2, wl_kind = Posix, wl_blockers = [demo_owner 1]\<rparr>)]"

theorem deadlock_search_terminates_witness:
  "(\<exists>visited. waits_for_owner 3 demo_cycle [demo_owner 1] (demo_owner 3) [] =
     Some (\<exists>a \<in> set [demo_owner 1]. (a, demo_owner 3) \<in> (waits demo_cycle)\<^sup>*, visited)) \<and>
   map_option fst (waits_for_owner 3 demo_cycle [demo_owner 1] (demo_owner 3) []) = Some False"
proof -
  have "length demo_cycle = 2" by (simp add: demo_cycle_def)
  moreover have "map_option fst (waits_for_owner 3 demo_cycle [demo_owner 1] (demo_owner 3) []) = Some False"
    by code_simp
  ultimately show ?thesis
    using deadlock_search_terminates [of demo_cycle "[demo_owner 1]" "demo_owner 3"] by (simp add: numeral_3_eq_3)
qed

end
