(* ===== verification/Lock_Invariant.thy ===== *)
theory Lock_Invariant
  imports Lock_Ranges Lock_Deadlock
begin

text \<open>
  The invariant of a lock table and that every operation keeps it: sound and exclusive locks, the three
  capacity limits, well-formed maps, and a recorded wait-for graph without a cycle.
\<close>

definition table_ok :: "lock_table_limits \<Rightarrow> lock_table_state \<Rightarrow> bool" where
  "table_ok limits st \<longleftrightarrow>
     sound (lt_locks st) \<and> exclusive (lt_locks st) \<and>
     length (lt_locks st) \<le> max_locks limits \<and> length (lt_waiters st) \<le> max_waiters limits \<and>
     length (lt_waiter_outcomes st) + length (lt_retired_waiters st) \<le> max_cancelled_waiters limits \<and>
     length (lt_closed_sessions st) \<le> max_cancelled_waiters limits \<and>
     om_wf (lt_waiters st) \<and> om_wf (lt_waiter_outcomes st) \<and> acyclic (waits (lt_waiters st))"

text \<open>An operation that wakes nobody leaves the locks as they are.\<close>

definition silent :: "lock_table_state \<Rightarrow> lock_table_state \<Rightarrow> bool \<Rightarrow> bool" where
  "silent st st' woke \<longleftrightarrow> woke \<or> lt_locks st' = lt_locks st \<and> lt_invalidated st' = lt_invalidated st"

lemma exclusive_filter: "exclusive ls \<Longrightarrow> exclusive (filter p ls)"
  by (rule exclusive_subset [OF _ held_filter_subset])

lemma filter_same_length: "length (filter p xs) = length xs \<Longrightarrow> filter p xs = xs"
  by (metis filter_True length_filter_less less_irrefl)

lemma map_of_filter_keep: "\<forall>v. (k, v) \<in> set m \<longrightarrow> p (k, v) \<Longrightarrow> map_of (filter p m) k = map_of m k"
  by (induction m) auto

section \<open>The wait-for graph\<close>

lemma acyclic_add:
  assumes "acyclic r" "finite B" "\<forall>b \<in> B. (b, a) \<notin> r\<^sup>*"
  shows "acyclic (r \<union> {a} \<times> B)"
  using assms(2,3)
proof (induction B rule: finite_induct)
  case (insert b B)
  have stays: "(c, a) \<notin> (r \<union> {a} \<times> C)\<^sup>*" if "finite C" "(c, a) \<notin> r\<^sup>*" for c C
    using that
  proof (induction C rule: finite_induct)
    case (insert d C)
    have "r \<union> {a} \<times> insert d C = insert (a, d) (r \<union> {a} \<times> C)" by auto
    with insert show ?case by (auto simp: rtrancl_insert)
  qed simp
  have "r \<union> {a} \<times> insert b B = insert (a, b) (r \<union> {a} \<times> B)" by auto
  with insert stays [of B b] show ?case by (simp add: acyclic_insert)
qed (use assms(1) in simp)

lemma waits_filter: "waits (filter p waiters) \<subseteq> waits waiters"
  by (force simp: waits_iff)

lemma waits_del: "waits (om_del w waiters) \<subseteq> waits waiters"
  by (simp add: om_del_def waits_filter)

lemma waits_put: "waits (om_put w waiter waiters) \<subseteq> waits waiters \<union> {wl_owner waiter} \<times> set (wl_blockers waiter)"
  using set_om_put_subset [of w waiter waiters] by (fastforce simp: waits_iff)

lemma acyclic_put:
  assumes "acyclic (waits waiters)" "\<not> would_deadlock waiters (wl_owner waiter) (wl_blockers waiter)"
  shows "acyclic (waits (om_put w waiter waiters))"
proof (rule acyclic_subset [OF _ waits_put])
  show "acyclic (waits waiters \<union> {wl_owner waiter} \<times> set (wl_blockers waiter))"
    using assms by (intro acyclic_add) (auto simp: would_deadlock_iff)
qed

lemma length_om_put:
  "length (om_put k v m) \<le> Suc (length m)" "k \<in> fst ` set m \<Longrightarrow> om_wf m \<Longrightarrow> length (om_put k v m) = length m"
proof -
  show "length (om_put k v m) \<le> Suc (length m)" by (induction m) auto
  show "length (om_put k v m) = length m" if "k \<in> fst ` set m" "om_wf m"
    using that by (induction m) (force simp: om_wf_Cons)+
qed

lemma length_om_del: "length (om_del k m) \<le> length m" "k \<in> fst ` set m \<Longrightarrow> length (om_del k m) < length m"
  by (auto simp: om_del_def length_filter_less image_iff)

lemma length_os_insert: "length (os_insert x xs) \<le> Suc (length xs)"
  by (induction xs) auto

section \<open>Every operation keeps the invariant\<close>

lemma table_ok_new: "table_ok limits LockTable_new"
  by (simp add: table_ok_def LockTable_new_def exclusive_def waits_def recorded_blockers_def acyclic_def)

lemma table_ok_locks:
  assumes "table_ok limits st" "sound ls" "exclusive ls" "length ls \<le> max_locks limits"
  shows "table_ok limits (st\<lparr>lt_locks := ls, lt_next_seq := n\<rparr>)"
  using assms by (simp add: table_ok_def)

lemma table_ok_waiters_del: "table_ok limits st \<Longrightarrow> table_ok limits (st\<lparr>lt_waiters := om_del w (lt_waiters st)\<rparr>)"
  using length_om_del(1) [of w "lt_waiters st"] acyclic_subset [OF _ waits_del [of w "lt_waiters st"]]
  by (auto simp: table_ok_def)

lemma table_ok_apply:
  assumes "table_ok limits st" "is_valid (rq_range request)"
    and "rq_lock_type request = Unlock \<or> first_conflict (lt_locks st) request = None"
    and "apply_lock st limits request = (r, st')"
  shows "table_ok limits st'" "lt_waiters st' = lt_waiters st" "lt_waiter_outcomes st' = lt_waiter_outcomes st"
    "lt_retired_waiters st' = lt_retired_waiters st" "lt_closed_sessions st' = lt_closed_sessions st"
    "lt_invalidated st' = lt_invalidated st" "is_ok r \<or> st' = st"
    "lt_closed_session_admission_closed st' = lt_closed_session_admission_closed st"
proof -
  have ok: "sound (lt_locks st)" "exclusive (lt_locks st)" using assms(1) by (simp_all add: table_ok_def)
  show "table_ok limits st'" "lt_waiters st' = lt_waiters st" "lt_waiter_outcomes st' = lt_waiter_outcomes st"
    "lt_retired_waiters st' = lt_retired_waiters st" "lt_closed_sessions st' = lt_closed_sessions st"
    "lt_invalidated st' = lt_invalidated st" "is_ok r \<or> st' = st"
    "lt_closed_session_admission_closed st' = lt_closed_session_admission_closed st"
    using assms(4) apply_lock_held(1) [OF ok(1) assms(2)] apply_lock_exclusive [OF ok assms(2,3)] table_ok_locks [OF assms(1)]
      assms(1)
    by (cases rule: apply_lock_cases [of st limits request]; fastforce)+
qed

lemma table_ok_outcome:
  assumes "table_ok limits st" "ensure_waiter_outcome_capacity st limits w = Inr u"
  shows "table_ok limits (st\<lparr>lt_waiter_outcomes := om_put w stored (lt_waiter_outcomes st)\<rparr>)"
proof (cases "om_has w (lt_waiter_outcomes st)")
  case True
  then show ?thesis using assms(1) by (simp add: table_ok_def length_om_put(2))
next
  case False
  then have "Suc (length (lt_waiter_outcomes st)) + length (lt_retired_waiters st) \<le> max_cancelled_waiters limits"
    using assms(2) by (auto simp: ensure_waiter_outcome_capacity_def split: if_splits)
  with length_om_put(1) [of w stored "lt_waiter_outcomes st"] show ?thesis
    using assms(1) by (simp add: table_ok_def)
qed

lemma setlk_nonblocking_ok:
  assumes "table_ok limits st" "setlk_nonblocking limits request st = (r, st', woke)"
  shows "table_ok limits st' \<and> silent st st' woke \<and> lt_waiters st' = lt_waiters st \<and>
    lt_waiter_outcomes st' = lt_waiter_outcomes st \<and> lt_retired_waiters st' = lt_retired_waiters st \<and>
    lt_closed_sessions st' = lt_closed_sessions st \<and> lt_invalidated st' = lt_invalidated st \<and>
    lt_closed_session_admission_closed st' = lt_closed_session_admission_closed st"
proof (cases "st' = st \<and> \<not> woke")
  case True
  with assms(1) show ?thesis by (simp add: silent_def)
next
  case False
  have valid: "is_valid (rq_range request)"
    and free: "rq_lock_type request = Unlock \<or> first_conflict (lt_locks st) request = None"
    and applied: "\<exists>r1. apply_lock st limits request = (r1, st')" and "silent st st' woke"
    using assms(2) False table_ok_apply(7) [OF assms(1)]
    by (auto simp: setlk_nonblocking_def validate_range_def silent_def split: if_splits prod.splits sum.splits)
  then obtain r1 where "apply_lock st limits request = (r1, st')" by blast
  with table_ok_apply [OF assms(1) valid free this] \<open>silent st st' woke\<close> show ?thesis by blast
qed

section \<open>Effects on waiters\<close>

text \<open>A spent waiter identifier is not admitted again.\<close>

definition spent :: "lock_table_state \<Rightarrow> lock_waiter_id \<Rightarrow> bool" where
  "spent st w \<longleftrightarrow> om_has w (lt_waiter_outcomes st) \<or> is_waiter_retired st w \<or>
     waiter_session_id w \<in> set (lt_closed_sessions st) \<or> lt_closed_session_admission_closed st \<or> lt_invalidated st"

definition scoped :: "lock_table_state \<Rightarrow> bool" where
  "scoped st \<longleftrightarrow> (\<forall>(w, waiter) \<in> set (lt_waiters st). waiter_session_id w = ingress_session_id (wl_owner waiter))"

text \<open>
  What an operation may do to waiters other than its own: keep them, or remove them for good and wake
  everybody.
\<close>

definition effect :: "lock_table_limits \<Rightarrow> lock_waiter_id option \<Rightarrow> lock_table_state \<Rightarrow> lock_table_state \<Rightarrow> bool \<Rightarrow> bool" where
  "effect limits own st st' woke \<longleftrightarrow> table_ok limits st' \<and> scoped st' \<and> silent st st' woke \<and>
     (\<forall>w. spent st w \<longrightarrow> spent st' w) \<and>
     (\<forall>w. own \<noteq> Some w \<longrightarrow> map_of (lt_waiters st') w = map_of (lt_waiters st) w \<or>
        map_of (lt_waiters st') w = None \<and> spent st' w \<and> woke)"

lemma effect_refl: "table_ok limits st \<Longrightarrow> scoped st \<Longrightarrow> effect limits own st st woke"
  by (simp add: effect_def silent_def)

lemma setlk_nonblocking_effect:
  assumes "table_ok limits st" "scoped st" "setlk_nonblocking limits request st = (r, st', woke)"
  shows "effect limits None st st' woke"
  using setlk_nonblocking_ok [OF assms(1,3)] assms(2)
  by (auto simp: effect_def scoped_def spent_def is_waiter_retired_def)

lemma scoped_del: "scoped st \<Longrightarrow> scoped (st\<lparr>lt_waiters := om_del w (lt_waiters st)\<rparr>)"
  by (auto simp: scoped_def set_om_del)

lemma scoped_put:
  assumes "scoped st" "waiter_session_id w = ingress_session_id (wl_owner waiter)"
  shows "scoped (st\<lparr>lt_waiters := om_put w waiter (lt_waiters st)\<rparr>)"
  using assms set_om_put_subset [of w waiter "lt_waiters st"] by (auto simp: scoped_def)

text \<open>What one pass of a blocking request does.\<close>

definition pass_result :: "lock_request \<Rightarrow> lock_waiter_id \<Rightarrow> bool \<Rightarrow> blocking \<Rightarrow> lock_table_state \<Rightarrow> lock_table_state \<Rightarrow> bool \<Rightarrow> bool" where
  "pass_result request w registered b st st' woke \<longleftrightarrow>
     (case b of
        Waiting \<Rightarrow> \<not> woke \<and> lt_locks st' = lt_locks st \<and> rq_lock_type request \<noteq> Unlock \<and>
          first_conflict (lt_locks st) request \<noteq> None \<and> lt_invalidated st' = lt_invalidated st \<and>
          (\<exists>waiter. map_of (lt_waiters st') w = Some waiter \<and> wl_owner waiter = rq_owner request \<and>
             wl_blockers waiter = blocking_owners (lt_locks st) request) \<and>
          (\<not> registered \<longrightarrow> map_of (lt_waiters st) w = None)
      | Done _ \<Rightarrow> if registered then map_of (lt_waiters st') w = None else lt_waiters st' = lt_waiters st)"

lemma blocking_pass_free:
  assumes "table_ok limits st" "scoped st" "is_valid (rq_range request)" "registered \<or> \<not> om_has w (lt_waiters st)"
    and free: "rq_lock_type request = Unlock \<or> first_conflict (lt_locks st) request = None"
    and pass: "blocking_pass limits request w registered st = (b, st', woke)"
  shows "effect limits (Some w) st st' woke \<and> pass_result request w registered b st st' woke"
proof -
  define st1 where "st1 = (if registered then st\<lparr>lt_waiters := om_del w (lt_waiters st)\<rparr> else st)"
  have st1: "table_ok limits st1" "scoped st1" "lt_locks st1 = lt_locks st"
    using assms(1,2) by (auto simp: st1_def table_ok_waiters_del scoped_del)
  have step1: "effect limits (Some w) st st1 False" "registered \<Longrightarrow> map_of (lt_waiters st1) w = None"
    "\<not> registered \<Longrightarrow> lt_waiters st1 = lt_waiters st"
    using st1 by (auto simp: st1_def effect_def silent_def spent_def is_waiter_retired_def)
  show ?thesis
  proof (cases "ensure_waiter_outcome_capacity st1 limits w")
    case (Inl e)
    then have "b = Done (Inl e)" "st' = st1" "\<not> woke"
      using pass free assms(4) by (auto simp: blocking_pass_def Let_def st1_def split: if_splits)
    with step1 show ?thesis by (auto simp: pass_result_def)
  next
    case (Inr u)
    obtain r st2 where apply1: "apply_lock st1 limits request = (r, st2)" by (cases "apply_lock st1 limits request")
    have free1: "rq_lock_type request = Unlock \<or> first_conflict (lt_locks st1) request = None" using free st1(3) by simp
    note apply2 = table_ok_apply [OF st1(1) assms(3) free1 apply1]
    show ?thesis
    proof (cases r)
      case err: (Inl e)
      then have "b = Done (Inl e)" "st' = st1" "\<not> woke"
        using pass free assms(4) Inr apply1 apply2(7)
        by (auto simp: blocking_pass_def Let_def st1_def split: if_splits)
      with step1 show ?thesis by (auto simp: pass_result_def)
    next
      case ok: (Inr u')
      let ?stored = "\<lparr>so_outcome = Granted, so_owner = Some (rq_owner request), so_kind = Some (rq_kind request)\<rparr>"
      have res: "b = Done (Inr ())" "st' = st2\<lparr>lt_waiter_outcomes := om_put w ?stored (lt_waiter_outcomes st2)\<rparr>" "woke"
        using pass free assms(4) Inr apply1 ok
        by (auto simp: blocking_pass_def Let_def st1_def split: if_splits)
      have "ensure_waiter_outcome_capacity st2 limits w = Inr u"
        using Inr apply2(3,4) by (simp add: ensure_waiter_outcome_capacity_def)
      then have "table_ok limits st'" using res(2) apply2(1) by (simp add: table_ok_outcome)
      with res apply2 step1 st1 show ?thesis
        by (auto simp: effect_def silent_def scoped_def spent_def is_waiter_retired_def pass_result_def)
    qed
  qed
qed

lemma blocking_pass_blocked:
  assumes "table_ok limits st" "scoped st" "waiter_session_id w = ingress_session_id (rq_owner request)"
    and reg: "if registered then \<exists>waiter. map_of (lt_waiters st) w = Some waiter \<and> wl_owner waiter = rq_owner request
      else \<not> om_has w (lt_waiters st)"
    and blocked: "rq_lock_type request \<noteq> Unlock" "first_conflict (lt_locks st) request \<noteq> None"
    and pass: "blocking_pass limits request w registered st = (b, st', woke)"
  shows "effect limits (Some w) st st' woke \<and> pass_result request w registered b st st' woke"
proof -
  let ?blockers = "blocking_owners (lt_locks st) request"
  have none: "map_of (lt_waiters st) w = None" if "\<not> registered" using reg that by (simp add: map_of_eq_None_iff)
  show ?thesis
  proof (cases "would_deadlock (lt_waiters st) (rq_owner request) ?blockers")
    case True
    then have "b = Done (Inl Deadlock)" "\<not> woke"
      "st' = (if registered then st\<lparr>lt_waiters := om_del w (lt_waiters st)\<rparr> else st)"
      using pass blocked reg by (auto simp: blocking_pass_def Let_def split: if_splits)
    with assms(1,2) show ?thesis
      by (auto simp: effect_def silent_def spent_def is_waiter_retired_def pass_result_def table_ok_waiters_del scoped_del)
  next
    case False
    show ?thesis
    proof (cases "\<not> registered \<and> length (lt_waiters st) \<ge> max_waiters limits")
      case True
      then have "b = Done (Inl Capacity)" "\<not> woke" "st' = st"
        using pass blocked reg False by (auto simp: blocking_pass_def Let_def split: if_splits)
      with assms(1,2) True show ?thesis by (auto simp: effect_refl pass_result_def)
    next
      case room: False
      obtain waiter where waiter: "wl_owner waiter = rq_owner request" "wl_blockers waiter = ?blockers"
        "b = Waiting" "\<not> woke" "st' = st\<lparr>lt_waiters := om_put w waiter (lt_waiters st)\<rparr>"
      proof (cases registered)
        case True
        then obtain old where old: "map_of (lt_waiters st) w = Some old" "wl_owner old = rq_owner request" using reg by auto
        then show thesis
          using pass blocked False True
          by (intro that [of "old\<lparr>wl_blockers := ?blockers\<rparr>"]) (auto simp: blocking_pass_def Let_def)
      next
        case new: False
        then show thesis
          using pass blocked False room reg
          by (intro that [of "\<lparr>wl_owner = rq_owner request, wl_kind = rq_kind request, wl_blockers = ?blockers\<rparr>"])
            (auto simp: blocking_pass_def Let_def)
      qed
      have "length (om_put w waiter (lt_waiters st)) \<le> max_waiters limits"
      proof (cases registered)
        case True
        then have "w \<in> fst ` set (lt_waiters st)" using reg by (auto simp: rev_image_eqI dest: map_of_SomeD)
        with assms(1) show ?thesis by (simp add: length_om_put(2) table_ok_def)
      next
        case new: False
        with room length_om_put(1) [of w waiter "lt_waiters st"] show ?thesis by simp
      qed
      then have "table_ok limits st'"
        using assms(1) waiter False by (auto simp: table_ok_def intro!: acyclic_put)
      moreover have "scoped st'" using waiter assms(2,3) by (simp add: scoped_put)
      ultimately show ?thesis
        using waiter blocked none by (auto simp: effect_def silent_def spent_def is_waiter_retired_def pass_result_def)
    qed
  qed
qed

lemma setlk_blocking_enter_ok:
  assumes "table_ok limits st" "scoped st" "waiter_session_id w = ingress_session_id (rq_owner request)"
    and enter: "setlk_blocking_enter limits request w st = (b, st', woke)"
  shows "effect limits (Some w) st st' woke \<and> pass_result request w False b st st' woke \<and>
    (b = Waiting \<longrightarrow> \<not> spent st w \<and> is_valid (rq_range request))"
proof -
  consider "\<exists>e. b = Done (Inl e)" "st' = st"
    | "is_valid (rq_range request)" "rq_lock_type request \<noteq> Unlock \<longrightarrow> \<not> spent st w" "\<not> om_has w (lt_waiters st)"
      "blocking_pass limits request w False st = (b, st', woke)"
  proof (cases "om_has w (lt_waiters st)")
    case True
    then have "blocking_pass limits request w False st = (Done (Inl DuplicateWaiter), st, False)"
      by (simp add: blocking_pass_def)
    then show ?thesis
      using enter
      by (intro that(1))
        (auto simp: setlk_blocking_enter_def split: if_splits sum.splits option.splits lock_waiter_outcome.splits)
  next
    case False
    then show ?thesis
      using enter that
      by (auto simp: setlk_blocking_enter_def validate_range_def spent_def map_of_eq_None_iff
          split: if_splits sum.splits option.splits lock_waiter_outcome.splits)
  qed
  then show ?thesis
  proof cases
    case 1
    then show ?thesis using assms(1,2) by (auto simp: effect_refl pass_result_def)
  next
    case 2
    have "effect limits (Some w) st st' woke \<and> pass_result request w False b st st' woke"
    proof (cases "rq_lock_type request = Unlock \<or> first_conflict (lt_locks st) request = None")
      case True
      then show ?thesis using blocking_pass_free [OF assms(1,2) 2(1) _ True 2(4)] 2(3) by simp
    next
      case False
      then show ?thesis using blocking_pass_blocked [OF assms(1-3) _ _ _ 2(4)] 2(3) by simp
    qed
    with 2 show ?thesis by (auto simp: pass_result_def)
  qed
qed

lemma setlk_blocking_wake_ok:
  assumes "table_ok limits st" "scoped st" "waiter_session_id w = ingress_session_id (rq_owner request)"
    and "is_valid (rq_range request)"
    and entry: "\<forall>waiter. map_of (lt_waiters st) w = Some waiter \<longrightarrow> wl_owner waiter = rq_owner request"
    and wake: "setlk_blocking_wake limits request w st = (b, st', woke)"
  shows "effect limits (Some w) st st' woke \<and> pass_result request w True b st st' woke \<and>
    (b = Waiting \<longrightarrow> \<not> lt_invalidated st)"
proof (cases "om_has w (lt_waiters st) \<and> blocking_pass limits request w True st = (b, st', woke) \<and> \<not> lt_invalidated st")
  case True
  then have "map_of (lt_waiters st) w \<noteq> None" by (simp add: map_of_eq_None_iff)
  then obtain waiter where waiter: "map_of (lt_waiters st) w = Some waiter" by blast
  have "effect limits (Some w) st st' woke \<and> pass_result request w True b st st' woke"
  proof (cases "rq_lock_type request = Unlock \<or> first_conflict (lt_locks st) request = None")
    case free: True
    then show ?thesis using blocking_pass_free [OF assms(1,2,4) _ free] True by blast
  next
    case False
    then show ?thesis
      using blocking_pass_blocked [OF assms(1-3), of True b st' woke] waiter entry True by simp
  qed
  with True show ?thesis by blast
next
  case False
  then have "b = Done (Inl Interrupted)" "st' = st\<lparr>lt_waiters := om_del w (lt_waiters st)\<rparr>" "\<not> woke"
    using wake by (auto simp: setlk_blocking_wake_def split: if_splits)
  with assms(1,2) show ?thesis
    by (auto simp: effect_def silent_def spent_def is_waiter_retired_def pass_result_def table_ok_waiters_del scoped_del)
qed

lemma cancel_waiter_effect:
  assumes "table_ok limits st" "scoped st" "cancel_waiter_with_outcome limits w st = (r, st', woke)"
  shows "effect limits None st st' woke"
proof (cases "st' = st")
  case True
  then show ?thesis using assms(1,2) by (simp add: effect_refl)
next
  case False
  define st1 where "st1 = st\<lparr>lt_waiters := om_del w (lt_waiters st)\<rparr>"
  obtain st0 owner kind where st0: "st0 = st \<and> map_of (lt_waiters st) w = None \<or> st0 = st1"
    and rem: "remember_waiter_outcome st0 limits w Cancelled owner kind = (Inr (), st')" and "woke"
  proof (cases "map_of (lt_waiters st) w")
    case None
    then show thesis
      using assms(3) False
      by (intro that [of st None None])
        (auto simp: cancel_waiter_with_outcome_def remember_waiter_outcome_def split: if_splits option.splits sum.splits)
  next
    case (Some waiting)
    then show thesis
      using assms(3) False
      by (intro that [of st1 "Some (wl_owner waiting)" "Some (wl_kind waiting)"])
        (auto simp: cancel_waiter_with_outcome_def remember_waiter_outcome_def ensure_waiter_outcome_capacity_def st1_def
          split: if_splits sum.splits)
  qed
  have ok: "table_ok limits st0" "scoped st0"
    using st0 assms(1,2) by (auto simp: st1_def table_ok_waiters_del scoped_del)
  obtain u where cap: "ensure_waiter_outcome_capacity st0 limits w = Inr u"
    and st': "st' = st0\<lparr>lt_waiter_outcomes := om_put w \<lparr>so_outcome = Cancelled, so_owner = owner, so_kind = kind\<rparr>
      (lt_waiter_outcomes st0)\<rparr>"
    using rem by (auto simp: remember_waiter_outcome_def split: sum.splits)
  have "table_ok limits st'" using table_ok_outcome [OF ok(1) cap] by (simp add: st')
  moreover have "scoped st'" using ok(2) by (simp add: st' scoped_def)
  ultimately show ?thesis
    using st0 \<open>woke\<close> by (auto simp: effect_def silent_def spent_def is_waiter_retired_def st' st1_def)
qed

lemma acknowledge_waiter_effect:
  assumes "table_ok limits st" "scoped st" "acknowledge_waiter w st = (r, st', woke)"
  shows "effect limits None st st' woke"
proof (cases "map_of (lt_waiter_outcomes st) w")
  case None
  then show ?thesis using assms by (auto simp: acknowledge_waiter_def effect_refl)
next
  case (Some stored)
  then have st': "st' = st\<lparr>lt_waiter_outcomes := om_del w (lt_waiter_outcomes st),
      lt_retired_waiters := os_insert w (lt_retired_waiters st)\<rparr>"
    using assms(3) by (simp add: acknowledge_waiter_def)
  have "w \<in> fst ` set (lt_waiter_outcomes st)" using Some by (auto simp: rev_image_eqI dest: map_of_SomeD)
  then have "length (om_del w (lt_waiter_outcomes st)) < length (lt_waiter_outcomes st)" by (rule length_om_del(2))
  with length_os_insert [of w "lt_retired_waiters st"] have "table_ok limits st'"
    using assms(1) by (simp add: st' table_ok_def)
  moreover have "scoped st'" using assms(2) by (simp add: st' scoped_def)
  ultimately show ?thesis by (auto simp: effect_def silent_def spent_def is_waiter_retired_def st')
qed

lemma release_owner_effect:
  assumes "table_ok limits st" "scoped st" "release_owner kind owner st = (r, st', woke)"
  shows "effect limits None st st' woke"
proof -
  let ?locks = "filter (\<lambda>l. \<not> (al_kind l = kind \<and> al_owner l = owner)) (lt_locks st)"
  have res: "st' = retain_waiter_outcomes (st\<lparr>lt_locks := ?locks\<rparr>) owner (Some kind)"
    "woke \<longleftrightarrow> length ?locks \<noteq> length (lt_locks st)"
    using assms(3) by (auto simp: release_owner_def Let_def)
  have keys: "fst ` set (lt_waiter_outcomes st') = fst ` set (lt_waiter_outcomes st)"
    "map fst (lt_waiter_outcomes st') = map fst (lt_waiter_outcomes st)"
    by (auto simp: res(1) retain_waiter_outcomes_def image_image split_def)
  have quiet: "lt_waiters st' = lt_waiters st" "lt_retired_waiters st' = lt_retired_waiters st"
    "lt_closed_sessions st' = lt_closed_sessions st" "lt_invalidated st' = lt_invalidated st"
    "lt_closed_session_admission_closed st' = lt_closed_session_admission_closed st" "lt_locks st' = ?locks"
    "length (lt_waiter_outcomes st') = length (lt_waiter_outcomes st)"
    by (simp_all add: res(1) retain_waiter_outcomes_def)
  have "exclusive ?locks"
    using assms(1) by (simp add: table_ok_def exclusive_filter)
  moreover have "length ?locks \<le> max_locks limits" "sound ?locks"
    using assms(1) order_trans [OF length_filter_le] by (auto simp: table_ok_def sound_filter)
  moreover have "om_wf (lt_waiter_outcomes st')"
    using assms(1) by (simp add: table_ok_def om_wf_def keys(2))
  ultimately have "table_ok limits st'"
    using assms(1) unfolding table_ok_def quiet by blast
  moreover have "lt_locks st' = lt_locks st" if "\<not> woke"
    using that res(2) by (simp only: quiet(6) filter_same_length not_not)
  ultimately show ?thesis
    using assms(2) quiet keys(1) by (auto simp: effect_def silent_def scoped_def spent_def is_waiter_retired_def)
qed

lemma invalidate_effect:
  assumes "table_ok limits st" "invalidate st = (r, st', woke)"
  shows "effect limits None st st' woke"
proof -
  have st': "lt_locks st' = []" "lt_waiters st' = []" "lt_waiter_outcomes st' = []" "lt_retired_waiters st' = []"
    "lt_closed_sessions st' = []" "lt_invalidated st'" "woke"
    using assms(2) by (auto simp: invalidate_def)
  then have "table_ok limits st'"
    by (simp add: table_ok_def exclusive_def waits_def recorded_blockers_def acyclic_def)
  with st' show ?thesis by (simp add: effect_def scoped_def silent_def spent_def)
qed

lemma release_session_effect:
  assumes "table_ok limits st" "scoped st" "release_session limits session st = (r, st', woke)"
  shows "effect limits None st st' woke"
proof (cases "lt_invalidated st")
  case True
  then show ?thesis using assms by (auto simp: release_session_def effect_refl)
next
  case False
  let ?gone = "\<lambda>(w, waiter). waiter_session_id w \<noteq> session \<and> ingress_session_id (wl_owner waiter) \<noteq> session"
  let ?locks = "filter (\<lambda>l. ingress_session_id (al_owner l) \<noteq> session) (lt_locks st)"
  let ?waiters = "filter ?gone (lt_waiters st)"
  let ?outcomes = "filter (\<lambda>(w, _). waiter_session_id w \<noteq> session) (lt_waiter_outcomes st)"
  let ?retired = "filter (\<lambda>w. waiter_session_id w \<noteq> session) (lt_retired_waiters st)"
  define st1 where "st1 = st\<lparr>lt_locks := ?locks, lt_waiters := ?waiters, lt_waiter_outcomes := ?outcomes,
    lt_retired_waiters := ?retired\<rparr>"
  let ?full = "max_cancelled_waiters limits = 0 \<or> length (lt_closed_sessions st) \<ge> max_cancelled_waiters limits"
  have "lt_closed_sessions st1 = lt_closed_sessions st" by (simp add: st1_def)
  then have eq: "st' = (if session \<in> set (lt_closed_sessions st) then st1
      else if ?full then st1\<lparr>lt_closed_session_admission_closed := True\<rparr>
      else st1\<lparr>lt_closed_sessions := os_insert session (lt_closed_sessions st)\<rparr>)"
    and woke: "woke \<longleftrightarrow> length ?locks \<noteq> length (lt_locks st) \<or> length ?waiters \<noteq> length (lt_waiters st)"
    using assms(3) False unfolding release_session_def Let_def st1_def [symmetric] by auto
  have st': "lt_locks st' = ?locks" "lt_waiters st' = ?waiters" "lt_waiter_outcomes st' = ?outcomes"
    "lt_retired_waiters st' = ?retired" "lt_invalidated st' = lt_invalidated st"
    by (simp_all add: eq st1_def)
  have closed: "session \<in> set (lt_closed_sessions st') \<or> lt_closed_session_admission_closed st'"
    "set (lt_closed_sessions st) \<subseteq> set (lt_closed_sessions st')"
    "lt_closed_session_admission_closed st \<longrightarrow> lt_closed_session_admission_closed st'"
    "length (lt_closed_sessions st') \<le> max_cancelled_waiters limits"
    using assms(1) length_os_insert [of session "lt_closed_sessions st"] by (auto simp: eq st1_def table_ok_def)
  have "length ?locks \<le> max_locks limits" "length ?waiters \<le> max_waiters limits"
    "length ?outcomes + length ?retired \<le> max_cancelled_waiters limits"
    using assms(1) unfolding table_ok_def
    by (blast intro: order_trans [OF length_filter_le] order_trans [OF add_mono [OF length_filter_le length_filter_le]])+
  then have ok: "table_ok limits st'"
    using assms(1) closed(4) acyclic_subset [OF _ waits_filter]
    by (simp add: table_ok_def st'(1-4) exclusive_filter sound_filter om_wf_filter)
  have sc: "scoped st'" using assms(2) by (auto simp: scoped_def st'(2))
  have kept: "map_of ?waiters w = map_of (lt_waiters st) w" if "waiter_session_id w \<noteq> session" for w
  proof -
    have "\<forall>waiter. (w, waiter) \<in> set (lt_waiters st) \<longrightarrow> ?gone (w, waiter)"
      using assms(2) that by (auto simp: scoped_def)
    then show ?thesis by (rule map_of_filter_keep)
  qed
  have dropped: "map_of ?waiters w = None" if "waiter_session_id w = session" for w
    using that by (auto simp: map_of_eq_None_iff)
  have spent: "spent st' w" if "spent st w \<or> waiter_session_id w = session" for w
  proof (cases "waiter_session_id w = session")
    case True
    then show ?thesis using closed(1) by (auto simp: spent_def)
  next
    case False
    with that have "spent st w" by simp
    then show ?thesis
      using False closed(2,3) by (force simp: spent_def is_waiter_retired_def st'(3-5))
  qed
  have "lt_locks st' = lt_locks st" "lt_waiters st' = lt_waiters st" if "\<not> woke"
    using that woke st'(1,2) by (simp_all add: filter_same_length)
  then have "effect limits None st st' woke" if "\<forall>w. map_of ?waiters w = map_of (lt_waiters st) w \<or> woke"
    using ok sc spent kept dropped st'(2,5) that unfolding effect_def silent_def by metis
  then show ?thesis using \<open>\<not> woke \<Longrightarrow> lt_waiters st' = lt_waiters st\<close> st'(2) by metis
qed

end
