(* ===== verification/Lock_Steps.thy ===== *)
theory Lock_Steps
  imports Lock_Invariant
begin

text \<open>
  Threads that share a lock table. A blocking request that has to wait is a sleeper; an operation that
  notifies wakes all sleepers, and a sleeper may also wake spuriously. The callers check that a waiter
  identifier carries the session of the lock owner (\<^verbatim>\<open>afs/src/node/vfs/dfs.rs\<close> and \<^verbatim>\<open>ownerfs.rs\<close>).
\<close>

section \<open>Definitions\<close>

record sleeper =
  sl_request :: lock_request
  sl_waiter :: lock_waiter_id
  sl_notified :: bool

record lock_system =
  sy_table :: lock_table_state
  sy_sleepers :: "sleeper list"

definition notify_all :: "bool \<Rightarrow> sleeper list \<Rightarrow> sleeper list" where
  "notify_all woke ss = (if woke then map (\<lambda>s. s\<lparr>sl_notified := True\<rparr>) ss else ss)"

inductive lock_step :: "lock_table_limits \<Rightarrow> lock_system \<Rightarrow> lock_system \<Rightarrow> bool" for limits where
  set_nonblocking: "setlk_nonblocking limits request (sy_table s) = (r, t, woke) \<Longrightarrow>
    lock_step limits s \<lparr>sy_table = t, sy_sleepers = notify_all woke (sy_sleepers s)\<rparr>"
| enter_done: "setlk_blocking_enter limits request w (sy_table s) = (Done r, t, woke) \<Longrightarrow>
    waiter_session_id w = ingress_session_id (rq_owner request) \<Longrightarrow>
    lock_step limits s \<lparr>sy_table = t, sy_sleepers = notify_all woke (sy_sleepers s)\<rparr>"
| enter_wait: "setlk_blocking_enter limits request w (sy_table s) = (Waiting, t, woke) \<Longrightarrow>
    waiter_session_id w = ingress_session_id (rq_owner request) \<Longrightarrow>
    lock_step limits s \<lparr>sy_table = t, sy_sleepers = notify_all woke (sy_sleepers s) @
      [\<lparr>sl_request = request, sl_waiter = w, sl_notified = False\<rparr>]\<rparr>"
| wake_done: "sy_sleepers s = before @ z # after \<Longrightarrow>
    setlk_blocking_wake limits (sl_request z) (sl_waiter z) (sy_table s) = (Done r, t, woke) \<Longrightarrow>
    lock_step limits s \<lparr>sy_table = t, sy_sleepers = notify_all woke (before @ after)\<rparr>"
| wake_wait: "sy_sleepers s = before @ z # after \<Longrightarrow>
    setlk_blocking_wake limits (sl_request z) (sl_waiter z) (sy_table s) = (Waiting, t, woke) \<Longrightarrow>
    lock_step limits s \<lparr>sy_table = t,
      sy_sleepers = notify_all woke before @ z\<lparr>sl_notified := False\<rparr> # notify_all woke after\<rparr>"
| cancel: "cancel_waiter_with_outcome limits w (sy_table s) = (r, t, woke) \<Longrightarrow>
    lock_step limits s \<lparr>sy_table = t, sy_sleepers = notify_all woke (sy_sleepers s)\<rparr>"
| acknowledge: "acknowledge_waiter w (sy_table s) = (r, t, woke) \<Longrightarrow>
    lock_step limits s \<lparr>sy_table = t, sy_sleepers = notify_all woke (sy_sleepers s)\<rparr>"
| release_posix: "release_posix_owner owner (sy_table s) = (r, t, woke) \<Longrightarrow>
    lock_step limits s \<lparr>sy_table = t, sy_sleepers = notify_all woke (sy_sleepers s)\<rparr>"
| release_flock: "release_flock_owner owner (sy_table s) = (r, t, woke) \<Longrightarrow>
    lock_step limits s \<lparr>sy_table = t, sy_sleepers = notify_all woke (sy_sleepers s)\<rparr>"
| close_session: "release_session limits session (sy_table s) = (r, t, woke) \<Longrightarrow>
    lock_step limits s \<lparr>sy_table = t, sy_sleepers = notify_all woke (sy_sleepers s)\<rparr>"
| invalidated: "invalidate (sy_table s) = (r, t, woke) \<Longrightarrow>
    lock_step limits s \<lparr>sy_table = t, sy_sleepers = notify_all woke (sy_sleepers s)\<rparr>"

inductive lock_reach :: "lock_table_limits \<Rightarrow> lock_system \<Rightarrow> bool" for limits where
  fresh: "lock_reach limits \<lparr>sy_table = LockTable_new, sy_sleepers = []\<rparr>"
| step: "lock_reach limits s \<Longrightarrow> lock_step limits s s' \<Longrightarrow> lock_reach limits s'"

section \<open>The invariant of the threads\<close>

text \<open>A sleeper is registered or spent; one that nobody woke is registered with its present blockers.\<close>

definition sleeper_ok :: "lock_table_state \<Rightarrow> sleeper \<Rightarrow> bool" where
  "sleeper_ok st z \<longleftrightarrow>
     is_valid (rq_range (sl_request z)) \<and> rq_lock_type (sl_request z) \<noteq> Unlock \<and>
     waiter_session_id (sl_waiter z) = ingress_session_id (rq_owner (sl_request z)) \<and>
     (case map_of (lt_waiters st) (sl_waiter z) of
        None \<Rightarrow> spent st (sl_waiter z) \<and> sl_notified z
      | Some waiter \<Rightarrow> wl_owner waiter = rq_owner (sl_request z) \<and>
          (sl_notified z \<or> first_conflict (lt_locks st) (sl_request z) \<noteq> None \<and>
             wl_blockers waiter = blocking_owners (lt_locks st) (sl_request z)))"

definition system_ok :: "lock_table_limits \<Rightarrow> lock_system \<Rightarrow> bool" where
  "system_ok limits s \<longleftrightarrow> table_ok limits (sy_table s) \<and> scoped (sy_table s) \<and>
     (\<forall>z \<in> set (sy_sleepers s). sleeper_ok (sy_table s) z) \<and> distinct (map sl_waiter (sy_sleepers s)) \<and>
     fst ` set (lt_waiters (sy_table s)) \<subseteq> sl_waiter ` set (sy_sleepers s)"

lemma notify_waiters [simp]: "map sl_waiter (notify_all woke ss) = map sl_waiter ss"
  by (simp add: notify_all_def)

lemma notify_append [simp]: "notify_all woke (ss @ ts) = notify_all woke ss @ notify_all woke ts"
  by (simp add: notify_all_def)

lemma notify_set_waiters [simp]: "sl_waiter ` set (notify_all woke ss) = sl_waiter ` set ss"
  by (metis list.set_map notify_waiters)

lemma in_notify: "z \<in> set (notify_all woke ss) \<Longrightarrow>
    \<exists>z0 \<in> set ss. sl_request z = sl_request z0 \<and> sl_waiter z = sl_waiter z0 \<and> sl_notified z = (woke \<or> sl_notified z0)"
  by (auto simp: notify_all_def split: if_splits)

text \<open>An operation keeps every sleeper that is not its own.\<close>

lemma effect_sleeper:
  assumes "effect limits own st st' woke" "sleeper_ok st z0" "own \<noteq> Some (sl_waiter z0)"
    and "sl_request z = sl_request z0" "sl_waiter z = sl_waiter z0" "sl_notified z = (woke \<or> sl_notified z0)"
  shows "sleeper_ok st' z"
proof -
  have keep: "spent st (sl_waiter z0) \<Longrightarrow> spent st' (sl_waiter z0)" "silent st st' woke"
    and same: "map_of (lt_waiters st') (sl_waiter z0) = map_of (lt_waiters st) (sl_waiter z0) \<or>
      map_of (lt_waiters st') (sl_waiter z0) = None \<and> spent st' (sl_waiter z0) \<and> woke"
    using assms(1,3) unfolding effect_def by blast+
  show ?thesis
  proof (cases "map_of (lt_waiters st') (sl_waiter z0)")
    case None
    then have "spent st' (sl_waiter z0) \<and> sl_notified z"
      using keep(1) same assms(2,6) by (auto simp: sleeper_ok_def split: option.splits)
    with None assms(2,4,5) show ?thesis by (simp add: sleeper_ok_def)
  next
    case (Some waiter)
    then have old: "map_of (lt_waiters st) (sl_waiter z0) = Some waiter" using same by auto
    have "lt_locks st' = lt_locks st" if "\<not> woke" using keep(2) that by (simp add: silent_def)
    with Some old assms(2,4-6) show ?thesis by (auto simp: sleeper_ok_def)
  qed
qed

lemma effect_sleepers:
  assumes "effect limits own st st' woke" "\<forall>z \<in> set ss. sleeper_ok st z \<and> own \<noteq> Some (sl_waiter z)"
  shows "\<forall>z \<in> set (notify_all woke ss). sleeper_ok st' z"
proof
  fix z assume "z \<in> set (notify_all woke ss)"
  then obtain z0 where z0: "z0 \<in> set ss" "sl_request z = sl_request z0" "sl_waiter z = sl_waiter z0"
    "sl_notified z = (woke \<or> sl_notified z0)"
    using in_notify by blast
  then show "sleeper_ok st' z" using assms by (intro effect_sleeper [OF assms(1) _ _ z0(2-4)]) auto
qed

lemma effect_keys:
  assumes "effect limits own st st' woke" "w \<in> fst ` set (lt_waiters st')" "own \<noteq> Some w"
  shows "w \<in> fst ` set (lt_waiters st)"
  using assms unfolding effect_def by (metis map_of_eq_None_iff)

lemma system_ok_table:
  assumes "system_ok limits s" "effect limits None (sy_table s) t woke"
  shows "system_ok limits \<lparr>sy_table = t, sy_sleepers = notify_all woke (sy_sleepers s)\<rparr>"
proof -
  have "fst ` set (lt_waiters t) \<subseteq> sl_waiter ` set (sy_sleepers s)"
    using effect_keys [OF assms(2)] assms(1) unfolding system_ok_def by blast
  moreover have "\<forall>z \<in> set (notify_all woke (sy_sleepers s)). sleeper_ok t z"
    using assms by (intro effect_sleepers [OF assms(2)]) (simp add: system_ok_def)
  ultimately show ?thesis using assms by (simp add: system_ok_def effect_def)
qed

text \<open>The pass of a blocking request leaves its own thread asleep in order, or gone.\<close>

lemma pass_sleeper:
  assumes "pass_result request w registered Waiting st t woke" "is_valid (rq_range request)"
    and "waiter_session_id w = ingress_session_id (rq_owner request)"
  shows "sleeper_ok t \<lparr>sl_request = request, sl_waiter = w, sl_notified = False\<rparr>" "\<not> woke"
  using assms by (auto simp: pass_result_def sleeper_ok_def)

lemma system_ok_enter:
  assumes "system_ok limits s" "waiter_session_id w = ingress_session_id (rq_owner request)"
    and enter: "setlk_blocking_enter limits request w (sy_table s) = (b, t, woke)"
  shows "system_ok limits \<lparr>sy_table = t, sy_sleepers = notify_all woke (sy_sleepers s) @
    (if b = Waiting then [\<lparr>sl_request = request, sl_waiter = w, sl_notified = False\<rparr>] else [])\<rparr>"
proof -
  have inv: "table_ok limits (sy_table s)" "scoped (sy_table s)" "\<forall>z \<in> set (sy_sleepers s). sleeper_ok (sy_table s) z"
    "distinct (map sl_waiter (sy_sleepers s))" "fst ` set (lt_waiters (sy_table s)) \<subseteq> sl_waiter ` set (sy_sleepers s)"
    using assms(1) by (simp_all add: system_ok_def)
  have ok: "effect limits (Some w) (sy_table s) t woke" "pass_result request w False b (sy_table s) t woke"
    "b = Waiting \<Longrightarrow> \<not> spent (sy_table s) w \<and> is_valid (rq_range request)"
    using setlk_blocking_enter_ok [OF inv(1,2) assms(2) enter] by blast+
  show ?thesis
  proof (cases b)
    case (Done r)
    then have "lt_waiters t = lt_waiters (sy_table s)" using ok(2) by (simp add: pass_result_def)
    then have "effect limits None (sy_table s) t woke" using ok(1) by (simp add: effect_def)
    with Done system_ok_table [OF assms(1)] show ?thesis by simp
  next
    case Waiting
    have none: "map_of (lt_waiters (sy_table s)) w = None" using ok(2) Waiting by (auto simp: pass_result_def)
    have new: "w \<notin> sl_waiter ` set (sy_sleepers s)"
      using inv(3) none ok(3) [OF Waiting] by (auto simp: sleeper_ok_def)
    have "fst ` set (lt_waiters t) \<subseteq> insert w (sl_waiter ` set (sy_sleepers s))"
      using effect_keys [OF ok(1)] inv(5) by blast
    moreover have "\<forall>z \<in> set (notify_all woke (sy_sleepers s)). sleeper_ok t z"
      using inv(3) new by (intro effect_sleepers [OF ok(1)]) auto
    moreover have "sleeper_ok t \<lparr>sl_request = request, sl_waiter = w, sl_notified = False\<rparr>"
      using pass_sleeper(1) ok(2,3) Waiting assms(2) by blast
    ultimately show ?thesis
      using ok(1) Waiting new inv(4) by (auto simp: system_ok_def effect_def)
  qed
qed

lemma system_ok_wake:
  assumes "system_ok limits s" "sy_sleepers s = before @ z # after"
    and wake: "setlk_blocking_wake limits (sl_request z) (sl_waiter z) (sy_table s) = (b, t, woke)"
  shows "system_ok limits \<lparr>sy_table = t, sy_sleepers =
    (case b of Done _ \<Rightarrow> notify_all woke (before @ after)
     | Waiting \<Rightarrow> notify_all woke before @ z\<lparr>sl_notified := False\<rparr> # notify_all woke after)\<rparr>"
proof -
  let ?w = "sl_waiter z"
  have inv: "table_ok limits (sy_table s)" "scoped (sy_table s)" "\<forall>z \<in> set (sy_sleepers s). sleeper_ok (sy_table s) z"
    "distinct (map sl_waiter (before @ z # after))"
    "fst ` set (lt_waiters (sy_table s)) \<subseteq> sl_waiter ` set (sy_sleepers s)"
    using assms(1,2) by (simp_all add: system_ok_def)
  have z: "sleeper_ok (sy_table s) z" using inv(3) assms(2) by simp
  have sess: "waiter_session_id ?w = ingress_session_id (rq_owner (sl_request z))" "is_valid (rq_range (sl_request z))"
    using z by (simp_all add: sleeper_ok_def)
  have "\<forall>waiter. map_of (lt_waiters (sy_table s)) ?w = Some waiter \<longrightarrow> wl_owner waiter = rq_owner (sl_request z)"
    using z by (auto simp: sleeper_ok_def)
  then have ok: "effect limits (Some ?w) (sy_table s) t woke" "pass_result (sl_request z) ?w True b (sy_table s) t woke"
    using setlk_blocking_wake_ok [OF inv(1,2) sess _ wake] by blast+
  have others: "\<forall>x \<in> set (notify_all woke before) \<union> set (notify_all woke after). sleeper_ok t x"
  proof -
    have "\<forall>x \<in> set before \<union> set after. sleeper_ok (sy_table s) x \<and> Some ?w \<noteq> Some (sl_waiter x)"
      using inv(3,4) assms(2) by (auto simp: image_iff)
    then show ?thesis using effect_sleepers [OF ok(1), of before] effect_sleepers [OF ok(1), of after] by blast
  qed
  have keys: "fst ` set (lt_waiters t) \<subseteq> insert ?w (sl_waiter ` set (before @ after))"
  proof
    fix x assume x: "x \<in> fst ` set (lt_waiters t)"
    have "x \<in> sl_waiter ` set (before @ z # after)" if "x \<noteq> ?w"
      using effect_keys [OF ok(1) x] that inv(5) assms(2) by auto
    then show "x \<in> insert ?w (sl_waiter ` set (before @ after))" by auto
  qed
  show ?thesis
  proof (cases b)
    case (Done r)
    then have own: "?w \<notin> fst ` set (lt_waiters t)" using ok(2) by (simp add: pass_result_def map_of_eq_None_iff)
    have "fst ` set (lt_waiters t) \<subseteq> sl_waiter ` set (before @ after)"
      by (rule iffD1 [OF subset_insert [OF own] keys])
    with Done others ok(1) inv(4) show ?thesis by (auto simp: system_ok_def effect_def image_Un)
  next
    case Waiting
    then have "sleeper_ok t \<lparr>sl_request = sl_request z, sl_waiter = ?w, sl_notified = False\<rparr>"
      using pass_sleeper(1) ok(2) sess by blast
    moreover have "\<lparr>sl_request = sl_request z, sl_waiter = ?w, sl_notified = False\<rparr> = z\<lparr>sl_notified := False\<rparr>"
      by (cases z) simp
    ultimately have "sleeper_ok t (z\<lparr>sl_notified := False\<rparr>)" by simp
    with Waiting others keys ok(1) inv(4) show ?thesis by (auto simp: system_ok_def effect_def image_Un)
  qed
qed

lemma lock_step_ok: "lock_step limits s s' \<Longrightarrow> system_ok limits s \<Longrightarrow> system_ok limits s'"
proof (induction rule: lock_step.induct)
  case (set_nonblocking request s r t woke)
  then show ?case by (intro system_ok_table) (auto simp: system_ok_def intro: setlk_nonblocking_effect)
next
  case (enter_done request w s r t woke)
  then show ?case using system_ok_enter [of limits s w request "Done r" t woke] by simp
next
  case (enter_wait request w s t woke)
  then show ?case using system_ok_enter [of limits s w request Waiting t woke] by simp
next
  case (wake_done s before z after r t woke)
  then show ?case using system_ok_wake [of limits s before z after "Done r" t woke] by simp
next
  case (wake_wait s before z after t woke)
  then show ?case using system_ok_wake [of limits s before z after Waiting t woke] by simp
next
  case (cancel w s r t woke)
  then show ?case by (intro system_ok_table) (auto simp: system_ok_def intro: cancel_waiter_effect)
next
  case (acknowledge w s r t woke)
  then show ?case by (intro system_ok_table) (auto simp: system_ok_def intro: acknowledge_waiter_effect)
next
  case (release_posix owner s r t woke)
  then show ?case
    by (intro system_ok_table) (auto simp: system_ok_def release_posix_owner_def intro: release_owner_effect)
next
  case (release_flock owner s r t woke)
  then show ?case
    by (intro system_ok_table) (auto simp: system_ok_def release_flock_owner_def intro: release_owner_effect)
next
  case (close_session session s r t woke)
  then show ?case by (intro system_ok_table) (auto simp: system_ok_def intro: release_session_effect)
next
  case (invalidated s r t woke)
  then show ?case by (intro system_ok_table) (auto simp: system_ok_def intro: invalidate_effect)
qed

lemma lock_reach_ok: "lock_reach limits s \<Longrightarrow> system_ok limits s"
proof (induction rule: lock_reach.induct)
  case fresh
  then show ?case using table_ok_new [of limits] by (simp add: system_ok_def scoped_def LockTable_new_def)
next
  case (step s s')
  then show ?case using lock_step_ok by blast
qed

lemma blocking_owners_loop_set:
  "set (blocking_owners_loop request owners locks) = set owners \<union> {al_owner l | l. l \<in> set locks \<and> conflicts l request}"
  by (induction request owners locks rule: blocking_owners_loop.induct) auto

lemma set_blocking_owners: "set (blocking_owners locks request) = {al_owner l | l. l \<in> set locks \<and> conflicts l request}"
  by (simp add: blocking_owners_def blocking_owners_loop_set)

lemma finite_waits: "finite (waits waiters)"
proof (rule finite_subset)
  show "waits waiters \<subseteq> (\<Union>waiter \<in> snd ` set waiters. {wl_owner waiter} \<times> set (wl_blockers waiter))"
    by (auto simp: waits_iff)
qed auto

section \<open>A run\<close>

definition demo_limits :: lock_table_limits where
  "demo_limits = \<lparr>max_locks = 4, max_waiters = 4, max_cancelled_waiters = 4\<rparr>"

definition demo_request :: "u64 \<Rightarrow> u64 \<Rightarrow> u64 \<Rightarrow> file_lock_type \<Rightarrow> lock_request" where
  "demo_request owner lo hi ty = \<lparr>rq_kind = Posix, rq_owner = demo_owner owner, rq_pid = 7,
     rq_range = \<lparr>start = lo, stop = hi\<rparr>, rq_lock_type = ty\<rparr>"

definition demo_locked :: lock_table_state where
  "demo_locked = fst (snd (setlk_nonblocking demo_limits (demo_request 1 0 9 WriteLock) LockTable_new))"

definition demo_waiting :: lock_table_state where
  "demo_waiting = fst (snd (setlk_blocking_enter demo_limits (demo_request 2 5 20 WriteLock) (LockWaiterId ''s'' 1) demo_locked))"

definition demo_sleeper :: sleeper where
  "demo_sleeper = \<lparr>sl_request = demo_request 2 5 20 WriteLock, sl_waiter = LockWaiterId ''s'' 1, sl_notified = False\<rparr>"

lemma demo_reach_locked: "lock_reach demo_limits \<lparr>sy_table = demo_locked, sy_sleepers = []\<rparr>"
proof -
  have "snd (snd (setlk_nonblocking demo_limits (demo_request 1 0 9 WriteLock) LockTable_new))" by code_simp
  then have "setlk_nonblocking demo_limits (demo_request 1 0 9 WriteLock) LockTable_new =
      (fst (setlk_nonblocking demo_limits (demo_request 1 0 9 WriteLock) LockTable_new), demo_locked, True)"
    by (simp add: demo_locked_def prod_eq_iff)
  from lock_reach.step [OF lock_reach.fresh lock_step.set_nonblocking] this show ?thesis
    by (fastforce simp: notify_all_def)
qed

lemma demo_reach_waiting: "lock_reach demo_limits \<lparr>sy_table = demo_waiting, sy_sleepers = [demo_sleeper]\<rparr>"
proof -
  let ?enter = "setlk_blocking_enter demo_limits (demo_request 2 5 20 WriteLock) (LockWaiterId ''s'' 1) demo_locked"
  have "fst ?enter = Waiting \<and> \<not> snd (snd ?enter)" by code_simp
  then have "?enter = (Waiting, demo_waiting, False)" by (simp add: demo_waiting_def prod_eq_iff)
  then have "lock_step demo_limits \<lparr>sy_table = demo_locked, sy_sleepers = []\<rparr>
      \<lparr>sy_table = demo_waiting, sy_sleepers = notify_all False [] @ [demo_sleeper]\<rparr>"
    using lock_step.enter_wait [of demo_limits "demo_request 2 5 20 WriteLock" "LockWaiterId ''s'' 1"
        "\<lparr>sy_table = demo_locked, sy_sleepers = []\<rparr>" demo_waiting False]
    by (simp add: demo_sleeper_def demo_request_def demo_owner_def)
  with lock_reach.step [OF demo_reach_locked] show ?thesis by (simp add: notify_all_def)
qed

section \<open>Properties\<close>

lemma exclusive_conflict:
  assumes "sound ls" "exclusive ls" "l \<in> set ls" "m \<in> set ls"
    and "al_kind l = al_kind m" "al_owner l \<noteq> al_owner m" "overlaps (al_range l) (al_range m)"
  shows "al_lock_type l = ReadLock"
proof -
  have "bytes (al_range l) \<inter> bytes (al_range m) \<noteq> {}" using assms by (simp add: overlaps_bytes sound_def)
  then obtain x where "x \<in> bytes (al_range l)" "x \<in> bytes (al_range m)" by blast
  then have "al_lock_type l \<in> held ls (al_kind m) (al_owner l) x" "held ls (al_kind m) (al_owner m) x \<noteq> {}"
    using assms(3-5) by (auto simp: held_def)
  then have "al_lock_type l \<noteq> WriteLock" using assms(2,6) unfolding exclusive_def by metis
  moreover have "al_lock_type l \<noteq> Unlock" using assms(1,3) by (simp add: sound_def)
  ultimately show ?thesis by (cases "al_lock_type l") auto
qed

text \<open>
  C35. Whatever threads do with a lock table, blocking requests, wake-ups, cancellations and closing
  sessions included, two granted locks of different owners in the same namespace that overlap are both
  read locks.
\<close>

theorem granted_locks_never_conflict:
  assumes "lock_reach limits s" "l \<in> set (lt_locks (sy_table s))" "m \<in> set (lt_locks (sy_table s))"
    and "al_kind l = al_kind m" "al_owner l \<noteq> al_owner m" "overlaps (al_range l) (al_range m)"
  shows "al_lock_type l = ReadLock \<and> al_lock_type m = ReadLock"
proof -
  have "sound (lt_locks (sy_table s))" "exclusive (lt_locks (sy_table s))"
    using lock_reach_ok [OF assms(1)] by (simp_all add: system_ok_def table_ok_def)
  moreover have "overlaps (al_range m) (al_range l)" using assms(6) by (simp add: overlaps_def conj_commute)
  ultimately show ?thesis using assms(2-6) exclusive_conflict by metis
qed

definition demo_shared :: lock_table_state where
  "demo_shared = fst (snd (setlk_nonblocking demo_limits (demo_request 2 4 9 ReadLock)
     (fst (snd (setlk_nonblocking demo_limits (demo_request 1 0 5 ReadLock) LockTable_new)))))"

lemma lock_reach_set:
  assumes "lock_reach limits \<lparr>sy_table = t, sy_sleepers = []\<rparr>"
  shows "lock_reach limits \<lparr>sy_table = fst (snd (setlk_nonblocking limits request t)), sy_sleepers = []\<rparr>"
proof -
  have "lock_step limits \<lparr>sy_table = t, sy_sleepers = []\<rparr>
      \<lparr>sy_table = fst (snd (setlk_nonblocking limits request t)),
       sy_sleepers = notify_all (snd (snd (setlk_nonblocking limits request t))) []\<rparr>"
    using lock_step.set_nonblocking [of limits request "\<lparr>sy_table = t, sy_sleepers = []\<rparr>"]
    by (cases "setlk_nonblocking limits request t") auto
  moreover have "notify_all woke [] = []" for woke by (simp add: notify_all_def)
  ultimately show ?thesis using lock_reach.step [OF assms] by simp
qed

theorem granted_locks_never_conflict_witness:
  "case lt_locks demo_shared of
     [l, m] \<Rightarrow> al_owner l \<noteq> al_owner m \<and> overlaps (al_range l) (al_range m) \<and> al_lock_type l = ReadLock
   | _ \<Rightarrow> False"
proof -
  have reach: "lock_reach demo_limits \<lparr>sy_table = demo_shared, sy_sleepers = []\<rparr>"
    unfolding demo_shared_def by (intro lock_reach_set lock_reach.fresh)
  have "case lt_locks demo_shared of
      [l, m] \<Rightarrow> al_kind l = al_kind m \<and> al_owner l \<noteq> al_owner m \<and> overlaps (al_range l) (al_range m)
    | _ \<Rightarrow> False" by code_simp
  then obtain l m where "lt_locks demo_shared = [l, m]" "al_kind l = al_kind m" "al_owner l \<noteq> al_owner m"
    "overlaps (al_range l) (al_range m)"
    by (auto split: list.splits)
  then show ?thesis using granted_locks_never_conflict [OF reach, of l m] by simp
qed

text \<open>
  C36. A request the table grants at once changes exactly the bytes of its range for its owner and
  namespace: they are held as requested, or not at all after an unlock, and every other byte is held as
  before, whatever splitting, merging and saturation at the end of the file took place. All waiters are
  woken.
\<close>

theorem grant_changes_its_bytes:
  assumes "lock_reach limits s" "setlk_nonblocking limits request (sy_table s) = (Inr (), t, woke)"
  shows "held (lt_locks t) k a x =
      (if k = rq_kind request \<and> a = rq_owner request \<and> x \<in> bytes (rq_range request)
       then if rq_lock_type request = Unlock then {} else {rq_lock_type request}
       else held (lt_locks (sy_table s)) k a x) \<and> woke"
proof -
  have "sound (lt_locks (sy_table s))" using lock_reach_ok [OF assms(1)] by (simp add: system_ok_def table_ok_def)
  moreover have "is_valid (rq_range request)" "apply_lock (sy_table s) limits request = (Inr (), t)" "woke"
    using assms(2) by (auto simp: setlk_nonblocking_def validate_range_def split: if_splits prod.splits sum.splits)
  ultimately show ?thesis using apply_lock_held(2) by blast
qed

theorem grant_changes_its_bytes_witness:
  "held (lt_locks (fst (snd (setlk_nonblocking demo_limits (demo_request 1 3 4 Unlock) demo_locked)))) Posix (demo_owner 1) 3 = {}"
proof -
  let ?op = "setlk_nonblocking demo_limits (demo_request 1 3 4 Unlock) demo_locked"
  have "fst ?op = Inr () \<and> snd (snd ?op)" by code_simp
  then have "?op = (Inr (), fst (snd ?op), True)" by (simp add: prod_eq_iff)
  moreover have "3 \<in> bytes (rq_range (demo_request 1 3 4 Unlock))" by (simp add: demo_request_def bytes_def)
  ultimately show ?thesis
    using grant_changes_its_bytes [OF demo_reach_locked, of "demo_request 1 3 4 Unlock" "fst (snd ?op)" True Posix
        "demo_owner 1" 3]
    by (simp add: demo_request_def)
qed

text \<open>
  C39. The table stays within its limits: granted segments, registered waiters, terminal outcomes together
  with replay fences, and closed sessions.
\<close>

theorem lock_table_stays_bounded:
  assumes "lock_reach limits s"
  shows "length (lt_locks (sy_table s)) \<le> max_locks limits \<and> length (lt_waiters (sy_table s)) \<le> max_waiters limits \<and>
    length (lt_waiter_outcomes (sy_table s)) + length (lt_retired_waiters (sy_table s)) \<le> max_cancelled_waiters limits \<and>
    length (lt_closed_sessions (sy_table s)) \<le> max_cancelled_waiters limits"
  using lock_reach_ok [OF assms] by (simp add: system_ok_def table_ok_def)

theorem lock_table_stays_bounded_witness:
  "length (lt_waiters demo_waiting) = 1 \<and> length (lt_waiters demo_waiting) \<le> 4"
proof -
  have "length (lt_waiters demo_waiting) = 1" by code_simp
  then show ?thesis using lock_table_stays_bounded [OF demo_reach_waiting] by (simp add: demo_limits_def)
qed

text \<open>
  C38. No wake-up is lost: a request that sleeps without having been notified is in conflict with a granted
  lock at this moment, is registered, and its recorded blockers are exactly the owners of the locks it
  conflicts with.
\<close>

theorem sleeping_request_is_blocked:
  assumes "lock_reach limits s" "z \<in> set (sy_sleepers s)" "\<not> sl_notified z"
  shows "first_conflict (lt_locks (sy_table s)) (sl_request z) \<noteq> None \<and>
    (\<exists>waiter. map_of (lt_waiters (sy_table s)) (sl_waiter z) = Some waiter \<and> wl_owner waiter = rq_owner (sl_request z) \<and>
       set (wl_blockers waiter) = {al_owner l | l. l \<in> set (lt_locks (sy_table s)) \<and> conflicts l (sl_request z)})"
proof -
  have "sleeper_ok (sy_table s) z" using lock_reach_ok [OF assms(1)] assms(2) by (simp add: system_ok_def)
  with assms(3) show ?thesis by (auto simp: sleeper_ok_def set_blocking_owners split: option.splits)
qed

theorem sleeping_request_is_blocked_witness:
  "sl_notified demo_sleeper = False \<and> first_conflict (lt_locks demo_waiting) (sl_request demo_sleeper) \<noteq> None"
  using sleeping_request_is_blocked [OF demo_reach_waiting, of demo_sleeper] by (simp add: demo_sleeper_def)

text \<open>
  C37. There is no deadlock: once every notified thread has run, some sleeping request is blocked by an
  owner none of whose own requests sleeps, so that the owner can still release what it holds.
\<close>

theorem some_blocker_is_awake:
  assumes "lock_reach limits s" "sy_sleepers s \<noteq> []" "list_all (\<lambda>z. \<not> sl_notified z) (sy_sleepers s)"
  shows "\<exists>z l. z \<in> set (sy_sleepers s) \<and> l \<in> set (lt_locks (sy_table s)) \<and> conflicts l (sl_request z) \<and>
    al_owner l \<notin> (rq_owner \<circ> sl_request) ` set (sy_sleepers s)"
proof -
  let ?R = "waits (lt_waiters (sy_table s))" and ?O = "(rq_owner \<circ> sl_request) ` set (sy_sleepers s)"
  note ok = lock_reach_ok [OF assms(1)]
  have "wf (?R\<inverse>)" using ok finite_waits by (intro finite_acyclic_wf_converse) (simp_all add: system_ok_def table_ok_def)
  moreover have "?O \<noteq> {}" using assms(2) by simp
  ultimately obtain owner where owner: "owner \<in> ?O" "\<And>b. (owner, b) \<in> ?R \<Longrightarrow> b \<notin> ?O"
    by (metis converse_iff ex_in_conv wfE_min)
  then obtain z where z: "z \<in> set (sy_sleepers s)" "rq_owner (sl_request z) = owner" by auto
  then have "sleeper_ok (sy_table s) z" "\<not> sl_notified z"
    using ok assms(3) by (auto simp: system_ok_def list_all_iff)
  then obtain waiter where w: "map_of (lt_waiters (sy_table s)) (sl_waiter z) = Some waiter" "wl_owner waiter = owner"
    "wl_blockers waiter = blocking_owners (lt_locks (sy_table s)) (sl_request z)"
    "first_conflict (lt_locks (sy_table s)) (sl_request z) \<noteq> None"
    using z(2) by (auto simp: sleeper_ok_def split: option.splits)
  obtain l where l: "l \<in> set (lt_locks (sy_table s))" "conflicts l (sl_request z)"
    using w(4) by (auto simp: first_conflict_none)
  have "waiter \<in> snd ` set (lt_waiters (sy_table s))" using map_of_SomeD [OF w(1)] by force
  moreover have "al_owner l \<in> set (wl_blockers waiter)" using l w(3) by (auto simp: set_blocking_owners)
  ultimately have "(owner, al_owner l) \<in> ?R" using w(2) by (auto simp: waits_iff)
  with owner(2) z(1) l show ?thesis by blast
qed

theorem some_blocker_is_awake_witness:
  "\<exists>z l. z \<in> set [demo_sleeper] \<and> l \<in> set (lt_locks demo_waiting) \<and> conflicts l (sl_request z) \<and>
    al_owner l \<notin> (rq_owner \<circ> sl_request) ` set [demo_sleeper]"
  using some_blocker_is_awake [OF demo_reach_waiting] by (simp add: demo_sleeper_def)

end
