(* ===== verification/Spec2Isabelle.thy ===== *)
theory Spec2Isabelle
  imports Reusable_Snapshot Coordinator_Properties Cache_Properties Afs_Commit Afs_Read_Index Lock_Steps
begin

text \<open>
  Verification of the agent-dx control plane: the rules by which Environments are described,
  validated, queued, placed on nodes, charged to ledgers and moved through their lifecycle.

  \<^bold>\<open>Parts of the program and their theories.\<close> Source paths are below \<^verbatim>\<open>src/\<close>.

  \<^item> \<open>Prelude\<close>, \<open>Ordered_Map\<close>, \<open>Rust_String\<close>, \<open>Core_Error\<close>: the Rust vocabulary of the model.
    Machine integers are words, with checked, saturating and panicking arithmetic; \<^verbatim>\<open>usize\<close>
    lengths are naturals. \<^verbatim>\<open>BTreeMap\<close>, \<^verbatim>\<open>im::OrdMap\<close> and \<^verbatim>\<open>BTreeSet\<close> are sorted association
    lists and sorted lists; strings are UTF-8 byte lists. \<open>Result\<close> is a sum with the source's error
    type, extended by \<open>Panic\<close> for an unwinding thread; methods on \<^verbatim>\<open>&mut self\<close> return a result and
    the state afterwards. \<open>Core_Error\<close> also holds the contract \<open>reservation_ledger\<close>.
  \<^item> \<open>Resource_Ledger\<close> and \<open>Device_Ledger\<close> (\<^verbatim>\<open>platform/crates/core/src/lib.rs\<close>, \<^verbatim>\<open>scheduling.rs\<close>):
    scalar capacity and physical cards, both interpretations of \<open>reservation_ledger\<close>; \<open>Devices\<close>
    the selection of cards for a request.
  \<^item> \<open>Placement_Policy\<close>, \<open>Lifecycle\<close>, \<open>Volumes\<close>, \<open>Probes\<close>, \<open>Execution\<close>, \<open>Envd\<close>,
    \<open>Runtime_Profile\<close>, \<open>Runtime_Identity\<close>, \<open>Environment\<close>, \<open>Reusable_Snapshot\<close>
    (the other files of \<^verbatim>\<open>platform/crates/core/src\<close>): the specification of an Environment with all
    its validation, the state machine of an Environment, execution identities and their fencing,
    and reusable snapshots with references.
  \<^item> \<open>Cluster_Snapshot\<close>, \<open>Placement_Query\<close>, \<open>Placement_Plugins\<close>, \<open>Placement_Framework\<close>
    (\<^verbatim>\<open>platform/crates/scheduling/src\<close>): the indexed view of the cluster, the precomputation for one
    request, the hard rules and scores, and the framework that combines them.
  \<^item> \<open>Tenant_Queue\<close>, \<open>Mutation_Journal\<close>, \<open>Shard_Scheduler\<close>, \<open>Shard_Accounting\<close>,
    \<open>Shard_Invariant\<close> (\<^verbatim>\<open>platform/coordinator/src/queue.rs\<close>, \<^verbatim>\<open>journal.rs\<close>, \<^verbatim>\<open>shard.rs\<close>): the
    fair queue, the bounded journal of node changes and one scheduling shard, which composes
    ledgers, queues, journal and framework; its invariant and its reachable states.
  \<^item> \<open>Coordinator\<close>, \<open>Shard_View\<close>, \<open>Coordinator_Invariant\<close>, \<open>Coordinator_Steps\<close>,
    \<open>Coordinator_Rounds\<close>, \<open>Coordinator_Properties\<close> (\<^verbatim>\<open>platform/coordinator/src/lib.rs\<close>): the coordinator, which routes
    nodes and requests to shards, runs scheduling rounds, publishes placements in the cluster
    snapshot, records node changes in the journal and keeps the queue of ready shards. \<open>Shard_View\<close>
    is what it sees of a shard; its invariant is kept by every call that does not unwind
    (\<open>co_step\<close>), hence holds in its reachable states (\<open>co_reach\<close>). \<open>Coordinator_Rounds\<close> has the
    limits, the generations and the wake-ups of a round, and the generation counter of a session
    (\<^verbatim>\<open>storage.rs\<close>), which the service installs as the source of a round.
  \<^item> \<open>Candidate_Cache\<close>, \<open>Cache_Steps\<close>, \<open>Cache_Properties\<close>: the candidate cache of the shards against
    the journal. A cache line may be stale only for nodes changed after its cursor (\<open>fresh\<close>); every
    call that changes what a node offers records the node.
  \<^item> \<open>Afs_Error\<close>, \<open>Afs_Layout\<close>, \<open>Afs_Commit\<close>, \<open>Afs_Read_Index\<close> (\<^verbatim>\<open>afs/common/error/src\<close>,
    \<^verbatim>\<open>afs/src/dfs/cow.rs\<close>, parts of \<^verbatim>\<open>afs/src/node/vfs/dfs.rs\<close> and \<^verbatim>\<open>afs/src/meta/dfs.rs\<close>): file layouts
    of the distributed file system. A layout is read as the chunk bytes it maps at every file position
    (\<open>contents\<close>); cloning a range, publishing extents over a base, the extent check of a commit and
    the indexed reads are compared with it.
  \<^item> \<open>Lock_Table\<close>, \<open>Lock_Ranges\<close>, \<open>Lock_Deadlock\<close>, \<open>Lock_Invariant\<close>, \<open>Lock_Steps\<close>
    (\<^verbatim>\<open>afs/src/node/vfs/locks.rs\<close>, \<^verbatim>\<open>types.rs\<close>): the advisory-lock table of an inode. \<open>Lock_Ranges\<close> reads
    the locks as bytes (\<open>held\<close>), \<open>Lock_Deadlock\<close> treats the search for wait cycles, \<open>Lock_Invariant\<close>
    the invariant of a table and the effect of every operation, and \<open>Lock_Steps\<close> the threads that
    share a table (\<open>lock_step\<close>, \<open>lock_reach\<close>): a request that waits is a sleeper, woken by a
    notification or spuriously.

  \<^bold>\<open>What is shown.\<close> Ledgers account exactly for what they granted and cards are exclusive;
  card selection is sound and complete; validation accepts exactly what its ranges say; accepted
  network, volume and runtime settings stay within their confinement; execution identities order
  restores; the indexed cluster lookup equals a scan; a placement the framework allows keeps
  anti-affinity and topology spread; scoring is total and the choice is the best one; the queue is
  fair; the journal refines an unbounded history; a shard's ledgers and assignments agree in every
  reachable state and no attempt loses a request; a coordinator keeps every accepted request in
  exactly one place, its rounds stay within their limits and publish what they assign, and the calls
  that change a node announce it to the shards with waiting requests (a round to the other shards,
  and to its own unless it stops on an error); with the built-in profile its cached choices are the ones
  made without a cache. A clone or a publication maps exactly the bytes it should and is accepted by
  the metadata service, which accepts only bytes that are vouched for; an indexed read equals a
  scan. Locks of different owners never conflict, a grant changes exactly its bytes, no wake-up is
  lost and waiting requests never deadlock.

  \<^bold>\<open>Bounds.\<close> Recursion follows the data, and a scheduling round ends because every iteration uses
  one of its attempts. Only \<open>waits_for_owner\<close> has a bound on its depth; the number of waiters plus one
  is shown to suffice for every graph. Hypotheses
  about counters (a ticket or journal sequence below \<open>2 ^ 64\<close>) state that a counter is not
  exhausted; the code panics there and so does the model.

  \<^bold>\<open>Not modelled.\<close> Code that mainly drives the network, the file system, Redis, processes or
  the guest operating system (RPC handlers, gateway, adxlet, execd, the transport, storage and
  services of AFS), telemetry and Debug formatting. Of the coordinator, the reconstruction from the durable store is left out. The wall
  clock, the validation instant, the time limit of a round and an installed generation source are
  arguments. Digests, serializers and
  generated protocol types are parameters where a definition needs them.
\<close>

end
